(* ===== verification/Prelude.thy ===== *)
theory Prelude
  imports Main "HOL-Library.Word" "HOL-Library.Sublist"
begin

text \<open>
  Shared vocabulary of the development.

  \<^item> \<open>outcome\<close> and \<open>run_machine\<close>: an interactive program reads one event after the other
    (a key, a line of input) and after each of them goes on, ends with a result, or has
    executed something the C standard leaves undefined (\<open>Fault\<close>).
  \<^item> The locale \<open>reactor\<close>: the contract such a program keeps with its event loop (for the
    events it allows).  Every
    interactive component of the development is an interpretation of it.
  \<^item> The locale \<open>growing_buffer\<close>: an array that is reallocated when it is full.
  \<^item> The locale \<open>accumulator\<close>: a routine that may be fed its input in pieces.
  \<^item> Splitting and joining of strings at a separator, shared by the \<open>PATH\<close> handling, the
    option lists of the command wrapper and the line filters.
\<close>

named_theorems machine_simps \<open>unfolding rules for one step of an interactive program\<close>

section \<open>Interactive programs\<close>

datatype ('s, 'r) outcome = Continue 's | Finish 'r | Fault

fun run_machine :: "('s \<Rightarrow> 'e \<Rightarrow> ('s, 'r) outcome) \<Rightarrow> 's \<Rightarrow> 'e list \<Rightarrow> ('s, 'r) outcome" where
  "run_machine step s [] = Continue s"
| "run_machine step s (e # es) =
     (case step s e of
        Continue s' \<Rightarrow> run_machine step s' es
      | Finish r \<Rightarrow> Finish r
      | Fault \<Rightarrow> Fault)"

lemma run_machine_append:
  "run_machine step s (es @ fs) =
     (case run_machine step s es of
        Continue s' \<Rightarrow> run_machine step s' fs
      | Finish r \<Rightarrow> Finish r
      | Fault \<Rightarrow> Fault)"
  by (induction es arbitrary: s) (auto split: outcome.splits)

fun outcome_ok :: "('s \<Rightarrow> bool) \<Rightarrow> ('r \<Rightarrow> bool) \<Rightarrow> ('s, 'r) outcome \<Rightarrow> bool" where
  "outcome_ok P Q (Continue s) = P s"
| "outcome_ok P Q (Finish r) = Q r"
| "outcome_ok P Q Fault = False"

lemma outcome_ok_mono:
  "outcome_ok P Q x \<Longrightarrow> (\<And>s. P s \<Longrightarrow> P' s) \<Longrightarrow> (\<And>r. Q r \<Longrightarrow> Q' r) \<Longrightarrow> outcome_ok P' Q' x"
  by (cases x) auto

locale reactor =
  fixes step :: "'s \<Rightarrow> 'e \<Rightarrow> ('s, 'r) outcome"
    and inv :: "'s \<Rightarrow> bool"
    and allowed :: "'e \<Rightarrow> bool"
    and post :: "'r \<Rightarrow> bool"
  assumes step_ok: "inv s \<Longrightarrow> allowed e \<Longrightarrow> outcome_ok inv post (step s e)"
begin

lemma run_ok: "inv s \<Longrightarrow> list_all allowed es \<Longrightarrow> outcome_ok inv post (run_machine step s es)"
proof (induction es arbitrary: s)
  case Nil
  then show ?case by simp
next
  case (Cons e es)
  from step_ok [OF Cons.prems(1), of e] Cons show ?case
    by (auto split: outcome.splits)
qed

lemma run_no_fault: "inv s \<Longrightarrow> list_all allowed es \<Longrightarrow> run_machine step s es \<noteq> Fault"
  using run_ok [of s es] by (cases "run_machine step s es") auto

lemma run_inv: "inv s \<Longrightarrow> list_all allowed es \<Longrightarrow> run_machine step s es = Continue s' \<Longrightarrow> inv s'"
  using run_ok [of s es] by simp

lemma run_post: "inv s \<Longrightarrow> list_all allowed es \<Longrightarrow> run_machine step s es = Finish r \<Longrightarrow> post r"
  using run_ok [of s es] by simp

end

section \<open>Input in pieces\<close>

text \<open>
  \<open>rep s m\<close> says that the state \<open>s\<close> stands for the input \<open>m\<close> read so far; a piece that \<open>fits\<close>
  is appended to it.
\<close>

fun feeds :: "('s \<Rightarrow> 'a list \<Rightarrow> 's option) \<Rightarrow> 's \<Rightarrow> 'a list list \<Rightarrow> 's option" where
  "feeds feed s [] = Some s"
| "feeds feed s (xs # xss) = (case feed s xs of None \<Rightarrow> None | Some s' \<Rightarrow> feeds feed s' xss)"

locale accumulator =
  fixes feed :: "'s \<Rightarrow> 'a list \<Rightarrow> 's option"
    and rep :: "'s \<Rightarrow> 'a list \<Rightarrow> bool"
    and fits :: "'a list \<Rightarrow> bool"
  assumes feed_rep: "rep s m \<Longrightarrow> fits xs \<Longrightarrow> \<exists>s'. feed s xs = Some s' \<and> rep s' (m @ xs)"
begin

lemma feeds_rep:
  "rep s m \<Longrightarrow> list_all fits xss \<Longrightarrow> \<exists>s'. feeds feed s xss = Some s' \<and> rep s' (m @ concat xss)"
proof (induction xss arbitrary: s m)
  case Nil
  then show ?case by simp
next
  case (Cons xs xss)
  then obtain s' where "feed s xs = Some s'" "rep s' (m @ xs)"
    using feed_rep [of s m xs] by auto
  with Cons.IH [of s' "m @ xs"] Cons.prems(2) show ?case by auto
qed

end

section \<open>Buffers that grow\<close>

text \<open>
  A buffer that is extended when it is full: \<open>contents\<close> is what has been stored, \<open>room\<close>
  that one more element fits (in the programs: the terminating null pointer or NUL byte).
\<close>

locale growing_buffer =
  fixes push :: "'a \<Rightarrow> 'b \<Rightarrow> 'b"
    and contents :: "'b \<Rightarrow> 'a list"
    and room :: "'b \<Rightarrow> bool"
  assumes contents_push: "contents (push x b) = contents b @ [x]"
    and room_push: "room b \<Longrightarrow> room (push x b)"
begin

lemma contents_fold: "contents (fold push xs b) = contents b @ xs"
  by (induction xs arbitrary: b) (auto simp: contents_push)

lemma room_fold: "room b \<Longrightarrow> room (fold push xs b)"
  by (induction xs arbitrary: b) (auto simp: room_push)

end

section \<open>Splitting and joining\<close>

text \<open>
  \<open>pieces sep s\<close> are the pieces of \<open>s\<close> between separators, empty pieces included;
  \<open>tokens sep s\<close> are its non-empty pieces, what a loop over \<^verbatim>\<open>strtok\<close> visits;
  \<open>join sep xs\<close> puts one separator between the pieces.
\<close>

fun pieces :: "'a \<Rightarrow> 'a list \<Rightarrow> 'a list list" where
  "pieces sep [] = [[]]"
| "pieces sep (x # xs) =
     (if x = sep then [] # pieces sep xs
      else case pieces sep xs of [] \<Rightarrow> [[x]] | f # fs \<Rightarrow> (x # f) # fs)"

definition tokens :: "'a \<Rightarrow> 'a list \<Rightarrow> 'a list list" where
  "tokens sep s = filter (\<lambda>f. f \<noteq> []) (pieces sep s)"

fun join :: "'a \<Rightarrow> 'a list list \<Rightarrow> 'a list" where
  "join sep [] = []"
| "join sep [x] = x"
| "join sep (x # y # xs) = x @ sep # join sep (y # xs)"

lemma pieces_nonempty [simp]: "pieces sep s \<noteq> []"
  by (induction s) (auto split: list.splits)

lemma pieces_no_sep: "f \<in> set (pieces sep s) \<Longrightarrow> sep \<notin> set f"
  by (induction s arbitrary: f) (auto split: list.splits if_splits)

lemma pieces_append_sep:
  "sep \<notin> set xs \<Longrightarrow> pieces sep (xs @ sep # ys) = xs # pieces sep ys"
  by (induction xs) auto

lemma pieces_single: "sep \<notin> set xs \<Longrightarrow> pieces sep xs = [xs]"
  by (induction xs) auto

lemma pieces_join:
  "xs \<noteq> [] \<Longrightarrow> (\<forall>x \<in> set xs. sep \<notin> set x) \<Longrightarrow> pieces sep (join sep xs) = xs"
  by (induction sep xs rule: join.induct) (auto simp: pieces_append_sep pieces_single)

lemma join_Cons: "join sep (x # xs) = (if xs = [] then x else x @ sep # join sep xs)"
  by (cases xs) auto

lemma join_pieces: "join sep (pieces sep s) = s"
  by (induction s) (auto simp: join_Cons split: list.splits)

lemma tokens_Nil [simp]: "tokens sep [] = []"
  by (simp add: tokens_def)

lemma tokens_no_sep: "t \<in> set (tokens sep s) \<Longrightarrow> t \<noteq> [] \<and> sep \<notin> set t"
  by (auto simp: tokens_def dest: pieces_no_sep)

lemma tokens_sep_Cons [simp]: "tokens sep (sep # s) = tokens sep s"
  by (simp add: tokens_def)

lemma tokens_append_sep:
  "sep \<notin> set xs \<Longrightarrow> tokens sep (xs @ sep # ys) = (if xs = [] then [] else [xs]) @ tokens sep ys"
  by (simp add: tokens_def pieces_append_sep)

lemma tokens_single: "sep \<notin> set xs \<Longrightarrow> tokens sep xs = (if xs = [] then [] else [xs])"
  by (simp add: tokens_def pieces_single)

lemma tokens_join:
  "\<forall>x \<in> set xs. x \<noteq> [] \<and> sep \<notin> set x \<Longrightarrow> tokens sep (join sep xs) = xs"
proof (cases "xs = []")
  case False
  assume "\<forall>x \<in> set xs. x \<noteq> [] \<and> sep \<notin> set x"
  with False show ?thesis by (simp add: tokens_def pieces_join)
qed simp

lemma join_tokens_tokens [simp]: "tokens sep (join sep (tokens sep s)) = tokens sep s"
  by (rule tokens_join) (auto dest: tokens_no_sep)

lemma length_join_filter: "length (join sep (filter P xs)) \<le> length (join sep xs)"
proof (induction xs)
  case (Cons x xs)
  then show ?case
    by (cases "filter P xs = []"; cases "xs = []"; simp add: join_Cons)
qed simp

lemma length_join_tokens: "length (join sep (filter P (tokens sep s))) \<le> length s"
proof -
  have "length (join sep (filter P (tokens sep s))) \<le> length (join sep (pieces sep s))"
    unfolding tokens_def filter_filter by (rule length_join_filter)
  then show ?thesis by (simp add: join_pieces)
qed

lemma length_join_all_tokens: "length (join sep (tokens sep s)) \<le> length s"
  using length_join_tokens [of sep "\<lambda>_. True" s] by simp

lemma length_join_ge: "x \<in> set xs \<Longrightarrow> length x \<le> length (join sep xs)"
  by (induction sep xs rule: join.induct) auto

lemma set_join_subset: "set (join sep xs) \<subseteq> insert sep (\<Union>(set ` set xs))"
  by (induction sep xs rule: join.induct) auto

section \<open>Small facts on lists\<close>

lemma takeWhile_no: "(\<forall>x \<in> set xs. P x) \<Longrightarrow> takeWhile P xs = xs"
  by (induction xs) auto

lemma take_Suc_nth: "i < length xs \<Longrightarrow> take (Suc i) xs = take i xs @ [xs ! i]"
  by (rule take_Suc_conv_app_nth)

lemma prefix_drop: "prefix xs ys \<Longrightarrow> ys = xs @ drop (length xs) ys"
  by (auto simp: prefix_def)

end
