(* ===== verification/CLib.thy ===== *)
theory CLib
  imports Prelude
begin

text \<open>
  The part of the C library the programs of the repository use, in the C locale: character
  classes, \<^verbatim>\<open>atoi\<close>, decimal output, \<^verbatim>\<open>basename\<close>, \<^verbatim>\<open>strspn\<close>, and an interpreter for
  \<^verbatim>\<open>sscanf\<close> formats.  Strings are \<open>char list\<close>s without the terminating NUL.
\<close>

section \<open>Characters\<close>

definition code :: "char \<Rightarrow> int" where
  "code c = of_char c"

definition c_isspace :: "char \<Rightarrow> bool" where
  "c_isspace c \<longleftrightarrow> code c = 32 \<or> (9 \<le> code c \<and> code c \<le> 13)"

definition c_isdigit :: "char \<Rightarrow> bool" where
  "c_isdigit c \<longleftrightarrow> 48 \<le> code c \<and> code c \<le> 57"

definition key_isupper :: "int \<Rightarrow> bool" where
  "key_isupper k \<longleftrightarrow> 65 \<le> k \<and> k \<le> 90"

definition key_islower :: "int \<Rightarrow> bool" where
  "key_islower k \<longleftrightarrow> 97 \<le> k \<and> k \<le> 122"

definition key_isalpha :: "int \<Rightarrow> bool" where
  "key_isalpha k \<longleftrightarrow> key_isupper k \<or> key_islower k"

definition key_isprint :: "int \<Rightarrow> bool" where
  "key_isprint k \<longleftrightarrow> 32 \<le> k \<and> k \<le> 126"

definition key_tolower :: "int \<Rightarrow> int" where
  "key_tolower k = (if key_isupper k then k + 32 else k)"

definition key_toupper :: "int \<Rightarrow> int" where
  "key_toupper k = (if key_islower k then k - 32 else k)"

lemma key_tolower_idem [simp]: "key_tolower (key_tolower k) = key_tolower k"
  by (auto simp: key_tolower_def key_isupper_def)

section \<open>Machine integers\<close>

text \<open>
  \<^verbatim>\<open>int\<close> is 32 bits wide and \<^verbatim>\<open>long\<close> is 64 bits wide.  A conversion to \<^verbatim>\<open>int\<close> keeps the
  low 32 bits; \<^verbatim>\<open>strtol\<close> saturates at the bounds of \<^verbatim>\<open>long\<close>.
\<close>

definition to_int32 :: "int \<Rightarrow> int" where
  "to_int32 k = (k + 2 ^ 31) mod 2 ^ 32 - 2 ^ 31"

definition clamp_long :: "int \<Rightarrow> int" where
  "clamp_long k = max (- (2 ^ 63)) (min (2 ^ 63 - 1) k)"

definition int32_range :: "int \<Rightarrow> bool" where
  "int32_range k \<longleftrightarrow> - (2 ^ 31) \<le> k \<and> k < 2 ^ 31"

lemma to_int32_id: "int32_range k \<Longrightarrow> to_int32 k = k"
  by (simp add: to_int32_def int32_range_def)

lemma clamp_long_id: "int32_range k \<Longrightarrow> clamp_long k = k"
  by (simp add: clamp_long_def int32_range_def)

lemma to_int32_range: "int32_range (to_int32 k)"
  by (simp add: to_int32_def int32_range_def)

section \<open>Decimal input and output\<close>

definition digit_val :: "char \<Rightarrow> int" where
  "digit_val c = code c - 48"

fun read_digits :: "int \<Rightarrow> string \<Rightarrow> int \<times> string" where
  "read_digits acc [] = (acc, [])"
| "read_digits acc (c # cs) =
     (if c_isdigit c then read_digits (10 * acc + digit_val c) cs else (acc, c # cs))"

text \<open>
  \<open>scan_int\<close> is the conversion \<^verbatim>\<open>%d\<close>: leading white space, an optional sign and at least
  one digit; \<open>None\<close> is a matching failure.
\<close>

definition scan_unsigned :: "string \<Rightarrow> (int \<times> string) option" where
  "scan_unsigned s =
     (case s of [] \<Rightarrow> None | c # _ \<Rightarrow> if c_isdigit c then Some (read_digits 0 s) else None)"

definition scan_int :: "string \<Rightarrow> (int \<times> string) option" where
  "scan_int s =
     (case dropWhile c_isspace s of
        [] \<Rightarrow> None
      | c # cs \<Rightarrow>
          (if c = CHR ''-'' then
             map_option (\<lambda>(v, r). (to_int32 (clamp_long (- v)), r)) (scan_unsigned cs)
           else if c = CHR ''+'' then
             map_option (\<lambda>(v, r). (to_int32 (clamp_long v), r)) (scan_unsigned cs)
           else
             map_option (\<lambda>(v, r). (to_int32 (clamp_long v), r)) (scan_unsigned (c # cs))))"

definition atoi :: "string \<Rightarrow> int" where
  "atoi s = (case scan_int s of None \<Rightarrow> 0 | Some (v, _) \<Rightarrow> v)"

definition digit_char :: "nat \<Rightarrow> char" where
  "digit_char n = char_of (48 + n)"

fun show_nat :: "nat \<Rightarrow> string" where
  "show_nat n = (if n < 10 then [digit_char n] else show_nat (n div 10) @ [digit_char (n mod 10)])"

declare show_nat.simps [simp del]

definition show_int :: "int \<Rightarrow> string" where
  "show_int k = (if k < 0 then CHR ''-'' # show_nat (nat (- k)) else show_nat (nat k))"

lemma code_digit_char: "n < 10 \<Longrightarrow> code (digit_char n) = 48 + int n"
proof -
  assume "n < 10"
  then have "(of_char (char_of (48 + n) :: char) :: nat) = 48 + n"
    by (simp add: of_char_of)
  moreover have "(of_char (char_of (48 + n) :: char) :: int) = int (of_char (char_of (48 + n) :: char))"
    by (simp only: of_nat_of_char)
  ultimately show ?thesis by (simp only: code_def digit_char_def of_nat_add of_nat_numeral)
qed

lemma isdigit_digit_char [simp]: "n < 10 \<Longrightarrow> c_isdigit (digit_char n)"
  by (simp add: c_isdigit_def code_digit_char)

lemma digit_val_digit_char [simp]: "n < 10 \<Longrightarrow> digit_val (digit_char n) = int n"
  by (simp add: digit_val_def code_digit_char)

lemma read_digits_append:
  "\<forall>c \<in> set xs. c_isdigit c \<Longrightarrow> read_digits acc (xs @ ys) = read_digits (fst (read_digits acc xs)) ys"
  by (induction xs arbitrary: acc) auto

lemma show_nat_digits: "c \<in> set (show_nat n) \<Longrightarrow> c_isdigit c"
proof (induction n arbitrary: c rule: show_nat.induct)
  case (1 n)
  then show ?case
    by (subst (asm) (2) show_nat.simps) (auto split: if_splits)
qed

lemma show_nat_nonempty [simp]: "show_nat n \<noteq> []"
  by (subst show_nat.simps) simp

lemma read_digits_show_nat: "fst (read_digits 0 (show_nat n)) = int n"
proof (induction n rule: show_nat.induct)
  case (1 n)
  show ?case
  proof (cases "n < 10")
    case True
    then show ?thesis by (subst show_nat.simps) simp
  next
    case False
    have *: "\<forall>c \<in> set (show_nat (n div 10)). c_isdigit c" by (auto dest: show_nat_digits)
    have "10 * int (n div 10) + int (n mod 10) = int n"
      by (metis mult_div_mod_eq of_nat_add of_nat_mult of_nat_numeral)
    with False 1 * show ?thesis
      by (subst show_nat.simps) (simp add: read_digits_append [OF *])
  qed
qed

lemma read_digits_rest:
  "\<forall>c \<in> set xs. c_isdigit c \<Longrightarrow> ys = [] \<or> \<not> c_isdigit (hd ys) \<Longrightarrow>
   read_digits acc (xs @ ys) = (fst (read_digits acc xs), ys)"
  by (induction xs arbitrary: acc) (cases ys; auto)+

lemma read_show_nat:
  "ys = [] \<or> \<not> c_isdigit (hd ys) \<Longrightarrow> read_digits 0 (show_nat n @ ys) = (int n, ys)"
  by (simp add: read_digits_rest show_nat_digits read_digits_show_nat)

lemma not_space_digit: "c_isdigit c \<Longrightarrow> \<not> c_isspace c"
  by (auto simp: c_isdigit_def c_isspace_def)

lemma code_minus: "code CHR ''-'' = 45" "code CHR ''+'' = 43"
  by (simp_all add: code_def)

lemma scan_int_show_nat:
  assumes "ys = [] \<or> \<not> c_isdigit (hd ys)" and "n < 2 ^ 31"
  shows "scan_int (show_nat n @ ys) = Some (int n, ys)"
proof -
  obtain c cs where s: "show_nat n = c # cs" by (cases "show_nat n") auto
  then have d: "c_isdigit c" using show_nat_digits [of c n] by simp
  then have "c \<noteq> CHR ''-''" "c \<noteq> CHR ''+''"
    using code_minus by (auto simp: c_isdigit_def)
  moreover have "int32_range (int n)"
    using assms(2) by (simp add: int32_range_def)
  moreover have "read_digits 0 (c # cs @ ys) = (int n, ys)"
    using read_show_nat [OF assms(1), of n] s by simp
  ultimately show ?thesis
    using s d not_space_digit [OF d]
    by (simp add: scan_int_def scan_unsigned_def clamp_long_id to_int32_id del: read_digits.simps)
qed

section \<open>Strings\<close>

text \<open>\<open>basename\<close> of \<^verbatim>\<open>libgen.h\<close>.\<close>

definition strip_slashes :: "string \<Rightarrow> string" where
  "strip_slashes s = rev (dropWhile (\<lambda>c. c = CHR ''/'') (rev s))"

definition basename :: "string \<Rightarrow> string" where
  "basename s =
     (if s = [] then ''.''
      else if strip_slashes s = [] then ''/''
      else rev (takeWhile (\<lambda>c. c \<noteq> CHR ''/'') (rev (strip_slashes s))))"

lemma basename_no_slash:
  assumes "basename s \<noteq> ''/''" shows "CHR ''/'' \<notin> set (basename s)"
proof
  assume *: "CHR ''/'' \<in> set (basename s)"
  consider "s = []" | "s \<noteq> []" "strip_slashes s = []" | "s \<noteq> []" "strip_slashes s \<noteq> []"
    by blast
  then show False
  proof cases
    case 1
    with * show False by (simp add: basename_def)
  next
    case 2
    with assms show False by (simp add: basename_def)
  next
    case 3
    with * show False by (auto simp: basename_def dest: set_takeWhileD)
  qed
qed

lemma basename_id: "s \<noteq> [] \<Longrightarrow> CHR ''/'' \<notin> set s \<Longrightarrow> basename s = s"
proof -
  assume s: "s \<noteq> []" "CHR ''/'' \<notin> set s"
  then have "strip_slashes s = s"
    by (cases s rule: rev_cases) (auto simp: strip_slashes_def)
  moreover have t: "takeWhile (\<lambda>c. c \<noteq> CHR ''/'') (rev s) = rev s"
    using s by (intro takeWhile_no) auto
  ultimately show ?thesis using s by (simp only: basename_def t if_False rev_rev_ident)
qed

text \<open>What the string functions see of a buffer that may hold NUL bytes.\<close>

definition cstr :: "string \<Rightarrow> string" where
  "cstr s = takeWhile (\<lambda>c. c \<noteq> CHR 0x00) s"

lemma cstr_id: "CHR 0x00 \<notin> set s \<Longrightarrow> cstr s = s"
  unfolding cstr_def by (intro takeWhile_no) auto

section \<open>Lines\<close>

text \<open>
  \<open>fgets n s\<close> is one call of \<^verbatim>\<open>fgets\<close> with a buffer of \<open>n\<close> bytes on the input \<open>s\<close>: the bytes
  stored and the rest of the input; \<open>fgets_all\<close> are the results of all calls up to the end.
\<close>

fun fgets :: "nat \<Rightarrow> string \<Rightarrow> string \<times> string" where
  "fgets n [] = ([], [])"
| "fgets n (c # cs) =
     (if n \<le> 1 then ([], c # cs)
      else if c = CHR ''\<newline>'' then ([c], cs)
      else let (l, r) = fgets (n - 1) cs in (c # l, r))"

lemma fgets_length: "fgets n s = (l, r) \<Longrightarrow> length l + length r = length s \<and> length l \<le> n - 1"
  by (induction n s arbitrary: l r rule: fgets.induct)
    (auto simp: Let_def split: if_splits prod.splits)

lemma fgets_append: "fgets n s = (l, r) \<Longrightarrow> l @ r = s"
  by (induction n s arbitrary: l r rule: fgets.induct)
    (auto simp: Let_def split: if_splits prod.splits)

lemma fgets_nonempty: "1 < n \<Longrightarrow> s \<noteq> [] \<Longrightarrow> fst (fgets n s) \<noteq> []"
  by (cases s) (auto simp: Let_def split: prod.splits)

function fgets_all :: "nat \<Rightarrow> string \<Rightarrow> string list" where
  "fgets_all n s =
     (if n \<le> 1 \<or> s = [] then [] else fst (fgets n s) # fgets_all n (snd (fgets n s)))"
  by pat_completeness auto
termination
proof (relation "measure (\<lambda>(n, s). length s)")
  fix n :: nat and s :: string
  assume "\<not> (n \<le> 1 \<or> s = [])"
  moreover have "length (fst (fgets n s)) + length (snd (fgets n s)) = length s"
    using fgets_length [of n s "fst (fgets n s)" "snd (fgets n s)"] by simp
  ultimately show "((n, snd (fgets n s)), n, s) \<in> measure (\<lambda>(n, s). length s)"
    using fgets_nonempty [of n s] by (cases "fst (fgets n s)") auto
qed simp

declare fgets_all.simps [simp del]

lemma concat_fgets_all: "1 < n \<Longrightarrow> concat (fgets_all n s) = s"
proof (induction n s rule: fgets_all.induct)
  case (1 n s)
  then show ?case
    using fgets_append [of n s "fst (fgets n s)" "snd (fgets n s)"]
    by (subst fgets_all.simps) simp
qed

lemma fgets_line:
  "CHR ''\<newline>'' \<notin> set l \<Longrightarrow> length l + 1 < n \<Longrightarrow>
   fgets n (l @ CHR ''\<newline>'' # r) = (l @ ''\<newline>'', r)"
  by (induction l arbitrary: n) (auto simp: Let_def)

lemma fgets_all_lines:
  "\<forall>l \<in> set ls. CHR ''\<newline>'' \<notin> set l \<and> length l + 1 < n \<Longrightarrow> 1 < n \<Longrightarrow>
   fgets_all n (concat (map (\<lambda>l. l @ ''\<newline>'') ls)) = map (\<lambda>l. l @ ''\<newline>'') ls"
proof (induction ls)
  case Nil
  then show ?case by (simp add: fgets_all.simps)
next
  case (Cons l ls)
  then show ?case by (subst fgets_all.simps) (simp add: fgets_line)
qed

section \<open>Formatted input\<close>

text \<open>
  The directives of a \<^verbatim>\<open>scanf\<close> format: \<open>F_ws\<close> is white space in the format, \<open>F_lit\<close> an
  ordinary character, \<open>F_int\<close> is \<^verbatim>\<open>%d\<close>, \<open>F_str\<close> is \<^verbatim>\<open>%s\<close>, \<open>F_not q\<close> is \<^verbatim>\<open>%[^q]\<close>.
  \<open>c_sscanf\<close> returns the values assigned before the first failure, so that the return
  value of the C function is the length of the list (or \<^verbatim>\<open>EOF\<close>, which no caller here
  tells apart from 0).
\<close>

datatype directive = F_ws | F_lit char | F_int | F_str | F_not char

datatype scanned = S_int int | S_str string

fun c_sscanf :: "directive list \<Rightarrow> string \<Rightarrow> scanned list" where
  "c_sscanf [] s = []"
| "c_sscanf (F_ws # fs) s = c_sscanf fs (dropWhile c_isspace s)"
| "c_sscanf (F_lit c # fs) s =
     (case s of [] \<Rightarrow> [] | d # ds \<Rightarrow> if d = c then c_sscanf fs ds else [])"
| "c_sscanf (F_int # fs) s =
     (case scan_int s of None \<Rightarrow> [] | Some (v, r) \<Rightarrow> S_int v # c_sscanf fs r)"
| "c_sscanf (F_str # fs) s =
     (let t = dropWhile c_isspace s; w = takeWhile (\<lambda>c. \<not> c_isspace c) t
      in if w = [] then [] else S_str w # c_sscanf fs (dropWhile (\<lambda>c. \<not> c_isspace c) t))"
| "c_sscanf (F_not q # fs) s =
     (let w = takeWhile (\<lambda>c. c \<noteq> q) s
      in if w = [] then [] else S_str w # c_sscanf fs (dropWhile (\<lambda>c. c \<noteq> q) s))"

text \<open>A literal stretch of a format: a blank stands for any amount of white space.\<close>

definition lits :: "string \<Rightarrow> directive list" where
  "lits s = map (\<lambda>c. if c = CHR '' '' then F_ws else F_lit c) s"

end
