(* ===== verification/NetMask.thy ===== *)
theory NetMask
  imports CLib "HOL-Library.Monad_Syntax"
begin

text \<open>
  \<^verbatim>\<open>package/network/iproute2/ipnm2nwbc.c\<close>: converts an address and a netmask (or a prefix
  length) to the network and broadcast addresses.

  The C \<^verbatim>\<open>int\<close>s never leave their range here (the loops only shift, mask and count up to
  32), so they are \<open>int\<close>s; \<^verbatim>\<open>>>\<close> is the arithmetic shift, as with every compiler the
  package builds with.  Both loops are \<open>partial_function\<close>s: \<open>None\<close> is a loop that does not
  end.
\<close>

unbundle bit_operations_syntax

section \<open>Bit counting and mask building\<close>

partial_function (option) getbits_loop :: "int \<Rightarrow> int \<Rightarrow> int option" where
  "getbits_loop n rc =
     (if n = 0 then Some rc
      else getbits_loop (drop_bit 1 n) (if n AND 1 \<noteq> 0 then rc + 1 else rc))"

definition getbits :: "int \<Rightarrow> int option" where
  "getbits n = getbits_loop n 0"

partial_function (option) setbits_loop :: "int \<Rightarrow> int \<Rightarrow> int option" where
  "setbits_loop n rc =
     (if n = 0 then Some rc
      else setbits_loop (n - 1) (drop_bit 1 rc OR push_bit 7 1))"

definition setbits :: "int \<Rightarrow> int option" where
  "setbits n = setbits_loop n 0"

section \<open>The conversion\<close>

fun mask_octets :: "nat \<Rightarrow> int \<Rightarrow> int list option" where
  "mask_octets 0 n = Some []"
| "mask_octets (Suc k) n =
     (if n > 0 then
        do { m \<leftarrow> setbits (if n > 8 then 8 else n);
             ms \<leftarrow> mask_octets k (n - 8);
             Some (m # ms) }
      else
        do { ms \<leftarrow> mask_octets k n;
             Some (0 # ms) })"

fun sum_getbits :: "int list \<Rightarrow> int option" where
  "sum_getbits [] = Some 0"
| "sum_getbits (m # ms) = do { b \<leftarrow> getbits m; bs \<leftarrow> sum_getbits ms; Some (b + bs) }"

definition network_octet :: "int \<Rightarrow> int \<Rightarrow> int" where
  "network_octet ip nm = ip AND nm"

definition broadcast_octet :: "int \<Rightarrow> int \<Rightarrow> int" where
  "broadcast_octet ip nm = network_octet ip nm OR (255 AND NOT nm)"

definition dotted_fmt :: "directive list" where
  "dotted_fmt = [F_int, F_lit CHR ''.'', F_int, F_lit CHR ''.'', F_int, F_lit CHR ''.'', F_int]"

definition ints :: "scanned list \<Rightarrow> int list" where
  "ints xs = map (\<lambda>x. case x of S_int i \<Rightarrow> i | S_str _ \<Rightarrow> 0) xs"

definition dotted :: "int list \<Rightarrow> string" where
  "dotted xs = join CHR ''.'' (map show_int xs)"

definition report :: "bool \<Rightarrow> int list \<Rightarrow> int list \<Rightarrow> int \<Rightarrow> string" where
  "report verbose ip nm nmbits =
     (let nw = map2 network_octet ip nm; bc = map2 broadcast_octet ip nm in
      if verbose then
        ''Network:   '' @ dotted nw @ '' / '' @ show_int nmbits @ ''\<newline>'' @
        ''Netmask:   '' @ dotted nm @ ''\<newline>'' @
        ''Broadcast: '' @ dotted bc @ ''\<newline>''
      else dotted nw @ '' '' @ dotted bc @ ''\<newline>'')"

text \<open>
  \<open>ipnm2nwbc argv\<close> is \<^verbatim>\<open>main\<close>: \<open>Some (Inl 1)\<close> is the usage message with exit status 1,
  \<open>Some (Inr out)\<close> is the text on standard output with exit status 0.
\<close>

definition ipnm2nwbc :: "string list \<Rightarrow> (nat + string) option" where
  "ipnm2nwbc argv =
     (let verbose = (length argv > 1 \<and> argv ! 1 = ''-v'');
          v = (if verbose then 1 else 0);
          argc = length argv;
          ip = c_sscanf dotted_fmt (argv ! (1 + v));
          nm = c_sscanf dotted_fmt (argv ! (2 + v));
          ipn = c_sscanf (dotted_fmt @ [F_lit CHR ''/'', F_int]) (argv ! (1 + v))
      in if argc = 3 + v \<and> length ip = 4 \<and> length nm = 4 then
           do { b \<leftarrow> sum_getbits (ints nm);
                Some (Inr (report verbose (ints ip) (ints nm) b)) }
         else if argc = 2 + v \<and> length ipn = 5 then
           do { ms \<leftarrow> mask_octets 4 (ints ipn ! 4);
                Some (Inr (report verbose (take 4 (ints ipn)) ms (ints ipn ! 4))) }
         else Some (Inl 1))"

section \<open>Counting bits\<close>

lemma and_one_odd: "(n AND 1 \<noteq> (0::int)) \<longleftrightarrow> odd n"
  by (simp add: and_one_eq odd_iff_mod_2_eq_one)

lemma finite_bits_int: "0 \<le> m \<Longrightarrow> finite {i. bit (m::int) i}"
proof -
  assume "0 \<le> m"
  then have "m < 2 ^ nat m" by (metis less_exp nat_less_numeral_power_cancel_iff)
  with \<open>0 \<le> m\<close> have "take_bit (nat m) m = m" by (simp add: take_bit_int_eq_self)
  then have "{i. bit m i} \<subseteq> {..<nat m}"
    by (metis bit_take_bit_iff lessThan_iff mem_Collect_eq subsetI)
  then show ?thesis by (rule finite_subset) simp
qed

lemma card_bits_step:
  fixes n :: int
  assumes "0 < n"
  shows "card {i. bit n i} = card {i. bit (n div 2) i} + (if odd n then 1 else 0)"
proof -
  have "{i. bit n i} = Suc ` {i. bit (n div 2) i} \<union> (if odd n then {0} else {})"
  proof (rule set_eqI)
    fix i
    show "i \<in> {i. bit n i} \<longleftrightarrow> i \<in> Suc ` {i. bit (n div 2) i} \<union> (if odd n then {0} else {})"
      by (cases i) (auto simp: bit_Suc bit_0)
  qed
  moreover have "finite {i. bit (n div 2) i}" using assms by (intro finite_bits_int) simp
  ultimately show ?thesis
    by (auto simp: card_image)
qed

lemma getbits_loop_nonneg:
  "0 \<le> n \<Longrightarrow> getbits_loop n rc = Some (rc + int (card {i. bit n i}))"
proof (induction "nat n" arbitrary: n rc rule: less_induct)
  case less
  show ?case
  proof (cases "n = 0")
    case True
    then show ?thesis by (simp add: getbits_loop.simps bot_fun_def)
  next
    case False
    with less.prems have pos: "0 < n" by simp
    then have "nat (n div 2) < nat n" "0 \<le> n div 2" by auto
    from less.hyps [OF this] show ?thesis
      using False card_bits_step [OF pos]
      by (subst getbits_loop.simps) (simp add: and_one_odd drop_bit_Suc)
  qed
qed

lemma getbits_loop_returns:
  assumes ret: "getbits_loop n rc = Some r"
  shows "0 \<le> n"
proof (rule getbits_loop.raw_induct [where P = "\<lambda>n rc r. 0 \<le> n", OF _ ret])
  fix f :: "int \<Rightarrow> int \<Rightarrow> int option" and n rc r
  assume IH: "\<And>n rc r. f n rc = Some r \<Longrightarrow> 0 \<le> n"
    and eq: "(if n = 0 then Some rc else f (drop_bit 1 n) (if n AND 1 \<noteq> 0 then rc + 1 else rc)) = Some r"
  show "0 \<le> n"
  proof (cases "n = 0")
    case False
    with eq have "0 \<le> drop_bit 1 n" by (auto dest: IH)
    then show ?thesis by (metis drop_bit_nonnegative_int_iff)
  qed simp
qed

text \<open>The bit count of a non-negative octet is returned; a negative one never returns.\<close>

theorem getbits_counts:
  "getbits n = (if 0 \<le> n then Some (int (card {i. bit n i})) else None)"
proof (cases "0 \<le> n")
  case True
  then show ?thesis by (simp add: getbits_def getbits_loop_nonneg)
next
  case False
  then show ?thesis
    unfolding getbits_def by (cases "getbits_loop n 0") (auto dest: getbits_loop_returns)
qed

section \<open>Building masks\<close>

lemma le_8_cases:
  "(0::int) \<le> n \<Longrightarrow> n \<le> 8 \<Longrightarrow>
   n = 0 \<or> n = 1 \<or> n = 2 \<or> n = 3 \<or> n = 4 \<or> n = 5 \<or> n = 6 \<or> n = 7 \<or> n = 8"
  by arith

lemma setbits_value:
  "0 \<le> n \<Longrightarrow> n \<le> 8 \<Longrightarrow> setbits n = Some (256 - 2 ^ nat (8 - n))"
  by (drule (1) le_8_cases) (elim disjE; simp add: setbits_def setbits_loop.simps)

definition octet_mask :: "nat \<Rightarrow> int" where
  "octet_mask m = 256 - 2 ^ m"

lemma octet_mask_bits: "m \<le> 8 \<Longrightarrow> octet_mask m = 255 AND NOT (mask m)"
proof -
  assume "m \<le> 8"
  then have "m = 0 \<or> m = 1 \<or> m = 2 \<or> m = 3 \<or> m = 4 \<or> m = 5 \<or> m = 6 \<or> m = 7 \<or> m = 8" by arith
  then show ?thesis by (elim disjE) (simp_all add: octet_mask_def mask_eq_exp_minus_1)
qed

lemma octet_255: "0 \<le> x \<Longrightarrow> x < 256 \<Longrightarrow> x AND 255 = (x::int)"
proof -
  assume "0 \<le> x" "x < 256"
  moreover have "x AND mask 8 = x mod 2 ^ 8" by (simp only: take_bit_eq_mask [symmetric] take_bit_eq_mod)
  ultimately show ?thesis by (simp add: mask_eq_exp_minus_1)
qed

lemma and_not_mask: "x AND NOT (mask m) = x - x mod 2 ^ m" for x :: int
proof -
  have "x AND NOT (mask m) = push_bit m (drop_bit m x)"
    by (rule bit_eqI) (auto simp: bit_simps)
  also have "\<dots> = x - x mod 2 ^ m"
    by (simp add: push_bit_eq_mult drop_bit_eq_div minus_mod_eq_div_mult)
  finally show ?thesis .
qed

lemma network_octet_mask:
  assumes "0 \<le> x" "x < 256" "m \<le> 8"
  shows "network_octet x (octet_mask m) = x - x mod 2 ^ m"
proof -
  have "x AND (255 AND NOT (mask m)) = x AND NOT (mask m)"
    by (metis assms(1,2) and.assoc octet_255)
  then show ?thesis
    using assms by (simp add: network_octet_def octet_mask_bits and_not_mask)
qed

lemma not_octet_mask: "m \<le> 8 \<Longrightarrow> 255 AND NOT (octet_mask m) = mask m"
proof -
  assume "m \<le> 8"
  then have "m = 0 \<or> m = 1 \<or> m = 2 \<or> m = 3 \<or> m = 4 \<or> m = 5 \<or> m = 6 \<or> m = 7 \<or> m = 8" by arith
  then show ?thesis by (elim disjE) (simp_all add: octet_mask_def mask_eq_exp_minus_1)
qed

lemma broadcast_octet_mask:
  assumes "0 \<le> x" "x < 256" "m \<le> 8"
  shows "broadcast_octet x (octet_mask m) = x - x mod 2 ^ m + (2 ^ m - 1)"
proof -
  have nw: "network_octet x (octet_mask m) = x AND NOT (mask m)"
    using assms by (simp add: network_octet_mask and_not_mask)
  have "(x AND NOT (mask m)) AND mask m = (0::int)"
    by (rule bit_eqI) (auto simp: bit_simps)
  then have "(x AND NOT (mask m)) OR mask m = (x AND NOT (mask m)) + mask m"
    by (rule disjunctive_add_eq_or [symmetric])
  then have "broadcast_octet x (octet_mask m) = (x - x mod 2 ^ m) + mask m"
    unfolding broadcast_octet_def nw not_octet_mask [OF assms(3)] by (simp only: and_not_mask)
  then show ?thesis by (simp only: mask_eq_exp_minus_1)
qed

lemma getbits_octet_mask: "m \<le> 8 \<Longrightarrow> getbits (octet_mask m) = Some (8 - int m)"
proof -
  assume "m \<le> 8"
  then have "m = 0 \<or> m = 1 \<or> m = 2 \<or> m = 3 \<or> m = 4 \<or> m = 5 \<or> m = 6 \<or> m = 7 \<or> m = 8" by arith
  then show ?thesis
    by (elim disjE; simp add: octet_mask_def getbits_def getbits_loop.simps drop_bit_Suc)
qed

text \<open>The masks the prefix form builds, octet by octet.\<close>

definition host_bits :: "int \<Rightarrow> nat \<Rightarrow> nat" where
  "host_bits n i = 8 - min 8 (nat n - 8 * i)"

lemma mask_octets_value:
  "mask_octets k n = Some (map (\<lambda>i. octet_mask (host_bits n i)) [0..<k])"
proof (induction k arbitrary: n)
  case 0
  then show ?case by simp
next
  case (Suc k)
  have upt: "map f [0..<Suc k] = f 0 # map (\<lambda>i. f (Suc i)) [0..<k]" for f :: "nat \<Rightarrow> int"
    by (simp only: map_upt_Suc)
  show ?case
  proof (cases "n > 0")
    case True
    have "setbits (if n > 8 then 8 else n) = Some (octet_mask (host_bits n 0))"
      using True setbits_value [of "if n > 8 then 8 else n"]
      by (auto simp: octet_mask_def host_bits_def min_def nat_diff_distrib)
    moreover have "host_bits (n - 8) i = host_bits n (Suc i)" for i
    proof -
      have "nat (n - 8) = nat n - 8" by simp
      then show ?thesis by (simp add: host_bits_def diff_diff_left add.commute)
    qed
    ultimately show ?thesis using True Suc.IH [of "n - 8"] by (simp add: upt del: upt_Suc)
  next
    case False
    then have "host_bits n i = 8" for i by (simp add: host_bits_def)
    with False Suc.IH [of n] show ?thesis by (simp add: upt octet_mask_def del: upt_Suc)
  qed
qed

section \<open>The network and broadcast addresses of a prefix\<close>

definition addr :: "int list \<Rightarrow> int" where
  "addr os = foldl (\<lambda>a x. 256 * a + x) 0 os"

lemma split_mod:
  fixes x r :: int
  assumes "0 \<le> r" "r < 2 ^ k"
  shows "(x * 2 ^ k + r) mod 2 ^ (m + k) = (x mod 2 ^ m) * 2 ^ k + r"
proof -
  have "(x * 2 ^ k + r) mod (2 ^ k * 2 ^ m) = 2 ^ k * ((x * 2 ^ k + r) div 2 ^ k mod 2 ^ m) + (x * 2 ^ k + r) mod 2 ^ k"
    by (rule zmod_zmult2_eq) simp
  with assms show ?thesis by (simp add: power_add ac_simps)
qed

lemma mod_256_mult: "m \<le> 8 \<Longrightarrow> (256 * a + b) mod 2 ^ m = b mod (2 ^ m :: int)"
proof -
  assume "m \<le> 8"
  then have "(2 ^ m :: int) dvd 2 ^ 8" by (rule le_imp_power_dvd)
  then have "(2 ^ m :: int) dvd 256 * a" by simp
  then show ?thesis by (simp add: mod_add_left_eq [symmetric] del: mod_add_left_eq)
qed

lemma addr4: "addr [a, b, c, d] = ((a * 256 + b) * 256 + c) * 256 + d"
  by (simp add: addr_def)

lemma upt4: "[0..<4] = [0, 1, 2, 3::nat]"
  by (simp add: upt_rec)

text \<open>The host part of an address, octet by octet.\<close>

lemma addr_mod:
  fixes a b c d :: int
  assumes "0 \<le> a" "a < 256" "0 \<le> b" "b < 256" "0 \<le> c" "c < 256" "0 \<le> d" "d < 256"
    and p: "p \<le> 32"
  defines "h \<equiv> (\<lambda>i. host_bits (int p) i)"
  shows "addr [a mod 2 ^ h 0, b mod 2 ^ h 1, c mod 2 ^ h 2, d mod 2 ^ h 3] =
           addr [a, b, c, d] mod 2 ^ (32 - p)"
    and "addr [2 ^ h 0 - 1, 2 ^ h 1 - 1, 2 ^ h 2 - 1, 2 ^ h 3 - 1] = 2 ^ (32 - p) - 1"
proof -
  have full: "x mod 256 = x" if "0 \<le> x" "x < 256" for x :: int
    using that by simp
  note f = full [OF assms(1,2)] full [OF assms(3,4)] full [OF assms(5,6)] full [OF assms(7,8)]
  consider "p \<le> 8" | "8 < p" "p \<le> 16" | "16 < p" "p \<le> 24" | "24 < p" "p \<le> 32"
    using p by linarith
  then have "addr [a mod 2 ^ h 0, b mod 2 ^ h 1, c mod 2 ^ h 2, d mod 2 ^ h 3] =
           addr [a, b, c, d] mod 2 ^ (32 - p) \<and>
         addr [2 ^ h 0 - 1, 2 ^ h 1 - 1, 2 ^ h 2 - 1, 2 ^ h 3 - 1] = 2 ^ (32 - p) - (1::int)"
  proof cases
    case 1
    then have h: "h 0 = 8 - p" "h 1 = 8" "h 2 = 8" "h 3 = 8" and e: "32 - p = (8 - p) + 24"
      by (simp_all add: h_def host_bits_def)
    have "(a * 2 ^ 24 + ((b * 256 + c) * 256 + d)) mod 2 ^ ((8 - p) + 24) =
          (a mod 2 ^ (8 - p)) * 2 ^ 24 + ((b * 256 + c) * 256 + d)"
      using assms by (intro split_mod) auto
    then show ?thesis unfolding h e addr4 using f by (simp add: power_add algebra_simps)
  next
    case 2
    then have h: "h 0 = 0" "h 1 = 16 - p" "h 2 = 8" "h 3 = 8" and e: "32 - p = (16 - p) + 16"
      and m: "16 - p \<le> 8"
      by (simp_all add: h_def host_bits_def)
    have "((256 * a + b) * 2 ^ 16 + (c * 256 + d)) mod 2 ^ ((16 - p) + 16) =
          ((256 * a + b) mod 2 ^ (16 - p)) * 2 ^ 16 + (c * 256 + d)"
      using assms by (intro split_mod) auto
    then show ?thesis unfolding h e addr4 mod_256_mult [OF m]
      using f by (simp add: power_add algebra_simps)
  next
    case 3
    then have h: "h 0 = 0" "h 1 = 0" "h 2 = 24 - p" "h 3 = 8" and e: "32 - p = (24 - p) + 8"
      and m: "24 - p \<le> 8"
      by (simp_all add: h_def host_bits_def)
    have "((256 * (256 * a + b) + c) * 2 ^ 8 + d) mod 2 ^ ((24 - p) + 8) =
          ((256 * (256 * a + b) + c) mod 2 ^ (24 - p)) * 2 ^ 8 + d"
      using assms by (intro split_mod) auto
    then show ?thesis unfolding h e addr4 mod_256_mult [OF m]
      using f by (simp add: power_add algebra_simps)
  next
    case 4
    then have h: "h 0 = 0" "h 1 = 0" "h 2 = 0" "h 3 = 32 - p" and m: "32 - p \<le> 8"
      by (simp_all add: h_def host_bits_def)
    have "(256 * (256 * (256 * a + b) + c) + d) mod 2 ^ (32 - p) = d mod 2 ^ (32 - p)"
      by (rule mod_256_mult [OF m])
    then show ?thesis unfolding h addr4 by (simp add: algebra_simps)
  qed
  then show "addr [a mod 2 ^ h 0, b mod 2 ^ h 1, c mod 2 ^ h 2, d mod 2 ^ h 3] =
           addr [a, b, c, d] mod 2 ^ (32 - p)"
    and "addr [2 ^ h 0 - 1, 2 ^ h 1 - 1, 2 ^ h 2 - 1, 2 ^ h 3 - 1] = 2 ^ (32 - p) - (1::int)"
    by simp_all
qed

text \<open>
  C40: for an address in range and a prefix length \<open>p \<le> 32\<close> the masks have \<open>p\<close> one-bits, the
  network address is the address with its \<open>32 - p\<close> host bits cleared, and the broadcast
  address has them all set.
\<close>

theorem prefix_conversion:
  assumes "\<forall>x \<in> set [a, b, c, d]. 0 \<le> x \<and> x < 256" and "p \<le> 32"
  shows "\<exists>ms. mask_octets 4 (int p) = Some ms \<and> sum_getbits ms = Some (int p) \<and>
    addr (map2 network_octet [a, b, c, d] ms) =
      addr [a, b, c, d] - addr [a, b, c, d] mod 2 ^ (32 - p) \<and>
    addr (map2 broadcast_octet [a, b, c, d] ms) =
      addr [a, b, c, d] - addr [a, b, c, d] mod 2 ^ (32 - p) + (2 ^ (32 - p) - 1)"
proof -
  let ?h = "\<lambda>i. host_bits (int p) i"
  let ?ms = "map (\<lambda>i. octet_mask (?h i)) [0..<4]"
  have h8: "?h i \<le> 8" for i by (simp add: host_bits_def)
  have ms: "?ms = [octet_mask (?h 0), octet_mask (?h 1), octet_mask (?h 2), octet_mask (?h 3)]"
    by (simp add: upt4)
  have rng: "0 \<le> a" "a < 256" "0 \<le> b" "b < 256" "0 \<le> c" "c < 256" "0 \<le> d" "d < 256"
    using assms(1) by auto
  note mods = addr_mod [OF rng assms(2)]
  have "sum_getbits ?ms = Some (int p)"
    unfolding ms using assms(2) by (simp add: getbits_octet_mask h8) (simp add: host_bits_def)
  moreover have "addr (map2 network_octet [a, b, c, d] ?ms) =
      addr [a, b, c, d] - addr [a, b, c, d] mod 2 ^ (32 - p)"
    unfolding ms mods(1) [symmetric] using rng h8 by (simp add: network_octet_mask addr4)
  moreover have "addr (map2 broadcast_octet [a, b, c, d] ?ms) =
      addr [a, b, c, d] - addr [a, b, c, d] mod 2 ^ (32 - p) + (2 ^ (32 - p) - 1)"
    unfolding ms mods(1) [symmetric] mods(2) [symmetric] using rng h8
    by (simp add: broadcast_octet_mask addr4)
  ultimately show ?thesis using mask_octets_value by blast
qed

theorem prefix_conversion_witness:
  "\<exists>ms. mask_octets 4 25 = Some ms \<and> sum_getbits ms = Some 25 \<and>
     addr (map2 network_octet [195, 170, 70, 200] ms) = addr [195, 170, 70, 128]"
  using prefix_conversion [of 195 170 70 200 25] by (auto simp: addr4)

section \<open>Termination\<close>

lemma sum_getbits_None: "sum_getbits ms = None \<longleftrightarrow> list_ex (\<lambda>m. m < 0) ms"
  by (induction ms) (auto simp: getbits_counts not_le split: option.split)

text \<open>
  C32: the program ends for every command line but one kind: an address and a netmask of four numbers of which
  one is negative, whose bits are then counted for ever.
\<close>

theorem ipnm2nwbc_ends:
  "ipnm2nwbc argv = None \<longleftrightarrow>
     (let v = (if 1 < length argv \<and> argv ! 1 = ''-v'' then 1 else 0);
          nm = c_sscanf dotted_fmt (argv ! (2 + v))
      in length argv = 3 + v \<and> length (c_sscanf dotted_fmt (argv ! (1 + v))) = 4 \<and> length nm = 4 \<and>
         list_ex (\<lambda>m. m < 0) (ints nm))"
proof -
  define v :: nat where "v = (if 1 < length argv \<and> argv ! 1 = ''-v'' then 1 else 0)"
  have v: "(if length argv > 1 \<and> argv ! 1 = ''-v'' then 1 else 0) = v" by (simp add: v_def)
  show ?thesis
    unfolding ipnm2nwbc_def Let_def v
    by (auto simp: sum_getbits_None mask_octets_value bind_eq_None_conv)
qed

end
