(* ===== verification/CmdWrapper.thy ===== *)
theory CmdWrapper
  imports CLib
begin

text \<open>
  \<^verbatim>\<open>misc/tools-source/cmd_wrapper.c\<close>: the generic command wrapper that T2 puts in front
  of compilers and linkers.  It edits the argument vector by the environment variables
  \<^verbatim>\<open><prefix>_WRAPPER_*\<close> and runs the real command.

  The environment is a map from names to values.  \<^verbatim>\<open>fnmatch\<close>, the filter command, the
  current directory and whether the log file can be opened are the record \<open>world\<close>; tracing
  to standard error (the \<^verbatim>\<open>debug\<close> variable) is left out.  A loop over \<^verbatim>\<open>strtok\<close> is
  a recursion over \<open>tokens\<close>.  Argument counts stay far below the range of \<^verbatim>\<open>int\<close>.
\<close>

type_synonym env = "string \<rightharpoonup> string"

record world =
  fnm :: "string \<Rightarrow> string \<Rightarrow> bool"
  run_filter :: "string \<Rightarrow> string \<Rightarrow> string"
  log_opens :: "string \<Rightarrow> bool"
  cwd :: string

definition env_text :: "env \<Rightarrow> string \<Rightarrow> string" where
  "env_text env name = (case env name of None \<Rightarrow> [] | Some v \<Rightarrow> v)"

definition wvar :: "string \<Rightarrow> string \<Rightarrow> string" where
  "wvar pfx x = pfx @ ''_WRAPPER_'' @ x"

section \<open>Cleaning the configuration variables\<close>

fun clean_loop :: "char \<Rightarrow> string \<Rightarrow> string \<Rightarrow> bool \<Rightarrow> string" where
  "clean_loop ch [] out delim = out"
| "clean_loop ch (c # cs) out delim =
     (if c = ch then
        (if \<not> delim then clean_loop ch cs (out @ [ch]) True else clean_loop ch cs out delim)
      else clean_loop ch cs (out @ [c]) False)"

definition clean_value :: "char \<Rightarrow> string \<Rightarrow> string" where
  "clean_value ch s =
     (let t = clean_loop ch s [] True
      in if t \<noteq> [] \<and> last t = ch then butlast t else t)"

definition cleanenv :: "string \<Rightarrow> char \<Rightarrow> env \<Rightarrow> env" where
  "cleanenv name ch env = env(name \<mapsto> clean_value ch (env_text env name))"

section \<open>Conditional arguments\<close>

lemma length_dropWhile_Cons: "dropWhile P xs = y # ys \<Longrightarrow> length ys < length xs"
  using length_dropWhile_le [of P xs] by simp

function eval_cond_arg :: "(string \<Rightarrow> string \<Rightarrow> bool) \<Rightarrow> string \<Rightarrow> string list \<Rightarrow> string" where
  "eval_cond_arg match arg argv =
     (case dropWhile (\<lambda>c. c \<noteq> CHR ''?'') arg of
        [] \<Rightarrow> arg
      | _ # c \<Rightarrow>
          (let cond = takeWhile (\<lambda>c. c \<noteq> CHR ''?'') arg;
               lhs = takeWhile (\<lambda>c. c \<noteq> CHR '':'') c;
               rhs = drop 1 (dropWhile (\<lambda>c. c \<noteq> CHR '':'') c)
           in if list_ex (\<lambda>a. match cond a) argv then lhs
              else eval_cond_arg match rhs argv))"
  by pat_completeness auto

termination
proof (relation "measure (\<lambda>(m, arg, argv). length arg)")
  fix match :: "string \<Rightarrow> string \<Rightarrow> bool" and arg argv :: "char list" and av and q c cond lhs rhs
  assume "dropWhile (\<lambda>c. c \<noteq> CHR ''?'') arg = q # c"
    and "rhs = drop 1 (dropWhile (\<lambda>c. c \<noteq> CHR '':'') c)"
  then have "length rhs \<le> length c" "length c < length arg"
    using length_dropWhile_le [of "\<lambda>c. c \<noteq> CHR '':''" c]
    by (auto dest: length_dropWhile_Cons)
  then show "((match, rhs, av), match, arg, av) \<in> measure (\<lambda>(m, arg, argv). length arg)" by simp
qed simp

declare eval_cond_arg.simps [simp del]

section \<open>The new argument vector\<close>

text \<open>
  \<open>newargv\<close> is the array with its allocated size; \<^verbatim>\<open>c1\<close> is the number of its arguments.
\<close>

record newargv =
  args :: "string list"
  newargc :: nat

definition realloc_if_needed :: "nat \<Rightarrow> nat \<Rightarrow> nat" where
  "realloc_if_needed c1 n = (if c1 + 1 \<ge> n then 2 * n else n)"

definition push_arg :: "string \<Rightarrow> newargv \<Rightarrow> newargv" where
  "push_arg x nv =
     \<lparr>args = args nv @ [x], newargc = realloc_if_needed (length (args nv)) (newargc nv)\<rparr>"

definition start_argv :: "string option \<Rightarrow> string \<Rightarrow> newargv" where
  "start_argv other arg0 =
     \<lparr>args = (case other of Some o' \<Rightarrow> if o' \<noteq> [] then [o'] else [] | None \<Rightarrow> []) @ [arg0],
      newargc = 64\<rparr>"

text \<open>The loops over \<^verbatim>\<open>INSERT\<close> and \<^verbatim>\<open>APPEND\<close>.\<close>

fun option_loop ::
  "(string \<Rightarrow> string \<Rightarrow> bool) \<Rightarrow> string list \<Rightarrow> string list \<Rightarrow> newargv \<Rightarrow> newargv" where
  "option_loop match argv [] nv = nv"
| "option_loop match argv (t # ts) nv =
     (let d = eval_cond_arg match t argv
      in option_loop match argv ts (if d \<noteq> [] then push_arg d nv else nv))"

text \<open>The loop over the old arguments with the inner loop over \<^verbatim>\<open>REMOVE\<close>.\<close>

fun removed :: "(string \<Rightarrow> string \<Rightarrow> bool) \<Rightarrow> string list \<Rightarrow> string list \<Rightarrow> string \<Rightarrow> bool" where
  "removed match argv [] a = False"
| "removed match argv (t # ts) a =
     (let d = eval_cond_arg match t argv
      in if d \<noteq> [] \<and> match d a then True else removed match argv ts a)"

fun copy_loop ::
  "(string \<Rightarrow> string \<Rightarrow> bool) \<Rightarrow> string list \<Rightarrow> string list \<Rightarrow> string list \<Rightarrow> newargv \<Rightarrow> newargv" where
  "copy_loop match argv rem [] nv = nv"
| "copy_loop match argv rem (a # as) nv =
     copy_loop match argv rem as (if removed match argv rem a then nv else push_arg a nv)"

definition build_argv ::
  "(string \<Rightarrow> string \<Rightarrow> bool) \<Rightarrow> string \<Rightarrow> env \<Rightarrow> string option \<Rightarrow> string list \<Rightarrow> newargv" where
  "build_argv match pfx env other argv =
     (let nv0 = start_argv other (hd argv);
          nv1 = option_loop match argv (tokens CHR '' '' (env_text env (wvar pfx ''INSERT''))) nv0;
          nv2 = copy_loop match argv (tokens CHR '' '' (env_text env (wvar pfx ''REMOVE'')))
                  (tl argv) nv1
      in option_loop match argv (tokens CHR '' '' (env_text env (wvar pfx ''APPEND''))) nv2)"

section \<open>The filter\<close>

function reread_loop :: "string \<Rightarrow> newargv \<Rightarrow> newargv" where
  "reread_loop [] nv = nv"
| "reread_loop (c # cs) nv =
     reread_loop (drop 1 (dropWhile (\<lambda>c. c \<noteq> CHR ''\<newline>'') (c # cs)))
       (push_arg (cstr (takeWhile (\<lambda>c. c \<noteq> CHR ''\<newline>'') (c # cs))) nv)"
  by pat_completeness auto
termination
proof (relation "measure (\<lambda>(s, nv). length s)")
  fix c :: char and cs nv
  let ?r = "dropWhile (\<lambda>c. c \<noteq> CHR ''\<newline>'') (c # cs)"
  have "length ?r \<le> length (c # cs)" by (rule length_dropWhile_le)
  then have "length (drop 1 ?r) < length (c # cs)" by (simp only: length_drop length_Cons)
  then show "((drop 1 ?r, push_arg (cstr (takeWhile (\<lambda>c. c \<noteq> CHR ''\<newline>'') (c # cs))) nv), c # cs, nv)
      \<in> measure (\<lambda>(s, nv). length s)" by simp
qed simp

definition filter_input :: "string list \<Rightarrow> string" where
  "filter_input xs = concat (map (\<lambda>a. a @ ''\<newline>'') xs)"

text \<open>\<open>None\<close> is the exit with status 248.\<close>

definition apply_filter :: "(string \<Rightarrow> string \<Rightarrow> string) \<Rightarrow> string \<Rightarrow> newargv \<Rightarrow> newargv option" where
  "apply_filter filt cmd nv =
     (if cmd = [] then Some nv
      else (let out = filt cmd (filter_input (args nv))
            in if out = [] then None
               else Some (reread_loop out \<lparr>args = [], newargc = newargc nv\<rparr>)))"

section \<open>Chained wrappers\<close>

datatype selection =
    Sel_ok "string option" env
  | Sel_mismatch
  | Sel_undefined

text \<open>
  The text that is built for \<open>OTHERS_DONE\<close>, with the number of bytes allocated for it.  \<^verbatim>\<open>strcpy\<close> and
  \<^verbatim>\<open>strcat\<close> write one or two bytes more (\<open>others_done_overrun\<close>); as the C library rounds the sizes of
  blocks up, the run goes on with the text as it was meant.
\<close>

definition newother_done :: "string \<Rightarrow> string \<Rightarrow> string \<Rightarrow> string \<times> nat" where
  "newother_done others done other = (done @ '':'' @ other, length others)"

definition select_other :: "string \<Rightarrow> env \<Rightarrow> selection" where
  "select_other pfx env =
     (let others = env_text env (wvar pfx ''OTHERS'') in
      if others = [] then Sel_ok (env (wvar pfx ''OTHERS'')) env
      else case env (wvar pfx ''OTHERS_DONE'') of
        Some done \<Rightarrow>
          (if \<not> prefix done others then Sel_mismatch
           else let rest = drop (length done) others in
             if rest = [] then Sel_ok None env
             else let other = (if hd rest = CHR '':'' then tl rest else rest);
                      newdone = fst (newother_done others done other)
                  in Sel_ok (Some other) (env(wvar pfx ''OTHERS_DONE'' \<mapsto> newdone)))
      | None \<Rightarrow>
          (case tokens CHR '':'' others of
             [] \<Rightarrow> Sel_undefined
           | other # _ \<Rightarrow> Sel_ok (Some other) (env(wvar pfx ''OTHERS_DONE'' \<mapsto> other))))"

section \<open>The search path\<close>

fun path_loop :: "string \<Rightarrow> string list \<Rightarrow> string \<Rightarrow> string" where
  "path_loop wrdir [] optbuf = optbuf"
| "path_loop wrdir (t # ts) optbuf =
     path_loop wrdir ts
       (if t \<noteq> wrdir then (if optbuf \<noteq> [] then optbuf @ '':'' else optbuf) @ t else optbuf)"

section \<open>The main function\<close>

text \<open>
  \<open>Exit\<close> is an exit with a status; \<open>Exec argv env status\<close> is the call of \<^verbatim>\<open>execvp\<close>, with
  the status of the exit that follows if the call fails; both carry the text appended to
  the log file.  \<open>Undefined\<close> is an execution the C standard leaves undefined.
\<close>

datatype result =
    Exit nat string
  | Exec "string list" env nat string
  | Undefined

definition bypass_env :: "string \<Rightarrow> env \<Rightarrow> env" where
  "bypass_env pfx env =
     (let b = env_text env (wvar pfx ''BYPASS'') in
      if b \<noteq> [] \<and> atoi b \<noteq> 0 then
        env(wvar pfx ''OTHERS'' \<mapsto> [], wvar pfx ''INSERT'' \<mapsto> [], wvar pfx ''REMOVE'' \<mapsto> [],
            wvar pfx ''APPEND'' \<mapsto> [], wvar pfx ''FILTER'' \<mapsto> [])
      else env)"

definition clean_all :: "string \<Rightarrow> env \<Rightarrow> env" where
  "clean_all pfx env =
     cleanenv (wvar pfx ''FILTER'') CHR ''|''
      (cleanenv (wvar pfx ''APPEND'') CHR '' ''
       (cleanenv (wvar pfx ''REMOVE'') CHR '' ''
        (cleanenv (wvar pfx ''INSERT'') CHR '' ''
         (cleanenv (wvar pfx ''OTHERS'') CHR '':'' env))))"

definition log_args :: "string list \<Rightarrow> string" where
  "log_args xs = concat (map (\<lambda>a. '' '' @ a) xs) @ ''\<newline>''"

definition opens_log :: "world \<Rightarrow> string \<Rightarrow> env \<Rightarrow> bool" where
  "opens_log w pfx env =
     (let l = env_text env (wvar pfx ''LOGFILE'') in l \<noteq> [] \<and> log_opens w l)"

definition log_old :: "world \<Rightarrow> string \<Rightarrow> env \<Rightarrow> string list \<Rightarrow> string" where
  "log_old w pfx env argv =
     (if opens_log w pfx env then ''\<newline>'' @ cwd w @ '':\<newline>-'' @ log_args argv else [])"

definition log_new :: "world \<Rightarrow> string \<Rightarrow> env \<Rightarrow> string list \<Rightarrow> string" where
  "log_new w pfx env argv = (if opens_log w pfx env then ''+'' @ log_args argv else [])"

text \<open>The last part of \<^verbatim>\<open>main\<close>: strip the search path, detect loops, run the command.\<close>

definition run_command :: "string \<Rightarrow> env \<Rightarrow> string list \<Rightarrow> string \<Rightarrow> string \<Rightarrow> result" where
  "run_command pfx env newargv old_log new_log =
     (let path = env_text env ''PATH''; wrdir = env_text env (wvar pfx ''MYPATH'') in
      if path = [] \<or> wrdir = [] then Exit 252 old_log
      else
        (let env1 = env(''PATH'' \<mapsto> path_loop wrdir (tokens CHR '':'' path) []);
             noloop = env_text env1 (wvar pfx ''NOLOOP'')
         in if noloop \<noteq> [] \<and> hd noloop \<noteq> CHR ''0'' then Exit 251 old_log
            else Exec newargv (env1(wvar pfx ''NOLOOP'' \<mapsto> ''1'')) 254 (old_log @ new_log)))"

definition wrapper_args :: "string \<Rightarrow> string list \<Rightarrow> string list option" where
  "wrapper_args myname argv =
     (let a0 = basename (hd argv) in
      if a0 = myname then
        (case tl argv of [] \<Rightarrow> None | a # as \<Rightarrow> Some (basename a # as))
      else Some (a0 # tl argv))"

definition cmd_wrapper :: "world \<Rightarrow> string \<Rightarrow> string \<Rightarrow> env \<Rightarrow> string list \<Rightarrow> result" where
  "cmd_wrapper w pfx myname env0 argv0 =
     (if argv0 = [] then Undefined
      else case wrapper_args myname argv0 of
        None \<Rightarrow> Exit 250 []
      | Some argv \<Rightarrow>
          (let old_log = log_old w pfx env0 argv;
               env = clean_all pfx (bypass_env pfx env0)
           in case select_other pfx env of
                Sel_mismatch \<Rightarrow> Exit 249 old_log
              | Sel_undefined \<Rightarrow> Undefined
              | Sel_ok other env1 \<Rightarrow>
                  (case apply_filter (run_filter w) (env_text env1 (wvar pfx ''FILTER''))
                          (build_argv (fnm w) pfx env1 other argv) of
                     None \<Rightarrow> Exit 248 old_log
                   | Some nv \<Rightarrow>
                       (let new_log = log_new w pfx env0 (args nv) in
                        if other \<noteq> None \<and> other \<noteq> Some [] then
                          Exec (args nv) env1 253 (old_log @ new_log)
                        else run_command pfx env1 (args nv) old_log new_log))))"

section \<open>Cleaned values\<close>

definition trim_end :: "char \<Rightarrow> string \<Rightarrow> string" where
  "trim_end ch t = (if t \<noteq> [] \<and> last t = ch then butlast t else t)"

lemma clean_value_trim: "clean_value ch s = trim_end ch (clean_loop ch s [] True)"
  by (simp add: clean_value_def trim_end_def Let_def)

lemma trim_end_snoc [simp]: "trim_end ch (t @ [ch]) = t"
  by (simp add: trim_end_def)

lemma tokens_Cons_other:
  "c \<noteq> ch \<Longrightarrow> tokens ch (c # s) =
     (c # hd (pieces ch s)) # filter (\<lambda>f. f \<noteq> []) (tl (pieces ch s))"
  by (cases "pieces ch s") (auto simp: tokens_def)

lemma tokens_pieces:
  "tokens ch s = (if hd (pieces ch s) = [] then [] else [hd (pieces ch s)]) @
     filter (\<lambda>f. f \<noteq> []) (tl (pieces ch s))"
  by (cases "pieces ch s") (auto simp: tokens_def)

lemma join_Cons_ne: "xs \<noteq> [] \<Longrightarrow> join ch (x # xs) = x @ ch # join ch xs"
  by (cases xs) auto

lemma clean_loop_join:
  "(out = [] \<or> last out = ch \<longrightarrow>
     trim_end ch (clean_loop ch s out True) =
       (if tokens ch s = [] then trim_end ch out else out @ join ch (tokens ch s))) \<and>
   (out \<noteq> [] \<and> last out \<noteq> ch \<longrightarrow>
     trim_end ch (clean_loop ch s out False) =
       out @ hd (pieces ch s) @
         (let r = filter (\<lambda>f. f \<noteq> []) (tl (pieces ch s))
          in if r = [] then [] else ch # join ch r))"
proof (induction s arbitrary: out)
  case Nil
  then show ?case by (simp add: trim_end_def)
next
  case (Cons c s)
  show ?case
  proof (cases "c = ch")
    case True
    have "trim_end ch (clean_loop ch s (out @ [ch]) True) =
        (if tokens ch s = [] then out else out @ ch # join ch (tokens ch s))"
      using Cons.IH [of "out @ [ch]"] by simp
    then show ?thesis using True Cons.IH [of out] by (auto simp: tokens_def Let_def)
  next
    case False
    have "trim_end ch (clean_loop ch s (out @ [c]) False) =
        out @ c # hd (pieces ch s) @
         (let r = filter (\<lambda>f. f \<noteq> []) (tl (pieces ch s))
          in if r = [] then [] else ch # join ch r)"
      using Cons.IH [of "out @ [c]"] False by simp
    then show ?thesis
      using False by (cases "pieces ch s") (auto simp: tokens_Cons_other join_Cons_ne Let_def)
  qed
qed

lemma cleanenv_join: "clean_value ch s = join ch (tokens ch s)"
  using clean_loop_join [of "[]" ch s] by (auto simp: clean_value_trim trim_end_def)

text \<open>
  Cleaning a configuration variable keeps exactly its tokens, in order, with one
  separator between two of them and none at either end; cleaning it again changes nothing.
\<close>

theorem cleanenv_normal_form:
  "clean_value ch s = join ch (tokens ch s) \<and>
   tokens ch (clean_value ch s) = tokens ch s \<and>
   clean_value ch (clean_value ch s) = clean_value ch s \<and>
   length (clean_value ch s) \<le> length s"
  by (simp add: cleanenv_join length_join_all_tokens)

section \<open>The new argument vector\<close>

definition argv_room :: "newargv \<Rightarrow> bool" where
  "argv_room nv \<longleftrightarrow> length (args nv) < newargc nv"

interpretation argv_buffer: growing_buffer push_arg args argv_room
  by unfold_locales (auto simp: push_arg_def argv_room_def realloc_if_needed_def)

lemma option_loop_fold:
  "option_loop match argv ts nv =
     fold push_arg (filter (\<lambda>d. d \<noteq> []) (map (\<lambda>t. eval_cond_arg match t argv) ts)) nv"
  by (induction ts arbitrary: nv) (auto simp: Let_def)

lemma removed_ex:
  "removed match argv rem a \<longleftrightarrow>
     list_ex (\<lambda>d. d \<noteq> [] \<and> match d a) (map (\<lambda>t. eval_cond_arg match t argv) rem)"
  by (induction rem) (auto simp: Let_def)

lemma copy_loop_fold:
  "copy_loop match argv rem as nv = fold push_arg (filter (\<lambda>a. \<not> removed match argv rem a) as) nv"
  by (induction as arbitrary: nv) auto

lemma start_argv_room: "argv_room (start_argv other a)"
  by (auto simp: argv_room_def start_argv_def split: option.splits)

lemma build_argv_room: "argv_room (build_argv match pfx env other argv)"
  by (simp add: build_argv_def option_loop_fold copy_loop_fold argv_buffer.room_fold start_argv_room)

definition eval_tokens :: "(string \<Rightarrow> string \<Rightarrow> bool) \<Rightarrow> string list \<Rightarrow> string \<Rightarrow> string list" where
  "eval_tokens match argv v = map (\<lambda>t. eval_cond_arg match t argv) (tokens CHR '' '' v)"

text \<open>
  C2: the command that is run has, in this order, the next wrapper (if any), the old command
  name, the values of the \<^verbatim>\<open>INSERT\<close> options, the old arguments that match no value of a
  \<^verbatim>\<open>REMOVE\<close> option, and the values of the \<^verbatim>\<open>APPEND\<close> options; options whose condition
  evaluates to nothing are dropped, and the array always has room for the null pointer.
\<close>

theorem build_argv_spec:
  "args (build_argv match pfx env other (a # as)) =
     (case other of Some w \<Rightarrow> if w \<noteq> [] then [w] else [] | None \<Rightarrow> []) @ [a] @
     filter (\<lambda>d. d \<noteq> []) (eval_tokens match (a # as) (env_text env (wvar pfx ''INSERT''))) @
     filter (\<lambda>x. \<not> list_ex (\<lambda>d. d \<noteq> [] \<and> match d x)
                 (eval_tokens match (a # as) (env_text env (wvar pfx ''REMOVE'')))) as @
     filter (\<lambda>d. d \<noteq> []) (eval_tokens match (a # as) (env_text env (wvar pfx ''APPEND''))) \<and>
   length (args (build_argv match pfx env other (a # as))) <
     newargc (build_argv match pfx env other (a # as))"
  using build_argv_room [of match pfx env other "a # as"]
  by (simp add: build_argv_def option_loop_fold copy_loop_fold argv_buffer.contents_fold removed_ex
      start_argv_def eval_tokens_def argv_room_def)

section \<open>The filter\<close>

lemma reread_loop_line:
  "CHR ''\<newline>'' \<notin> set a \<Longrightarrow>
   reread_loop (a @ CHR ''\<newline>'' # rest) nv = reread_loop rest (push_arg (cstr a) nv)"
  by (cases a) (auto simp: takeWhile_append dropWhile_append)

lemma reread_filter_input:
  "\<forall>a \<in> set xs. CHR ''\<newline>'' \<notin> set a \<and> CHR 0x00 \<notin> set a \<Longrightarrow>
   reread_loop (filter_input xs) nv = fold push_arg xs nv"
proof (induction xs arbitrary: nv)
  case Nil
  then show ?case by (simp add: filter_input_def)
next
  case (Cons a xs)
  have "cstr a = a" using Cons.prems unfolding cstr_def by (intro takeWhile_no) auto
  moreover have "reread_loop (filter_input (a # xs)) nv =
      reread_loop (filter_input xs) (push_arg (cstr a) nv)"
    using Cons.prems reread_loop_line [of a "filter_input xs" nv] by (simp add: filter_input_def)
  ultimately show ?case using Cons by simp
qed

text \<open>
  A filter that copies its input leaves the argument vector as it is, as long as no
  argument contains a newline or a NUL byte.
\<close>

theorem filter_roundtrip:
  assumes "\<forall>a \<in> set (args nv). CHR ''\<newline>'' \<notin> set a \<and> CHR 0x00 \<notin> set a"
    and "args nv \<noteq> []" and "\<And>s. filt cmd s = s" and "argv_room nv"
  shows "\<exists>nv'. apply_filter filt cmd nv = Some nv' \<and> args nv' = args nv \<and> argv_room nv'"
proof -
  have ne: "filter_input (args nv) \<noteq> []"
    using assms(2) by (cases "args nv") (auto simp: filter_input_def)
  let ?nv' = "fold push_arg (args nv) \<lparr>args = [], newargc = newargc nv\<rparr>"
  have "args ?nv' = args nv" by (simp add: argv_buffer.contents_fold)
  moreover have "argv_room ?nv'"
    using assms(4) by (intro argv_buffer.room_fold) (auto simp: argv_room_def)
  ultimately show ?thesis
    using assms ne by (auto simp: apply_filter_def reread_filter_input)
qed

theorem filter_roundtrip_witness:
  "\<exists>nv'. apply_filter (\<lambda>_ s. s) ''cat'' \<lparr>args = [''gcc'', ''-c'', ''a.c''], newargc = 64\<rparr> = Some nv' \<and>
     args nv' = [''gcc'', ''-c'', ''a.c''] \<and> argv_room nv'"
  using filter_roundtrip [of "\<lparr>args = [''gcc'', ''-c'', ''a.c''], newargc = 64\<rparr>" "\<lambda>_ s. s" "''cat''"]
  by (simp add: argv_room_def)

section \<open>The search path\<close>

lemma path_loop_join:
  "(\<forall>t \<in> set ts. t \<noteq> []) \<Longrightarrow>
   path_loop wrdir ts out =
     (let r = filter (\<lambda>t. t \<noteq> wrdir) ts
      in if out = [] then join CHR '':'' r else if r = [] then out else out @ CHR '':'' # join CHR '':'' r)"
proof (induction ts arbitrary: out)
  case Nil
  then show ?case by simp
next
  case (Cons t ts)
  then show ?case by (cases "out = []"; cases "t = wrdir"; simp add: Let_def join_Cons)
qed

text \<open>
  The new search path has the old directories in order, without the directory of the
  wrappers, and it fits into the buffer allocated for it.
\<close>

theorem path_without_wrapper:
  "tokens CHR '':'' (path_loop wrdir (tokens CHR '':'' path) []) =
     filter (\<lambda>t. t \<noteq> wrdir) (tokens CHR '':'' path) \<and>
   length (path_loop wrdir (tokens CHR '':'' path) []) \<le> length path"
proof -
  have "path_loop wrdir (tokens CHR '':'' path) [] =
      join CHR '':'' (filter (\<lambda>t. t \<noteq> wrdir) (tokens CHR '':'' path))"
    by (subst path_loop_join) (auto dest: tokens_no_sep)
  then show ?thesis
    by (auto intro!: tokens_join length_join_tokens dest: tokens_no_sep)
qed

section \<open>Chained wrappers\<close>

lemma wvar_eq [simp]: "wvar pfx x = wvar pfx y \<longleftrightarrow> x = y"
  by (simp add: wvar_def)

text \<open>
  As soon as a second chained wrapper is selected (\<open>OTHERS_DONE\<close> is a proper prefix of
  \<open>OTHERS\<close>), the string built for \<open>OTHERS_DONE\<close> needs more bytes, with its NUL, than were allocated:
  one more when the rest begins with a colon, two more otherwise.
\<close>

theorem others_done_overrun:
  assumes "env_text env (wvar pfx ''OTHERS'') = done @ c # rest"
    and "env (wvar pfx ''OTHERS_DONE'') = Some done"
  defines "other \<equiv> (if c = CHR '':'' then rest else c # rest)"
  shows "\<exists>newdone n. newother_done (env_text env (wvar pfx ''OTHERS'')) done other = (newdone, n) \<and>
    select_other pfx env = Sel_ok (Some other) (env(wvar pfx ''OTHERS_DONE'' \<mapsto> newdone)) \<and>
    length newdone + 1 = n + (if c = CHR '':'' then 1 else 2)"
  using assms(1,2) by (simp add: select_other_def newother_done_def other_def Let_def)

theorem others_done_overrun_witness:
  "\<exists>newdone n. newother_done ''distcc:ccache'' ''distcc'' ''ccache'' = (newdone, n) \<and> length newdone + 1 = n + 1"
  using others_done_overrun
    [of "[''CC_WRAPPER_OTHERS'' \<mapsto> ''distcc:ccache'', ''CC_WRAPPER_OTHERS_DONE'' \<mapsto> ''distcc'']"
        "''CC''" "''distcc''" "CHR '':''" "''ccache''"]
  by (simp add: env_text_def wvar_def) blast

lemma clean_all_OTHERS:
  "env_text (clean_all pfx env) (wvar pfx ''OTHERS'') = clean_value CHR '':'' (env_text env (wvar pfx ''OTHERS''))"
  by (simp add: clean_all_def cleanenv_def env_text_def)

text \<open>
  \<^verbatim>\<open>strtok\<close> never returns a null pointer here: on the cleaned list of other wrappers the
  first run of a chain takes its first entry and records exactly that entry as done.
\<close>

theorem first_other_selected:
  "select_other pfx (clean_all pfx env) \<noteq> Sel_undefined \<and>
   (tokens CHR '':'' (env_text env (wvar pfx ''OTHERS'')) = t # ts \<and>
    clean_all pfx env (wvar pfx ''OTHERS_DONE'') = None \<longrightarrow>
    select_other pfx (clean_all pfx env) =
      Sel_ok (Some t) ((clean_all pfx env)(wvar pfx ''OTHERS_DONE'' \<mapsto> t)))"
proof -
  have j: "env_text (clean_all pfx env) (wvar pfx ''OTHERS'') =
      join CHR '':'' (tokens CHR '':'' (env_text env (wvar pfx ''OTHERS'')))"
    using cleanenv_join by (simp add: clean_all_OTHERS)
  then have t: "tokens CHR '':'' (env_text (clean_all pfx env) (wvar pfx ''OTHERS'')) =
      tokens CHR '':'' (env_text env (wvar pfx ''OTHERS''))"
    by simp
  show ?thesis
  proof (cases "tokens CHR '':'' (env_text env (wvar pfx ''OTHERS''))")
    case Nil
    with j show ?thesis by (simp add: select_other_def)
  next
    case (Cons u us)
    then have "env_text (clean_all pfx env) (wvar pfx ''OTHERS'') \<noteq> []"
      using t by auto
    then show ?thesis using Cons t by (auto simp: select_other_def Let_def split: option.splits)
  qed
qed

theorem first_other_selected_witness:
  "select_other ''CC'' (clean_all ''CC'' [''CC_WRAPPER_OTHERS'' \<mapsto> ''::distcc:ccache:'']) =
     Sel_ok (Some ''distcc'')
       ((clean_all ''CC'' [''CC_WRAPPER_OTHERS'' \<mapsto> ''::distcc:ccache:''])(''CC_WRAPPER_OTHERS_DONE'' \<mapsto> ''distcc''))"
  using first_other_selected [of "''CC''" "[''CC_WRAPPER_OTHERS'' \<mapsto> ''::distcc:ccache:'']"
      "''distcc''" "[''ccache'']"]
  by (simp add: env_text_def wvar_def clean_all_def cleanenv_def tokens_def)

section \<open>The whole wrapper\<close>

definition plain_world :: world where
  "plain_world = \<lparr>fnm = (\<lambda>_ _. False), run_filter = (\<lambda>_ s. s), log_opens = (\<lambda>_. False), cwd = ''/''\<rparr>"

lemma bypass_env_text:
  assumes "env_text env (wvar pfx ''BYPASS'') = b" "b \<noteq> []" "atoi b \<noteq> 0"
  defines "e \<equiv> clean_all pfx (bypass_env pfx env)"
  shows "env_text e (wvar pfx ''OTHERS'') = []" "e (wvar pfx ''OTHERS'') = Some []"
    "env_text e (wvar pfx ''INSERT'') = []" "env_text e (wvar pfx ''REMOVE'') = []"
    "env_text e (wvar pfx ''APPEND'') = []" "env_text e (wvar pfx ''FILTER'') = []"
  using assms
  by (simp_all add: clean_all_def bypass_env_def cleanenv_def env_text_def clean_value_def)

text \<open>
  With \<^verbatim>\<open>BYPASS\<close> set, the wrapper runs the command with exactly the arguments it was
  given (the command reduced to its base name): nothing is inserted, removed, appended,
  filtered, and no other wrapper is run.
\<close>

theorem bypass_keeps_arguments:
  assumes "env_text env (wvar pfx ''BYPASS'') = b" "b \<noteq> []" "atoi b \<noteq> 0"
    and "basename a \<noteq> myname"
  shows "cmd_wrapper w pfx myname env (a # as) =
    run_command pfx (clean_all pfx (bypass_env pfx env)) (basename a # as)
      (log_old w pfx env (basename a # as)) (log_new w pfx env (basename a # as))"
proof -
  let ?e = "clean_all pfx (bypass_env pfx env)"
  note t = bypass_env_text [OF assms(1-3)]
  have "filter (\<lambda>x. True) as = as" by simp
  then have "args (build_argv (fnm w) pfx ?e (Some []) (basename a # as)) = basename a # as"
    by (simp add: build_argv_spec t eval_tokens_def)
  moreover have "select_other pfx ?e = Sel_ok (Some []) ?e"
    by (simp add: select_other_def t)
  ultimately show ?thesis
    using assms(4) by (simp add: cmd_wrapper_def wrapper_args_def apply_filter_def t Let_def)
qed

theorem bypass_keeps_arguments_witness:
  "cmd_wrapper plain_world ''CC'' ''cmd_wrapper'' [''CC_WRAPPER_BYPASS'' \<mapsto> ''1''] [''/opt/gcc'', ''-O2''] = Exit 252 []"
proof -
  have a: "atoi ''1'' \<noteq> 0" by code_simp
  have b: "basename ''/opt/gcc'' = ''gcc''" by code_simp
  have l: "opens_log plain_world ''CC'' [''CC_WRAPPER_BYPASS'' \<mapsto> ''1''] = False"
    by (simp add: opens_log_def env_text_def wvar_def)
  show ?thesis
    using bypass_keeps_arguments [of "[''CC_WRAPPER_BYPASS'' \<mapsto> ''1'']" "''CC''" "''1''"
        "''/opt/gcc''" "''cmd_wrapper''" plain_world "[''-O2'']"] a b
    by (simp add: env_text_def wvar_def run_command_def clean_all_def cleanenv_def bypass_env_def
        log_old_def log_new_def l)
qed

lemma wvar_not_PATH [simp]: "wvar pfx x \<noteq> ''PATH''"
proof
  assume "wvar pfx x = ''PATH''"
  then have "length (wvar pfx x) = length ''PATH''" by simp
  then show False by (simp add: wvar_def)
qed

lemma NOLOOP_kept [simp]:
  "clean_all pfx (bypass_env pfx env) (wvar pfx ''NOLOOP'') = env (wvar pfx ''NOLOOP'')"
  by (simp add: clean_all_def bypass_env_def cleanenv_def Let_def)

lemma select_other_NOLOOP:
  "select_other pfx env = Sel_ok other env' \<Longrightarrow> env' (wvar pfx ''NOLOOP'') = env (wvar pfx ''NOLOOP'')"
  by (auto simp: select_other_def Let_def split: if_splits option.splits list.splits)

lemma run_command_Exec:
  "run_command pfx env xs l l' = Exec ys env' n lg \<Longrightarrow>
   env' (wvar pfx ''NOLOOP'') = Some ''1'' \<and> env (wvar pfx ''NOLOOP'') \<noteq> Some ''1''"
  by (auto simp: run_command_def Let_def env_text_def split: if_splits)

lemma cmd_wrapper_Exec_254:
  assumes "cmd_wrapper w pfx myname env argv = Exec ys env' 254 lg"
  shows "env' (wvar pfx ''NOLOOP'') = Some ''1'' \<and> env (wvar pfx ''NOLOOP'') \<noteq> Some ''1''"
proof -
  from assms obtain other env1 xs l l' where
    sel: "select_other pfx (clean_all pfx (bypass_env pfx env)) = Sel_ok other env1"
    and run: "run_command pfx env1 xs l l' = Exec ys env' 254 lg"
    by (auto simp: cmd_wrapper_def Let_def split: if_splits option.splits selection.splits)
  from select_other_NOLOOP [OF sel] run_command_Exec [OF run] show ?thesis by simp
qed

text \<open>
  If the command a wrapper runs is (found to be) a wrapper again, that one does not run
  a command once more: a loop ends after one round.
\<close>

theorem no_wrapper_loop:
  assumes "cmd_wrapper w pfx myname env argv = Exec ys env' 254 lg"
  shows "cmd_wrapper w' pfx myname' env' argv' \<noteq> Exec zs env'' 254 lg'"
  using cmd_wrapper_Exec_254 [OF assms]
    cmd_wrapper_Exec_254 [of w' pfx myname' env' argv' zs env'' lg'] by blast

lemma plain_run:
  "\<exists>env' lg. cmd_wrapper plain_world ''CC'' ''cmd_wrapper''
     [''PATH'' \<mapsto> ''/wrap:/bin'', ''CC_WRAPPER_MYPATH'' \<mapsto> ''/wrap'', ''CC_WRAPPER_APPEND'' \<mapsto> ''-pipe'']
     [''/wrap/gcc'', ''a.c''] = Exec [''gcc'', ''a.c'', ''-pipe''] env' 254 lg"
proof -
  have b: "basename ''/wrap/gcc'' = ''gcc''" by code_simp
  have e: "eval_cond_arg m ''-pipe'' as = ''-pipe''" for m as
    by (simp add: eval_cond_arg.simps)
  show ?thesis
    by (simp add: cmd_wrapper_def wrapper_args_def b Let_def env_text_def wvar_def clean_all_def
        bypass_env_def cleanenv_def clean_value_def select_other_def apply_filter_def build_argv_def
        start_argv_def tokens_def push_arg_def run_command_def e)
qed

theorem no_wrapper_loop_witness:
  "\<exists>env'. (\<forall>zs env'' lg'. cmd_wrapper plain_world ''CC'' ''cmd_wrapper'' env' [''gcc''] \<noteq> Exec zs env'' 254 lg')
     \<and> (\<exists>lg. cmd_wrapper plain_world ''CC'' ''cmd_wrapper''
     [''PATH'' \<mapsto> ''/wrap:/bin'', ''CC_WRAPPER_MYPATH'' \<mapsto> ''/wrap'', ''CC_WRAPPER_APPEND'' \<mapsto> ''-pipe'']
     [''/wrap/gcc'', ''a.c''] = Exec [''gcc'', ''a.c'', ''-pipe''] env' 254 lg)"
  using plain_run no_wrapper_loop by meson

section \<open>Chains of wrappers\<close>

text \<open>
  What one run starts may start the wrapper again, in the environment it was given and with any arguments: \<open>execs\<close> counts
  the programs started so.
\<close>

inductive execs :: "string \<Rightarrow> env \<Rightarrow> nat \<Rightarrow> env \<Rightarrow> bool" for pfx env0 where
  none: "execs pfx env0 0 env0"
| one_more: "execs pfx env0 n env \<Longrightarrow> cmd_wrapper w pfx myname env argv = Exec ys env' status lg \<Longrightarrow> execs pfx env0 (Suc n) env'"

definition chain_stage :: "string \<Rightarrow> env \<Rightarrow> nat" where
  "chain_stage pfx env =
     (let others = clean_value CHR '':'' (env_text env (wvar pfx ''OTHERS'')) in
      case env (wvar pfx ''OTHERS_DONE'') of
        None \<Rightarrow> if others = [] then 0 else 2
      | Some done \<Rightarrow> if strict_prefix done others then 1 else 0)"

definition budget :: "string \<Rightarrow> env \<Rightarrow> nat" where
  "budget pfx env = (if env (wvar pfx ''NOLOOP'') = Some ''1'' then 0 else 1) + chain_stage pfx env"

lemma DONE_kept [simp]:
  "clean_all pfx (bypass_env pfx env) (wvar pfx ''OTHERS_DONE'') = env (wvar pfx ''OTHERS_DONE'')"
  by (simp add: clean_all_def bypass_env_def cleanenv_def Let_def)

lemma clean_tokens: "tokens ch (clean_value ch s) = tokens ch s"
  by (simp add: cleanenv_join length_join_all_tokens)

lemma clean_clean: "clean_value ch (clean_value ch s) = clean_value ch s"
  by (simp add: cleanenv_join length_join_all_tokens)

lemma stage_kept: "chain_stage pfx (clean_all pfx (bypass_env pfx env)) \<le> chain_stage pfx env"
proof -
  have "env_text (bypass_env pfx env) (wvar pfx ''OTHERS'') \<in> {[], env_text env (wvar pfx ''OTHERS'')}"
    by (auto simp: bypass_env_def Let_def env_text_def)
  then show ?thesis
    unfolding chain_stage_def clean_all_OTHERS clean_clean DONE_kept
    by (auto simp: Let_def clean_value_def split: option.split)
qed

text \<open>A selection leaves less to do, and leaves what is to be done to the list of wrappers as it is.\<close>

lemma select_stage:
  assumes sel: "select_other pfx env = Sel_ok other env1" and c: "env_text env (wvar pfx ''OTHERS'') = clean_value CHR '':'' s"
  shows "chain_stage pfx env1 \<le> chain_stage pfx env"
    "other \<noteq> None \<Longrightarrow> other \<noteq> Some [] \<Longrightarrow> chain_stage pfx env1 < chain_stage pfx env"
proof -
  let ?o = "env_text env (wvar pfx ''OTHERS'')"
  have o: "clean_value CHR '':'' ?o = ?o" by (simp add: c clean_clean)
  have "chain_stage pfx env1 \<le> chain_stage pfx env \<and>
      (other \<noteq> None \<longrightarrow> other \<noteq> Some [] \<longrightarrow> chain_stage pfx env1 < chain_stage pfx env)"
  proof (cases "?o = []")
    case True
    then show ?thesis using sel by (auto simp: select_other_def env_text_def split: option.splits)
  next
    case ne: False
    show ?thesis
    proof (cases "env (wvar pfx ''OTHERS_DONE'')")
      case None
      then obtain t ts where "env1 = env(wvar pfx ''OTHERS_DONE'' \<mapsto> t)"
        using sel ne by (auto simp: select_other_def Let_def split: list.splits)
      then show ?thesis using None ne o by (simp add: chain_stage_def env_text_def Let_def)
    next
      case (Some d)
      then have p: "prefix d ?o" using sel ne by (simp add: select_other_def Let_def split: if_splits)
      then obtain rest where r: "?o = d @ rest" by (auto simp: prefix_def)
      show ?thesis
      proof (cases "rest = []")
        case True
        then show ?thesis using sel ne Some r by (simp add: select_other_def)
      next
        case False
        define d' where "d' = d @ '':'' @ (if hd rest = CHR '':'' then tl rest else rest)"
        have e1: "env1 = env(wvar pfx ''OTHERS_DONE'' \<mapsto> d')"
          using sel ne Some r False by (auto simp: select_other_def newother_done_def Let_def d'_def)
        have "length ?o \<le> length d'" using r False by (cases rest) (auto simp: d'_def)
        then have "\<not> strict_prefix d' ?o" by (auto simp: strict_prefix_def prefix_def)
        moreover have "strict_prefix d ?o" using r False by (simp add: strict_prefix_def)
        ultimately show ?thesis using Some o e1 by (simp add: chain_stage_def env_text_def Let_def)
      qed
    qed
  qed
  then show "chain_stage pfx env1 \<le> chain_stage pfx env"
    "other \<noteq> None \<Longrightarrow> other \<noteq> Some [] \<Longrightarrow> chain_stage pfx env1 < chain_stage pfx env" by blast+
qed

lemma run_command_env:
  assumes "run_command pfx env xs l l' = Exec ys env' n lg" "x \<noteq> ''NOLOOP''"
  shows "n = 254" "env' (wvar pfx x) = env (wvar pfx x)"
  using assms by (auto simp: run_command_def Let_def split: if_splits)

lemma exec_lowers_budget:
  assumes "cmd_wrapper w pfx myname env argv = Exec ys env' n lg"
  shows "budget pfx env' < budget pfx env"
proof -
  let ?e = "clean_all pfx (bypass_env pfx env)"
  from assms obtain other env1 xs l l' where sel: "select_other pfx ?e = Sel_ok other env1"
    and run: "if other \<noteq> None \<and> other \<noteq> Some [] then env' = env1 \<and> n = 253
      else run_command pfx env1 xs l l' = Exec ys env' n lg"
    by (auto simp: cmd_wrapper_def Let_def split: if_splits option.splits selection.splits)
  note stage = select_stage [OF sel clean_all_OTHERS]
  show ?thesis
  proof (cases "other \<noteq> None \<and> other \<noteq> Some []")
    case True
    then have "env' (wvar pfx ''NOLOOP'') = env (wvar pfx ''NOLOOP'')" "env' = env1"
      using run select_other_NOLOOP [OF sel] by auto
    then show ?thesis using stage(2) stage_kept [of pfx env] True by (simp add: budget_def)
  next
    case False
    with run have r: "run_command pfx env1 xs l l' = Exec ys env' n lg" by simp
    have "env' (wvar pfx ''NOLOOP'') = Some ''1''" "env (wvar pfx ''NOLOOP'') \<noteq> Some ''1''"
      using run_command_Exec [OF r] select_other_NOLOOP [OF sel] by simp_all
    moreover have "chain_stage pfx env' = chain_stage pfx env1"
      using run_command_env(2) [OF r] by (simp add: chain_stage_def env_text_def)
    ultimately show ?thesis using stage(1) stage_kept [of pfx env] by (simp add: budget_def)
  qed
qed

text \<open>
  C7: a chain of wrappers ends: if each run of the wrapper starts in the environment that the run before it gave to the
  program it started, with arbitrary arguments, file matching, filters and logs, then no more than three programs are started,
  whatever the first environment is: the first entry of the list of other wrappers, the rest of the list, and the command.
\<close>

theorem wrapper_chain_ends:
  assumes "execs pfx env0 n env"
  shows "n \<le> 3"
proof -
  have "n + budget pfx env \<le> budget pfx env0"
    using assms by (induction rule: execs.induct) (auto dest!: exec_lowers_budget)
  moreover have "budget pfx env0 \<le> 3" by (simp add: budget_def chain_stage_def Let_def split: option.split)
  ultimately show ?thesis by simp
qed

text \<open>The longest chain: two other wrappers, then the command.\<close>

abbreviation chain_env :: env where
  "chain_env \<equiv> [''PATH'' \<mapsto> ''/bin'', ''CC_WRAPPER_MYPATH'' \<mapsto> ''/w'', ''CC_WRAPPER_OTHERS'' \<mapsto> ''a:b'',
    ''CC_WRAPPER_INSERT'' \<mapsto> [], ''CC_WRAPPER_REMOVE'' \<mapsto> [], ''CC_WRAPPER_APPEND'' \<mapsto> [], ''CC_WRAPPER_FILTER'' \<mapsto> []]"

lemmas run_defs = cmd_wrapper_def wrapper_args_def Let_def env_text_def wvar_def clean_all_def bypass_env_def cleanenv_def
  clean_value_def select_other_def newother_done_def apply_filter_def build_argv_def start_argv_def tokens_def push_arg_def

lemma basename_gcc: "basename ''gcc'' = ''gcc''"
  by code_simp

lemma chain_run1:
  "\<exists>lg. cmd_wrapper plain_world ''CC'' ''cmd_wrapper'' chain_env [''gcc''] =
    Exec [''a'', ''gcc''] (chain_env(''CC_WRAPPER_OTHERS_DONE'' \<mapsto> ''a'')) 253 lg"
  by (simp add: run_defs basename_gcc)

lemma chain_run2:
  "\<exists>lg. cmd_wrapper plain_world ''CC'' ''cmd_wrapper'' (chain_env(''CC_WRAPPER_OTHERS_DONE'' \<mapsto> ''a'')) [''gcc''] =
    Exec [''b'', ''gcc''] (chain_env(''CC_WRAPPER_OTHERS_DONE'' \<mapsto> ''a:b'')) 253 lg"
  by (simp add: run_defs basename_gcc)

lemma chain_run3:
  "\<exists>env' lg. cmd_wrapper plain_world ''CC'' ''cmd_wrapper'' (chain_env(''CC_WRAPPER_OTHERS_DONE'' \<mapsto> ''a:b'')) [''gcc''] =
    Exec [''gcc''] env' 254 lg"
  by (simp add: run_defs basename_gcc run_command_def)

theorem wrapper_chain_ends_witness:
  "\<exists>n env. execs ''CC'' chain_env n env \<and> n = 3 \<and> n \<le> 3"
proof -
  obtain l1 l2 l3 env3 where r:
    "cmd_wrapper plain_world ''CC'' ''cmd_wrapper'' chain_env [''gcc''] = Exec [''a'', ''gcc''] (chain_env(''CC_WRAPPER_OTHERS_DONE'' \<mapsto> ''a'')) 253 l1"
    "cmd_wrapper plain_world ''CC'' ''cmd_wrapper'' (chain_env(''CC_WRAPPER_OTHERS_DONE'' \<mapsto> ''a'')) [''gcc''] =
      Exec [''b'', ''gcc''] (chain_env(''CC_WRAPPER_OTHERS_DONE'' \<mapsto> ''a:b'')) 253 l2"
    "cmd_wrapper plain_world ''CC'' ''cmd_wrapper'' (chain_env(''CC_WRAPPER_OTHERS_DONE'' \<mapsto> ''a:b'')) [''gcc''] = Exec [''gcc''] env3 254 l3"
    using chain_run1 chain_run2 chain_run3 by blast
  have "execs ''CC'' chain_env (Suc (Suc (Suc 0))) env3"
    by (rule execs.one_more [OF execs.one_more [OF execs.one_more [OF execs.none r(1)] r(2)] r(3)])
  then have e: "execs ''CC'' chain_env 3 env3" by (simp only: numeral_3_eq_3)
  from wrapper_chain_ends [OF e] e show ?thesis by blast
qed

end
