(* ===== verification/ModeMuncher.thy ===== *)
theory ModeMuncher
  imports CLib
begin

text \<open>
  \<^verbatim>\<open>misc/luabash/posix/modemuncher.c\<close>: the file mode strings of the Lua POSIX library, in the
  \<^verbatim>\<open>rwxr-xr-x\<close> form and in the \<^verbatim>\<open>u+x,g-w\<close> form.

  \<^verbatim>\<open>mode_t\<close> is a 32-bit word.  A mode string is the bytes before the terminating NUL;
  \<open>read_c\<close> reads a byte of it, \<open>None\<close> is a read behind the NUL.  The functions return
  the status code of the C function with the new value of \<^verbatim>\<open>*mode\<close>.
\<close>

unbundle bit_operations_syntax

type_synonym mode = "32 word"

definition S_ISUID :: mode where "S_ISUID = 2048"
definition S_ISGID :: mode where "S_ISGID = 1024"
definition S_IXUSR :: mode where "S_IXUSR = 64"
definition S_IXGRP :: mode where "S_IXGRP = 8"

lemmas mode_bits = S_ISUID_def S_ISGID_def S_IXUSR_def S_IXGRP_def

definition read_c :: "string \<Rightarrow> nat \<Rightarrow> char option" where
  "read_c s i =
     (if i < length s then Some (s ! i) else if i = length s then Some CHR 0x00 else None)"

definition modesel :: "(char \<times> mode) list" where
  "modesel =
     [(CHR ''r'', 256), (CHR ''w'', 128), (CHR ''x'', 64),
      (CHR ''r'', 32), (CHR ''w'', 16), (CHR ''x'', 8),
      (CHR ''r'', 4), (CHR ''w'', 2), (CHR ''x'', 1)]"

section \<open>The rwxrwxrwx form\<close>

fun rwx_loop :: "(char \<times> mode) list \<Rightarrow> nat \<Rightarrow> string \<Rightarrow> mode \<Rightarrow> (int + mode) option" where
  "rwx_loop [] count p tmp_mode = Some (Inr tmp_mode)"
| "rwx_loop ((rwx, bits) # sel) count p tmp_mode =
     (case read_c p count of
        None \<Rightarrow> None
      | Some c \<Rightarrow>
          if c = rwx then rwx_loop sel (count + 1) p (tmp_mode OR bits)
          else if c = CHR ''-'' then rwx_loop sel (count + 1) p (tmp_mode AND NOT bits)
          else if c = CHR ''s'' then
            (if count = 2 then rwx_loop sel (count + 1) p (tmp_mode OR (S_ISUID OR S_IXUSR))
             else if count = 5 then rwx_loop sel (count + 1) p (tmp_mode OR (S_ISGID OR S_IXGRP))
             else Some (Inl (-4)))
          else rwx_loop sel (count + 1) p tmp_mode)"

definition rwxrwxrwx :: "mode \<Rightarrow> string \<Rightarrow> (int \<times> mode) option" where
  "rwxrwxrwx mode p =
     (case rwx_loop modesel 0 p (mode AND NOT (S_ISUID OR S_ISGID)) of
        None \<Rightarrow> None
      | Some (Inl e) \<Rightarrow> Some (e, mode)
      | Some (Inr m) \<Rightarrow> Some (0, m))"

definition modechopper :: "mode \<Rightarrow> string" where
  "modechopper mode =
     (let p = map (\<lambda>(rwx, bits). if mode AND bits \<noteq> 0 then rwx else CHR ''-'') modesel;
          p2 = (if mode AND S_ISUID \<noteq> 0
                then p[2 := (if mode AND S_IXUSR \<noteq> 0 then CHR ''s'' else CHR ''S'')] else p)
      in if mode AND S_ISGID \<noteq> 0
         then p2[5 := (if mode AND S_IXGRP \<noteq> 0 then CHR ''s'' else CHR ''S'')] else p2)"

section \<open>The symbolic form\<close>

fun who_bits :: "char \<Rightarrow> mode option" where
  "who_bits c =
     (if c = CHR ''u'' then Some 2496
      else if c = CHR ''g'' then Some 1080
      else if c = CHR ''o'' then Some 519
      else if c = CHR ''a'' then Some 4095
      else if c = CHR '' '' then Some 0
      else None)"

fun perm_bits :: "char \<Rightarrow> mode option" where
  "perm_bits c =
     (if c = CHR ''r'' then Some 292
      else if c = CHR ''w'' then Some 146
      else if c = CHR ''x'' then Some 73
      else if c = CHR ''s'' then Some 3072
      else if c = CHR '' '' then Some 0
      else None)"

text \<open>Steps 1 and 3 collect bits until a character they do not know.\<close>

fun collect :: "(char \<Rightarrow> mode option) \<Rightarrow> string \<Rightarrow> mode \<Rightarrow> mode \<times> string" where
  "collect f [] acc = (acc, [])"
| "collect f (c # cs) acc =
     (case f c of None \<Rightarrow> (acc, c # cs) | Some b \<Rightarrow> collect f cs (acc OR b))"

definition apply_op :: "char \<Rightarrow> mode \<Rightarrow> mode \<Rightarrow> mode \<Rightarrow> mode option" where
  "apply_op oper ch_mode affected_bits mode =
     (if ch_mode = 0 then Some mode
      else if oper = CHR ''+'' then Some (mode OR (ch_mode AND affected_bits))
      else if oper = CHR ''-'' then Some (mode AND NOT (ch_mode AND affected_bits))
      else if oper = CHR ''='' then Some (ch_mode AND affected_bits)
      else None)"

lemma collect_length: "length (snd (collect f s acc)) \<le> length s"
  by (induction s arbitrary: acc) (auto split: option.splits intro: le_SucI)

function munch_loop :: "char \<Rightarrow> mode \<Rightarrow> string \<Rightarrow> (int \<times> mode) option" where
  "munch_loop oper mode p =
     (if p \<noteq> [] \<and> (hd p = CHR ''r'' \<or> hd p = CHR ''-'') then rwxrwxrwx mode p
      else
        (let (aff0, q) = collect who_bits p 0;
             affected_bits = (if aff0 = 0 then 4095 else aff0)
         in case q of
              [] \<Rightarrow> Some (-1, mode)
            | c # q' \<Rightarrow>
                if c = CHR ''+'' \<or> c = CHR ''-'' \<or> c = CHR ''='' \<or> c = CHR '' '' then
                  (let oper' = (if c = CHR '' '' then oper else c);
                       (ch_mode, t) = collect perm_bits q' 0
                   in if t \<noteq> [] \<and> hd t \<noteq> CHR '' '' \<and> hd t \<noteq> CHR '','' then Some (-2, mode)
                      else case apply_op oper' ch_mode affected_bits mode of
                             None \<Rightarrow> Some (-3, mode)
                           | Some mode' \<Rightarrow>
                               (if t = [] \<or> hd t \<noteq> CHR '','' then Some (0, mode')
                                else munch_loop oper' mode' (tl t)))
                else Some (-1, mode)))"
  by pat_completeness auto
termination
proof (relation "measure (\<lambda>(oper, mode, p). length p)")
  fix oper :: char and mode :: mode and p :: string and x aff0 q affected c q' oper' y ch_mode t mode'
  assume 1: "x = collect who_bits p 0" "(aff0, q) = x" "q = c # q'"
    and 2: "y = collect perm_bits q' 0" "(ch_mode, t) = y" and 3: "\<not> (t = [] \<or> hd t \<noteq> CHR '','')"
  from 1 have "length q \<le> length p" by (metis collect_length snd_conv)
  moreover from 2 have "length t \<le> length q'" by (metis collect_length snd_conv)
  ultimately have "length (tl t) < length p" using 1(3) 3 by (cases t) auto
  then show "((oper', mode', tl t), oper, mode, p) \<in> measure (\<lambda>(oper, mode, p). length p)" by simp
qed simp

declare munch_loop.simps [simp del]

definition mode_munch :: "mode \<Rightarrow> string \<Rightarrow> (int \<times> mode) option" where
  "mode_munch mode p = munch_loop CHR 0x00 mode p"

section \<open>Printing and reading back the rwxrwxrwx form\<close>

definition mix :: "mode \<Rightarrow> mode \<Rightarrow> mode \<Rightarrow> mode" where
  "mix base m c = (base AND NOT c) OR (m AND c)"

lemma mix_mix: "mix (mix base m c) m b = mix base m (c OR b)"
  unfolding mix_def by (rule bit_eqI) (auto simp: bit_simps)

lemma mix_set: "m AND c = c \<Longrightarrow> base OR c = mix base m c"
  unfolding mix_def
  by (rule bit_eqI) (auto simp: bit_simps bit_eq_iff)

lemma mix_clear: "m AND c = 0 \<Longrightarrow> base AND NOT c = mix base m c"
  unfolding mix_def by simp

lemma mix_forget:
  "m AND (c AND NOT d) = 0 \<Longrightarrow> mix (base AND NOT c) m d = mix base m (d OR c)"
  unfolding mix_def
  by (rule bit_eqI) (auto simp: bit_simps bit_eq_iff)

definition one_bit :: "mode \<Rightarrow> bool" where
  "one_bit b \<longleftrightarrow> (\<exists>k < 32. b = push_bit k 1)"

lemma one_bit_and: "one_bit b \<Longrightarrow> m AND b \<noteq> 0 \<Longrightarrow> m AND b = b"
proof -
  assume b: "one_bit b" and n: "m AND b \<noteq> 0"
  then obtain k where k: "b = push_bit k 1" by (auto simp: one_bit_def)
  have "m AND push_bit k 1 = (if bit m k then push_bit k 1 else 0)"
    by (rule bit_eqI) (auto simp: bit_simps)
  with n k show ?thesis by (simp split: if_splits)
qed

lemma one_bit_pow: "k < 32 \<Longrightarrow> one_bit (2 ^ k)"
  by (auto simp: one_bit_def push_bit_eq_mult)

lemma one_bits [simp]:
  "one_bit 2048" "one_bit 1024" "one_bit 256" "one_bit 128" "one_bit 64" "one_bit 32"
  "one_bit 16" "one_bit 8" "one_bit 4" "one_bit 2" "one_bit 1"
  using one_bit_pow [of 11] one_bit_pow [of 10] one_bit_pow [of 8] one_bit_pow [of 7]
    one_bit_pow [of 6] one_bit_pow [of 5] one_bit_pow [of 4] one_bit_pow [of 3]
    one_bit_pow [of 2] one_bit_pow [of 1] one_bit_pow [of 0] by simp_all

lemma rwx_step:
  assumes "one_bit b" "r \<noteq> CHR ''-''"
    and "read_c p count = Some (if m AND b \<noteq> 0 then r else CHR ''-'')"
  shows "rwx_loop ((r, b) # sel) count p tmp = rwx_loop sel (count + 1) p (mix tmp m b)"
proof (cases "m AND b = 0")
  case True
  then show ?thesis using assms(2,3) by (simp add: mix_clear)
next
  case False
  then show ?thesis using assms by (simp add: mix_set [OF one_bit_and])
qed

lemma rwx_step_id:
  assumes "read_c p count = Some CHR ''s''" "count = 2 \<and> c = S_ISUID OR S_IXUSR \<or> count = 5 \<and> c = S_ISGID OR S_IXGRP"
    and "m AND c = c" "r \<noteq> CHR ''s''"
  shows "rwx_loop ((r, b) # sel) count p tmp = rwx_loop sel (count + 1) p (mix tmp m c)"
  using assms by (auto simp: mix_set)

lemma modechopper_length [simp]: "length (modechopper m) = 9"
  by (simp add: modechopper_def modesel_def Let_def)

lemma modechopper_char:
  assumes "i < 9" "i \<noteq> 2 \<or> m AND S_ISUID = 0" "i \<noteq> 5 \<or> m AND S_ISGID = 0"
  shows "read_c (modechopper m) i =
    Some (if m AND snd (modesel ! i) \<noteq> 0 then fst (modesel ! i) else CHR ''-'')"
proof -
  let ?p = "map (\<lambda>(rwx, bits). if m AND bits \<noteq> 0 then rwx else CHR ''-'') modesel"
  have len: "length modesel = 9" by (simp add: modesel_def)
  have "(if m AND S_ISUID \<noteq> 0 then ?p[2 := x] else ?p) ! i = ?p ! i" for x
    using assms(2) by (cases "i = 2") simp_all
  moreover have "(if m AND S_ISGID \<noteq> 0 then q[5 := x] else q) ! i = q ! i" for x and q :: string
    using assms(3) by (cases "i = 5") simp_all
  ultimately have "modechopper m ! i = ?p ! i" by (simp only: modechopper_def Let_def)
  then show ?thesis using assms(1) len by (simp add: read_c_def split_beta)
qed

lemma modechopper_id_char:
  "m AND S_ISUID \<noteq> 0 \<Longrightarrow> m AND S_IXUSR \<noteq> 0 \<Longrightarrow> read_c (modechopper m) 2 = Some CHR ''s''"
  "m AND S_ISGID \<noteq> 0 \<Longrightarrow> m AND S_IXGRP \<noteq> 0 \<Longrightarrow> read_c (modechopper m) 5 = Some CHR ''s''"
  by (simp_all add: read_c_def modechopper_def Let_def modesel_def)

text \<open>
  A set-id bit without its execute bit is printed as \<^verbatim>\<open>S\<close>, which is passed over when it is read: the set-id bit
  is lost, and the execute bit stays as it was.
\<close>

definition lost_ids :: "mode \<Rightarrow> mode" where
  "lost_ids m = (if m AND S_ISUID \<noteq> 0 \<and> m AND S_IXUSR = 0 then S_ISUID else 0) OR
     (if m AND S_ISGID \<noteq> 0 \<and> m AND S_IXGRP = 0 then S_ISGID else 0)"

definition kept_exec :: "mode \<Rightarrow> mode" where
  "kept_exec m = (if m AND S_ISUID \<noteq> 0 \<and> m AND S_IXUSR = 0 then S_IXUSR else 0) OR
     (if m AND S_ISGID \<noteq> 0 \<and> m AND S_IXGRP = 0 then S_IXGRP else 0)"

definition readable_ids :: "mode \<Rightarrow> bool" where
  "readable_ids m \<longleftrightarrow>
     (m AND S_ISUID \<noteq> 0 \<longrightarrow> m AND S_IXUSR \<noteq> 0) \<and> (m AND S_ISGID \<noteq> 0 \<longrightarrow> m AND S_IXGRP \<noteq> 0)"

lemma readable_nothing_lost: "readable_ids m \<Longrightarrow> lost_ids m = 0 \<and> kept_exec m = 0"
  by (auto simp: readable_ids_def lost_ids_def kept_exec_def)

lemma and_or_one: "one_bit a \<Longrightarrow> one_bit b \<Longrightarrow> m AND a \<noteq> 0 \<Longrightarrow> m AND b \<noteq> 0 \<Longrightarrow> m AND (a OR b) = a OR b"
  by (metis one_bit_and bit.conj_disj_distrib)

lemma modechopper_lost_char:
  "m AND S_ISUID \<noteq> 0 \<Longrightarrow> m AND S_IXUSR = 0 \<Longrightarrow> read_c (modechopper m) 2 = Some CHR ''S''"
  "m AND S_ISGID \<noteq> 0 \<Longrightarrow> m AND S_IXGRP = 0 \<Longrightarrow> read_c (modechopper m) 5 = Some CHR ''S''"
  by (simp_all add: read_c_def modechopper_def Let_def modesel_def)

text \<open>The bits that the characters for the owner's and the group's execute permission decide on.\<close>

definition id_bits :: "mode \<Rightarrow> mode \<Rightarrow> mode \<Rightarrow> mode" where
  "id_bits m i x = (if m AND i = 0 then x else if m AND x = 0 then 0 else i OR x)"

lemma rwx_step_pos:
  assumes "k = 2 \<and> i = S_ISUID \<and> x = S_IXUSR \<or> k = 5 \<and> i = S_ISGID \<and> x = S_IXGRP"
  shows "rwx_loop ((CHR ''x'', x) # sel) k (modechopper m) tmp = rwx_loop sel (k + 1) (modechopper m) (mix tmp m (id_bits m i x))"
proof -
  have ox: "one_bit x" "one_bit i" using assms by (auto simp: mode_bits)
  consider "m AND i = 0" | "m AND i \<noteq> 0" "m AND x = 0" | "m AND i \<noteq> 0" "m AND x \<noteq> 0" by blast
  then show ?thesis
  proof cases
    case 1
    have "read_c (modechopper m) k = Some (if m AND x \<noteq> 0 then CHR ''x'' else CHR ''-'')"
      using modechopper_char [of k m] assms 1 by (auto simp: modesel_def mode_bits)
    then show ?thesis using rwx_step [OF ox(1), of "CHR ''x''"] 1 by (simp add: id_bits_def del: rwx_loop.simps)
  next
    case 2
    then have "read_c (modechopper m) k = Some CHR ''S''" using modechopper_lost_char assms by auto
    then show ?thesis using 2 by (simp add: id_bits_def mix_def)
  next
    case 3
    then have "read_c (modechopper m) k = Some CHR ''s''" using modechopper_id_char assms by auto
    moreover have "m AND (i OR x) = i OR x" using 3 ox by (intro and_or_one)
    ultimately show ?thesis using rwx_step_id [of "modechopper m" k "i OR x" m "CHR ''x''" x] assms 3
      by (auto simp: id_bits_def simp del: rwx_loop.simps)
  qed
qed

lemma rwx_loop_chopper:
  "rwx_loop modesel 0 (modechopper m) tmp =
     Some (Inr (mix tmp m (id_bits m S_ISUID S_IXUSR OR id_bits m S_ISGID S_IXGRP OR 439)))"
proof -
  let ?p = "modechopper m"
  have u: "rwx_loop ((CHR ''x'', 64) # sel) 2 ?p tmp = rwx_loop sel 3 ?p (mix tmp m (id_bits m S_ISUID S_IXUSR))"
    and g: "rwx_loop ((CHR ''x'', 8) # sel) 5 ?p tmp = rwx_loop sel 6 ?p (mix tmp m (id_bits m S_ISGID S_IXGRP))" for sel tmp
    using rwx_step_pos [of 2 S_ISUID S_IXUSR sel m tmp] rwx_step_pos [of 5 S_ISGID S_IXGRP sel m tmp]
    by (simp_all add: S_IXUSR_def S_IXGRP_def del: rwx_loop.simps)
  have plain: "rwx_loop ((r, b) # sel) i ?p tmp = rwx_loop sel (i + 1) ?p (mix tmp m b)"
    if "i < 9" "i \<noteq> 2" "i \<noteq> 5" "modesel ! i = (r, b)" "one_bit b" "r \<noteq> CHR ''-''" for r b sel i tmp
    using that modechopper_char [of i m] by (intro rwx_step) auto
  note p =
    plain [of 0 "CHR ''r''" 256] plain [of 1 "CHR ''w''" 128]
    plain [of 3 "CHR ''r''" 32] plain [of 4 "CHR ''w''" 16]
    plain [of 6 "CHR ''r''" 4] plain [of 7 "CHR ''w''" 2] plain [of 8 "CHR ''x''" 1]
  have s: "rwx_loop ((CHR ''r'', 256) # sel) 0 ?p t = rwx_loop sel 1 ?p (mix t m 256)"
    "rwx_loop ((CHR ''w'', 128) # sel) 1 ?p t = rwx_loop sel 2 ?p (mix t m 128)"
    "rwx_loop ((CHR ''r'', 32) # sel) 3 ?p t = rwx_loop sel 4 ?p (mix t m 32)"
    "rwx_loop ((CHR ''w'', 16) # sel) 4 ?p t = rwx_loop sel 5 ?p (mix t m 16)"
    "rwx_loop ((CHR ''r'', 4) # sel) 6 ?p t = rwx_loop sel 7 ?p (mix t m 4)"
    "rwx_loop ((CHR ''w'', 2) # sel) 7 ?p t = rwx_loop sel 8 ?p (mix t m 2)"
    "rwx_loop ((CHR ''x'', 1) # sel) 8 ?p t = rwx_loop sel 9 ?p (mix t m 1)" for sel t
    using p [of sel t] by (simp_all add: modesel_def numeral_2_eq_2 del: rwx_loop.simps)
  have "rwx_loop modesel 0 ?p tmp = Some (Inr (mix tmp m
      (256 OR 128 OR id_bits m S_ISUID S_IXUSR OR 32 OR 16 OR id_bits m S_ISGID S_IXGRP OR 4 OR 2 OR 1)))"
    unfolding modesel_def s u g rwx_loop.simps(1) mix_mix by (simp only: or.assoc)
  moreover have "256 OR 128 OR a OR 32 OR 16 OR b OR 4 OR 2 OR 1 = a OR b OR (439 :: mode)" for a b
  proof -
    have "256 OR 128 OR a OR 32 OR 16 OR b OR 4 OR 2 OR 1 = a OR b OR (256 OR 128 OR 32 OR 16 OR 4 OR 2 OR (1 :: mode))"
      by (simp only: or.assoc or.left_commute or.commute)
    then show ?thesis by simp
  qed
  ultimately show ?thesis by simp
qed

lemma and_or_zero: "m AND x = 0 \<Longrightarrow> m AND (y OR x) = m AND (y :: mode)"
  by (simp add: bit.conj_disj_distrib)

lemma id_masks:
  "(S_ISUID OR S_ISGID) OR (id_bits m S_ISUID S_IXUSR OR id_bits m S_ISGID S_IXGRP OR 439) = 3583 AND NOT (kept_exec m)"
  "m AND (id_bits m S_ISUID S_IXUSR OR id_bits m S_ISGID S_IXGRP OR 439) = m AND (3583 AND NOT (lost_ids m))"
proof -
  show "(S_ISUID OR S_ISGID) OR (id_bits m S_ISUID S_IXUSR OR id_bits m S_ISGID S_IXGRP OR 439) = 3583 AND NOT (kept_exec m)"
    by (auto simp: id_bits_def kept_exec_def mode_bits)
  have u: "m AND id_bits m S_ISUID S_IXUSR = m AND (2112 AND NOT (lost_ids m))"
    using and_or_zero [of m 2048 64] by (auto simp: id_bits_def lost_ids_def mode_bits)
  have g: "m AND id_bits m S_ISGID S_IXGRP = m AND (1032 AND NOT (lost_ids m))"
    using and_or_zero [of m 1024 8] by (auto simp: id_bits_def lost_ids_def mode_bits)
  have r: "(439 :: mode) = 439 AND NOT (lost_ids m)" by (simp add: lost_ids_def mode_bits)
  have "(3583 :: mode) = 2112 OR 1032 OR 439" by simp
  then have "m AND (3583 AND NOT (lost_ids m)) =
      (m AND (2112 AND NOT (lost_ids m))) OR (m AND (1032 AND NOT (lost_ids m))) OR (m AND (439 AND NOT (lost_ids m)))"
    by (simp only: bit.conj_disj_distrib bit.conj_disj_distrib2)
  then show "m AND (id_bits m S_ISUID S_IXUSR OR id_bits m S_ISGID S_IXGRP OR 439) = m AND (3583 AND NOT (lost_ids m))"
    by (simp only: bit.conj_disj_distrib u g flip: r)
qed

lemma chop_munch_all:
  "mode_munch base (modechopper m) =
     Some (0, (base AND NOT (3583 AND NOT (kept_exec m))) OR (m AND (3583 AND NOT (lost_ids m))))"
proof -
  let ?c = "id_bits m S_ISUID S_IXUSR OR id_bits m S_ISGID S_IXGRP OR 439"
  have hd: "hd (modechopper m) = CHR ''r'' \<or> hd (modechopper m) = CHR ''-''" "modechopper m \<noteq> []"
    by (simp_all add: modechopper_def modesel_def Let_def)
  have "(base AND NOT (S_ISUID OR S_ISGID)) AND NOT ?c = base AND NOT ((S_ISUID OR S_ISGID) OR ?c)"
    by (simp only: bit.de_Morgan_disj and.assoc)
  then show ?thesis
    using rwx_loop_chopper [of m "base AND NOT (S_ISUID OR S_ISGID)"] hd
    by (auto simp: mode_munch_def munch_loop.simps [of "CHR 0x00" base "modechopper m"] rwxrwxrwx_def mix_def id_masks)
qed

lemma chop_munch:
  "readable_ids m \<Longrightarrow> mode_munch base (modechopper m) = Some (0, (base AND NOT 3583) OR (m AND 3583))"
  using chop_munch_all [of base m] readable_nothing_lost [of m] by simp

text \<open>
  C14: what reading back a printed mode does, for every mode and every mode it is applied to: the permission and
  set-id bits become those of the printed mode and all other bits stay, but where a set-id bit was printed
  without its execute bit (as an \<^verbatim>\<open>S\<close>): there the set-id bit is cleared and the execute bit stays as it was.
\<close>

theorem chop_munch_roundtrip:
  "mode_munch base (modechopper m) =
     Some (0, (base AND NOT (3583 AND NOT (kept_exec m))) OR (m AND (3583 AND NOT (lost_ids m))))"
  by (rule chop_munch_all)

text \<open>A file of mode 4644 and one of mode 755: the second becomes 744, which is neither.\<close>

lemma printed_S_ignored: "modechopper 2468 = ''rwSr--r--'' \<and> mode_munch 493 (modechopper 2468) = Some (0, 484)"
  using chop_munch_all [of 493 2468]
  by (simp add: kept_exec_def lost_ids_def mode_bits) (simp add: modechopper_def modesel_def mode_bits)

section \<open>The meaning of a symbolic mode string\<close>

text \<open>
  The abstract syntax of a mode string: a comma-separated list of clauses, each with the
  classes it affects, an operator and permissions.
\<close>

datatype who = User | Group | Other | Everyone
datatype mode_op = Add | Remove | Assign
datatype perm = Read | Write | Execute | SetId
datatype clause = Clause "who list" mode_op "perm list"

primrec who_char :: "who \<Rightarrow> char" where
  "who_char User = CHR ''u''"
| "who_char Group = CHR ''g''"
| "who_char Other = CHR ''o''"
| "who_char Everyone = CHR ''a''"

primrec op_char :: "mode_op \<Rightarrow> char" where
  "op_char Add = CHR ''+''"
| "op_char Remove = CHR ''-''"
| "op_char Assign = CHR ''=''"

primrec perm_char :: "perm \<Rightarrow> char" where
  "perm_char Read = CHR ''r''"
| "perm_char Write = CHR ''w''"
| "perm_char Execute = CHR ''x''"
| "perm_char SetId = CHR ''s''"

fun show_clause :: "clause \<Rightarrow> string" where
  "show_clause (Clause ws oper ps) = map who_char ws @ op_char oper # map perm_char ps"

primrec who_mask :: "who \<Rightarrow> mode" where
  "who_mask User = 2496"
| "who_mask Group = 1080"
| "who_mask Other = 519"
| "who_mask Everyone = 4095"

primrec perm_mask :: "perm \<Rightarrow> mode" where
  "perm_mask Read = 292"
| "perm_mask Write = 146"
| "perm_mask Execute = 73"
| "perm_mask SetId = 3072"

definition union_of :: "mode list \<Rightarrow> mode" where
  "union_of bs = foldl (OR) 0 bs"

fun clause_bits :: "clause \<Rightarrow> mode" where
  "clause_bits (Clause ws oper ps) =
     union_of (map perm_mask ps) AND (if ws = [] then 4095 else union_of (map who_mask ws))"

fun apply_clause :: "clause \<Rightarrow> mode \<Rightarrow> mode" where
  "apply_clause (Clause ws oper ps) m =
     (if ps = [] then m
      else case oper of
        Add \<Rightarrow> m OR clause_bits (Clause ws oper ps)
      | Remove \<Rightarrow> m AND NOT (clause_bits (Clause ws oper ps))
      | Assign \<Rightarrow> clause_bits (Clause ws oper ps))"

text \<open>A clause that would start with a minus sign is read as the other form.\<close>

fun symbolic :: "clause \<Rightarrow> bool" where
  "symbolic (Clause ws oper ps) \<longleftrightarrow> ws \<noteq> [] \<or> oper \<noteq> Remove"

lemma who_bits_char [simp]: "who_bits (who_char w) = Some (who_mask w)"
  by (cases w) simp_all

lemma perm_bits_char [simp]: "perm_bits (perm_char p) = Some (perm_mask p)"
  by (cases p) simp_all

lemma collect_map:
  assumes "\<And>x. f (ch x) = Some (b x)" and "r = [] \<or> f (hd r) = None"
  shows "collect f (map ch xs @ r) acc = (foldl (OR) acc (map b xs), r)"
proof (induction xs arbitrary: acc)
  case Nil
  then show ?case using assms(2) by (cases r) auto
next
  case (Cons x xs)
  then show ?case by (simp add: assms(1))
qed

lemma or_eq_0: "(a OR b = 0) \<longleftrightarrow> a = 0 \<and> b = (0 :: mode)"
  by (simp add: or_eq_0_iff)

lemma foldl_or_0: "foldl (OR) (acc::mode) bs = 0 \<longleftrightarrow> acc = 0 \<and> (\<forall>b \<in> set bs. b = 0)"
  by (induction bs arbitrary: acc) (auto simp: or_eq_0)

lemma who_mask_nz [simp]: "who_mask w \<noteq> 0"
  by (cases w) simp_all

lemma perm_mask_nz [simp]: "perm_mask p \<noteq> 0"
  by (cases p) simp_all

lemma union_who_0 [simp]: "union_of (map who_mask ws) = 0 \<longleftrightarrow> ws = []"
  by (cases ws) (auto simp: union_of_def foldl_or_0)

lemma union_perm_0 [simp]: "union_of (map perm_mask ps) = 0 \<longleftrightarrow> ps = []"
  by (cases ps) (auto simp: union_of_def foldl_or_0)

lemma op_char_facts:
  "who_bits (op_char oper) = None"
  "op_char oper = CHR ''+'' \<or> op_char oper = CHR ''-'' \<or> op_char oper = CHR ''=''"
  "op_char oper \<noteq> CHR '' ''"
  by (cases oper; simp)+

lemma apply_op_clause:
  "apply_op (op_char oper) (union_of (map perm_mask ps))
     (if ws = [] then 4095 else union_of (map who_mask ws)) m =
   Some (apply_clause (Clause ws oper ps) m)"
  by (cases oper) (simp_all add: apply_op_def)

lemma show_clause_hd:
  assumes "symbolic c"
  shows "show_clause c \<noteq> []" "hd (show_clause c @ r) \<noteq> CHR ''r''" "hd (show_clause c @ r) \<noteq> CHR ''-''"
proof -
  obtain ws oper ps where c: "c = Clause ws oper ps" by (cases c)
  have w: "who_char w \<noteq> CHR ''r''" "who_char w \<noteq> CHR ''-''" for w by (cases w; simp)+
  have o: "op_char oper \<noteq> CHR ''r''" by (cases oper) simp_all
  have m: "oper \<noteq> Remove \<Longrightarrow> op_char oper \<noteq> CHR ''-''" by (cases oper) simp_all
  from assms w o m show "show_clause c \<noteq> []" "hd (show_clause c @ r) \<noteq> CHR ''r''"
    "hd (show_clause c @ r) \<noteq> CHR ''-''"
    by (cases ws; simp add: c)+
qed

lemma munch_clause:
  assumes "symbolic c" and "r = [] \<or> hd r = CHR '',''"
  shows "munch_loop oper0 m (show_clause c @ r) =
    (case r of [] \<Rightarrow> Some (0, apply_clause c m)
     | _ # r' \<Rightarrow> (case c of Clause ws oper ps \<Rightarrow> munch_loop (op_char oper) (apply_clause c m) r'))"
proof -
  obtain ws oper ps where c: "c = Clause ws oper ps" by (cases c)
  have w: "collect who_bits (map who_char ws @ op_char oper # map perm_char ps @ r) 0 =
      (union_of (map who_mask ws), op_char oper # map perm_char ps @ r)"
    using collect_map [of who_bits who_char who_mask "op_char oper # map perm_char ps @ r" ws 0]
    by (simp add: union_of_def op_char_facts del: who_bits.simps)
  have p: "collect perm_bits (map perm_char ps @ r) 0 = (union_of (map perm_mask ps), r)"
  proof -
    have "r = [] \<or> perm_bits (hd r) = None" using assms(2) by auto
    then have "collect perm_bits (map perm_char ps @ r) 0 = (foldl (OR) 0 (map perm_mask ps), r)"
      by (intro collect_map perm_bits_char)
    then show ?thesis by (simp add: union_of_def)
  qed
  have g: "\<not> (hd (map who_char ws @ op_char oper # map perm_char ps @ r) = CHR ''r'' \<or>
      hd (map who_char ws @ op_char oper # map perm_char ps @ r) = CHR ''-'')"
    using show_clause_hd(2,3) [OF assms(1), of r] by (simp add: c)
  show ?thesis
  proof (cases r)
    case Nil
    with p g w show ?thesis
      by (simp add: c munch_loop.simps [of oper0 m "map who_char ws @ op_char oper # map perm_char ps"]
          op_char_facts apply_op_clause del: apply_clause.simps)
  next
    case (Cons d r')
    with p g w assms(2) show ?thesis
      by (simp add: c op_char_facts apply_op_clause
          munch_loop.simps [of oper0 m "map who_char ws @ op_char oper # map perm_char ps @ CHR '','' # r'"]
          del: apply_clause.simps)
  qed
qed

text \<open>
  Reading a symbolic mode string applies its clauses from left to right; spaces apart,
  every string of clauses that does not start one with a minus sign is accepted.
\<close>

theorem munch_symbolic:
  assumes "cs \<noteq> []" and "list_all symbolic cs"
  shows "mode_munch m (join CHR '','' (map show_clause cs)) = Some (0, fold apply_clause cs m)"
proof -
  have "munch_loop oper m (join CHR '','' (map show_clause cs)) = Some (0, fold apply_clause cs m)" for oper
    using assms
  proof (induction cs arbitrary: m oper)
    case Nil
    then show ?case by simp
  next
    case (Cons c cs)
    show ?case
    proof (cases cs)
      case Nil
      with Cons.prems munch_clause [of c "[]"] show ?thesis by simp
    next
      case (Cons d ds)
      with Cons.prems Cons.IH munch_clause [of c "CHR '','' # join CHR '','' (map show_clause cs)" oper m]
      show ?thesis by (cases c) (simp add: join_Cons del: show_clause.simps apply_clause.simps)
    qed
  qed
  then show ?thesis by (simp add: mode_munch_def)
qed

theorem munch_symbolic_witness:
  "mode_munch 33188 ''u+x,go-r'' = Some (0, 33216)"
  using munch_symbolic [of "[Clause [User] Add [Execute], Clause [Group, Other] Remove [Read]]" 33188]
  by (simp add: union_of_def)

text \<open>
  An assignment to one class forgets every other bit of the mode, those of the other
  classes and the file type included.
\<close>

theorem assignment_forgets_mode:
  assumes "ps \<noteq> []"
  shows "mode_munch m (show_clause (Clause ws Assign ps)) =
    Some (0, union_of (map perm_mask ps) AND (if ws = [] then 4095 else union_of (map who_mask ws)))"
  using assms munch_clause [of "Clause ws Assign ps" "[]" "CHR 0x00" m]
  by (simp add: mode_munch_def del: show_clause.simps)

theorem assignment_forgets_mode_witness:
  "mode_munch 33252 ''u=rw'' = Some (0, 384)"
  using assignment_forgets_mode [of "[Read, Write]" 33252 "[User]"]
  by (simp add: union_of_def)

lemma rwx_loop_short:
  "CHR ''s'' \<notin> set p \<Longrightarrow> count \<le> length p + 1 \<Longrightarrow> length p + 1 < count + length sel \<Longrightarrow>
   rwx_loop sel count p tmp = None"
proof (induction sel arbitrary: count tmp)
  case (Cons s sel)
  obtain r b where s: "s = (r, b)" by (cases s)
  show ?case
  proof (cases "count = length p + 1")
    case True
    then show ?thesis by (simp add: s read_c_def)
  next
    case False
    then have c: "Suc count \<le> length p + 1" "length p + 1 < Suc count + length sel"
      using Cons.prems by auto
    have "read_c p count \<noteq> Some CHR ''s''"
    proof -
      have "p ! count \<noteq> CHR ''s''" if "count < length p"
        using that Cons.prems(1) by (metis nth_mem)
      then show ?thesis by (auto simp: read_c_def split: if_splits)
    qed
    then show ?thesis
      using Cons.IH [OF Cons.prems(1) c]
      by (cases "read_c p count") (simp_all add: s)
  qed
qed simp

text \<open>
  A mode string that starts with \<^verbatim>\<open>r\<close> or a minus sign, has fewer than eight characters and
  no \<^verbatim>\<open>s\<close>, such as \<^verbatim>\<open>-x\<close>, makes \<open>mode_munch\<close> read behind the end of the string.
\<close>

theorem short_mode_overread:
  assumes "hd p = CHR ''r'' \<or> hd p = CHR ''-''" "p \<noteq> []" "length p < 8" "CHR ''s'' \<notin> set p"
  shows "mode_munch m p = None"
proof -
  have "rwx_loop modesel 0 p (m AND NOT (S_ISUID OR S_ISGID)) = None"
    using assms by (intro rwx_loop_short) (simp_all add: modesel_def)
  then show ?thesis
    using assms(1,2) by (simp add: mode_munch_def munch_loop.simps rwxrwxrwx_def)
qed

theorem short_mode_overread_witness: "mode_munch 33261 ''-x'' = None"
  using short_mode_overread [of "''-x''"] by simp

end
