(* ===== verification/Md5Sine.thy ===== *)
theory Md5Sine
  imports Complex_Main
begin

text \<open>
  The constants of RFC 1321: the integer part of 4294967296 times the absolute value of the sine of \<open>i\<close>, where
  \<open>i\<close> is in radians.  The sine is bounded by rational arithmetic with 40 digits: the rotation by one
  radian is iterated on scaled integers, with a bound for the error.
\<close>

definition sine_scale :: int where "sine_scale = 10 ^ 40"

text \<open>The sine and the cosine of 1, scaled.\<close>

definition sin_one :: int where "sin_one = 8414709848078965066525023216302989996225"
definition cos_one :: int where "cos_one = 5403023058681397174009366074429766037323"

lemma sum_36: "(\<Sum>m<36. f m) = sum_list (map f [0..<36])" for f :: "nat \<Rightarrow> real"
  by (simp only: interv_sum_list_conv_sum_set_nat set_upt atLeast0LessThan)

lemma upt_36: "[0..<36] = [0, 1, 2, 3, 4, 5, 6, 7, 8, 9, 10, 11, 12, 13, 14, 15, 16, 17, 18, 19, 20, 21, 22, 23, 24, 25, 26, 27, 28, 29, 30, 31, 32, 33, 34, 35]"
  by (simp add: upt_rec)

lemma sin_sum: "(\<Sum>m<36. sin_coeff m * (1::real) ^ m) = 8695044195440662442699982866274228962149 / 10333147966386144929666651337523200000000"
  unfolding sum_36 upt_36 list.map sum_list.Cons sum_list.Nil sin_coeff_def
  by (simp add: fact_numeral)

lemma cos_sum: "(\<Sum>m<36. cos_coeff m * (1::real) ^ m) = 159514962089003222313242436031601809697 / 295232799039604140847618609643520000000"
  unfolding sum_36 upt_36 list.map sum_list.Cons sum_list.Nil cos_coeff_def
  by (simp add: fact_numeral)

lemma fact_36: "inverse (fact 36) * \<bar>1::real\<bar> ^ 36 \<le> 1 / (10 ^ 41)"
proof -
  have "(10::real) ^ 41 \<le> fact 36" by (simp add: fact_numeral)
  then show ?thesis by (simp add: inverse_eq_divide frac_le)
qed

lemma scale_close:
  assumes "\<bar>x - q\<bar> \<le> inverse (fact 36) * \<bar>1::real\<bar> ^ 36" "\<bar>10 ^ 40 * q - n\<bar> \<le> 9 / 10"
  shows "\<bar>10 ^ 40 * x - n\<bar> \<le> 1"
proof -
  have "\<bar>10 ^ 40 * (x - q)\<bar> \<le> 10 ^ 40 * (1 / 10 ^ 41)"
    using assms(1) fact_36 by (simp only: abs_mult) (intro mult_mono order_trans [OF assms(1) fact_36]; simp)
  then have "\<bar>10 ^ 40 * x - 10 ^ 40 * q\<bar> \<le> 1 / 10" by (simp add: right_diff_distrib)
  then show ?thesis using assms(2) by linarith
qed

lemma sin_one_bound: "\<bar>real_of_int sine_scale * sin 1 - real_of_int sin_one\<bar> \<le> 1"
proof -
  have "\<bar>10 ^ 40 * sin 1 - real_of_int sin_one\<bar> \<le> 1"
    by (rule scale_close [OF Maclaurin_sin_bound]) (simp add: sin_sum sin_one_def del: power_one)
  then show ?thesis by (simp add: sine_scale_def)
qed

lemma cos_one_bound: "\<bar>real_of_int sine_scale * cos 1 - real_of_int cos_one\<bar> \<le> 1"
proof -
  obtain t where "cos (1::real) = (\<Sum>m<36. cos_coeff m * 1 ^ m) + (cos (t + 1/2 * real (36::nat) * pi) / fact 36) * 1 ^ 36"
    using Maclaurin_cos_expansion [of 1 36] by blast
  moreover have "\<bar>(cos (t + 1/2 * real (36::nat) * pi) / fact 36) * 1 ^ 36\<bar> \<le> inverse (fact 36) * \<bar>1::real\<bar> ^ 36"
    using abs_cos_le_one [of "t + 1/2 * real (36::nat) * pi"] by (simp add: inverse_eq_divide divide_right_mono)
  ultimately have "\<bar>cos (1::real) - (\<Sum>m<36. cos_coeff m * 1 ^ m)\<bar> \<le> inverse (fact 36) * \<bar>1::real\<bar> ^ 36" by simp
  then have "\<bar>10 ^ 40 * cos 1 - real_of_int cos_one\<bar> \<le> 1"
    by (rule scale_close) (simp add: cos_sum cos_one_def del: power_one)
  then show ?thesis by (simp add: sine_scale_def)
qed

definition near :: "nat \<Rightarrow> int \<Rightarrow> int \<Rightarrow> bool" where
  "near i s c \<longleftrightarrow> \<bar>real_of_int sine_scale * sin (real i) - real_of_int s\<bar> \<le> 3 * (2 ^ i - 1) \<and>
     \<bar>real_of_int sine_scale * cos (real i) - real_of_int c\<bar> \<le> 3 * (2 ^ i - 1)"

lemma scaled_div: "\<bar>P * x - a / P\<bar> \<le> e \<Longrightarrow> P = real_of_int p \<Longrightarrow> a = real_of_int b \<Longrightarrow> \<bar>P * x - real_of_int (b div p)\<bar> \<le> e + 1"
proof -
  assume a: "\<bar>P * x - a / P\<bar> \<le> e" "P = real_of_int p" "a = real_of_int b"
  have "b div p = \<lfloor>a / P\<rfloor>" by (simp add: a(2,3) floor_divide_of_int_eq)
  then have "real_of_int (b div p) \<le> a / P" "a / P < real_of_int (b div p) + 1" by linarith+
  then show ?thesis using a(1) by linarith
qed

lemma product_close:
  assumes "\<bar>P * x - s\<bar> \<le> e" "\<bar>P * y - k\<bar> \<le> 1" "\<bar>x\<bar> \<le> 1" "\<bar>k\<bar> \<le> P" "0 < P"
  shows "\<bar>P * (x * y) - s * k / P\<bar> \<le> e + (1::real)"
proof -
  have e: "P * (x * y) - s * k / P = (P * x - s) * (k / P) + x * (P * y - k)"
    using assms(5) by (simp add: field_simps)
  have "\<bar>k / P\<bar> \<le> 1" using assms(4,5) by (simp add: abs_divide)
  then have "\<bar>(P * x - s) * (k / P)\<bar> \<le> e * 1"
    unfolding abs_mult using assms(1) by (intro mult_mono) auto
  moreover have "\<bar>x * (P * y - k)\<bar> \<le> 1 * 1"
    unfolding abs_mult using assms(2,3) by (intro mult_mono) auto
  ultimately show ?thesis unfolding e by linarith
qed

lemma sum_close:
  fixes e :: real
  assumes "\<bar>a - a'\<bar> \<le> e + 1" "\<bar>b - b'\<bar> \<le> e + 1"
  shows "\<bar>(a + b) - (a' + b')\<bar> \<le> 2 * e + 2" "\<bar>(a - b) - (a' - b')\<bar> \<le> 2 * e + 2"
  using assms by linarith+

lemma near_step:
  assumes "near i s c"
  shows "near (Suc i) ((s * cos_one + c * sin_one) div sine_scale) ((c * cos_one - s * sin_one) div sine_scale)"
proof -
  let ?P = "real_of_int sine_scale"
  let ?e = "3 * (2 ^ i - 1) :: real"
  have P: "0 < ?P" "\<bar>real_of_int cos_one\<bar> \<le> ?P" "\<bar>real_of_int sin_one\<bar> \<le> ?P"
    by (simp_all add: sine_scale_def cos_one_def sin_one_def)
  have b: "\<bar>sin (real i)\<bar> \<le> 1" "\<bar>cos (real i)\<bar> \<le> 1" by simp_all
  note s = assms[unfolded near_def, THEN conjunct1] and c = assms[unfolded near_def, THEN conjunct2]
  note pr = product_close [OF s cos_one_bound b(1) P(2,1)] product_close [OF c sin_one_bound b(2) P(3,1)]
    product_close [OF c cos_one_bound b(2) P(2,1)] product_close [OF s sin_one_bound b(1) P(3,1)]
  have sum: "sin (real (Suc i)) = sin (real i) * cos 1 + cos (real i) * sin 1"
    "cos (real (Suc i)) = cos (real i) * cos 1 - sin (real i) * sin 1"
    using sin_add [of "real i" 1] cos_add [of "real i" 1] by (simp_all add: add.commute)
  have "\<bar>?P * sin (real (Suc i)) - (real_of_int s * real_of_int cos_one + real_of_int c * real_of_int sin_one) / ?P\<bar> \<le> 2 * ?e + 2"
    unfolding sum distrib_left add_divide_distrib by (rule sum_close(1) [OF pr(1,2)])
  from scaled_div [OF this refl] have 1: "\<bar>?P * sin (real (Suc i)) - real_of_int ((s * cos_one + c * sin_one) div sine_scale)\<bar> \<le> 2 * ?e + 2 + 1"
    by simp
  have "\<bar>?P * cos (real (Suc i)) - (real_of_int c * real_of_int cos_one - real_of_int s * real_of_int sin_one) / ?P\<bar> \<le> 2 * ?e + 2"
    unfolding sum(2) right_diff_distrib diff_divide_distrib by (rule sum_close(2) [OF pr(3,4), unfolded right_diff_distrib])
  from scaled_div [OF this refl] have 2: "\<bar>?P * cos (real (Suc i)) - real_of_int ((c * cos_one - s * sin_one) div sine_scale)\<bar> \<le> 2 * ?e + 2 + 1"
    by simp
  have "2 * ?e + 2 + 1 = 3 * (2 ^ Suc i - 1)" by simp
  then show ?thesis using 1 2 unfolding near_def by simp
qed

section \<open>The constants\<close>

definition rfc_T :: "nat \<Rightarrow> int" where
  "rfc_T i = \<lfloor>4294967296 * \<bar>sin (real i)\<bar>\<rfloor>"

definition checked_T :: "int \<Rightarrow> int \<Rightarrow> bool" where
  "checked_T s t \<longleftrightarrow> t * sine_scale \<le> 4294967296 * (\<bar>s\<bar> - 3 * 2 ^ 65) \<and> 4294967296 * (\<bar>s\<bar> + 3 * 2 ^ 65) < (t + 1) * sine_scale"

lemma checked_T_ok:
  assumes "near i s c" "i \<le> 64" "checked_T s t"
  shows "rfc_T i = t"
proof -
  let ?P = "real_of_int sine_scale"
  have P: "0 < ?P" by (simp add: sine_scale_def)
  have "(2::real) ^ i \<le> 2 ^ 64" using assms(2) by (intro power_increasing) simp_all
  then have "\<bar>?P * sin (real i) - real_of_int s\<bar> \<le> 3 * 2 ^ 65" using assms(1) by (simp add: near_def)
  then have "\<bar>?P * \<bar>sin (real i)\<bar> - real_of_int \<bar>s\<bar>\<bar> \<le> 3 * 2 ^ 65"
  proof -
    have "?P * \<bar>sin (real i)\<bar> = \<bar>?P * sin (real i)\<bar>" using P by (simp add: abs_mult)
    moreover have "\<bar>\<bar>?P * sin (real i)\<bar> - \<bar>real_of_int s\<bar>\<bar> \<le> \<bar>?P * sin (real i) - real_of_int s\<bar>" by (rule abs_triangle_ineq3)
    ultimately show ?thesis using \<open>\<bar>?P * sin (real i) - real_of_int s\<bar> \<le> 3 * 2 ^ 65\<close> by simp
  qed
  then have b: "real_of_int (\<bar>s\<bar> - 3 * 2 ^ 65) \<le> ?P * \<bar>sin (real i)\<bar>" "?P * \<bar>sin (real i)\<bar> \<le> real_of_int (\<bar>s\<bar> + 3 * 2 ^ 65)" by auto
  have c: "real_of_int t * ?P \<le> 4294967296 * real_of_int (\<bar>s\<bar> - 3 * 2 ^ 65)"
    "4294967296 * real_of_int (\<bar>s\<bar> + 3 * 2 ^ 65) < (real_of_int t + 1) * ?P"
    using assms(3) unfolding checked_T_def by (metis (mono_tags) of_int_le_iff of_int_less_iff of_int_mult of_int_add of_int_1 of_int_numeral)+
  have "real_of_int t * ?P \<le> (4294967296 * \<bar>sin (real i)\<bar>) * ?P" using b(1) c(1) by (simp add: mult.commute mult.assoc)
  moreover have "(4294967296 * \<bar>sin (real i)\<bar>) * ?P < (real_of_int t + 1) * ?P" using b(2) c(2) by (simp add: mult.commute mult.assoc)
  ultimately have "real_of_int t \<le> 4294967296 * \<bar>sin (real i)\<bar>" "4294967296 * \<bar>sin (real i)\<bar> < real_of_int t + 1"
    using P by (simp_all add: mult_le_cancel_right mult_less_cancel_right)
  then show ?thesis unfolding rfc_T_def by (intro floor_unique)
qed

text \<open>One radian further for each constant: the sine reached is compared with it.\<close>

fun check_sines :: "int list \<Rightarrow> int \<Rightarrow> int \<Rightarrow> (int \<times> int) option" where
  "check_sines [] s c = Some (s, c)"
| "check_sines (t # ts) s c =
     (let s' = (s * cos_one + c * sin_one) div sine_scale; c' = (c * cos_one - s * sin_one) div sine_scale
      in if checked_T s' t then check_sines ts s' c' else None)"

lemma near_0: "near 0 0 sine_scale"
  by (simp add: near_def)

lemma check_sines_ok:
  assumes "near i s c" "check_sines ts s c = Some (s', c')" "i + length ts \<le> 64"
  shows "near (i + length ts) s' c' \<and> (\<forall>k < length ts. rfc_T (i + k + 1) = ts ! k)"
  using assms
proof (induction ts arbitrary: i s c)
  case (Cons t ts)
  let ?s = "(s * cos_one + c * sin_one) div sine_scale" and ?c = "(c * cos_one - s * sin_one) div sine_scale"
  have n: "near (Suc i) ?s ?c" by (rule near_step [OF Cons.prems(1)])
  have t: "checked_T ?s t" "check_sines ts ?s ?c = Some (s', c')"
    using Cons.prems(2) by (simp_all add: Let_def split: if_splits)
  have "rfc_T (Suc i) = t" using Cons.prems(3) by (intro checked_T_ok [OF n _ t(1)]) simp
  then show ?case using Cons.IH [OF n t(2)] Cons.prems(3) by (auto simp: nth_Cons split: nat.splits)
qed simp

end
