(* ===== verification/Md5.thy ===== *)
theory Md5
  imports Prelude Md5Sine
begin

text \<open>
  \<^verbatim>\<open>misc/luabash/md5/md5.c\<close> and \<^verbatim>\<open>md5lib.c\<close>: the MD5 digest of the Lua shell.

  \<^verbatim>\<open>uint32_t\<close> and \<^verbatim>\<open>uint8_t\<close> are words, \<^verbatim>\<open>size_t\<close> has 64 bits, memory is little-endian (so
  that the word view of a block and \<^verbatim>\<open>CopyToLittleEndian\<close> agree).  The macros \<^verbatim>\<open>FF\<close>, \<^verbatim>\<open>GG\<close>,
  \<^verbatim>\<open>HH\<close>, \<^verbatim>\<open>II\<close> are one step \<open>md5_op\<close>, the 64 lines of a block the table \<open>md5_rounds\<close>:
  the step updates its first variable, and the next line names the variables rotated by one.
  An update that makes an \<^verbatim>\<open>int\<close> overflow has no result.
\<close>

unbundle bit_operations_syntax

type_synonym u32 = "32 word"
type_synonym byte = "8 word"
type_synonym md5_state = "u32 \<times> u32 \<times> u32 \<times> u32"

record md5_ctx =
  state :: md5_state
  count0 :: u32
  count1 :: u32
  buffer :: "byte list"

definition md5_iv :: md5_state where
  "md5_iv = (0x67452301, 0xefcdab89, 0x98badcfe, 0x10325476)"

definition MD5Init :: "md5_ctx \<Rightarrow> md5_ctx" where
  "MD5Init ctx = ctx\<lparr>count0 := 0, count1 := 0, state := md5_iv\<rparr>"

definition ROTATE_LEFT :: "u32 \<Rightarrow> nat \<Rightarrow> u32" where
  "ROTATE_LEFT x n = push_bit n x OR drop_bit (32 - n) x"

datatype md5_fun = OpFF | OpGG | OpHH | OpII

fun md5_bool :: "md5_fun \<Rightarrow> u32 \<Rightarrow> u32 \<Rightarrow> u32 \<Rightarrow> u32" where
  "md5_bool OpFF x y z = z XOR (x AND (y XOR z))"
| "md5_bool OpGG x y z = y XOR (z AND (x XOR y))"
| "md5_bool OpHH x y z = x XOR y XOR z"
| "md5_bool OpII x y z = y XOR (x OR NOT z)"

fun md5_op :: "u32 list \<Rightarrow> md5_state \<Rightarrow> md5_fun \<times> nat \<times> nat \<times> u32 \<Rightarrow> md5_state" where
  "md5_op x (a, b, c, d) (f, k, s, ac) =
     (d, ROTATE_LEFT (a + (md5_bool f b c d + x ! k + ac)) s + b, b, c)"

definition md5_rounds :: "(md5_fun \<times> nat \<times> nat \<times> u32) list" where
  "md5_rounds =
     [
      (OpFF, 0, 7, 0xd76aa478), (OpFF, 1, 12, 0xe8c7b756), (OpFF, 2, 17, 0x242070db),
      (OpFF, 3, 22, 0xc1bdceee), (OpFF, 4, 7, 0xf57c0faf), (OpFF, 5, 12, 0x4787c62a),
      (OpFF, 6, 17, 0xa8304613), (OpFF, 7, 22, 0xfd469501), (OpFF, 8, 7, 0x698098d8),
      (OpFF, 9, 12, 0x8b44f7af), (OpFF, 10, 17, 0xffff5bb1), (OpFF, 11, 22, 0x895cd7be),
      (OpFF, 12, 7, 0x6b901122), (OpFF, 13, 12, 0xfd987193), (OpFF, 14, 17, 0xa679438e),
      (OpFF, 15, 22, 0x49b40821), (OpGG, 1, 5, 0xf61e2562), (OpGG, 6, 9, 0xc040b340),
      (OpGG, 11, 14, 0x265e5a51), (OpGG, 0, 20, 0xe9b6c7aa), (OpGG, 5, 5, 0xd62f105d),
      (OpGG, 10, 9, 0x02441453), (OpGG, 15, 14, 0xd8a1e681), (OpGG, 4, 20, 0xe7d3fbc8),
      (OpGG, 9, 5, 0x21e1cde6), (OpGG, 14, 9, 0xc33707d6), (OpGG, 3, 14, 0xf4d50d87),
      (OpGG, 8, 20, 0x455a14ed), (OpGG, 13, 5, 0xa9e3e905), (OpGG, 2, 9, 0xfcefa3f8),
      (OpGG, 7, 14, 0x676f02d9), (OpGG, 12, 20, 0x8d2a4c8a), (OpHH, 5, 4, 0xfffa3942),
      (OpHH, 8, 11, 0x8771f681), (OpHH, 11, 16, 0x6d9d6122), (OpHH, 14, 23, 0xfde5380c),
      (OpHH, 1, 4, 0xa4beea44), (OpHH, 4, 11, 0x4bdecfa9), (OpHH, 7, 16, 0xf6bb4b60),
      (OpHH, 10, 23, 0xbebfbc70), (OpHH, 13, 4, 0x289b7ec6), (OpHH, 0, 11, 0xeaa127fa),
      (OpHH, 3, 16, 0xd4ef3085), (OpHH, 6, 23, 0x04881d05), (OpHH, 9, 4, 0xd9d4d039),
      (OpHH, 12, 11, 0xe6db99e5), (OpHH, 15, 16, 0x1fa27cf8), (OpHH, 2, 23, 0xc4ac5665),
      (OpII, 0, 6, 0xf4292244), (OpII, 7, 10, 0x432aff97), (OpII, 14, 15, 0xab9423a7),
      (OpII, 5, 21, 0xfc93a039), (OpII, 12, 6, 0x655b59c3), (OpII, 3, 10, 0x8f0ccc92),
      (OpII, 10, 15, 0xffeff47d), (OpII, 1, 21, 0x85845dd1), (OpII, 8, 6, 0x6fa87e4f),
      (OpII, 15, 10, 0xfe2ce6e0), (OpII, 6, 15, 0xa3014314), (OpII, 13, 21, 0x4e0811a1),
      (OpII, 4, 6, 0xf7537e82), (OpII, 11, 10, 0xbd3af235), (OpII, 2, 15, 0x2ad7d2bb),
      (OpII, 9, 21, 0xeb86d391)]"

fun CopyToLittleEndian :: "byte list \<Rightarrow> u32 list" where
  "CopyToLittleEndian (b0 # b1 # b2 # b3 # src) =
     (push_bit 24 (ucast b3) OR push_bit 16 (ucast b2) OR push_bit 8 (ucast b1) OR ucast b0)
       # CopyToLittleEndian src"
| "CopyToLittleEndian _ = []"

fun add_state :: "md5_state \<Rightarrow> md5_state \<Rightarrow> md5_state" where
  "add_state (a, b, c, d) (a0, b0, c0, d0) = (a + a0, b + b0, c + c0, d + d0)"

fun MD5Transform :: "md5_state \<Rightarrow> byte list \<Rightarrow> nat \<Rightarrow> md5_state" where
  "MD5Transform st inp 0 = st"
| "MD5Transform st inp (Suc n) =
     MD5Transform (add_state (foldl (md5_op (CopyToLittleEndian (take 64 inp))) st md5_rounds) st)
       (drop 64 inp) n"

definition MD5Update :: "md5_ctx \<Rightarrow> byte list \<Rightarrow> md5_ctx option" where
  "MD5Update ctx inp =
     (let inputBytes = length inp;
          byteIndex = unat (drop_bit 3 (count0 ctx) AND 0x3F);
          inc = (8 * inputBytes) mod 2 ^ 64;
          c0 = count0 ctx + of_nat inc;
          c1 = (if unat c0 < inc then count1 ctx + 1 else count1 ctx) + of_nat (inputBytes div 2 ^ 29);
          partLen = 64 - byteIndex
      in if inputBytes \<ge> partLen then
           (let block = take byteIndex (buffer ctx) @ take partLen inp;
                st = MD5Transform (state ctx) block 1;
                len = (inputBytes - partLen) div 64;
                st' = MD5Transform st (drop partLen inp) len;
                i = partLen + 64 * len
            in if i \<ge> 2 ^ 31 then None
               else Some \<lparr>state = st', count0 = c0, count1 = c1,
                          buffer = drop i inp @ drop (inputBytes - i) block\<rparr>)
         else Some \<lparr>state = state ctx, count0 = c0, count1 = c1,
                    buffer = take byteIndex (buffer ctx) @ inp @ drop (byteIndex + inputBytes) (buffer ctx)\<rparr>)"

definition word_bytes :: "u32 \<Rightarrow> byte list" where
  "word_bytes w = map (\<lambda>i. ucast (drop_bit (8 * i) w)) [0, 1, 2, 3]"

fun state_bytes :: "md5_state \<Rightarrow> byte list" where
  "state_bytes (a, b, c, d) = word_bytes a @ word_bytes b @ word_bytes c @ word_bytes d"

definition finalBlock :: "byte list" where
  "finalBlock = 0x80 # replicate 63 0"

text \<open>The digest, and the context that is cleared at the end.\<close>

definition MD5Final :: "md5_ctx \<Rightarrow> (byte list \<times> md5_ctx) option" where
  "MD5Final ctx =
     (let byteIndex = unat (drop_bit 3 (count0 ctx) AND 0x3F);
          finalBlockLength = (if byteIndex < 56 then 56 else 120) - byteIndex;
          bits = word_bytes (count0 ctx) @ word_bytes (count1 ctx)
      in case MD5Update ctx (take finalBlockLength finalBlock) of
           None \<Rightarrow> None
         | Some ctx1 \<Rightarrow>
             (case MD5Update ctx1 bits of
                None \<Rightarrow> None
              | Some ctx2 \<Rightarrow>
                  Some (state_bytes (state ctx2),
                        \<lparr>state = (0, 0, 0, 0), count0 = 0, count1 = 0, buffer = replicate 64 0\<rparr>)))"

section \<open>The Lua function\<close>

text \<open>
  The argument values that \<^verbatim>\<open>lmd5\<close> tells apart: a string (or a number, read as one), an open
  or closed file handle with the bytes left in it, anything else.
\<close>

datatype lua_arg = LString "byte list" | LFile "byte list" | LClosed | LOther

datatype lua_result = LPushed "byte list" | LError | LUndefined

function fread_blocks :: "nat \<Rightarrow> byte list \<Rightarrow> byte list list" where
  "fread_blocks n bs =
     (if n = 0 \<or> bs = [] then [] else take n bs # fread_blocks n (drop n bs))"
  by pat_completeness auto
termination by (relation "measure (\<lambda>(n, bs). length bs)") auto

declare fread_blocks.simps [simp del]

definition md5_of_pieces :: "md5_ctx \<Rightarrow> byte list list \<Rightarrow> lua_result" where
  "md5_of_pieces ctx xss =
     (case feeds MD5Update (MD5Init ctx) xss of
        None \<Rightarrow> LUndefined
      | Some ctx' \<Rightarrow> (case MD5Final ctx' of None \<Rightarrow> LUndefined | Some (digest, _) \<Rightarrow> LPushed digest))"

text \<open>\<open>ctx\<close> is the indeterminate content of the automatic variable.\<close>

definition lmd5 :: "md5_ctx \<Rightarrow> lua_arg list \<Rightarrow> lua_result" where
  "lmd5 ctx argl =
     (case argl of
        [] \<Rightarrow> LError
      | a # _ \<Rightarrow>
          (case last argl of
             LString _ \<Rightarrow>
               (case a of LString message \<Rightarrow> md5_of_pieces ctx [message] | _ \<Rightarrow> LError)
           | _ \<Rightarrow>
               (case a of LFile bytes \<Rightarrow> md5_of_pieces ctx (fread_blocks (1024 * 4) bytes) | _ \<Rightarrow> LError)))"

section \<open>The digest of RFC 1321\<close>

text \<open>
  The specification, stated from the RFC and not from the code: words are read and written with the low-order
  byte first, the initial words are given as bytes, and the 64 constants are those of the sine (\<open>rfc_T\<close>).
\<close>

fun rfc_number :: "byte list \<Rightarrow> nat" where
  "rfc_number [] = 0"
| "rfc_number (b # bs) = unat b + 256 * rfc_number bs"

definition rfc_word :: "byte list \<Rightarrow> u32" where
  "rfc_word bs = of_nat (rfc_number bs)"

definition rfc_words :: "byte list \<Rightarrow> u32 list" where
  "rfc_words block = map (\<lambda>i. rfc_word (take 4 (drop (4 * i) block))) [0..<16]"

definition rfc_bytes :: "u32 \<Rightarrow> byte list" where
  "rfc_bytes w = map (\<lambda>i. of_nat (unat w div 256 ^ i)) [0..<4]"

definition rfc_iv :: md5_state where
  "rfc_iv = (rfc_word [0x01, 0x23, 0x45, 0x67], rfc_word [0x89, 0xab, 0xcd, 0xef],
     rfc_word [0xfe, 0xdc, 0xba, 0x98], rfc_word [0x76, 0x54, 0x32, 0x10])"

definition rfc_fun :: "nat \<Rightarrow> u32 \<Rightarrow> u32 \<Rightarrow> u32 \<Rightarrow> u32" where
  "rfc_fun r x y z =
     (if r = 0 then (x AND y) OR (NOT x AND z)
      else if r = 1 then (x AND z) OR (y AND NOT z)
      else if r = 2 then x XOR y XOR z
      else y XOR (x OR NOT z))"

definition rfc_index :: "nat \<Rightarrow> nat" where
  "rfc_index i =
     (if i div 16 = 0 then i
      else if i div 16 = 1 then (5 * i + 1) mod 16
      else if i div 16 = 2 then (3 * i + 5) mod 16
      else (7 * i) mod 16)"

definition rfc_shift :: "nat \<Rightarrow> nat" where
  "rfc_shift i = [[7, 12, 17, 22], [5, 9, 14, 20], [4, 11, 16, 23], [6, 10, 15, 21]] ! (i div 16) ! (i mod 4)"

lemma md5_bool_rfc:
  "md5_bool OpFF x y z = rfc_fun 0 x y z" "md5_bool OpGG x y z = rfc_fun (Suc 0) x y z"
  "md5_bool OpHH x y z = rfc_fun 2 x y z" "md5_bool OpII x y z = rfc_fun 3 x y z"
  unfolding rfc_fun_def by (rule bit_eqI; auto simp: bit_simps)+

lemma rotate_rfc:
  assumes "0 < n" "n < 32"
  shows "ROTATE_LEFT x n = word_rotl n x"
  unfolding ROTATE_LEFT_def
proof (rule bit_word_eqI)
  fix k :: nat
  assume "k < LENGTH(32)"
  then have k: "k < 32" by simp
  have b: "bit x j \<Longrightarrow> j < 32" for j using bit_imp_le_length [of x j] by simp
  show "bit (push_bit n x OR drop_bit (32 - n) x) k = bit (word_rotl n x) k"
  proof (cases "n \<le> k")
    case True
    then have "(k + (32 - n)) mod 32 = k - n" using k assms by (simp add: mod_if)
    moreover have "\<not> bit x (32 - n + k)" using b [of "32 - n + k"] True assms by auto
    ultimately show ?thesis using True k assms by (simp add: bit_simps)
  next
    case False
    then have "(k + (32 - n)) mod 32 = 32 - n + k" using k assms by simp
    with False k assms show ?thesis by (simp add: bit_simps del: add_Suc_right add_Suc)
  qed
qed

fun rfc_step :: "u32 list \<Rightarrow> nat \<Rightarrow> md5_state \<Rightarrow> md5_state" where
  "rfc_step x i (a, b, c, d) =
     (d, b + word_rotl (rfc_shift i)
            (a + rfc_fun (i div 16) b c d + x ! rfc_index i + of_int (rfc_T (i + 1))), b, c)"

definition round_fun :: "nat \<Rightarrow> md5_fun" where
  "round_fun r = [OpFF, OpGG, OpHH, OpII] ! r"

lemma rounds_table:
  "list_all (\<lambda>i. (case md5_rounds ! i of (f, k, s, ac) \<Rightarrow>
     f = round_fun (i div 16) \<and> k = rfc_index i \<and> s = rfc_shift i \<and> 0 < s \<and> s < 32)) [0..<64]"
  by code_simp


text \<open>The constants of the table are those of the sine.\<close>

definition round_constant :: "nat \<Rightarrow> int" where
  "round_constant i = uint (snd (snd (snd (md5_rounds ! i))))"

lemma round_constants_checked1:
  "check_sines (map round_constant [0..<16]) (0) (sine_scale) =
     Some (-2879033166650652947844562482186175296202, -9576594803233846418996372326511034717795)"
  by code_simp

lemma round_constants_checked2:
  "check_sines (map round_constant [16..<32]) (-2879033166650652947844562482186175296202) (-9576594803233846418996372326511034717795) =
     Some (5514266812416905506615581668457128157235, 8342233605065102722155264708702923065073)"
  by code_simp

lemma round_constants_checked3:
  "check_sines (map round_constant [32..<48]) (5514266812416905506615581668457128157235) (8342233605065102722155264708702923065073) =
     Some (-7682546613236667990449656648458934947951, -6401443394691997313129414193930771795166)"
  by code_simp

lemma round_constants_checked4:
  "check_sines (map round_constant [48..<64]) (-7682546613236667990449656648458934947951) (-6401443394691997313129414193930771795166) =
     Some (9200260381967906833515366037772518665294, 3918572304295500051617098585131229420987)"
  by code_simp

lemma constants_of_part:
  "near i s c \<Longrightarrow> check_sines (map round_constant [i..<j]) s c = Some (s', c') \<Longrightarrow> j = i + 16 \<Longrightarrow> j \<le> 64 \<Longrightarrow>
   near j s' c' \<and> (\<forall>k < 16. rfc_T (i + k + 1) = round_constant (i + k))"
  using check_sines_ok [of i s c "map round_constant [i..<i + 16]" s' c'] by simp

lemmas constants_part1 = constants_of_part [OF near_0 round_constants_checked1]
lemmas constants_part2 = constants_of_part [OF constants_part1 [THEN conjunct1] round_constants_checked2]
lemmas constants_part3 = constants_of_part [OF constants_part2 [THEN conjunct1] round_constants_checked3]
lemmas constants_part4 = constants_of_part [OF constants_part3 [THEN conjunct1] round_constants_checked4]

lemma round_constants:
  assumes "i < 64"
  shows "round_constant i = rfc_T (i + 1)"
proof -
  have part: "round_constant i = rfc_T (i + 1)"
    if "\<forall>k < 16. rfc_T (p + k + 1) = round_constant (p + k)" "p \<le> i" "i < p + 16" for p
    using that(1)[rule_format, of "i - p"] that(2,3) by simp
  consider "i < 16" | "16 \<le> i" "i < 32" | "32 \<le> i" "i < 48" | "48 \<le> i" using assms by linarith
  then show ?thesis
  proof cases
    case 1
    then show ?thesis by (intro part [OF constants_part1 [THEN conjunct2]]) simp_all
  next
    case 2
    then show ?thesis by (intro part [OF constants_part2 [THEN conjunct2]]) simp_all
  next
    case 3
    then show ?thesis by (intro part [OF constants_part3 [THEN conjunct2]]) simp_all
  next
    case 4
    then show ?thesis using assms by (intro part [OF constants_part4 [THEN conjunct2]]) simp_all
  qed
qed

lemma constant_word: "i < 64 \<Longrightarrow> snd (snd (snd (md5_rounds ! i))) = of_int (rfc_T (i + 1))"
  using round_constants [of i] by (metis round_constant_def word_of_int_uint)

lemma md5_op_rfc:
  assumes "i < 64"
  shows "md5_op x st (md5_rounds ! i) = rfc_step x i st"
proof -
  obtain a b c d where st: "st = (a, b, c, d)" by (cases st)
  obtain f k s ac where r: "md5_rounds ! i = (f, k, s, ac)" by (cases "md5_rounds ! i")
  have "case md5_rounds ! i of (f, k, s, ac) \<Rightarrow>
      f = round_fun (i div 16) \<and> k = rfc_index i \<and> s = rfc_shift i \<and> 0 < s \<and> s < 32"
    using rounds_table unfolding list_all_iff by (rule bspec) (simp add: assms)
  then have 1: "f = round_fun (i div 16)" "k = rfc_index i" "s = rfc_shift i" "0 < s" "s < 32"
    by (simp_all add: r)
  have "i div 16 = 0 \<or> i div 16 = 1 \<or> i div 16 = 2 \<or> i div 16 = 3" using assms by auto
  then have "md5_bool f b c d = rfc_fun (i div 16) b c d"
    using 1(1) by (elim disjE) (simp_all only: round_fun_def md5_bool_rfc [symmetric], simp_all add: numeral_2_eq_2 numeral_3_eq_3 del: md5_bool.simps flip: md5_bool_rfc)
  with 1 r st constant_word [OF assms] show ?thesis by (simp add: rotate_rfc ac_simps)
qed

text \<open>The saved words are added to those that the 64 steps give.\<close>

fun rfc_plus :: "md5_state \<Rightarrow> md5_state \<Rightarrow> md5_state" where
  "rfc_plus (a, b, c, d) (aa, bb, cc, dd) = (a + aa, b + bb, c + cc, d + dd)"

definition rfc_compress :: "md5_state \<Rightarrow> byte list \<Rightarrow> md5_state" where
  "rfc_compress st block = rfc_plus (fold (rfc_step (rfc_words block)) [0..<64] st) st"

text \<open>The sum, the initial words and the byte order of the code are those of the RFC.\<close>

lemma add_state_rfc: "add_state st st0 = rfc_plus st st0"
  by (cases st; cases st0) simp

lemma md5_iv_rfc: "md5_iv = rfc_iv"
  by (simp add: md5_iv_def rfc_iv_def rfc_word_def)

lemma low_byte_or:
  "(of_nat (unat b + 256 * n) :: u32) = ucast (b :: byte) OR push_bit 8 (of_nat n)"
proof -
  have "unat b + push_bit 8 n = unat b OR push_bit 8 n"
  proof (rule disjunctive_add)
    show "\<not> bit (unat b) k \<or> \<not> bit (push_bit 8 n) k" for k
      using bit_imp_le_length [of b k] by (auto simp: bit_simps)
  qed
  then have "(of_nat (unat b + 256 * n) :: u32) = of_nat (unat b OR push_bit 8 n)"
    by (simp add: push_bit_eq_mult mult.commute)
  also have "\<dots> = ucast b OR push_bit 8 (of_nat n)"
    by (simp add: of_nat_or_eq push_bit_of_nat)
  finally show ?thesis .
qed

lemma little_endian_word:
  "push_bit 24 (ucast b3) OR push_bit 16 (ucast b2) OR push_bit 8 (ucast b1) OR ucast b0 =
     rfc_word [b0, b1, b2, b3 :: byte]"
proof -
  have "rfc_word [b0, b1, b2, b3] =
      ucast b0 OR push_bit 8 (ucast b1 OR push_bit 8 (ucast b2 OR push_bit 8 (ucast b3 OR push_bit 8 0)))"
    unfolding rfc_word_def rfc_number.simps low_byte_or by simp
  then show ?thesis by (simp add: push_bit_or ac_simps)
qed

lemma drop_word: "drop (4 + n) (b0 # b1 # b2 # b3 # src) = drop n src"
  by (simp add: eval_nat_numeral)

lemma little_endian_words:
  "length bs = 4 * n \<Longrightarrow>
   CopyToLittleEndian bs = map (\<lambda>i. rfc_word (take 4 (drop (4 * i) bs))) [0..<n]"
proof (induction bs arbitrary: n rule: CopyToLittleEndian.induct)
  case (1 b0 b1 b2 b3 src)
  then obtain k where n: "n = Suc k" by (cases n) auto
  have "CopyToLittleEndian src = map (\<lambda>i. rfc_word (take 4 (drop (4 * i) src))) [0..<k]"
    using 1 n by simp
  then show ?case
    unfolding n upt_conv_Cons [OF zero_less_Suc]
    by (simp add: little_endian_word o_def drop_word del: upt_Suc flip: map_Suc_upt)
qed (use nat_mult_le_cancel1 in \<open>case_tac n; simp\<close>)+

lemma block_words: "length block = 64 \<Longrightarrow> CopyToLittleEndian block = rfc_words block"
  unfolding rfc_words_def by (rule little_endian_words) simp

lemma length_rounds: "length md5_rounds = 64"
  by (simp add: md5_rounds_def)

lemma foldl_index: "foldl f s xs = fold (\<lambda>i s. f s (xs ! i)) [0..<length xs] s"
proof -
  have "foldl f s xs = foldl f s (map ((!) xs) [0..<length xs])" by (simp add: map_nth)
  also have "\<dots> = fold (\<lambda>i s. f s (xs ! i)) [0..<length xs] s"
    by (simp only: foldl_conv_fold fold_map comp_def)
  finally show ?thesis .
qed

lemma foldl_rounds:
  "foldl (md5_op x) st md5_rounds = fold (rfc_step x) [0..<64] st"
  unfolding foldl_index length_rounds
  by (intro fold_cong) (auto simp: md5_op_rfc)

function absorb :: "md5_state \<Rightarrow> byte list \<Rightarrow> md5_state" where
  "absorb st m = (if length m < 64 then st else absorb (rfc_compress st (take 64 m)) (drop 64 m))"
  by pat_completeness auto
termination by (relation "measure (\<lambda>(st, m). length m)") auto

declare absorb.simps [simp del]

lemma absorb_short: "length m < 64 \<Longrightarrow> absorb st m = st"
  by (subst absorb.simps) simp

lemma absorb_block: "length b = 64 \<Longrightarrow> absorb st (b @ m) = absorb (rfc_compress st b) m"
  by (subst absorb.simps) simp

lemma absorb_append:
  "64 dvd length p \<Longrightarrow> absorb st (p @ q) = absorb (absorb st p) q"
proof (induction st p rule: absorb.induct)
  case (1 st p)
  show ?case
  proof (cases "length p < 64")
    case True
    with 1(2) have "p = []" by (metis dvd_imp_le length_greater_0_conv not_le)
    then show ?thesis by (simp add: absorb_short)
  next
    case False
    then have b: "length (take 64 p) = 64" "64 dvd length (drop 64 p)" using 1(2) by auto
    have "absorb st (p @ q) = absorb st (take 64 p @ (drop 64 p @ q))"
      by (simp only: append_assoc [symmetric] append_take_drop_id)
    also have "\<dots> = absorb (rfc_compress st (take 64 p)) (drop 64 p @ q)" by (rule absorb_block [OF b(1)])
    also have "\<dots> = absorb (absorb (rfc_compress st (take 64 p)) (drop 64 p)) q" using 1(1) False b(2) by blast
    also have "absorb (rfc_compress st (take 64 p)) (drop 64 p) = absorb st p"
      using False by (simp add: absorb.simps [of st p])
    finally show ?thesis .
  qed
qed

lemma MD5Transform_absorb:
  "64 * n \<le> length m \<Longrightarrow> MD5Transform st m n = absorb st (take (64 * n) m)"
proof (induction n arbitrary: st m)
  case 0
  then show ?case by (simp add: absorb_short)
next
  case (Suc n)
  have "take (64 * Suc n) m = take 64 m @ take (64 * n) (drop 64 m)" by (simp add: take_add)
  moreover have "length (take 64 m) = 64" using Suc.prems by simp
  ultimately have "absorb st (take (64 * Suc n) m) =
      absorb (rfc_compress st (take 64 m)) (take (64 * n) (drop 64 m))"
    by (simp add: absorb_block)
  with Suc show ?case by (simp add: foldl_rounds rfc_compress_def add_state_rfc block_words)
qed

section \<open>An update appends to the message\<close>

text \<open>A context that stands for the message \<open>m\<close>.\<close>

definition ctx_of :: "md5_ctx \<Rightarrow> byte list \<Rightarrow> bool" where
  "ctx_of ctx m \<longleftrightarrow>
     state ctx = absorb md5_iv m \<and>
     count0 ctx = of_nat (8 * length m) \<and> count1 ctx = of_nat (8 * length m div 2 ^ 32) \<and>
     length (buffer ctx) = 64 \<and>
     take (length m mod 64) (buffer ctx) = drop (64 * (length m div 64)) m"

lemma absorb_full: "absorb st m = absorb st (take (64 * (length m div 64)) m)"
proof -
  let ?k = "64 * (length m div 64)"
  have "absorb st (take ?k m @ drop ?k m) = absorb (absorb st (take ?k m)) (drop ?k m)"
    by (rule absorb_append) (simp add: min_absorb2 mult.commute)
  moreover have "length (drop ?k m) < 64" 
    by (simp add: minus_mult_div_eq_mod)
  ultimately show ?thesis by (simp add: absorb_short)
qed

lemma byte_index:
  "count0 ctx = of_nat (8 * l) \<Longrightarrow> unat (drop_bit 3 (count0 ctx) AND 0x3F) = l mod 64"
proof -
  assume c: "count0 ctx = of_nat (8 * l)"
  have m: "(0x3F :: u32) = mask 6" by (simp add: mask_eq_exp_minus_1)
  have "unat (drop_bit 3 (count0 ctx) AND 0x3F) = unat (count0 ctx) div 8 mod 64"
    unfolding m take_bit_eq_mask [symmetric]
    by (simp add: unsigned_take_bit_eq unat_drop_bit_eq) (simp add: take_bit_eq_mod drop_bit_eq_div)
  also have "unat (count0 ctx) = 8 * l mod 2 ^ 32" unfolding c unat_of_nat by simp
  also have "8 * l mod 2 ^ 32 = 8 * (l mod 2 ^ 29)"
    using mult_mod_right [of 8 l "2 ^ 29"] by simp
  also have "8 * (l mod 2 ^ 29) div 8 mod 64 = l mod 64"
    by (simp add: mod_mod_cancel)
  finally show ?thesis .
qed

lemma carry_nat:
  assumes "k < (N :: nat)"
  shows "(l + k) div N = l div N + (if (l + k) mod N < k then 1 else 0)"
proof -
  have l: "l mod N < N" using assms by simp
  have d: "(l + k) div N = l div N + (l mod N + k) div N"
    using assms div_add1_eq [of l k N] by simp
  have m: "(l + k) mod N = (l mod N + k) mod N"
    by (simp add: mod_simps)
  show ?thesis
  proof (cases "l mod N + k < N")
    case True
    then show ?thesis by (simp add: d m)
  next
    case False
    then have "l mod N + k = N + (l mod N + k - N)" "l mod N + k - N < N" using l assms by linarith+
    then have "(l mod N + k) div N = 1" "(l mod N + k) mod N = l mod N + k - N"
      by (simp_all add: le_div_geq le_mod_geq)
    with False l show ?thesis by (simp add: d m)
  qed
qed

lemma carry_out:
  assumes "k < 2 ^ 32"
  shows "(l + k) div 2 ^ 32 = l div 2 ^ 32 + (if unat ((of_nat l :: u32) + of_nat k) < k then 1 else 0)"
proof -
  have "unat ((of_nat l :: u32) + of_nat k) = (l + k) mod 2 ^ 32"
    by (simp add: unat_of_nat flip: of_nat_add)
  then show ?thesis using carry_nat [OF assms, of l] by simp
qed

lemma update_count:
  assumes "ctx_of ctx m" "length xs < 2 ^ 29"
  shows "(8 * length xs) mod 2 ^ 64 = 8 * length xs" "length xs div 2 ^ 29 = 0"
    "count0 ctx + of_nat (8 * length xs) = of_nat (8 * length (m @ xs))"
    "(if unat (count0 ctx + of_nat (8 * length xs)) < 8 * length xs then count1 ctx + 1 else count1 ctx) =
     of_nat (8 * length (m @ xs) div 2 ^ 32)"
proof -
  have c: "count0 ctx = of_nat (8 * length m)" "count1 ctx = of_nat (8 * length m div 2 ^ 32)"
    using assms(1) by (simp_all add: ctx_of_def)
  show "(8 * length xs) mod 2 ^ 64 = 8 * length xs" "length xs div 2 ^ 29 = 0" using assms(2) by simp_all
  show "count0 ctx + of_nat (8 * length xs) = of_nat (8 * length (m @ xs))"
    unfolding c(1) of_nat_add [symmetric] by simp
  have "8 * length xs < 2 ^ 32" using assms(2) by simp
  from carry_out [OF this, of "8 * length m"] 
  show "(if unat (count0 ctx + of_nat (8 * length xs)) < 8 * length xs then count1 ctx + 1 else count1 ctx) =
     of_nat (8 * length (m @ xs) div 2 ^ 32)"
    unfolding c by (simp add: algebra_simps)
qed

lemma div_mod_add_small:
  assumes "a mod N + n < (N :: nat)"
  shows "(a + n) div N = a div N" "(a + n) mod N = a mod N + n"
proof -
  have "a + n = (a mod N + n) + N * (a div N)" by simp
  then show "(a + n) div N = a div N" "(a + n) mod N = a mod N + n"
    using assms by (simp_all only: div_mult_self2 mod_mult_self2) simp_all
qed

lemma fill_block: "(a :: nat) = 64 * q + b \<Longrightarrow> b + p = 64 \<Longrightarrow> a + p = 64 * (q + 1)"
  by simp

lemma update_short:
  assumes c: "ctx_of ctx m" and n: "length xs < 64 - length m mod 64"
  shows "\<exists>ctx'. MD5Update ctx xs = Some ctx' \<and> ctx_of ctx' (m @ xs)"
proof -
  let ?k = "64 * (length m div 64)" and ?bi = "length m mod 64"
  have n29: "length xs < 2 ^ 29" using n by simp
  have n': "(64 - ?bi \<le> length xs) = False" using n by simp
  have bi: "unat (drop_bit 3 (count0 ctx) AND 0x3F) = ?bi"
    using c by (intro byte_index) (simp add: ctx_of_def)
  have dm: "length (m @ xs) div 64 = length m div 64" "length (m @ xs) mod 64 = ?bi + length xs"
    using n div_mod_add_small [of "length m" 64 "length xs"] by simp_all
  have "take ?k (m @ xs) = take ?k m" by simp
  then have st: "absorb md5_iv (m @ xs) = absorb md5_iv m"
    using absorb_full [of md5_iv "m @ xs"] absorb_full [of md5_iv m] by (simp only: dm)
  have buf: "take ?bi (buffer ctx) @ xs = drop ?k (m @ xs)"
    using c by (simp add: ctx_of_def)
  let ?b = "take ?bi (buffer ctx) @ xs @ drop (?bi + length xs) (buffer ctx)"
  have l: "length (buffer ctx) = 64" using c by (simp add: ctx_of_def)
  then have "length (take ?bi (buffer ctx) @ xs) = ?bi + length xs"
    by (simp add: min_absorb2 less_imp_le)
  then have "take (length (m @ xs) mod 64) ?b = take ?bi (buffer ctx) @ xs" "length ?b = 64"
    unfolding dm(2) using l n by simp_all
  moreover have "MD5Update ctx xs = Some \<lparr>state = state ctx, count0 = of_nat (8 * length (m @ xs)),
      count1 = of_nat (8 * length (m @ xs) div 2 ^ 32), buffer = ?b\<rparr>"
    using n' update_count [OF c n29]
    unfolding MD5Update_def Let_def bi by (simp only: if_False) simp
  ultimately show ?thesis
    using c st buf unfolding ctx_of_def dm(1) by (simp add: ctx_of_def)
qed

lemma update_long:
  assumes c: "ctx_of ctx m" and n: "64 - length m mod 64 \<le> length xs" and n29: "length xs < 2 ^ 29"
  shows "\<exists>ctx'. MD5Update ctx xs = Some ctx' \<and> ctx_of ctx' (m @ xs)"
proof -
  let ?k = "64 * (length m div 64)" and ?bi = "length m mod 64"
  have n': "(64 - ?bi \<le> length xs) = True" using n by simp
  define pl where "pl = 64 - ?bi"
  define len where "len = (length xs - pl) div 64"
  define i where "i = pl + 64 * len"
  define block where "block = take ?bi (buffer ctx) @ take pl xs"
  have bi: "unat (drop_bit 3 (count0 ctx) AND 0x3F) = ?bi"
    using c by (intro byte_index) (simp add: ctx_of_def)
  have l: "length (buffer ctx) = 64" "take ?bi (buffer ctx) = drop ?k m" "state ctx = absorb md5_iv m"
    using c by (simp_all add: ctx_of_def)
  have pl: "0 < pl" "pl \<le> length xs" "?bi + pl = 64" using n by (simp_all add: pl_def)
  have r: "length xs - pl = 64 * len + (length xs - pl) mod 64" "(length xs - pl) mod 64 < 64"
    unfolding len_def by simp_all
  have i: "i \<le> length xs" "length xs - i < 64" using pl(2) r unfolding i_def by linarith+
  have lm: "length m = 64 * (length m div 64) + ?bi" by simp
  have d0: "length m + pl = 64 * (length m div 64 + 1)" using lm pl(3) by (rule fill_block)
  have d1: "64 dvd length m + pl" "length m + i = 64 * (length m div 64 + 1 + len)"
    unfolding i_def add.assoc [symmetric] d0 by (rule dvd_triv_left) (simp only: distrib_left)
  have lb: "length block = 64" using l(1) pl(2,3) by (simp add: block_def min_absorb2 less_imp_le)
  have b: "MD5Transform (state ctx) block 1 = absorb md5_iv (m @ take pl xs)"
  proof -
    have "MD5Transform (state ctx) block 1 = absorb (absorb md5_iv (take ?k m)) block"
      using MD5Transform_absorb [of 1 block "state ctx"] lb l(3) absorb_full [of md5_iv m] by simp
    also have "\<dots> = absorb md5_iv (take ?k m @ block)"
      by (rule absorb_append [symmetric]) (simp add: min_absorb2 mult.commute)
    also have "take ?k m @ block = m @ take pl xs" by (simp add: block_def l(2) flip: append_assoc)
    finally show ?thesis .
  qed
  have s: "MD5Transform (MD5Transform (state ctx) block 1) (drop pl xs) len = absorb md5_iv (m @ xs)"
  proof -
    have "64 * len \<le> length (drop pl xs)" by (simp add: len_def)
    then have "MD5Transform (absorb md5_iv (m @ take pl xs)) (drop pl xs) len =
        absorb (absorb md5_iv (m @ take pl xs)) (take (64 * len) (drop pl xs))"
      by (rule MD5Transform_absorb)
    also have "\<dots> = absorb md5_iv ((m @ take pl xs) @ take (64 * len) (drop pl xs))"
      using d1(1) pl(2) by (intro absorb_append [symmetric]) simp
    also have "(m @ take pl xs) @ take (64 * len) (drop pl xs) = m @ take i xs"
      by (simp add: i_def take_add)
    also have "absorb md5_iv (m @ take i xs) = absorb (absorb md5_iv (m @ take i xs)) (drop i xs)"
      using i by (simp add: absorb_short)
    also have "\<dots> = absorb md5_iv ((m @ take i xs) @ drop i xs)"
      using d1(2) i(1) by (intro absorb_append [symmetric]) simp
    finally show ?thesis by (simp only: b append_assoc append_take_drop_id)
  qed
  let ?b = "drop i xs @ drop (length xs - i) block"
  have dm: "64 * (length (m @ xs) div 64) = length m + i" "length (m @ xs) mod 64 = length xs - i"
  proof -
    have "length (m @ xs) = (length xs - i) + 64 * (length m div 64 + 1 + len)" using d1(2) i(1) by simp
    then show "64 * (length (m @ xs) div 64) = length m + i" "length (m @ xs) mod 64 = length xs - i"
      using i(2) unfolding d1(2) by (simp_all only: div_mult_self2 mod_mult_self2) simp_all
  qed
  have "\<not> 2 ^ 31 \<le> i" using i(1) n29 by simp
  moreover have "take ?bi (buffer ctx) @ take pl xs = block" by (simp add: block_def)
  ultimately have "MD5Update ctx xs = Some \<lparr>state = absorb md5_iv (m @ xs),
      count0 = of_nat (8 * length (m @ xs)),
      count1 = of_nat (8 * length (m @ xs) div 2 ^ 32), buffer = ?b\<rparr>"
    using n' update_count [OF c n29]
    unfolding MD5Update_def Let_def bi pl_def [symmetric] len_def [symmetric] i_def [symmetric]
    by (simp only: if_True if_False s) simp
  moreover have "length ?b = 64" using lb i by simp
  moreover have "take (length xs - i) ?b = drop i xs" by simp
  ultimately show ?thesis unfolding ctx_of_def dm by simp
qed

lemma update_rep:
  "ctx_of ctx m \<Longrightarrow> length xs < 2 ^ 29 \<Longrightarrow> \<exists>ctx'. MD5Update ctx xs = Some ctx' \<and> ctx_of ctx' (m @ xs)"
  using update_short update_long by (cases "length xs < 64 - length m mod 64") (auto simp: not_less)

interpretation md5_stream: accumulator MD5Update ctx_of "\<lambda>xs. length xs < 2 ^ 29"
  by unfold_locales (rule update_rep)

section \<open>The digest\<close>

definition le64 :: "nat \<Rightarrow> byte list" where
  "le64 x = map (\<lambda>i. of_nat (x div 2 ^ (8 * i))) [0..<8]"

definition md5_pad :: "byte list \<Rightarrow> byte list" where
  "md5_pad m = m @ 0x80 # replicate ((119 - length m mod 64) mod 64) 0 @ le64 (8 * length m)"

fun rfc_output :: "md5_state \<Rightarrow> byte list" where
  "rfc_output (a, b, c, d) = rfc_bytes a @ rfc_bytes b @ rfc_bytes c @ rfc_bytes d"

definition md5_spec :: "byte list \<Rightarrow> byte list" where
  "md5_spec m = rfc_output (absorb rfc_iv (md5_pad m))"

lemma word_byte_of_nat:
  assumes "k + 8 \<le> 32"
  shows "(ucast (drop_bit k (of_nat x :: u32)) :: byte) = of_nat (x div 2 ^ k)"
  using assms
  by (intro bit_word_eqI) (simp add: bit_simps flip: drop_bit_eq_div)

lemma word_bytes_le64:
  "word_bytes (of_nat x) @ word_bytes (of_nat (x div 2 ^ 32)) = le64 x"
proof -
  have "word_bytes (of_nat y) = map (\<lambda>i. of_nat (y div 2 ^ (8 * i))) [0, 1, 2, 3]" for y
    using word_byte_of_nat [of 0 y] by (simp add: word_bytes_def word_byte_of_nat del: of_nat_div)
  moreover have "[0..<8] = [0, 1, 2, 3, 4, 5, 6, 7]" by (simp add: upt_rec)
  ultimately show ?thesis by (simp add: le64_def flip: div_mult2_eq)
qed

lemma word_bytes_rfc: "word_bytes w = rfc_bytes w"
proof -
  have "(ucast (drop_bit k w) :: byte) = of_nat (unat w div 2 ^ k)" if "k + 8 \<le> 32" for k
    using word_byte_of_nat [OF that, of "unat w"] by simp
  from this [of 0] this [of 8] this [of 16] this [of 24] show ?thesis
    by (simp add: rfc_bytes_def word_bytes_def upt_rec)
qed

lemma state_bytes_rfc: "state_bytes st = rfc_output st"
  by (cases st) (simp add: word_bytes_rfc)

lemma final_padding:
  assumes "b < 64"
  shows "take ((if b < 56 then 56 else 120) - b) finalBlock = 0x80 # replicate ((119 - b) mod 64) 0"
proof (cases "b < 56")
  case True
  then have "(119 - b) mod 64 = 55 - b" "56 - b = Suc (55 - b)" using le_mod_geq [of 64 "119 - b"] by auto
  with True show ?thesis by (simp add: finalBlock_def)
next
  case False
  then have "(119 - b) mod 64 = 119 - b" "120 - b = Suc (119 - b)" using assms by auto
  with False show ?thesis by (simp add: finalBlock_def)
qed

lemma MD5Final_spec:
  assumes "ctx_of ctx m"
  shows "MD5Final ctx = Some (md5_spec m, \<lparr>state = (0, 0, 0, 0), count0 = 0, count1 = 0, buffer = replicate 64 0\<rparr>)"
proof -
  let ?b = "length m mod 64"
  let ?p = "0x80 # replicate ((119 - ?b) mod 64) (0 :: byte)"
  have c: "count0 ctx = of_nat (8 * length m)" "count1 ctx = of_nat (8 * length m div 2 ^ 32)"
    using assms by (simp_all add: ctx_of_def)
  have bits: "word_bytes (count0 ctx) @ word_bytes (count1 ctx) = le64 (8 * length m)"
    unfolding c by (rule word_bytes_le64)
  have bi: "unat (drop_bit 3 (count0 ctx) AND 0x3F) = ?b" by (rule byte_index [OF c(1)])
  have "(119 - ?b) mod 64 < 64" by simp
  then have "length ?p < 2 ^ 29" by simp
  from update_rep [OF assms this] obtain c1 where c1: "MD5Update ctx ?p = Some c1" "ctx_of c1 (m @ ?p)" by blast
  have "length (le64 (8 * length m)) < 2 ^ 29" by (simp add: le64_def)
  from update_rep [OF c1(2) this] obtain c2 where
    c2: "MD5Update c1 (le64 (8 * length m)) = Some c2" "ctx_of c2 ((m @ ?p) @ le64 (8 * length m))" by blast
  have "state c2 = absorb md5_iv (md5_pad m)" using c2(2) by (simp add: ctx_of_def md5_pad_def)
  then show ?thesis
    using c1(1) c2(1) final_padding [of ?b]
    unfolding MD5Final_def Let_def bits bi by (simp add: md5_spec_def state_bytes_rfc md5_iv_rfc)
qed

lemma ctx_of_init: "length (buffer ctx) = 64 \<Longrightarrow> ctx_of (MD5Init ctx) []"
  by (simp add: ctx_of_def MD5Init_def absorb_short)

text \<open>The words of the padded message \<open>abc\<close> and the digest of it, round by round.\<close>

definition abc_words :: "u32 list" where
  "abc_words = [0x80636261, 0, 0, 0, 0, 0, 0, 0, 0, 0, 0, 0, 0, 0, 24, 0]"

lemma abc_split: "md5_rounds = take 16 md5_rounds @ take 16 (drop 16 md5_rounds) @
    take 16 (drop 32 md5_rounds) @ drop 48 md5_rounds"
  by (simp add: md5_rounds_def)

lemma abc_round1: "foldl (md5_op abc_words) (0x67452301, 0xefcdab89, 0x98badcfe, 0x10325476) (take 16 md5_rounds) =
    (0xdda9b9a6, 0x72aff2e0, 0xe396856b, 0xa1051895)"
  by (simp add: abc_words_def md5_rounds_def ROTATE_LEFT_def)

lemma abc_round2: "foldl (md5_op abc_words) (0xdda9b9a6, 0x72aff2e0, 0xe396856b, 0xa1051895) (take 16 (drop 16 md5_rounds)) =
    (0x790a77fb, 0x726342d3, 0xa62884aa, 0x9f47e4f8)"
  by (simp add: abc_words_def md5_rounds_def ROTATE_LEFT_def)

lemma abc_round3: "foldl (md5_op abc_words) (0x790a77fb, 0x726342d3, 0xa62884aa, 0x9f47e4f8) (take 16 (drop 32 md5_rounds)) =
    (0x7f2e507b, 0x7beb9700, 0x8fae6399, 0x99d9679d)"
  by (simp add: abc_words_def md5_rounds_def ROTATE_LEFT_def)

lemma abc_round4: "foldl (md5_op abc_words) (0x7f2e507b, 0x7beb9700, 0x8fae6399, 0x99d9679d) (drop 48 md5_rounds) =
    (0x310ade8f, 0xc08226b3, 0xe484b9d8, 0x624d8cb2)"
  by (simp add: abc_words_def md5_rounds_def ROTATE_LEFT_def)

lemma abc_pad: "md5_pad [0x61, 0x62, 0x63] =
    [0x61, 0x62, 0x63, 0x80] @ replicate 52 0 @ [24, 0, 0, 0, 0, 0, 0, 0]"
  by (simp add: md5_pad_def le64_def upt_rec)

lemma replicate_52: "replicate 52 z = [
    z, z, z, z, z, z, z, z, z, z, z, z, z, z, z, z, z, z, z, z, z, z, z, z, z, z,
    z, z, z, z, z, z, z, z, z, z, z, z, z, z, z, z, z, z, z, z, z, z, z, z, z, z]"
  by (simp add: numeral_nat)

lemma abc_block: "CopyToLittleEndian (md5_pad [0x61, 0x62, 0x63]) = abc_words"
  by (simp add: abc_pad abc_words_def replicate_52)

lemma abc_digest: "md5_spec [0x61, 0x62, 0x63] =
    [0x90, 0x01, 0x50, 0x98, 0x3c, 0xd2, 0x4f, 0xb0, 0xd6, 0x96, 0x3f, 0x7d, 0x28, 0xe1, 0x7f, 0x72]"
proof -
  have l: "length (md5_pad [0x61, 0x62, 0x63]) = 64" by (simp add: abc_pad)
  then have "rfc_words (md5_pad [0x61, 0x62, 0x63]) = abc_words" by (simp only: abc_block flip: block_words)
  moreover have "absorb rfc_iv (md5_pad [0x61, 0x62, 0x63]) = rfc_compress rfc_iv (md5_pad [0x61, 0x62, 0x63])"
    using absorb_block [of "md5_pad [0x61, 0x62, 0x63]" rfc_iv "[]"] l by (simp add: absorb_short)
  ultimately have "absorb rfc_iv (md5_pad [0x61, 0x62, 0x63]) = rfc_plus (fold (rfc_step abc_words) [0..<64] md5_iv) md5_iv"
    by (simp only: rfc_compress_def md5_iv_rfc)
  also have "\<dots> = (0x98500190, 0xb04fd23c, 0x7d3f96d6, 0x727fe128)"
    unfolding foldl_rounds [symmetric] md5_iv_def
    by (subst abc_split) (simp only: foldl_append abc_round1 abc_round2 abc_round3 abc_round4, simp)
  finally show ?thesis by (simp add: md5_spec_def word_bytes_def flip: word_bytes_rfc)
qed

section \<open>Properties\<close>

text \<open>
  C8: however a message is cut into pieces of less than \<open>2 ^ 29\<close> bytes (half a gigabyte), which are given to \<^verbatim>\<open>MD5Update\<close> one
  after the other, the digest \<^verbatim>\<open>MD5Final\<close> gives is the one of RFC 1321 for the whole message, and no call has undefined
  behaviour.  The function of the RFC is stated on its own: its constants are the integer parts of scaled sines, its initial words
  and the order of bytes are written out.  Larger pieces are miscounted (\<open>long_update_miscounts\<close>).
\<close>

theorem md5_pieces:
  assumes "length (buffer ctx) = 64" and "list_all (\<lambda>xs. length xs < 2 ^ 29) xss"
  shows "\<exists>ctx'. feeds MD5Update (MD5Init ctx) xss = Some ctx' \<and>
    map_option fst (MD5Final ctx') = Some (md5_spec (concat xss))"
  using md5_stream.feeds_rep [OF ctx_of_init [OF assms(1)] assms(2)]
  by (auto simp: MD5Final_spec)

definition blank_ctx :: md5_ctx where
  "blank_ctx = \<lparr>state = (0, 0, 0, 0), count0 = 0, count1 = 0, buffer = replicate 64 0\<rparr>"

theorem md5_pieces_witness:
  "\<exists>ctx'. feeds MD5Update (MD5Init blank_ctx) [[0x61], [], [0x62, 0x63]] = Some ctx' \<and>
     map_option fst (MD5Final ctx') =
       Some [0x90, 0x01, 0x50, 0x98, 0x3c, 0xd2, 0x4f, 0xb0, 0xd6, 0x96, 0x3f, 0x7d, 0x28, 0xe1, 0x7f, 0x72]"
  using md5_pieces [of blank_ctx "[[0x61], [], [0x62, 0x63]]"]
  by (simp add: blank_ctx_def abc_digest del: feeds.simps)

lemma concat_fread_blocks: "0 < n \<Longrightarrow> concat (fread_blocks n bs) = bs"
  by (induction n bs rule: fread_blocks.induct) (subst fread_blocks.simps; simp)

lemma length_fread_blocks: "list_all (\<lambda>xs. length xs \<le> n) (fread_blocks n bs)"
  by (induction n bs rule: fread_blocks.induct) (subst fread_blocks.simps; simp)

lemma md5_of_pieces_spec:
  "length (buffer ctx) = 64 \<Longrightarrow> list_all (\<lambda>xs. length xs < 2 ^ 29) xss \<Longrightarrow>
   md5_of_pieces ctx xss = LPushed (md5_spec (concat xss))"
  using md5_stream.feeds_rep [OF ctx_of_init, of ctx xss]
  by (auto simp: md5_of_pieces_def MD5Final_spec)

text \<open>
  The Lua function gives the digest of an open file of any length, read in blocks, and the
  same digest for a string with the same bytes (of less than half a gigabyte).
\<close>

theorem lmd5_file_and_string:
  assumes "length (buffer ctx) = 64"
  shows "lmd5 ctx [LFile bs] = LPushed (md5_spec bs) \<and>
    (length bs < 2 ^ 29 \<longrightarrow> lmd5 ctx [LString bs] = LPushed (md5_spec bs))"
proof -
  have "list_all (\<lambda>xs. length xs < 2 ^ 29) (fread_blocks 4096 bs)"
    using length_fread_blocks [of 4096 bs] by (auto simp: list_all_iff)
  then have "md5_of_pieces ctx (fread_blocks 4096 bs) = LPushed (md5_spec bs)"
    using assms by (simp add: md5_of_pieces_spec concat_fread_blocks)
  with assms show ?thesis by (simp add: lmd5_def md5_of_pieces_spec)
qed

theorem lmd5_file_and_string_witness:
  "lmd5 blank_ctx [LString [0x61, 0x62, 0x63]] =
     LPushed [0x90, 0x01, 0x50, 0x98, 0x3c, 0xd2, 0x4f, 0xb0, 0xd6, 0x96, 0x3f, 0x7d, 0x28, 0xe1, 0x7f, 0x72]"
  using lmd5_file_and_string [of blank_ctx "[0x61, 0x62, 0x63]"]
  by (simp add: blank_ctx_def abc_digest)

text \<open>
  One update of half a gigabyte or more counts the carry into the high word of the length
  twice (unless the low words carry by themselves): the digest then belongs to another length.
\<close>

theorem long_update_miscounts:
  assumes c: "ctx_of ctx m" and n: "2 ^ 29 \<le> length xs" "length xs < 2 ^ 31"
    and nc: "8 * length m mod 2 ^ 32 + 8 * length xs mod 2 ^ 32 < 2 ^ 32"
  shows "\<exists>ctx'. MD5Update ctx xs = Some ctx' \<and>
    count1 ctx' = of_nat (8 * length (m @ xs) div 2 ^ 32) + 1"
proof -
  let ?c0 = "count0 ctx + of_nat (8 * length xs)"
  have inc: "(8 * length xs) mod 2 ^ 64 = 8 * length xs" using n by simp
  have lt: "unat ?c0 < 8 * length xs" using unsigned_less [of ?c0, where ?'a = nat] n(1) by simp
  have "8 * length xs div 2 ^ 32 = length xs div 2 ^ 29"
    using div_mult2_eq [of "8 * length xs" 8 "2 ^ 29"] by simp
  moreover have "8 * length (m @ xs) div 2 ^ 32 = 8 * length m div 2 ^ 32 + 8 * length xs div 2 ^ 32"
    using div_add1_eq [of "8 * length m" "8 * length xs" "2 ^ 32"] nc by simp
  ultimately have c1: "count1 ctx + 1 + of_nat (length xs div 2 ^ 29) = of_nat (8 * length (m @ xs) div 2 ^ 32) + 1"
    using c by (simp only: ctx_of_def of_nat_add ac_simps)
  let ?pl = "64 - unat (drop_bit 3 (count0 ctx) AND 0x3F)"
  have pl: "?pl \<le> length xs" using n(1) by simp
  have "?pl + 64 * ((length xs - ?pl) div 64) \<le> length xs"
    using pl by (metis le_diff_conv2 mult.commute div_times_less_eq_dividend add.commute)
  then have i: "\<not> 2 ^ 31 \<le> ?pl + 64 * ((length xs - ?pl) div 64)" using n(2) by linarith
  show ?thesis
    unfolding MD5Update_def Let_def inc
    by (simp only: pl lt i c1 if_True if_False if_P [OF lt] if_P [OF pl] if_not_P [OF i]) simp
qed

theorem long_update_miscounts_witness:
  "\<exists>ctx'. MD5Update (MD5Init blank_ctx) (replicate (2 ^ 29) 0) = Some ctx' \<and> count1 ctx' = 2"
  using long_update_miscounts [of "MD5Init blank_ctx" "[]" "replicate (2 ^ 29) 0"] ctx_of_init [of blank_ctx]
  by (simp add: blank_ctx_def)

end
