(* ===== verification/ExecFamily.thy ===== *)
theory ExecFamily
  imports CLib
begin

text \<open>
  \<^verbatim>\<open>misc/tools-source/fl_wrapper_execl.c\<close>: the \<^verbatim>\<open>exec\<close> functions of the file list wrapper
  library, which turn argument lists into vectors and search \<^verbatim>\<open>PATH\<close>.

  A pointer to a string is a \<^verbatim>\<open>string option\<close>, \<open>None\<close> the null pointer.  The system call
  \<^verbatim>\<open>execve\<close> is a parameter: it gives \<open>None\<close> when the process is replaced, the error number
  otherwise.  The addresses of the blocks of \<^verbatim>\<open>alloca\<close> are a parameter as well; pointers
  have 8 bytes.  The variant of \<^verbatim>\<open>execvp\<close> is the one that is not for dietlibc.
\<close>

section \<open>Collecting the arguments\<close>

text \<open>
  \<open>space\<close> is the number of pointers that were allocated at \<open>base\<close>, \<open>argv_max\<close> what the
  function believes; \<open>allocs\<close> counts the calls of \<^verbatim>\<open>alloca\<close>.
\<close>

record argvec =
  base :: int
  cells :: "string option list"
  argv_max :: nat
  space :: nat
  allocs :: nat

definition grow :: "(nat \<Rightarrow> int) \<Rightarrow> argvec \<Rightarrow> argvec" where
  "grow alloc v =
     (let m = 2 * argv_max v; nptr = alloc (allocs v); i = length (cells v) in
      if nptr + int m = base v then
        v\<lparr>base := nptr, argv_max := m + i, space := m, allocs := allocs v + 1\<rparr>
      else if base v + int i = nptr then
        v\<lparr>argv_max := m + i, allocs := allocs v + 1\<rparr>
      else v\<lparr>base := nptr, argv_max := m, space := m, allocs := allocs v + 1\<rparr>)"

text \<open>
  \<open>va_loop\<close> is the loop over \<^verbatim>\<open>va_arg\<close>; it has no result when the list does not end
  with a null pointer or when a pointer is stored outside the block.
\<close>

fun va_loop ::
  "(nat \<Rightarrow> int) \<Rightarrow> string option list \<Rightarrow> argvec \<Rightarrow> (argvec \<times> string option list) option" where
  "va_loop alloc [] v = (if last (cells v) = None then Some (v, []) else None)"
| "va_loop alloc (a # rest) v =
     (if last (cells v) = None then Some (v, a # rest)
      else
        (let v' = (if length (cells v) = argv_max v then grow alloc v else v) in
         if length (cells v') < space v' then va_loop alloc rest (v'\<lparr>cells := cells v' @ [a]\<rparr>)
         else None))"

definition first_cell :: "(nat \<Rightarrow> int) \<Rightarrow> string option \<Rightarrow> argvec" where
  "first_cell alloc arg =
     \<lparr>base = alloc 0, cells = [arg], argv_max = 1024, space = 1024, allocs = 1\<rparr>"

text \<open>What the kernel reads from a vector; \<open>None\<close> if it is not terminated.\<close>

fun c_vector :: "string option list \<Rightarrow> string list option" where
  "c_vector [] = None"
| "c_vector (None # xs) = Some []"
| "c_vector (Some x # xs) = map_option ((#) x) (c_vector xs)"

section \<open>Executing\<close>

type_synonym errno = nat

definition ENOENT :: errno where "ENOENT = 2"
definition ENOEXEC :: errno where "ENOEXEC = 8"
definition EACCES :: errno where "EACCES = 13"
definition ENOTDIR :: errno where "ENOTDIR = 20"
definition ESTALE :: errno where "ESTALE = 116"

lemmas errnos = ENOENT_def ENOEXEC_def EACCES_def ENOTDIR_def ESTALE_def

type_synonym environ = "string list"
type_synonym syscall = "string \<Rightarrow> string list \<Rightarrow> environ \<Rightarrow> errno option"

datatype exec_result = Replaced string "string list" environ | Failed errno | Undefined_exec

definition do_execve :: "syscall \<Rightarrow> string \<Rightarrow> string option list \<Rightarrow> environ \<Rightarrow> exec_result" where
  "do_execve sys path argv envp =
     (case c_vector argv of
        None \<Rightarrow> Undefined_exec
      | Some xs \<Rightarrow>
          (case sys path xs envp of None \<Rightarrow> Replaced path xs envp | Some e \<Rightarrow> Failed e))"

definition execl :: "(nat \<Rightarrow> int) \<Rightarrow> syscall \<Rightarrow> environ \<Rightarrow> string \<Rightarrow> string option list \<Rightarrow> exec_result" where
  "execl alloc sys env path args =
     (case args of
        [] \<Rightarrow> Undefined_exec
      | arg # rest \<Rightarrow>
          (case va_loop alloc rest (first_cell alloc arg) of
             None \<Rightarrow> Undefined_exec
           | Some (v, _) \<Rightarrow> do_execve sys path (cells v) env))"

text \<open>\<open>envs\<close>: the environment that the caller passed behind the null pointer, if it did.\<close>

definition execle ::
  "(nat \<Rightarrow> int) \<Rightarrow> syscall \<Rightarrow> string \<Rightarrow> string option list \<Rightarrow> environ option \<Rightarrow> exec_result" where
  "execle alloc sys path args envs =
     (case args of
        [] \<Rightarrow> Undefined_exec
      | arg # rest \<Rightarrow>
          (case va_loop alloc rest (first_cell alloc arg) of
             Some (v, []) \<Rightarrow>
               (case envs of None \<Rightarrow> Undefined_exec | Some envp \<Rightarrow> do_execve sys path (cells v) envp)
           | _ \<Rightarrow> Undefined_exec))"

text \<open>\<^verbatim>\<open>script_execute\<close>: \<open>argc\<close> counts the null pointer too; the loop copies from the end.\<close>

fun script_loop :: "nat \<Rightarrow> string option list \<Rightarrow> string option list \<Rightarrow> string option list" where
  "script_loop argc argv new_argv =
     (if argc > 1 then script_loop (argc - 1) argv (new_argv[argc := argv ! (argc - 1)]) else new_argv)"

declare script_loop.simps [simp del]

definition count_args :: "string option list \<Rightarrow> nat" where
  "count_args argv = length (takeWhile (\<lambda>x. x \<noteq> None) argv) + 1"

text \<open>\<open>junk\<close> is the indeterminate content of the array before it is filled.\<close>

definition script_vector :: "string option \<Rightarrow> string \<Rightarrow> string option list \<Rightarrow> string option list" where
  "script_vector junk file argv =
     (let argc = count_args argv in
      script_loop argc argv ((replicate (argc + 1) junk)[0 := Some ''/bin/sh'', 1 := Some file]))"

definition script_execute ::
  "syscall \<Rightarrow> string option \<Rightarrow> environ \<Rightarrow> string \<Rightarrow> string option list \<Rightarrow> exec_result" where
  "script_execute sys junk env file argv = do_execve sys ''/bin/sh'' (script_vector junk file argv) env"

definition try_exec ::
  "syscall \<Rightarrow> string option \<Rightarrow> environ \<Rightarrow> string \<Rightarrow> string option list \<Rightarrow> exec_result" where
  "try_exec sys junk env file argv =
     (case do_execve sys file argv env of
        Failed e \<Rightarrow> if e = ENOEXEC then script_execute sys junk env file argv else Failed e
      | r \<Rightarrow> r)"

definition start_name :: "string \<Rightarrow> string \<Rightarrow> string" where
  "start_name file dir = (if dir = [] then file else dir @ ''/'' @ file)"

fun search_loop ::
  "syscall \<Rightarrow> string option \<Rightarrow> environ \<Rightarrow> string \<Rightarrow> string option list \<Rightarrow>
   string list \<Rightarrow> errno \<Rightarrow> bool \<Rightarrow> exec_result" where
  "search_loop sys junk env file argv [] err got_eacces = Failed (if got_eacces then EACCES else err)"
| "search_loop sys junk env file argv (d # ds) err got_eacces =
     (case try_exec sys junk env (start_name file d) argv of
        Failed e \<Rightarrow>
          (if e = EACCES then search_loop sys junk env file argv ds e True
           else if e = ENOENT \<or> e = ESTALE \<or> e = ENOTDIR
             then search_loop sys junk env file argv ds e got_eacces
           else Failed e)
      | r \<Rightarrow> r)"

definition execvp ::
  "syscall \<Rightarrow> string option \<Rightarrow> environ \<Rightarrow> string option \<Rightarrow> string \<Rightarrow> string \<Rightarrow> string option list \<Rightarrow>
   exec_result" where
  "execvp sys junk env path confstr file argv =
     (if file = [] then Failed ENOENT
      else if CHR ''/'' \<in> set file then try_exec sys junk env file argv
      else search_loop sys junk env file argv
             (pieces CHR '':'' (case path of None \<Rightarrow> CHR '':'' # confstr | Some p \<Rightarrow> p)) 0 False)"

definition execlp ::
  "(nat \<Rightarrow> int) \<Rightarrow> syscall \<Rightarrow> string option \<Rightarrow> environ \<Rightarrow> string option \<Rightarrow> string \<Rightarrow> string \<Rightarrow>
   string option list \<Rightarrow> exec_result" where
  "execlp alloc sys junk env path confstr file args =
     (case args of
        [] \<Rightarrow> Undefined_exec
      | arg # rest \<Rightarrow>
          (case va_loop alloc rest (first_cell alloc arg) of
             None \<Rightarrow> Undefined_exec
           | Some (v, _) \<Rightarrow> execvp sys junk env path confstr file (cells v)))"

section \<open>The vectors are complete\<close>

text \<open>
  The law of \<^verbatim>\<open>alloca\<close> the functions rely on: a new block does not overlap the one it replaces.
\<close>

definition separate_blocks :: "(nat \<Rightarrow> int) \<Rightarrow> bool" where
  "separate_blocks alloc \<longleftrightarrow>
     (\<forall>k. alloc (Suc k) + 8 * 1024 * 2 ^ Suc k \<le> alloc k \<or> alloc k + 8 * 1024 * 2 ^ k \<le> alloc (Suc k))"

definition vec_inv :: "(nat \<Rightarrow> int) \<Rightarrow> argvec \<Rightarrow> bool" where
  "vec_inv alloc v \<longleftrightarrow>
     (\<exists>k. allocs v = Suc k \<and> base v = alloc k \<and> argv_max v = 1024 * 2 ^ k) \<and>
     space v = argv_max v \<and> cells v \<noteq> [] \<and> length (cells v) \<le> argv_max v"

lemma grow_inv:
  assumes "separate_blocks alloc" "vec_inv alloc v" "length (cells v) = argv_max v"
  shows "vec_inv alloc (grow alloc v) \<and> cells (grow alloc v) = cells v \<and>
    length (cells v) < space (grow alloc v)"
proof -
  from assms(2) obtain k where k: "allocs v = Suc k" "base v = alloc k" "argv_max v = 1024 * 2 ^ k"
    by (auto simp: vec_inv_def)
  define p where "p = (2 :: int) ^ k"
  have p: "0 < p" "int (argv_max v) = 1024 * p" by (simp_all add: p_def k)
  have "alloc (Suc k) + 16384 * p \<le> alloc k \<or> alloc k + 8192 * p \<le> alloc (Suc k)"
    using assms(1) unfolding separate_blocks_def p_def by (auto dest: spec [of _ k])
  with p have "alloc (Suc k) + int (2 * argv_max v) \<noteq> base v" "base v + int (length (cells v)) \<noteq> alloc (Suc k)"
    using assms(3) k(2) by auto
  then have "grow alloc v = v\<lparr>base := alloc (Suc k), argv_max := 2 * argv_max v, space := 2 * argv_max v,
      allocs := Suc (Suc k)\<rparr>"
    by (simp add: grow_def Let_def k)
  with assms k show ?thesis by (simp add: vec_inv_def)
qed

lemma va_loop_push:
  assumes "last (cells v) \<noteq> None"
    and "length (cells (if length (cells v) = argv_max v then grow alloc v else v)) <
      space (if length (cells v) = argv_max v then grow alloc v else v)"
  shows "va_loop alloc (a # rest) v = va_loop alloc rest
      ((if length (cells v) = argv_max v then grow alloc v else v)
        \<lparr>cells := cells (if length (cells v) = argv_max v then grow alloc v else v) @ [a]\<rparr>)"
  using assms by (simp only: va_loop.simps Let_def if_False if_True)

lemma va_loop_complete:
  assumes "separate_blocks alloc"
  shows "vec_inv alloc v \<Longrightarrow> last (cells v) \<noteq> None \<Longrightarrow> list_all (\<lambda>x. x \<noteq> None) xs \<Longrightarrow>
    \<exists>v'. va_loop alloc (xs @ None # rest) v = Some (v', rest) \<and> cells v' = cells v @ xs @ [None] \<and>
      vec_inv alloc v'"
proof (induction xs arbitrary: v)
  case Nil
  let ?v = "if length (cells v) = argv_max v then grow alloc v else v"
  have v: "vec_inv alloc ?v" "cells ?v = cells v" "length (cells v) < space ?v"
    using grow_inv [OF assms Nil(1)] Nil(1) by (auto simp: vec_inv_def)
  have "va_loop alloc ([] @ None # rest) v = va_loop alloc rest (?v\<lparr>cells := cells v @ [None]\<rparr>)"
    using va_loop_push [OF Nil(2), of alloc None rest] v by simp
  moreover have "\<dots> = Some (?v\<lparr>cells := cells v @ [None]\<rparr>, rest)" by (cases rest) simp_all
  moreover have "vec_inv alloc (?v\<lparr>cells := cells v @ [None]\<rparr>)" using v by (auto simp: vec_inv_def)
  ultimately show ?case by simp
next
  case (Cons x xs)
  let ?v = "if length (cells v) = argv_max v then grow alloc v else v"
  have v: "vec_inv alloc ?v" "cells ?v = cells v" "length (cells v) < space ?v"
    using grow_inv [OF assms Cons(2)] Cons(2) by (auto simp: vec_inv_def)
  have "va_loop alloc ((x # xs) @ None # rest) v = va_loop alloc (xs @ None # rest) (?v\<lparr>cells := cells v @ [x]\<rparr>)"
    using va_loop_push [OF Cons(3), of alloc x "xs @ None # rest"] v by simp
  moreover have "vec_inv alloc (?v\<lparr>cells := cells v @ [x]\<rparr>)" using v by (auto simp: vec_inv_def)
  ultimately show ?case using Cons.IH [of "?v\<lparr>cells := cells v @ [x]\<rparr>"] Cons.prems(3) by simp
qed

lemma c_vector_Some: "c_vector (map Some xs @ None # ys) = Some xs"
  by (induction xs) simp_all

lemma first_cell_inv: "vec_inv alloc (first_cell alloc a)"
  by (simp add: vec_inv_def first_cell_def)

lemma varargs_complete:
  assumes "separate_blocks alloc"
  shows "\<exists>v. va_loop alloc (map Some xs @ None # rest) (first_cell alloc (Some a)) = Some (v, rest) \<and>
    cells v = map Some (a # xs) @ [None] \<and> length (cells v) \<le> space v"
proof -
  have "list_all (\<lambda>x. x \<noteq> None) (map Some xs)" by (simp add: list_all_iff)
  with va_loop_complete [OF assms first_cell_inv, of "Some a" "map Some xs" rest]
  show ?thesis by (auto simp: first_cell_def vec_inv_def)
qed

section \<open>Properties\<close>

definition call :: "syscall \<Rightarrow> string \<Rightarrow> string list \<Rightarrow> environ \<Rightarrow> exec_result" where
  "call sys path xs env = (case sys path xs env of None \<Rightarrow> Replaced path xs env | Some e \<Rightarrow> Failed e)"

lemma do_execve_vector: "do_execve sys path (map Some xs @ None # rest) env = call sys path xs env"
  by (simp add: do_execve_def c_vector_Some call_def)

text \<open>
  \<^verbatim>\<open>execl\<close> and \<^verbatim>\<open>execle\<close> pass exactly the arguments before the null pointer, however many
  there are, without a store outside the vector, as long as \<^verbatim>\<open>alloca\<close> returns separate blocks.
\<close>

theorem execl_passes_arguments:
  assumes "separate_blocks alloc"
  shows "execl alloc sys env path (map Some (a # xs) @ None # rest) = call sys path (a # xs) env \<and>
    execle alloc sys path (map Some (a # xs) @ [None]) (Some envp) = call sys path (a # xs) envp"
proof -
  have d: "do_execve sys path (Some a # map Some xs @ [None]) e = call sys path (a # xs) e" for e
    using do_execve_vector [of sys path "a # xs" "[]" e] by simp
  obtain v where "va_loop alloc (map Some xs @ None # rest) (first_cell alloc (Some a)) = Some (v, rest)"
    "cells v = map Some (a # xs) @ [None]"
    using varargs_complete [OF assms, of xs rest a] by blast
  moreover obtain w where "va_loop alloc (map Some xs @ [None]) (first_cell alloc (Some a)) = Some (w, [])"
    "cells w = map Some (a # xs) @ [None]"
    using varargs_complete [OF assms, of xs "[]" a] by blast
  ultimately show ?thesis by (simp add: execl_def execle_def d)
qed

definition stack_down :: "nat \<Rightarrow> int" where
  "stack_down k = - (8 * 1024 * 2 ^ Suc k)"

theorem execl_passes_arguments_witness:
  "execl stack_down (\<lambda>p xs env. if p = ''/bin/ls'' then None else Some ENOENT) [''A=1''] ''/bin/ls''
     [Some ''ls'', Some ''-l'', None] = Replaced ''/bin/ls'' [''ls'', ''-l''] [''A=1'']"
proof -
  have "separate_blocks stack_down" by (simp add: separate_blocks_def stack_down_def)
  from execl_passes_arguments [OF this, of "\<lambda>p xs env. if p = ''/bin/ls'' then None else Some ENOENT"
      "[''A=1'']" "''/bin/ls''" "''ls''" "[''-l'']" "[]" "[]"]
  show ?thesis by (simp add: call_def)
qed

lemma script_loop_copies:
  "0 < k \<Longrightarrow> k \<le> length argv \<Longrightarrow> k < length new_argv \<Longrightarrow>
   script_loop k argv new_argv = take 2 new_argv @ drop 1 (take k argv) @ drop (k + 1) new_argv"
proof (induction k arbitrary: new_argv)
  case 0
  then show ?case by simp
next
  case (Suc k)
  show ?case
  proof (cases "k = 0")
    case True
    then show ?thesis
      using Suc.prems by (subst script_loop.simps) (cases argv; simp add: numeral_2_eq_2)
  next
    case False
    let ?new = "new_argv[Suc k := argv ! k]"
    have "script_loop (Suc k) argv new_argv = script_loop k argv ?new"
      using False by (subst script_loop.simps) simp
    also have "\<dots> = take 2 ?new @ drop 1 (take k argv) @ drop (k + 1) ?new"
      using Suc False by simp
    also have "take 2 ?new = take 2 new_argv" using False by (simp add: take_update_cancel)
    also have "drop (k + 1) ?new = argv ! k # drop (Suc k + 1) new_argv"
      using Suc.prems by (subst Cons_nth_drop_Suc [symmetric]) simp_all
    also have "drop 1 (take k argv) @ argv ! k # drop (Suc k + 1) new_argv =
        drop 1 (take (Suc k) argv) @ drop (Suc k + 1) new_argv"
      using Suc.prems False by (simp add: take_Suc_conv_app_nth)
    finally show ?thesis .
  qed
qed

lemma count_args: "count_args (map Some xs @ None # rest) = Suc (length xs)"
  by (simp add: count_args_def takeWhile_append)

text \<open>
  A script is run by the shell with the name of the script in front of its arguments; when
  the vector of the caller has not even a command name, the vector for the shell has no
  terminating null pointer.
\<close>

theorem script_execute_vector:
  "script_execute sys junk env file (map Some (a # xs) @ None # rest) =
     call sys ''/bin/sh'' (''/bin/sh'' # file # xs) env \<and>
   script_execute sys junk env file (None # rest) = Undefined_exec"
proof -
  let ?argv = "map Some (a # xs) @ None # rest"
  let ?new = "(replicate (Suc (Suc (length (a # xs)))) junk)[0 := Some ''/bin/sh'', 1 := Some file]"
  have "script_vector junk file ?argv = script_loop (Suc (length (a # xs))) ?argv ?new"
    by (simp only: script_vector_def count_args Let_def) simp
  also have "\<dots> = map Some (''/bin/sh'' # file # xs) @ [None]"
    by (subst script_loop_copies) (simp_all add: numeral_2_eq_2)
  finally have "script_vector junk file ?argv = map Some (''/bin/sh'' # file # xs) @ None # []" .
  moreover have "script_vector junk file (None # rest) = [Some ''/bin/sh'', Some file]"
    by (simp add: script_vector_def count_args_def script_loop.simps)
  ultimately show ?thesis
    using do_execve_vector [of sys "''/bin/sh''" "''/bin/sh'' # file # xs" "[]" env]
    by (simp add: script_execute_def do_execve_def)
qed

definition soft_errno :: "errno \<Rightarrow> bool" where
  "soft_errno e \<longleftrightarrow> e = EACCES \<or> e = ENOENT \<or> e = ESTALE \<or> e = ENOTDIR"

definition soft_fails :: "syscall \<Rightarrow> string list \<Rightarrow> environ \<Rightarrow> string \<Rightarrow> bool" where
  "soft_fails sys xs env x = (case sys x xs env of None \<Rightarrow> False | Some e \<Rightarrow> soft_errno e)"

definition candidates :: "string \<Rightarrow> string \<Rightarrow> string list" where
  "candidates file path = map (start_name file) (pieces CHR '':'' path)"

lemma search_loop_soft:
  assumes "list_all (\<lambda>d. soft_fails sys xs env (start_name file d)) ds"
  shows "search_loop sys junk env file (map Some xs @ None # rest) (ds @ ds') err got =
    search_loop sys junk env file (map Some xs @ None # rest) ds'
      (if ds = [] then err else the (sys (start_name file (last ds)) xs env))
      (got \<or> (\<exists>d \<in> set ds. sys (start_name file d) xs env = Some EACCES))"
  using assms
proof (induction ds arbitrary: err got)
  case Nil
  then show ?case by simp
next
  case (Cons d ds)
  then obtain e where e: "sys (start_name file d) xs env = Some e" "soft_errno e"
    by (auto simp: soft_fails_def split: option.splits)
  have t: "try_exec sys junk env (start_name file d) (map Some xs @ None # rest) = Failed e"
    using e by (auto simp: try_exec_def do_execve_vector call_def soft_errno_def errnos)
  have IH: "search_loop sys junk env file (map Some xs @ None # rest) (ds @ ds') err' got' =
    search_loop sys junk env file (map Some xs @ None # rest) ds'
      (if ds = [] then err' else the (sys (start_name file (last ds)) xs env))
      (got' \<or> (\<exists>d \<in> set ds. sys (start_name file d) xs env = Some EACCES))" for err' got'
    using Cons.prems by (intro Cons.IH) simp
  have r: "search_loop sys junk env file (map Some xs @ None # rest) ((d # ds) @ ds') err got =
      search_loop sys junk env file (map Some xs @ None # rest) (ds @ ds') e (got \<or> e = EACCES)"
    using e(2) by (auto simp: t soft_errno_def errnos)
  show ?case unfolding r IH using e(1) by (cases ds) (auto simp: disj_ac)
qed

text \<open>
  C13: for a name without a slash the directories of \<^verbatim>\<open>PATH\<close> are tried in order, an empty one
  as the current directory: the first candidate that can be executed is, as long as the
  ones before it fail because they are missing or not permitted.
\<close>

theorem execvp_first_candidate:
  assumes "file \<noteq> []" "CHR ''/'' \<notin> set file" "candidates file path = cs @ c # cs'"
    and "list_all (soft_fails sys xs env) cs" and "sys c xs env = None"
  shows "execvp sys junk env (Some path) confstr file (map Some xs @ None # rest) = Replaced c xs env"
proof -
  from assms(3) obtain ds d ds' where p: "pieces CHR '':'' path = ds @ d # ds'"
    "map (start_name file) ds = cs" "start_name file d = c"
    by (auto simp: candidates_def map_eq_append_conv)
  have "try_exec sys junk env (start_name file d) (map Some xs @ None # rest) = Replaced c xs env"
    using p(3) assms(5) by (simp add: try_exec_def do_execve_vector call_def)
  moreover have "list_all (\<lambda>d. soft_fails sys xs env (start_name file d)) ds"
    using assms(4) p(2) by (auto simp: list_all_iff)
  ultimately show ?thesis
    using assms(1,2) by (simp add: execvp_def p(1) search_loop_soft)
qed

definition two_dirs :: syscall where
  "two_dirs p xs env = (if p = ''/b/cc'' then None else if p = ''/a/cc'' then Some EACCES else Some ENOENT)"

theorem execvp_first_candidate_witness:
  "execvp two_dirs None [] (Some ''/a::/b:/c'') '''' ''cc'' [Some ''cc'', None] = Replaced ''/b/cc'' [''cc''] []"
  using execvp_first_candidate [of "''cc''" "''/a::/b:/c''" "[''/a/cc'', ''cc'']" "''/b/cc''" "[''/c/cc'']"
      two_dirs "[''cc'']" "[]" None "''''" "[]"]
  by (simp add: candidates_def start_name_def two_dirs_def soft_errno_def soft_fails_def)

text \<open>
  When no candidate can be executed, the error is "permission denied" if one of them was
  there but denied, and the error of the last candidate otherwise.
\<close>

theorem execvp_no_candidate:
  assumes "file \<noteq> []" "CHR ''/'' \<notin> set file"
    and "list_all (soft_fails sys xs env) (candidates file path)"
  shows "execvp sys junk env (Some path) confstr file (map Some xs @ None # rest) =
    Failed (if \<exists>x \<in> set (candidates file path). sys x xs env = Some EACCES then EACCES
            else the (sys (last (candidates file path)) xs env))"
proof -
  have s: "list_all (\<lambda>d. soft_fails sys xs env (start_name file d)) (pieces CHR '':'' path)"
    using assms(3) by (auto simp: candidates_def list_all_iff)
  have "last (candidates file path) = start_name file (last (pieces CHR '':'' path))"
    by (simp add: candidates_def last_map)
  moreover have "(\<exists>x \<in> set (candidates file path). sys x xs env = Some EACCES) =
      (\<exists>d \<in> set (pieces CHR '':'' path). sys (start_name file d) xs env = Some EACCES)"
    by (simp add: candidates_def)
  ultimately show ?thesis
    using assms(1,2) search_loop_soft [OF s, of junk rest "[]" 0 False]
    by (simp add: execvp_def)
qed

theorem execvp_no_candidate_witness:
  "execvp two_dirs None [] (Some ''/a:/c'') '''' ''cc'' [Some ''cc'', None] = Failed EACCES"
  using execvp_no_candidate [of "''cc''" two_dirs "[''cc'']" "[]" "''/a:/c''" None "''''" "[]"]
  by (simp add: candidates_def start_name_def two_dirs_def soft_errno_def soft_fails_def)

end
