(* ===== verification/FlProcs.thy ===== *)
theory FlProcs
  imports CLib
begin

text \<open>
  \<^verbatim>\<open>misc/tools-source/fl_stparse.c\<close>: the parser of \<^verbatim>\<open>strace\<close> logs that lists the files a build
  reads and writes.

  A slot of the table of processes is a pair of a pid (0: free) and a pointer to the current
  directory.  \<open>chd cwd dir\<close> is the directory after \<^verbatim>\<open>chdir(dir)\<close> in \<open>cwd\<close> (\<open>cwd\<close> again if
  that fails); \<^verbatim>\<open>getcwd\<close> does not fail.  The two log files are the text written to them.
\<close>

section \<open>The table of processes\<close>

definition MAXPROCS :: nat where "MAXPROCS = 512"

type_synonym procs = "(int \<times> string option) list"

fun newproc :: "int \<Rightarrow> string \<Rightarrow> procs \<Rightarrow> procs option" where
  "newproc pid cwd [] = None"
| "newproc pid cwd (p # ps) =
     (if fst p = 0 then Some ((pid, Some cwd) # ps) else map_option ((#) p) (newproc pid cwd ps))"

fun getproc :: "int \<Rightarrow> procs \<Rightarrow> string option option" where
  "getproc pid [] = None"
| "getproc pid (p # ps) = (if fst p = pid then Some (snd p) else getproc pid ps)"

fun setproc :: "int \<Rightarrow> string \<Rightarrow> procs \<Rightarrow> procs option" where
  "setproc pid cwd [] = None"
| "setproc pid cwd (p # ps) =
     (if fst p = pid then Some ((fst p, Some cwd) # ps) else map_option ((#) p) (setproc pid cwd ps))"

fun freeproc :: "int \<Rightarrow> procs \<Rightarrow> procs option" where
  "freeproc pid [] = None"
| "freeproc pid (p # ps) =
     (if fst p = pid then Some ((0, None) # ps) else map_option ((#) p) (freeproc pid ps))"

section \<open>Lines of the log\<close>

datatype event =
    Fork int int
  | Exit int
  | Chdir int string
  | Open int string string
  | Touch int string
  | Other

definition quote :: char where "quote = CHR 0x22"

definition fork_formats :: "directive list list" where
  "fork_formats =
     [F_int # lits '' fork() = '' @ [F_int],
      F_int # lits '' vfork() = '' @ [F_int],
      F_int # lits '' <... fork resumed> ) = '' @ [F_int],
      F_int # lits '' <... vfork resumed> ) = '' @ [F_int]]"

definition exit_formats :: "directive list list" where
  "exit_formats =
     [F_int # lits '' _exit('' @ [F_int],
      F_int # lits '' exit_group('' @ [F_int]]"

definition chdir_format :: "directive list" where
  "chdir_format = F_int # lits '' chdir('' @ [F_lit quote, F_not quote]"

definition open_format :: "directive list" where
  "open_format =
     F_int # lits '' open('' @ [F_lit quote, F_not quote, F_lit quote, F_lit CHR '','', F_ws, F_str]"

definition one_name_formats :: "directive list list" where
  "one_name_formats =
     [F_int # lits '' mkdir('' @ [F_lit quote, F_not quote, F_lit quote, F_lit CHR '','', F_ws],
      F_int # lits '' utime('' @ [F_lit quote, F_not quote, F_lit quote, F_lit CHR '','', F_ws]]"

definition two_name_formats :: "directive list list" where
  "two_name_formats =
     map (\<lambda>n. F_int # lits n @ [F_lit quote, F_not quote, F_lit quote, F_lit CHR '','', F_ws,
                F_lit quote, F_not quote, F_lit quote])
       ['' link('', '' symlink('', '' rename('']"

text \<open>The first format of a list with \<open>n\<close> conversions.\<close>

definition try_formats :: "nat \<Rightarrow> directive list list \<Rightarrow> string \<Rightarrow> scanned list option" where
  "try_formats n fs line = find (\<lambda>r. length r = n) (map (\<lambda>f. c_sscanf f line) fs)"

definition parse_touch :: "string \<Rightarrow> event" where
  "parse_touch line =
     (case try_formats 2 one_name_formats line of
        Some [S_int pid, S_str b1] \<Rightarrow> Touch pid b1
      | _ \<Rightarrow>
     (case try_formats 3 two_name_formats line of
        Some [S_int pid, S_str b2, S_str b1] \<Rightarrow> Touch pid b1
      | _ \<Rightarrow> Other))"

definition parse_line :: "string \<Rightarrow> event" where
  "parse_line line =
     (case try_formats 2 fork_formats line of
        Some [S_int pid, S_int newpid] \<Rightarrow> Fork pid newpid
      | _ \<Rightarrow>
     (case try_formats 2 exit_formats line of
        Some [S_int pid, S_int status] \<Rightarrow> Exit pid
      | _ \<Rightarrow>
     (case try_formats 2 [chdir_format] line of
        Some [S_int pid, S_str b1] \<Rightarrow> Chdir pid b1
      | _ \<Rightarrow>
     (case try_formats 3 [open_format] line of
        Some [S_int pid, S_str b1, S_str b2] \<Rightarrow> Open pid b1 b2
      | _ \<Rightarrow> parse_touch line))))"

section \<open>The effect of a line\<close>

record st_state =
  procs :: procs
  here :: string
  wlog :: string
  rlog :: string

definition log_line :: "int \<Rightarrow> string \<Rightarrow> string" where
  "log_line pid name = show_int pid @ '': '' @ name @ ''\<newline>''"

definition in_dir :: "string \<Rightarrow> string \<Rightarrow> string" where
  "in_dir sp1 b1 = (if sp1 = ''/'' then [] else sp1) @ ''/'' @ b1"

text \<open>
  The name to be logged: \<open>Inl True\<close> if the process is unknown (exit with status 1), \<open>Inl False\<close>
  for a null pointer passed to \<^verbatim>\<open>strcmp\<close>.
\<close>

definition full_name :: "procs \<Rightarrow> int \<Rightarrow> string \<Rightarrow> bool + string" where
  "full_name ps pid b1 =
     (if b1 \<noteq> [] \<and> hd b1 = CHR ''/'' then Inr b1
      else case getproc pid ps of
             None \<Rightarrow> Inl True
           | Some None \<Rightarrow> Inl False
           | Some (Some sp1) \<Rightarrow> Inr (in_dir sp1 b1))"

definition st_log :: "bool \<Rightarrow> st_state \<Rightarrow> int \<Rightarrow> string \<Rightarrow> (st_state, nat \<times> st_state) outcome" where
  "st_log write s pid b1 =
     (case full_name (procs s) pid b1 of
        Inl True \<Rightarrow> Finish (1, s)
      | Inl False \<Rightarrow> Fault
      | Inr name \<Rightarrow>
          Continue (if write then s\<lparr>wlog := wlog s @ log_line pid name\<rparr>
                    else s\<lparr>rlog := rlog s @ log_line pid name\<rparr>))"

fun st_event :: "(string \<Rightarrow> string \<Rightarrow> string) \<Rightarrow> st_state \<Rightarrow> event \<Rightarrow> (st_state, nat \<times> st_state) outcome" where
  "st_event chd s (Fork pid newpid) =
     (case getproc pid (procs s) of
        None \<Rightarrow> Finish (1, s)
      | Some None \<Rightarrow> Fault
      | Some (Some sp1) \<Rightarrow>
          (case newproc newpid sp1 (procs s) of
             None \<Rightarrow> Finish (1, s)
           | Some ps \<Rightarrow> Continue (s\<lparr>procs := ps\<rparr>)))"
| "st_event chd s (Exit pid) =
     (case freeproc pid (procs s) of None \<Rightarrow> Finish (1, s) | Some ps \<Rightarrow> Continue (s\<lparr>procs := ps\<rparr>))"
| "st_event chd s (Chdir pid b1) =
     (case getproc pid (procs s) of
        None \<Rightarrow> Finish (1, s)
      | Some d \<Rightarrow>
          (let h = chd (case d of None \<Rightarrow> here s | Some c \<Rightarrow> chd (here s) c) b1 in
           case setproc pid h (procs s) of
             None \<Rightarrow> Finish (1, s\<lparr>here := h\<rparr>)
           | Some ps \<Rightarrow> Continue (s\<lparr>procs := ps, here := h\<rparr>)))"
| "st_event chd s (Open pid b1 b2) =
     (if sublist ''O_DIRECTORY'' b2 then Continue s
      else st_log (\<not> sublist ''O_RDONLY'' b2) s pid b1)"
| "st_event chd s (Touch pid b1) = st_log True s pid b1"
| "st_event chd s Other = Continue s"

definition st_line :: "(string \<Rightarrow> string \<Rightarrow> string) \<Rightarrow> st_state \<Rightarrow> string \<Rightarrow> (st_state, nat \<times> st_state) outcome" where
  "st_line chd s line = st_event chd s (parse_line (cstr line))"

text \<open>
  \<^verbatim>\<open>main\<close> behind the options.  The first line makes the first process and is then read as
  every other line; the end of the input ends the program with status 0.
\<close>

definition st_main :: "(string \<Rightarrow> string \<Rightarrow> string) \<Rightarrow> string \<Rightarrow> string \<Rightarrow> (nat \<times> st_state) option" where
  "st_main chd cwd inp =
     (let lines = fgets_all 1024 inp;
          empty = replicate MAXPROCS (0, None);
          s0 = \<lparr>procs = empty, here = cwd, wlog = [], rlog = []\<rparr>
      in case lines of
           [] \<Rightarrow> Some (1, s0)
         | l # _ \<Rightarrow>
             (case c_sscanf [F_int] (cstr l) of
                [S_int pid] \<Rightarrow>
                  (case newproc pid cwd empty of
                     None \<Rightarrow> Some (1, s0)
                   | Some ps \<Rightarrow>
                       (case run_machine (st_line chd) (s0\<lparr>procs := ps\<rparr>) lines of
                          Continue s \<Rightarrow> Some (0, s)
                        | Finish r \<Rightarrow> Some r
                        | Fault \<Rightarrow> None))
              | _ \<Rightarrow> Some (1, s0)))"

section \<open>The table as a map\<close>

text \<open>The contract of a table of bounded size that stands for a map from keys to values.\<close>

locale bounded_table =
  fixes insert_new :: "'k \<Rightarrow> 'v \<Rightarrow> 't \<Rightarrow> 't option"
    and find_key :: "'k \<Rightarrow> 't \<Rightarrow> 'v option option"
    and change :: "'k \<Rightarrow> 'v \<Rightarrow> 't \<Rightarrow> 't option"
    and remove :: "'k \<Rightarrow> 't \<Rightarrow> 't option"
    and abs :: "'t \<Rightarrow> 'k \<Rightarrow> 'v option"
    and inv :: "'t \<Rightarrow> bool"
    and key :: "'k \<Rightarrow> bool"
    and size :: nat
  assumes insert_law: "inv t \<Longrightarrow> key k \<Longrightarrow> abs t k = None \<Longrightarrow>
      (if card (dom (abs t)) < size
       then \<exists>t'. insert_new k v t = Some t' \<and> inv t' \<and> abs t' = (abs t)(k \<mapsto> v)
       else insert_new k v t = None)"
    and find_law: "inv t \<Longrightarrow> key k \<Longrightarrow> find_key k t = map_option Some (abs t k)"
    and change_law: "inv t \<Longrightarrow> key k \<Longrightarrow>
      (if abs t k = None then change k v t = None
       else \<exists>t'. change k v t = Some t' \<and> inv t' \<and> abs t' = (abs t)(k \<mapsto> v))"
    and remove_law: "inv t \<Longrightarrow> key k \<Longrightarrow>
      (if abs t k = None then remove k t = None
       else \<exists>t'. remove k t = Some t' \<and> inv t' \<and> abs t' = (abs t)(k := None))"
begin

text \<open>A new entry with the value of an old one.\<close>

lemma copy_law:
  assumes "inv t" "key k" "key l" "abs t l = None"
  shows "(case find_key k t of
       None \<Rightarrow> abs t k = None
     | Some None \<Rightarrow> False
     | Some (Some v) \<Rightarrow> abs t k = Some v \<and>
         (if card (dom (abs t)) < size
          then \<exists>t'. insert_new l v t = Some t' \<and> inv t' \<and> abs t' = (abs t)(l \<mapsto> v)
          else insert_new l v t = None))"
  using find_law [OF assms(1,2)] insert_law [OF assms(1,3,4)]
  by (cases "abs t k") (auto split: option.splits)

lemma insert_remove:
  assumes "inv t" "key k" "abs t k = None" "card (dom (abs t)) < size"
  shows "\<exists>t' t''. insert_new k v t = Some t' \<and> remove k t' = Some t'' \<and> inv t'' \<and> abs t'' = abs t"
proof -
  from insert_law [OF assms(1-3)] assms(4) obtain t' where
    1: "insert_new k v t = Some t'" "inv t'" "abs t' = (abs t)(k \<mapsto> v)" by auto
  with remove_law [OF 1(2) assms(2)] obtain t'' where
    "remove k t' = Some t''" "inv t''" "abs t'' = (abs t')(k := None)" by auto
  with 1 assms(3) show ?thesis by (auto simp: fun_upd_idem)
qed

end

fun proc_map :: "procs \<Rightarrow> int \<Rightarrow> string option" where
  "proc_map [] = Map.empty"
| "proc_map (p # ps) = (if fst p = 0 then proc_map ps else (proc_map ps)(fst p := snd p))"

fun procs_ok :: "procs \<Rightarrow> bool" where
  "procs_ok [] = True"
| "procs_ok (p # ps) \<longleftrightarrow>
     (fst p = 0 \<or> snd p \<noteq> None \<and> fst p \<notin> fst ` set ps) \<and> procs_ok ps"

lemma proc_map_notin: "k \<noteq> 0 \<Longrightarrow> procs_ok ps \<Longrightarrow> proc_map ps k = None \<longleftrightarrow> k \<notin> fst ` set ps"
  by (induction ps) auto

lemma proc_map_0: "proc_map ps 0 = None"
  by (induction ps) auto

lemma finite_proc_map: "finite (dom (proc_map ps))"
  by (induction ps) auto

lemma getproc_map: "procs_ok ps \<Longrightarrow> k \<noteq> 0 \<Longrightarrow> getproc k ps = map_option Some (proc_map ps k)"
  by (induction ps) (auto simp: proc_map_notin)

lemma setproc_fst: "setproc k v ps = Some qs \<Longrightarrow> map fst qs = map fst ps"
  by (induction ps arbitrary: qs) (auto split: if_splits)

lemma setproc_map:
  assumes "k \<noteq> 0"
  shows "procs_ok ps \<Longrightarrow>
    (if proc_map ps k = None then setproc k v ps = None
     else \<exists>qs. setproc k v ps = Some qs \<and> procs_ok qs \<and> length qs = length ps \<and>
       proc_map qs = (proc_map ps)(k \<mapsto> v))"
proof (induction ps)
  case (Cons p ps)
  show ?case
  proof (cases "fst p = k")
    case True
    with assms Cons.prems show ?thesis by auto
  next
    case False
    have m: "proc_map (p # ps) k = proc_map ps k" using False by simp
    show ?thesis
    proof (cases "proc_map ps k = None")
      case True
      with Cons False show ?thesis by simp
    next
      case Some: False
      with Cons obtain qs where q: "setproc k v ps = Some qs" "procs_ok qs" "length qs = length ps"
        "proc_map qs = (proc_map ps)(k \<mapsto> v)" by auto
      have "fst ` set qs = fst ` set ps"
        using setproc_fst [OF q(1)] by (metis list.set_map)
      then have "procs_ok (p # qs)" using Cons.prems q(2) by auto
      moreover have "proc_map (p # qs) = (proc_map (p # ps))(k \<mapsto> v)"
        using False by (simp add: q(4) fun_eq_iff)
      moreover have "setproc k v (p # ps) = Some (p # qs)" "length (p # qs) = length (p # ps)"
        using q False by simp_all
      ultimately show ?thesis using Some by (simp only: m if_False) blast
    qed
  qed
qed simp

lemma freeproc_fst: "freeproc k ps = Some qs \<Longrightarrow> fst ` set qs \<subseteq> insert 0 (fst ` set ps)"
proof (induction ps arbitrary: qs)
  case (Cons p ps)
  show ?case
  proof (cases "fst p = k")
    case False
    with Cons.prems obtain rs where "freeproc k ps = Some rs" "qs = p # rs" by auto
    with Cons.IH show ?thesis by auto
  qed (use Cons.prems in auto)
qed simp

lemma freeproc_map:
  assumes "k \<noteq> 0"
  shows "procs_ok ps \<Longrightarrow>
    (if proc_map ps k = None then freeproc k ps = None
     else \<exists>qs. freeproc k ps = Some qs \<and> procs_ok qs \<and> length qs = length ps \<and>
       proc_map qs = (proc_map ps)(k := None))"
proof (induction ps)
  case (Cons p ps)
  show ?case
  proof (cases "fst p = k")
    case True
    then have "proc_map ps k = None" using Cons.prems assms proc_map_notin by auto
    with True assms Cons.prems show ?thesis by (auto simp: fun_upd_idem)
  next
    case False
    have m: "proc_map (p # ps) k = proc_map ps k" using False by simp
    show ?thesis
    proof (cases "proc_map ps k = None")
      case True
      with Cons False show ?thesis by simp
    next
      case Some: False
      with Cons obtain qs where q: "freeproc k ps = Some qs" "procs_ok qs" "length qs = length ps"
        "proc_map qs = (proc_map ps)(k := None)" by auto
      then have "procs_ok (p # qs)" using Cons.prems freeproc_fst [OF q(1)] by auto
      moreover have "proc_map (p # qs) = (proc_map (p # ps))(k := None)"
        using False by (simp add: q(4) fun_eq_iff)
      moreover have "freeproc k (p # ps) = Some (p # qs)" "length (p # qs) = length (p # ps)"
        using q False by simp_all
      ultimately show ?thesis using Some by (simp only: m if_False) blast
    qed
  qed
qed simp

lemma newproc_full: "newproc k v ps = None \<longleftrightarrow> 0 \<notin> fst ` set ps"
  by (induction ps) auto

lemma newproc_map:
  assumes "k \<noteq> 0"
  shows "procs_ok ps \<Longrightarrow> proc_map ps k = None \<Longrightarrow> newproc k v ps = Some qs \<Longrightarrow>
    procs_ok qs \<and> length qs = length ps \<and> proc_map qs = (proc_map ps)(k \<mapsto> v) \<and>
    fst ` set qs \<subseteq> insert k (fst ` set ps)"
proof (induction ps arbitrary: qs)
  case (Cons p ps)
  show ?case
  proof (cases "fst p = 0")
    case True
    with Cons.prems assms show ?thesis by (auto simp: proc_map_notin)
  next
    case False
    then have pk: "fst p \<noteq> k" using Cons.prems(1,2) by (auto split: if_splits)
    with False Cons.prems obtain rs where r: "newproc k v ps = Some rs" "qs = p # rs" by auto
    have "procs_ok ps" "proc_map ps k = None" using Cons.prems pk False by simp_all
    from Cons.IH [OF this r(1)] have rs: "procs_ok rs" "length rs = length ps"
      "proc_map rs = (proc_map ps)(k \<mapsto> v)" "fst ` set rs \<subseteq> insert k (fst ` set ps)" by blast+
    then have "procs_ok (p # rs)" using Cons.prems(1) pk by auto
    moreover have "proc_map (p # rs) = (proc_map (p # ps))(k \<mapsto> v)"
      using False pk by (simp add: rs(3) fun_eq_iff)
    moreover have "length (p # rs) = length (p # ps)" "fst ` set (p # rs) \<subseteq> insert k (fst ` set (p # ps))"
      using rs by auto
    ultimately show ?thesis unfolding r(2) by blast
  qed
qed simp

lemma card_proc_map: "procs_ok ps \<Longrightarrow> card (dom (proc_map ps)) = length (filter (\<lambda>p. fst p \<noteq> 0) ps)"
proof (induction ps)
  case (Cons p ps)
  show ?case
  proof (cases "fst p = 0")
    case False
    with Cons.prems have "fst p \<notin> dom (proc_map ps)" "snd p \<noteq> None"
      using proc_map_notin [of "fst p" ps] by auto
    moreover from this False have "dom (proc_map (p # ps)) = insert (fst p) (dom (proc_map ps))"
      by auto
    ultimately show ?thesis using False Cons by (simp add: finite_proc_map del: proc_map.simps)
  qed (use Cons in simp)
qed simp

lemma newproc_room:
  assumes "procs_ok ps"
  shows "newproc k v ps = None \<longleftrightarrow> \<not> card (dom (proc_map ps)) < length ps"
proof -
  have "length (filter (\<lambda>p. fst p \<noteq> 0) ps) < length ps \<longleftrightarrow> (\<exists>p \<in> set ps. fst p = 0)"
    by (induction ps) (auto simp: less_Suc_eq_le)
  then show ?thesis unfolding newproc_full card_proc_map [OF assms] by (auto simp: image_iff)
qed

interpretation processes: bounded_table newproc getproc setproc freeproc proc_map
  "\<lambda>ps. procs_ok ps \<and> length ps = MAXPROCS" "\<lambda>pid. pid \<noteq> 0" MAXPROCS
proof (unfold_locales, goal_cases)
  case (1 ps pid cwd)
  then show ?case
    using newproc_room [of ps pid cwd] newproc_map [of pid ps cwd] by (cases "newproc pid cwd ps") metis+
next
  case (2 ps pid)
  then show ?case by (simp add: getproc_map)
next
  case (3 ps pid cwd)
  then show ?case using setproc_map [of pid ps cwd] by metis
next
  case (4 ps pid)
  then show ?case using freeproc_map [of pid ps] by metis
qed

section \<open>Refinement of a map from pids to directories\<close>

record spec_state =
  cwds :: "int \<Rightarrow> string option"
  sp_here :: string
  sp_wlog :: string
  sp_rlog :: string

definition sp_log :: "bool \<Rightarrow> spec_state \<Rightarrow> int \<Rightarrow> string \<Rightarrow> (spec_state, nat \<times> spec_state) outcome" where
  "sp_log write a pid b1 =
     (case (if b1 \<noteq> [] \<and> hd b1 = CHR ''/'' then Some b1
            else map_option (\<lambda>c. in_dir c b1) (cwds a pid)) of
        None \<Rightarrow> Finish (1, a)
      | Some name \<Rightarrow>
          Continue (if write then a\<lparr>sp_wlog := sp_wlog a @ log_line pid name\<rparr>
                    else a\<lparr>sp_rlog := sp_rlog a @ log_line pid name\<rparr>))"

fun sp_event :: "(string \<Rightarrow> string \<Rightarrow> string) \<Rightarrow> spec_state \<Rightarrow> event \<Rightarrow> (spec_state, nat \<times> spec_state) outcome" where
  "sp_event chd a (Fork pid newpid) =
     (case cwds a pid of
        None \<Rightarrow> Finish (1, a)
      | Some c \<Rightarrow>
          if card (dom (cwds a)) < MAXPROCS then Continue (a\<lparr>cwds := (cwds a)(newpid \<mapsto> c)\<rparr>)
          else Finish (1, a))"
| "sp_event chd a (Exit pid) =
     (if cwds a pid = None then Finish (1, a) else Continue (a\<lparr>cwds := (cwds a)(pid := None)\<rparr>))"
| "sp_event chd a (Chdir pid b1) =
     (case cwds a pid of
        None \<Rightarrow> Finish (1, a)
      | Some c \<Rightarrow>
          let h = chd (chd (sp_here a) c) b1
          in Continue (a\<lparr>cwds := (cwds a)(pid \<mapsto> h), sp_here := h\<rparr>))"
| "sp_event chd a (Open pid b1 b2) =
     (if sublist ''O_DIRECTORY'' b2 then Continue a
      else sp_log (\<not> sublist ''O_RDONLY'' b2) a pid b1)"
| "sp_event chd a (Touch pid b1) = sp_log True a pid b1"
| "sp_event chd a Other = Continue a"

definition abs_st :: "st_state \<Rightarrow> spec_state" where
  "abs_st s = \<lparr>cwds = proc_map (procs s), sp_here = here s, sp_wlog = wlog s, sp_rlog = rlog s\<rparr>"

fun pids :: "event \<Rightarrow> int list" where
  "pids (Fork p q) = [p, q]"
| "pids (Exit p) = [p]"
| "pids (Chdir p d) = [p]"
| "pids (Open p b1 b2) = [p]"
| "pids (Touch p b1) = [p]"
| "pids Other = []"

text \<open>A child's pid is new, and no pid is 0.\<close>

definition fresh_child :: "spec_state \<Rightarrow> event \<Rightarrow> bool" where
  "fresh_child a e = (case e of Fork p q \<Rightarrow> cwds a q = None | _ \<Rightarrow> True)"

fun log_ok :: "(string \<Rightarrow> string \<Rightarrow> string) \<Rightarrow> spec_state \<Rightarrow> event list \<Rightarrow> bool" where
  "log_ok chd a [] = True"
| "log_ok chd a (e # es) \<longleftrightarrow>
     0 \<notin> set (pids e) \<and> fresh_child a e \<and>
     (case sp_event chd a e of Continue a' \<Rightarrow> log_ok chd a' es | _ \<Rightarrow> True)"

definition st_ok :: "st_state \<Rightarrow> bool" where
  "st_ok s \<longleftrightarrow> procs_ok (procs s) \<and> length (procs s) = MAXPROCS"

abbreviation abs_outcome :: "(st_state, nat \<times> st_state) outcome \<Rightarrow> (spec_state, nat \<times> spec_state) outcome" where
  "abs_outcome \<equiv> map_outcome abs_st (map_prod id abs_st)"

lemma st_log_refines:
  assumes "st_ok s" "pid \<noteq> 0"
  shows "abs_outcome (st_log write s pid b1) = sp_log write (abs_st s) pid b1 \<and>
    outcome_ok st_ok (\<lambda>r. True) (st_log write s pid b1)"
  using assms getproc_map [of "procs s" pid]
  by (cases "proc_map (procs s) pid")
    (auto simp: st_log_def sp_log_def full_name_def abs_st_def st_ok_def)

lemma fork_refines:
  assumes "st_ok s" "0 \<notin> set (pids (Fork p q))" "fresh_child (abs_st s) (Fork p q)"
  shows "abs_outcome (st_event chd s (Fork p q)) = sp_event chd (abs_st s) (Fork p q) \<and>
    outcome_ok st_ok (\<lambda>r. True) (st_event chd s (Fork p q))"
proof -
  have p: "procs_ok (procs s) \<and> length (procs s) = MAXPROCS" "p \<noteq> 0" "q \<noteq> 0" "proc_map (procs s) q = None"
    using assms by (auto simp: st_ok_def fresh_child_def abs_st_def)
  note copy = processes.copy_law [OF p]
  show ?thesis
  proof (cases "proc_map (procs s) p")
    case None
    with p show ?thesis by (simp add: getproc_map abs_st_def)
  next
    case (Some c)
    then have g: "getproc p (procs s) = Some (Some c)" using p by (simp add: getproc_map)
    show ?thesis
    proof (cases "card (dom (proc_map (procs s))) < MAXPROCS")
      case True
      with copy g obtain ps where "newproc q c (procs s) = Some ps" "procs_ok ps" "length ps = MAXPROCS"
        "proc_map ps = (proc_map (procs s))(q \<mapsto> c)" by auto
      with True Some g show ?thesis by (simp add: abs_st_def st_ok_def)
    next
      case False
      with copy g have "newproc q c (procs s) = None" by simp
      with False Some g show ?thesis by (simp add: abs_st_def)
    qed
  qed
qed

lemma exit_refines:
  assumes "st_ok s" "p \<noteq> 0"
  shows "abs_outcome (st_event chd s (Exit p)) = sp_event chd (abs_st s) (Exit p) \<and>
    outcome_ok st_ok (\<lambda>r. True) (st_event chd s (Exit p))"
proof (cases "proc_map (procs s) p = None")
  case True
  then have "freeproc p (procs s) = None" using assms freeproc_map [of p "procs s"] by (simp add: st_ok_def)
  with True show ?thesis by (simp add: abs_st_def)
next
  case False
  with assms freeproc_map [of p "procs s"] obtain ps where "freeproc p (procs s) = Some ps" "procs_ok ps"
    "length ps = MAXPROCS" "proc_map ps = (proc_map (procs s))(p := None)" by (auto simp: st_ok_def)
  with False show ?thesis by (simp add: abs_st_def st_ok_def)
qed

lemma chdir_refines:
  assumes "st_ok s" "p \<noteq> 0"
  shows "abs_outcome (st_event chd s (Chdir p d)) = sp_event chd (abs_st s) (Chdir p d) \<and>
    outcome_ok st_ok (\<lambda>r. True) (st_event chd s (Chdir p d))"
proof (cases "proc_map (procs s) p")
  case None
  then show ?thesis using assms by (simp add: st_ok_def getproc_map abs_st_def)
next
  case (Some c)
  let ?h = "chd (chd (here s) c) d"
  from Some assms setproc_map [of p "procs s" ?h] obtain ps where "setproc p ?h (procs s) = Some ps"
    "procs_ok ps" "length ps = MAXPROCS" "proc_map ps = (proc_map (procs s))(p \<mapsto> ?h)"
    by (auto simp: st_ok_def)
  with Some assms show ?thesis by (simp add: abs_st_def st_ok_def getproc_map Let_def)
qed

lemma st_event_refines:
  assumes "st_ok s" "0 \<notin> set (pids e)" "fresh_child (abs_st s) e"
  shows "abs_outcome (st_event chd s e) = sp_event chd (abs_st s) e \<and>
    outcome_ok st_ok (\<lambda>r. True) (st_event chd s e)"
proof (cases e)
  case (Fork p q)
  then show ?thesis using fork_refines assms by simp
next
  case (Exit p)
  then show ?thesis using exit_refines assms by simp
next
  case (Chdir p d)
  then show ?thesis using chdir_refines assms by simp
next
  case (Open p b1 b2)
  then show ?thesis using st_log_refines [of s p] assms by simp
next
  case (Touch p b1)
  then show ?thesis using st_log_refines [of s p] assms by simp
next
  case Other
  then show ?thesis using assms by simp
qed

text \<open>
  C9: on every log in which no pid is 0 and no live pid is reused, the parser with its table of
  512 slots does what a map from live pids to current directories does: the same names are
  logged to the same files, and it gives up exactly when an unknown process appears or the
  513th would have to be kept.
\<close>

theorem strace_refines_map:
  assumes "st_ok s" "log_ok chd (abs_st s) es"
  shows "abs_outcome (run_machine (st_event chd) s es) = run_machine (sp_event chd) (abs_st s) es"
  using assms
proof (induction es arbitrary: s)
  case Nil
  then show ?case by simp
next
  case (Cons e es)
  then have e: "abs_outcome (st_event chd s e) = sp_event chd (abs_st s) e"
    "outcome_ok st_ok (\<lambda>r. True) (st_event chd s e)"
    using st_event_refines by simp_all
  show ?case
  proof (cases "st_event chd s e")
    case (Continue s')
    with e Cons show ?thesis by (simp flip: e(1))
  qed (simp_all add: id_def flip: e(1))
qed


lemma empty_table: "procs_ok (replicate n (0, None))" "proc_map (replicate n (0, None)) = Map.empty"
  by (induction n) simp_all

definition example_state :: st_state where
  "example_state = \<lparr>procs = (1, Some ''/'') # replicate 511 (0, None), here = ''/'', wlog = [], rlog = []\<rparr>"

lemma show_small: "show_int 2 = ''2''"
  by code_simp

theorem strace_refines_map_witness:
  "\<exists>s. run_machine (st_event (\<lambda>c d. d)) example_state [Fork 1 2, Chdir 2 ''/x'', Exit 1, Touch 2 ''a''] =
     Continue s \<and> wlog s = ''2: /x/a\<newline>''"
proof -
  let ?es = "[Fork 1 2, Chdir 2 ''/x'', Exit 1, Touch 2 ''a'']"
  have ok: "st_ok example_state"
    by (simp add: st_ok_def example_state_def empty_table MAXPROCS_def image_iff)
  have a: "abs_st example_state = \<lparr>cwds = [1 \<mapsto> ''/''], sp_here = ''/'', sp_wlog = [], sp_rlog = []\<rparr>"
    by (simp add: abs_st_def example_state_def empty_table)
  have "log_ok (\<lambda>c d. d) (abs_st example_state) ?es"
    by (simp add: a fresh_child_def MAXPROCS_def sp_log_def in_dir_def Let_def split: if_splits)
  from strace_refines_map [OF ok this]
  have "\<exists>b. abs_outcome (run_machine (st_event (\<lambda>c d. d)) example_state ?es) = Continue b \<and>
      sp_wlog b = ''2: /x/a\<newline>''"
    by (simp add: a MAXPROCS_def sp_log_def in_dir_def log_line_def show_small Let_def)
  then show ?thesis
    by (cases "run_machine (st_event (\<lambda>c d. d)) example_state ?es") (auto simp: abs_st_def)
qed

section \<open>No null pointer is used\<close>

definition used_ok :: "st_state \<Rightarrow> bool" where
  "used_ok s \<longleftrightarrow> list_all (\<lambda>p. fst p \<noteq> 0 \<longrightarrow> snd p \<noteq> None) (procs s)"

lemma getproc_used:
  "list_all (\<lambda>p. fst p \<noteq> 0 \<longrightarrow> snd p \<noteq> None) ps \<Longrightarrow> k \<noteq> 0 \<Longrightarrow> getproc k ps \<noteq> Some None"
  by (induction ps) auto

lemma newproc_used:
  "list_all (\<lambda>p. fst p \<noteq> 0 \<longrightarrow> snd p \<noteq> None) ps \<Longrightarrow> newproc k v ps = Some qs \<Longrightarrow>
   list_all (\<lambda>p. fst p \<noteq> 0 \<longrightarrow> snd p \<noteq> None) qs"
proof (induction ps arbitrary: qs)
  case (Cons p ps)
  then show ?case by (cases "fst p = 0") auto
qed simp

lemma setproc_used:
  "list_all (\<lambda>p. fst p \<noteq> 0 \<longrightarrow> snd p \<noteq> None) ps \<Longrightarrow> setproc k v ps = Some qs \<Longrightarrow>
   list_all (\<lambda>p. fst p \<noteq> 0 \<longrightarrow> snd p \<noteq> None) qs"
proof (induction ps arbitrary: qs)
  case (Cons p ps)
  then show ?case by (cases "fst p = k") auto
qed simp

lemma freeproc_used:
  "list_all (\<lambda>p. fst p \<noteq> 0 \<longrightarrow> snd p \<noteq> None) ps \<Longrightarrow> freeproc k ps = Some qs \<Longrightarrow>
   list_all (\<lambda>p. fst p \<noteq> 0 \<longrightarrow> snd p \<noteq> None) qs"
proof (induction ps arbitrary: qs)
  case (Cons p ps)
  then show ?case by (cases "fst p = k") auto
qed simp

lemmas table_used = newproc_used setproc_used freeproc_used

lemma st_log_used: "used_ok s \<Longrightarrow> pid \<noteq> 0 \<Longrightarrow> outcome_ok used_ok (\<lambda>r. fst r = 1) (st_log w s pid b1)"
  using getproc_used [of "procs s" pid]
  by (auto simp: st_log_def full_name_def used_ok_def split: option.splits)

interpretation strace: reactor "st_event chd" used_ok "\<lambda>e. 0 \<notin> set (pids e)" "\<lambda>r. fst r = (1 :: nat)"
  for chd
proof
  fix s e
  assume u: "used_ok s" and p: "0 \<notin> set (pids e)"
  show "outcome_ok used_ok (\<lambda>r. fst r = 1) (st_event chd s e)"
  proof (cases e)
    case (Open q b1 b2)
    then show ?thesis using st_log_used [OF u, of q] p u by simp
  next
    case (Touch q b1)
    then show ?thesis using st_log_used [OF u, of q] p by simp
  qed (use u p getproc_used [of "procs s"] table_used [of "procs s"] in
      \<open>auto simp: used_ok_def Let_def split: option.splits\<close>)
qed

text \<open>
  As long as no line names pid 0, no null pointer is passed to a string function, whatever
  the order of forks, exits and reused pids; the only way to stop early is with status 1.
\<close>

theorem strace_no_null:
  assumes "used_ok s" "list_all (\<lambda>l. 0 \<notin> set (pids (parse_line (cstr l)))) ls"
  shows "outcome_ok used_ok (\<lambda>r. fst r = 1) (run_machine (st_line chd) s ls)"
proof -
  have "run_machine (st_line chd) s ls = run_machine (st_event chd) s (map (\<lambda>l. parse_line (cstr l)) ls)"
    by (induction ls arbitrary: s) (simp_all add: st_line_def split: outcome.splits)
  moreover have "list_all (\<lambda>e. 0 \<notin> set (pids e)) (map (\<lambda>l. parse_line (cstr l)) ls)"
    using assms(2) by (simp add: list_all_iff)
  ultimately show ?thesis using strace.run_ok [OF assms(1)] by simp
qed

section \<open>Printed lines are read back\<close>

fun show_event :: "event \<Rightarrow> string" where
  "show_event (Fork p q) = show_int p @ '' fork() = '' @ show_int q"
| "show_event (Exit p) = show_int p @ '' _exit(0) = ?''"
| "show_event (Chdir p d) = show_int p @ '' chdir('' @ quote # d @ quote # '') = 0''"
| "show_event (Open p f fl) = show_int p @ '' open('' @ quote # f @ quote # '', '' @ fl"
| "show_event (Touch p f) = show_int p @ '' mkdir('' @ quote # f @ quote # '', 0755) = 0''"
| "show_event Other = []"

definition pid_ok :: "int \<Rightarrow> bool" where
  "pid_ok p \<longleftrightarrow> 0 < p \<and> p < 2 ^ 31"

definition name_ok :: "string \<Rightarrow> bool" where
  "name_ok f \<longleftrightarrow> f \<noteq> [] \<and> quote \<notin> set f"

definition flags_ok :: "string \<Rightarrow> bool" where
  "flags_ok f \<longleftrightarrow> f \<noteq> [] \<and> list_all (\<lambda>c. \<not> c_isspace c) f"

fun printable :: "event \<Rightarrow> bool" where
  "printable (Fork p q) \<longleftrightarrow> pid_ok p \<and> pid_ok q"
| "printable (Exit p) \<longleftrightarrow> pid_ok p"
| "printable (Chdir p d) \<longleftrightarrow> pid_ok p \<and> name_ok d"
| "printable (Open p f fl) \<longleftrightarrow> pid_ok p \<and> name_ok f \<and> flags_ok fl"
| "printable (Touch p f) \<longleftrightarrow> pid_ok p \<and> name_ok f"
| "printable Other \<longleftrightarrow> True"

lemma scan_pid:
  assumes "pid_ok p" "r = [] \<or> \<not> c_isdigit (hd r)"
  shows "c_sscanf (F_int # fs) (show_int p @ r) = S_int p # c_sscanf fs r"
  using assms scan_int_show_nat [of r "nat p"] by (auto simp: pid_ok_def show_int_def)

lemma not_digit: "\<not> c_isdigit CHR '' ''" "\<not> c_isdigit CHR '')''"
  by (simp_all add: c_isdigit_def code_def)

lemma spaces: "c_isspace CHR '' ''" "\<not> c_isspace CHR ''f''" "\<not> c_isspace CHR ''_''" "\<not> c_isspace CHR ''c''"
  "\<not> c_isspace CHR ''o''" "\<not> c_isspace CHR ''m''" "\<not> c_isspace CHR ''=''" "\<not> c_isspace CHR ''0''"
  "\<not> c_isspace CHR ''?''" "\<not> c_isspace CHR '')''" "\<not> c_isspace quote"
  by (simp_all add: c_isspace_def code_def quote_def)

lemma scan_name:
  assumes "name_ok f"
  shows "c_sscanf (F_not quote # fs) (f @ quote # r) = S_str f # c_sscanf fs (quote # r)"
proof -
  have "\<forall>c \<in> set f. c \<noteq> quote" using assms by (auto simp: name_ok_def)
  then have "takeWhile (\<lambda>c. c \<noteq> quote) (f @ quote # r) = f" "dropWhile (\<lambda>c. c \<noteq> quote) (f @ quote # r) = quote # r"
    by (simp_all add: takeWhile_append dropWhile_append)
  then show ?thesis using assms by (simp add: name_ok_def)
qed

lemma scan_flags:
  assumes "flags_ok f"
  shows "c_sscanf [F_str] f = [S_str f]"
proof -
  have "dropWhile c_isspace f = f" using assms by (cases f) (auto simp: flags_ok_def)
  moreover have t: "takeWhile (\<lambda>c. \<not> c_isspace c) f = f"
    using assms by (intro takeWhile_no) (auto simp: flags_ok_def list_all_iff)
  ultimately show ?thesis using assms unfolding c_sscanf.simps Let_def by (simp only: t) (simp add: flags_ok_def)
qed

lemma scan_int_space: "scan_int (CHR '' '' # s) = scan_int s"
  by (simp add: scan_int_def spaces)

lemma scan_pid_end: "pid_ok q \<Longrightarrow> c_sscanf [F_int] (show_int q) = [S_int q]"
  using scan_pid [of q "[]" "[]"] by simp

lemma show_int_nonspace: "pid_ok q \<Longrightarrow> dropWhile c_isspace (show_int q) = show_int q"
proof -
  assume "pid_ok q"
  then have s: "show_int q = show_nat (nat q)" by (simp add: show_int_def pid_ok_def)
  obtain c cs where c: "show_nat (nat q) = c # cs" by (cases "show_nat (nat q)") auto
  then have "c_isdigit c" using show_nat_digits [of c "nat q"] by simp
  then show ?thesis using s c not_space_digit [of c] by simp
qed


lemma fork_line:
  assumes "pid_ok p" "pid_ok q"
  shows "c_sscanf (F_int # lits '' fork() = '' @ [F_int]) (show_event (Fork p q)) = [S_int p, S_int q]"
  using assms scan_pid_end [OF assms(2)]
  by (simp add: scan_pid not_digit lits_def spaces show_int_nonspace del: c_sscanf.simps(4))


lemma other_line:
  assumes "pid_ok p" "\<not> c_isspace x"
  shows "x \<notin> {CHR ''f'', CHR ''v'', CHR ''<''} \<Longrightarrow>
      try_formats 2 fork_formats (show_int p @ CHR '' '' # x # r) = None"
    and "x \<notin> {CHR ''_'', CHR ''e''} \<Longrightarrow>
      try_formats 2 exit_formats (show_int p @ CHR '' '' # x # r) = None"
    and "x \<noteq> CHR ''c'' \<Longrightarrow> try_formats 2 [chdir_format] (show_int p @ CHR '' '' # x # r) = None"
    and "x \<noteq> CHR ''o'' \<Longrightarrow> try_formats 3 [open_format] (show_int p @ CHR '' '' # x # r) = None"
  using assms
  by (simp_all add: try_formats_def fork_formats_def exit_formats_def chdir_format_def open_format_def
      scan_pid not_digit lits_def spaces del: c_sscanf.simps(4))

lemma scan_zero: "c_sscanf [F_int] ''0) = ?'' = [S_int 0]"
  by code_simp

lemma exit_line:
  assumes "pid_ok p"
  shows "try_formats 2 exit_formats (show_event (Exit p)) = Some [S_int p, S_int 0]"
  using assms scan_zero
  by (simp add: scan_pid not_digit lits_def spaces exit_formats_def try_formats_def del: c_sscanf.simps(4))

lemma chdir_line:
  assumes "pid_ok p" "name_ok d"
  shows "try_formats 2 [chdir_format] (show_event (Chdir p d)) = Some [S_int p, S_str d]"
  using assms
  by (simp add: scan_pid scan_name not_digit lits_def spaces chdir_format_def try_formats_def
      del: c_sscanf.simps(4,6))

lemma open_line:
  assumes "pid_ok p" "name_ok f" "flags_ok fl"
  shows "try_formats 3 [open_format] (show_event (Open p f fl)) = Some [S_int p, S_str f, S_str fl]"
proof -
  have "dropWhile c_isspace fl = fl" using assms(3) by (cases fl) (auto simp: flags_ok_def)
  with assms show ?thesis
    by (simp add: scan_pid scan_name scan_flags not_digit lits_def spaces open_format_def try_formats_def
        del: c_sscanf.simps(4,5,6))
qed

lemma touch_line:
  assumes "pid_ok p" "name_ok f"
  shows "parse_touch (show_event (Touch p f)) = Touch p f"
  using assms
  by (simp add: scan_pid scan_name not_digit lits_def spaces one_name_formats_def try_formats_def
      parse_touch_def del: c_sscanf.simps(4,6))

lemma parse_show:
  assumes "printable e"
  shows "parse_line (show_event e) = e"
proof (cases e)
  case (Fork p q)
  with assms fork_line [of p q] show ?thesis by (simp add: parse_line_def try_formats_def fork_formats_def)
next
  case (Exit p)
  with assms exit_line [of p] other_line(1) [of p "CHR ''_''"] show ?thesis
    by (simp add: parse_line_def spaces)
next
  case (Chdir p d)
  with assms chdir_line [of p d] other_line(1,2) [of p "CHR ''c''"] show ?thesis
    by (simp add: parse_line_def spaces)
next
  case (Open p f fl)
  with assms open_line [of p f fl] other_line(1,2,3) [of p "CHR ''o''"] show ?thesis
    by (simp add: parse_line_def spaces)
next
  case (Touch p f)
  with assms touch_line [of p f] other_line [of p "CHR ''m''"] show ?thesis
    by (simp add: parse_line_def spaces)
next
  case Other
  then show ?thesis
    by (simp add: parse_line_def parse_touch_def try_formats_def fork_formats_def exit_formats_def
        chdir_format_def open_format_def one_name_formats_def two_name_formats_def scan_int_def)
qed

text \<open>
  The lines of \<^verbatim>\<open>strace\<close> for a fork, an exit, a change of directory, an open and a new
  directory are read back as these events.
\<close>

theorem parse_show_event:
  assumes "printable e"
  shows "parse_line (show_event e) = e"
  by (rule parse_show [OF assms])

theorem parse_show_event_witness:
  "parse_line (show_event (Open 7 ''etc/passwd'' ''O_RDONLY)'')) = Open 7 ''etc/passwd'' ''O_RDONLY)''"
  by (rule parse_show_event) (simp add: pid_ok_def name_ok_def flags_ok_def quote_def c_isspace_def code_def)

theorem strace_no_null_witness:
  "outcome_ok used_ok (\<lambda>r. fst r = 1)
     (run_machine (st_line (\<lambda>c d. d)) example_state [show_event (Chdir 1 ''/x''), show_event (Fork 1 1)])"
proof (rule strace_no_null)
  have "cstr (show_event (Chdir 1 ''/x'')) = show_event (Chdir 1 ''/x'')"
    "cstr (show_event (Fork 1 1)) = show_event (Fork 1 1)"
    by code_simp+
  then show "list_all (\<lambda>l. 0 \<notin> set (pids (parse_line (cstr l)))) [show_event (Chdir 1 ''/x''), show_event (Fork 1 1)]"
    using parse_show [of "Chdir 1 ''/x''"] parse_show [of "Fork 1 1"]
    by (simp add: pid_ok_def name_ok_def quote_def del: show_event.simps)
qed (simp add: used_ok_def example_state_def list_all_iff)

end
