(* ===== verification/FlParse.thy ===== *)
theory FlParse
  imports CLib
begin

text \<open>
  \<^verbatim>\<open>misc/tools-source/fl_wrparse.c\<close>, \<^verbatim>\<open>getfiles.c\<close> and \<^verbatim>\<open>getdu.c\<close>: the filters that turn
  the raw file lists of a build into package file lists and sizes.

  The file system is the record \<open>fs\<close>: \<open>chd cwd dir\<close> is the directory after \<^verbatim>\<open>chdir(dir)\<close> in
  \<open>cwd\<close> (\<open>cwd\<close> again if it fails), \<open>stat_of cwd name\<close> what \<^verbatim>\<open>lstat\<close> finds, \<open>entries cwd name\<close>
  what \<^verbatim>\<open>scandir\<close> finds.  A program maps the lines read to the text written; \<open>Fault\<close> is an
  overflow of a buffer or another undefined access.
\<close>

datatype file_type = Regular | Directory | Special

record fs =
  chd :: "string \<Rightarrow> string \<Rightarrow> string"
  stat_of :: "string \<Rightarrow> string \<Rightarrow> (file_type \<times> nat) option"
  entries :: "string \<Rightarrow> string \<Rightarrow> string list option"

definition FILENAME_MAX :: nat where "FILENAME_MAX = 4096"

section \<open>fl_wrparse\<close>

text \<open>\<^verbatim>\<open>strrchr(s, '/')\<close>: the parts before and behind the last slash.\<close>

fun split_last :: "string \<Rightarrow> (string \<times> string) option" where
  "split_last [] = None"
| "split_last (c # cs) =
     (case split_last cs of
        Some (d, f) \<Rightarrow> Some (c # d, f)
      | None \<Rightarrow> if c = CHR ''/'' then Some ([], cs) else None)"

text \<open>The name and the current directory afterwards.\<close>

definition get_realname :: "fs \<Rightarrow> string \<Rightarrow> string \<Rightarrow> (string \<times> string) option" where
  "get_realname w cwd origname =
     (if origname = ''/'' then Some (''/'', cwd)
      else if length origname \<ge> FILENAME_MAX then None
      else
        (let (dir, file) = (case split_last origname of None \<Rightarrow> (''.'', origname) | Some p \<Rightarrow> p);
             there = chd w cwd dir;
             bk = chd w there cwd;
             name = (if there = ''/'' then there else there @ ''/'') @ file
         in if length name \<ge> FILENAME_MAX then None else Some (name, bk)))"

text \<open>\<open>None\<close>: the loop over the names starts at index \<open>-2\<close> when \<^verbatim>\<open>scandir\<close> fails.\<close>

fun only_dots :: "string list \<Rightarrow> bool" where
  "only_dots [] = True"
| "only_dots (n # ns) = (if n \<noteq> ''.'' \<and> n \<noteq> ''..'' then False else only_dots ns)"

definition dir_empty :: "fs \<Rightarrow> string \<Rightarrow> string \<Rightarrow> bool option" where
  "dir_empty w cwd name = map_option (\<lambda>ns. only_dots (rev ns)) (entries w cwd name)"

record wr_options =
  nodircheck :: bool
  stripinfo :: bool
  package :: "string option"
  rootdir :: "string option"

definition no_options :: wr_options where
  "no_options = \<lparr>nodircheck = False, stripinfo = False, package = None, rootdir = None\<rparr>"

text \<open>The options as \<^verbatim>\<open>getopt\<close> returns them; \<open>Inl\<close> is the exit after the usage message.\<close>

fun read_options ::
  "fs \<Rightarrow> (char \<times> string) list \<Rightarrow> wr_options \<times> string \<Rightarrow> (nat + wr_options \<times> string) option" where
  "read_options w [] (opts, cwd) = Some (Inr (opts, cwd))"
| "read_options w ((opt, optarg) # rest) (opts, cwd) =
     (if opt = CHR ''d'' then read_options w rest (opts, cwd)
      else if opt = CHR ''D'' then read_options w rest (opts\<lparr>nodircheck := True\<rparr>, cwd)
      else if opt = CHR ''s'' then read_options w rest (opts\<lparr>stripinfo := True\<rparr>, cwd)
      else if opt = CHR ''p'' then read_options w rest (opts\<lparr>package := Some optarg\<rparr>, cwd)
      else if opt = CHR ''r'' then
        (case get_realname w cwd optarg of
           None \<Rightarrow> None
         | Some (name, cwd') \<Rightarrow> read_options w rest (opts\<lparr>rootdir := Some name\<rparr>, cwd'))
      else Some (Inl 1))"

record wr_state =
  cwd :: string
  out :: string

definition chomp :: "string \<Rightarrow> string" where
  "chomp s = takeWhile (\<lambda>c. c \<noteq> CHR ''\<newline>'') s"

text \<open>\<open>None\<close>: the line holds no file name.\<close>

definition line_name :: "wr_options \<Rightarrow> string \<Rightarrow> string option" where
  "line_name opts buf =
     (if stripinfo opts then
        (case dropWhile (\<lambda>c. c \<noteq> CHR 0x09 \<and> c \<noteq> CHR '' '') buf of
           [] \<Rightarrow> None
         | _ # rest \<Rightarrow> if chomp rest = [] then None else Some (chomp rest))
      else if chomp buf = [] then None else Some (chomp buf))"

definition print_name :: "wr_options \<Rightarrow> string \<Rightarrow> string" where
  "print_name opts fn =
     (case package opts of
        None \<Rightarrow> fn @ ''\<newline>''
      | Some p \<Rightarrow> p @ '': '' @ fn @ ''\<newline>'')"

definition wr_file :: "fs \<Rightarrow> wr_options \<Rightarrow> wr_state \<Rightarrow> string \<Rightarrow> (wr_state, unit) outcome" where
  "wr_file w opts s fn =
     (case get_realname w (cwd s) fn of
        None \<Rightarrow> Fault
      | Some (name, bk) \<Rightarrow>
          (case rootdir opts of
             None \<Rightarrow> Continue (s\<lparr>cwd := bk, out := out s @ print_name opts name\<rparr>)
           | Some r \<Rightarrow>
               (if prefix r name
                then Continue (s\<lparr>cwd := bk, out := out s @ print_name opts (drop (length r) name)\<rparr>)
                else Continue (s\<lparr>cwd := bk\<rparr>))))"

definition wr_line :: "fs \<Rightarrow> wr_options \<Rightarrow> wr_state \<Rightarrow> string \<Rightarrow> (wr_state, unit) outcome" where
  "wr_line w opts s buf =
     (case line_name opts (cstr buf) of
        None \<Rightarrow> Continue s
      | Some fn \<Rightarrow>
          (case stat_of w (cwd s) fn of
             None \<Rightarrow> Continue s
           | Some (t, _) \<Rightarrow>
               (if t = Directory \<and> \<not> nodircheck opts then
                  (case dir_empty w (cwd s) fn of
                     None \<Rightarrow> Fault
                   | Some True \<Rightarrow> Continue s
                   | Some False \<Rightarrow> wr_file w opts s fn)
                else wr_file w opts s fn)))"

text \<open>The exit status and the output; \<open>None\<close> is undefined behaviour.\<close>

definition wr_main :: "fs \<Rightarrow> string \<Rightarrow> (char \<times> string) list \<Rightarrow> string \<Rightarrow> (nat \<times> string) option" where
  "wr_main w cwd0 optl inp =
     (case read_options w optl (no_options, cwd0) of
        None \<Rightarrow> None
      | Some (Inl n) \<Rightarrow> Some (n, [])
      | Some (Inr (opts, c)) \<Rightarrow>
          (let c' = (case rootdir opts of None \<Rightarrow> c | Some r \<Rightarrow> chd w c r) in
           case run_machine (wr_line w opts) \<lparr>cwd = c', out = []\<rparr> (fgets_all FILENAME_MAX inp) of
             Continue s \<Rightarrow> Some (0, out s)
           | Finish _ \<Rightarrow> None
           | Fault \<Rightarrow> None))"

section \<open>getfiles\<close>

fun getfiles_loop :: "fs \<Rightarrow> string \<Rightarrow> string list \<Rightarrow> string" where
  "getfiles_loop w dir [] = []"
| "getfiles_loop w dir (buf # bufs) =
     (case dropWhile (\<lambda>c. c \<noteq> CHR '' '') (cstr buf) of
        [] \<Rightarrow> []
      | _ # fn \<Rightarrow>
          (case stat_of w dir (chomp fn) of
             Some (Regular, _) \<Rightarrow> chomp fn @ ''\<newline>'' @ getfiles_loop w dir bufs
           | _ \<Rightarrow> getfiles_loop w dir bufs))"

definition getfiles :: "fs \<Rightarrow> string \<Rightarrow> string list \<Rightarrow> string \<Rightarrow> string" where
  "getfiles w dir argv inp =
     getfiles_loop w (case argv of _ # d # _ \<Rightarrow> chd w dir d | _ \<Rightarrow> dir) (fgets_all 512 inp)"

section \<open>getdu\<close>

text \<open>
  \<open>scan_pair\<close> is one call of \<^verbatim>\<open>scanf("%*s %s", fn)\<close> on the rest of the input; \<open>None\<close> is a
  return value other than 1.
\<close>

definition next_word :: "string \<Rightarrow> (string \<times> string) option" where
  "next_word s =
     (let t = dropWhile c_isspace s in
      if t = [] then None
      else Some (takeWhile (\<lambda>c. \<not> c_isspace c) t, dropWhile (\<lambda>c. \<not> c_isspace c) t))"

definition scan_pair :: "string \<Rightarrow> (string \<times> string) option" where
  "scan_pair s = (case next_word s of None \<Rightarrow> None | Some (_, r) \<Rightarrow> next_word r)"

lemma next_word_length: "next_word s = Some (v, r) \<Longrightarrow> length r < length s"
proof -
  assume a: "next_word s = Some (v, r)"
  let ?t = "dropWhile c_isspace s"
  from a have t: "?t \<noteq> []" "r = dropWhile (\<lambda>c. \<not> c_isspace c) ?t"
    by (auto simp: next_word_def Let_def split: if_splits)
  then obtain c cs where c: "?t = c # cs" by (cases ?t) auto
  then have "\<not> c_isspace c" by (metis dropWhile_eq_Cons_conv)
  then have "r = dropWhile (\<lambda>c. \<not> c_isspace c) cs" using t c by simp
  then have "length r \<le> length cs" by (simp add: length_dropWhile_le)
  moreover have "length ?t \<le> length s" by (rule length_dropWhile_le)
  ultimately show ?thesis using c by simp
qed

lemma scan_pair_length: "scan_pair s = Some (v, r) \<Longrightarrow> length r < length s"
  by (auto simp: scan_pair_def split: option.splits dest!: next_word_length)

definition PATH_MAX :: nat where "PATH_MAX = 4096"

function getdu_loop :: "fs \<Rightarrow> string \<Rightarrow> string \<Rightarrow> 64 word \<Rightarrow> 64 word option" where
  "getdu_loop w dir s sum_so_far =
     (case scan_pair s of
        None \<Rightarrow> Some sum_so_far
      | Some (fn, rest) \<Rightarrow>
          (if length fn \<ge> PATH_MAX then None
           else case stat_of w dir fn of
                  None \<Rightarrow> getdu_loop w dir rest sum_so_far
                | Some (t, st_size) \<Rightarrow>
                    getdu_loop w dir rest (sum_so_far + (if t = Regular then of_nat st_size else 512))))"
  by pat_completeness auto
termination
  by (relation "measure (\<lambda>(w, dir, s, sum_so_far). length s)") (auto dest: scan_pair_length)

declare getdu_loop.simps [simp del]

definition getdu :: "fs \<Rightarrow> string \<Rightarrow> string list \<Rightarrow> string \<Rightarrow> 64 word option" where
  "getdu w dir argv inp =
     getdu_loop w (case argv of _ # d # _ \<Rightarrow> chd w dir d | _ \<Rightarrow> dir) inp 0"


section \<open>Properties\<close>

text \<open>
  What the program does with one line when it always stands in the directory \<open>c\<close>.
\<close>

definition shown_name :: "wr_options \<Rightarrow> string \<Rightarrow> string" where
  "shown_name opts name =
     (case rootdir opts of
        None \<Rightarrow> print_name opts name
      | Some r \<Rightarrow> if prefix r name then print_name opts (drop (length r) name) else [])"

definition wanted :: "fs \<Rightarrow> wr_options \<Rightarrow> string \<Rightarrow> string \<Rightarrow> bool" where
  "wanted w opts c fn =
     (case stat_of w c fn of
        None \<Rightarrow> False
      | Some (t, _) \<Rightarrow>
          t \<noteq> Directory \<or> nodircheck opts \<or>
          (case entries w c fn of None \<Rightarrow> False | Some ns \<Rightarrow> \<not> set ns \<subseteq> {''.'', ''..''}))"

definition real_name :: "fs \<Rightarrow> string \<Rightarrow> string \<Rightarrow> string" where
  "real_name w c fn = (case get_realname w c fn of Some (name, _) \<Rightarrow> name | None \<Rightarrow> [])"

definition line_output :: "fs \<Rightarrow> wr_options \<Rightarrow> string \<Rightarrow> string \<Rightarrow> string" where
  "line_output w opts c buf =
     (case line_name opts (cstr buf) of
        None \<Rightarrow> []
      | Some fn \<Rightarrow> if wanted w opts c fn then shown_name opts (real_name w c fn) else [])"

text \<open>
  The behaviour of the file system the program relies on: after a look into another
  directory the old one can be entered again.  The conditions on a line: the real name fits
  the buffer, and a directory that is there can be read.
\<close>

definition returns_to :: "fs \<Rightarrow> string \<Rightarrow> bool" where
  "returns_to w c \<longleftrightarrow> (\<forall>d. chd w (chd w c d) c = c)"

definition line_fits :: "fs \<Rightarrow> wr_options \<Rightarrow> string \<Rightarrow> string \<Rightarrow> bool" where
  "line_fits w opts c buf =
     (case line_name opts (cstr buf) of
        None \<Rightarrow> True
      | Some fn \<Rightarrow>
          (case stat_of w c fn of
             None \<Rightarrow> True
           | Some (t, _) \<Rightarrow> get_realname w c fn \<noteq> None \<and> (t = Directory \<longrightarrow> entries w c fn \<noteq> None)))"

lemma only_dots_subset: "only_dots ns \<longleftrightarrow> set ns \<subseteq> {''.'', ''..''}"
  by (induction ns) auto

lemma get_realname_back:
  "returns_to w c \<Longrightarrow> get_realname w c fn = Some (name, bk) \<Longrightarrow> bk = c"
  by (auto simp: get_realname_def returns_to_def Let_def split: if_splits prod.splits)

lemma wr_line_output:
  assumes "returns_to w c" "line_fits w opts c buf" "cwd s = c"
  shows "wr_line w opts s buf = Continue (s\<lparr>out := out s @ line_output w opts c buf\<rparr>)"
proof (cases "line_name opts (cstr buf)")
  case None
  then show ?thesis by (simp add: wr_line_def line_output_def)
next
  case (Some fn)
  note fn = Some
  show ?thesis
  proof (cases "stat_of w c fn")
    case None
    with fn assms(3) show ?thesis by (simp add: wr_line_def line_output_def wanted_def)
  next
    case (Some st)
    obtain t n where st: "st = (t, n)" by (cases st)
    with Some fn assms(2) obtain name bk where g: "get_realname w c fn = Some (name, bk)"
      by (auto simp: line_fits_def)
    then have b: "bk = c" using assms(1) get_realname_back by blast
    have f: "wr_file w opts s fn = Continue (s\<lparr>out := out s @ shown_name opts (real_name w c fn)\<rparr>)"
      using g b assms(3)
      by (auto simp: wr_file_def shown_name_def real_name_def split: option.splits)
    show ?thesis
    proof (cases "t = Directory \<and> \<not> nodircheck opts")
      case True
      then obtain ns where "entries w c fn = Some ns"
        using assms(2) fn Some st by (auto simp: line_fits_def)
      with True f show ?thesis
        using fn Some st assms(3)
        by (auto simp: wr_line_def line_output_def wanted_def dir_empty_def only_dots_subset)
    next
      case False
      with f show ?thesis
        using fn Some st assms(3) by (auto simp: wr_line_def line_output_def wanted_def)
    qed
  qed
qed

lemma wr_lines_run:
  assumes "returns_to w c" "list_all (line_fits w opts c) bufs"
  shows "run_machine (wr_line w opts) \<lparr>cwd = c, out = o0\<rparr> bufs =
    Continue \<lparr>cwd = c, out = o0 @ concat (map (line_output w opts c) bufs)\<rparr>"
  using assms(2)
proof (induction bufs arbitrary: o0)
  case (Cons b bs)
  then show ?case using wr_line_output [OF assms(1), of opts b "\<lparr>cwd = c, out = o0\<rparr>"] by simp
qed simp

text \<open>
  The file list parser is a stateless filter: its output is, line by line, the real name of
  each existing file that is not an empty directory and lies below the root (with the root
  cut off), and after every line it is back in the directory it started from.
\<close>

theorem wr_lines_filter:
  assumes "returns_to w c" "list_all (line_fits w opts c) bufs"
  shows "run_machine (wr_line w opts) \<lparr>cwd = c, out = o0\<rparr> bufs =
    Continue \<lparr>cwd = c, out = o0 @ concat (map (line_output w opts c) bufs)\<rparr>"
  using assms by (rule wr_lines_run)

text \<open>A small file system: \<^verbatim>\<open>/r\<close> with a file \<^verbatim>\<open>a\<close> and an empty directory \<^verbatim>\<open>e\<close>.\<close>

definition small_fs :: fs where
  "small_fs =
     \<lparr>chd = (\<lambda>c d. if d = ''/r'' \<or> d = ''/'' then d else c),
      stat_of = (\<lambda>c f. if f = ''/r/a'' then Some (Regular, 5) else if f = ''/r/e'' then Some (Directory, 0) else None),
      entries = (\<lambda>c f. if f = ''/r/e'' then Some [''.'', ''..''] else None)\<rparr>"

definition root_r :: wr_options where
  "root_r = \<lparr>nodircheck = False, stripinfo = False, package = Some ''pkg'', rootdir = Some ''/r''\<rparr>"

theorem wr_lines_filter_witness:
  "run_machine (wr_line small_fs root_r) \<lparr>cwd = ''/'', out = []\<rparr> [''/r/a\<newline>'', ''/r/e\<newline>'', ''/r/x\<newline>''] =
     Continue \<lparr>cwd = ''/'', out = ''pkg: /a\<newline>''\<rparr>"
proof -
  have "returns_to small_fs ''/''" by (simp add: returns_to_def small_fs_def)
  moreover have "list_all (line_fits small_fs root_r ''/'') [''/r/a\<newline>'', ''/r/e\<newline>'', ''/r/x\<newline>'']"
    by (simp add: line_fits_def line_name_def root_r_def cstr_def chomp_def small_fs_def get_realname_def
        FILENAME_MAX_def)
  ultimately show ?thesis
    using wr_lines_filter [of small_fs "''/''" root_r "[''/r/a\<newline>'', ''/r/e\<newline>'', ''/r/x\<newline>'']" "[]"]
    by (simp add: line_output_def line_name_def root_r_def cstr_def chomp_def small_fs_def get_realname_def
        FILENAME_MAX_def wanted_def shown_name_def real_name_def print_name_def)
qed

lemma split_last_root: "CHR ''/'' \<notin> set f \<Longrightarrow> split_last f = None"
  by (induction f) auto

text \<open>
  A file directly below the root directory is reported as a file of the current
  directory, because the part before its only slash is empty and \<^verbatim>\<open>chdir\<close> of an empty path
  fails.
\<close>

theorem root_file_misnamed:
  assumes "chd w c [] = c" "chd w c c = c" and "CHR ''/'' \<notin> set f" "f \<noteq> []"
    and "length c + length f + 1 < FILENAME_MAX" "c \<noteq> ''/''"
  shows "get_realname w c (CHR ''/'' # f) = Some (c @ ''/'' @ f, c)"
  using assms by (simp add: get_realname_def split_last_root)

theorem root_file_misnamed_witness:
  "get_realname small_fs ''/r'' ''/init'' = Some (''/r/init'', ''/r'')"
  using root_file_misnamed [of small_fs "''/r''" "''init''"]
  by (simp add: small_fs_def FILENAME_MAX_def)

text \<open>
  A file outside the root is reported as well when its name only starts with the
  characters of the root, as a file of a sibling directory with a longer name does.
\<close>

theorem sibling_reported:
  assumes "rootdir opts = Some r" "package opts = None" "get_realname w (cwd s) fn = Some (r @ x, cwd s)"
  shows "wr_file w opts s fn = Continue (s\<lparr>out := out s @ x @ ''\<newline>''\<rparr>)"
  using assms by (simp add: wr_file_def print_name_def)

theorem sibling_reported_witness:
  "wr_file (small_fs\<lparr>chd := (\<lambda>c d. d)\<rparr>) (no_options\<lparr>rootdir := Some ''/r''\<rparr>) \<lparr>cwd = ''/r'', out = []\<rparr> ''/r2/x'' =
     Continue \<lparr>cwd = ''/r'', out = ''2/x\<newline>''\<rparr>"
  using sibling_reported [of "no_options\<lparr>rootdir := Some ''/r''\<rparr>" "''/r''" "small_fs\<lparr>chd := (\<lambda>c d. d)\<rparr>"
      "\<lparr>cwd = ''/r'', out = []\<rparr>" "''/r2/x''" "''2/x''"]
  by (simp add: no_options_def get_realname_def FILENAME_MAX_def)

section \<open>getfiles and getdu\<close>

definition list_line :: "string \<Rightarrow> string \<Rightarrow> string" where
  "list_line pkg fn = pkg @ '' '' @ fn @ ''\<newline>''"

lemma chomp_line: "CHR ''\<newline>'' \<notin> set fn \<Longrightarrow> chomp (fn @ ''\<newline>'') = fn"
  by (induction fn) (auto simp: chomp_def)

definition name_ok :: "string \<Rightarrow> bool" where
  "name_ok s \<longleftrightarrow> s \<noteq> [] \<and> list_all (\<lambda>c. \<not> c_isspace c \<and> c \<noteq> CHR 0x00) s"

lemma name_okD:
  assumes "name_ok s"
  shows "CHR ''\<newline>'' \<notin> set s" "CHR '' '' \<notin> set s" "CHR 0x00 \<notin> set s"
proof -
  have "c_isspace CHR ''\<newline>''" "c_isspace CHR '' ''" by (simp_all add: c_isspace_def code_def)
  with assms show "CHR ''\<newline>'' \<notin> set s" "CHR '' '' \<notin> set s" "CHR 0x00 \<notin> set s"
    unfolding name_ok_def list_all_iff by blast+
qed

definition files_of :: "fs \<Rightarrow> string \<Rightarrow> (string \<times> string) list \<Rightarrow> string list" where
  "files_of w dir xs = filter (\<lambda>fn. case stat_of w dir fn of Some (Regular, _) \<Rightarrow> True | _ \<Rightarrow> False) (map snd xs)"

lemma getfiles_loop_line:
  assumes "name_ok pkg" "name_ok fn"
  shows "getfiles_loop w dir (list_line pkg fn # bufs) =
    (case stat_of w dir fn of
       Some (Regular, _) \<Rightarrow> fn @ ''\<newline>'' @ getfiles_loop w dir bufs
     | _ \<Rightarrow> getfiles_loop w dir bufs)"
proof -
  have "cstr (list_line pkg fn) = list_line pkg fn"
    using name_okD [OF assms(1)] name_okD [OF assms(2)] by (intro cstr_id) (auto simp: list_line_def)
  moreover have "dropWhile (\<lambda>c. c \<noteq> CHR '' '') (list_line pkg fn) = CHR '' '' # fn @ ''\<newline>''"
    using name_okD [OF assms(1)] by (auto simp: list_line_def dropWhile_append)
  ultimately show ?thesis
    using chomp_line [OF name_okD(1) [OF assms(2)]] by (simp only: getfiles_loop.simps list.case)
qed

lemma getfiles_loop_files:
  "list_all (\<lambda>(pkg, fn). name_ok pkg \<and> name_ok fn) xs \<Longrightarrow>
   getfiles_loop w dir (map (\<lambda>(pkg, fn). list_line pkg fn) xs) =
     concat (map (\<lambda>fn. fn @ ''\<newline>'') (files_of w dir xs))"
  by (induction xs)
    (auto simp: getfiles_loop_line files_of_def simp del: getfiles_loop.simps(2)
      split: option.splits file_type.splits)

text \<open>
  Given a package file list, \<^verbatim>\<open>getfiles\<close> prints the regular files of it, one per line, in
  the order of the list.
\<close>

theorem getfiles_prints_regular:
  assumes "list_all (\<lambda>(pkg, fn). name_ok pkg \<and> name_ok fn \<and> length pkg + length fn < 510) xs"
  shows "getfiles w dir [arg0] (concat (map (\<lambda>(pkg, fn). list_line pkg fn) xs)) =
    concat (map (\<lambda>fn. fn @ ''\<newline>'') (files_of w dir xs))"
proof -
  let ?ls = "map (\<lambda>(pkg, fn). pkg @ '' '' @ fn) xs"
  have "CHR ''\<newline>'' \<notin> set l \<and> length l + 1 < 512" if "l \<in> set ?ls" for l
    using that assms name_okD by (fastforce simp: list_all_iff)
  then have "fgets_all 512 (concat (map (\<lambda>l. l @ ''\<newline>'') ?ls)) = map (\<lambda>l. l @ ''\<newline>'') ?ls"
    by (intro fgets_all_lines) auto
  moreover have m: "map (\<lambda>l. l @ ''\<newline>'') ?ls = map (\<lambda>(pkg, fn). list_line pkg fn) xs"
    by (auto simp: list_line_def)
  moreover have "list_all (\<lambda>(pkg, fn). name_ok pkg \<and> name_ok fn) xs"
    using assms by (auto simp: list_all_iff)
  ultimately show ?thesis by (simp only: getfiles_def list.case m getfiles_loop_files)
qed

theorem getfiles_prints_regular_witness:
  "getfiles small_fs ''/'' [''getfiles''] ''pkg: /r/a\<newline>pkg: /r/e\<newline>'' = ''/r/a\<newline>''"
  using getfiles_prints_regular [of "[(''pkg:'', ''/r/a''), (''pkg:'', ''/r/e'')]" small_fs "''/''" "''getfiles''"]
  by (simp add: name_ok_def c_isspace_def code_def list_line_def files_of_def small_fs_def)

definition disk_use :: "fs \<Rightarrow> string \<Rightarrow> string \<Rightarrow> nat" where
  "disk_use w dir fn =
     (case stat_of w dir fn of None \<Rightarrow> 0 | Some (t, n) \<Rightarrow> if t = Regular then n else 512)"

lemma next_word_cons:
  assumes "name_ok x" "r = [] \<or> c_isspace (hd r)"
  shows "next_word (x @ r) = Some (x, r)" "next_word (CHR ''\<newline>'' # x @ r) = Some (x, r)"
    "next_word (CHR '' '' # x @ r) = Some (x, r)"
proof -
  have sp: "c_isspace CHR ''\<newline>''" "c_isspace CHR '' ''" by (simp_all add: c_isspace_def code_def)
  have x: "\<forall>c \<in> set x. \<not> c_isspace c" "x \<noteq> []" using assms(1) by (auto simp: name_ok_def list_all_iff)
  then have "dropWhile c_isspace (x @ r) = x @ r" by (cases x) auto
  moreover have "takeWhile (\<lambda>c. \<not> c_isspace c) (x @ r) = x" "dropWhile (\<lambda>c. \<not> c_isspace c) (x @ r) = r"
    using x assms(2) by (cases r; simp add: takeWhile_append dropWhile_append)+
  ultimately show "next_word (x @ r) = Some (x, r)" "next_word (CHR ''\<newline>'' # x @ r) = Some (x, r)"
    "next_word (CHR '' '' # x @ r) = Some (x, r)"
    using x(2) sp by (simp_all add: next_word_def)
qed

lemma next_word_newline: "next_word (CHR ''\<newline>'' # s) = next_word s"
  by (simp add: next_word_def c_isspace_def code_def)

lemma getdu_loop_newline: "getdu_loop w dir (CHR ''\<newline>'' # s) n = getdu_loop w dir s n"
  by (subst (1 2) getdu_loop.simps) (simp add: scan_pair_def next_word_newline)

lemma scan_pair_line:
  assumes "name_ok pkg" "name_ok fn"
  shows "scan_pair (list_line pkg fn @ r) = Some (fn, CHR ''\<newline>'' # r)"
proof -
  have sp: "c_isspace CHR ''\<newline>''" "c_isspace CHR '' ''" by (simp_all add: c_isspace_def code_def)
  have "next_word (pkg @ CHR '' '' # fn @ CHR ''\<newline>'' # r) = Some (pkg, CHR '' '' # fn @ CHR ''\<newline>'' # r)"
    by (rule next_word_cons) (use assms sp in simp_all)
  moreover have "next_word (CHR '' '' # fn @ CHR ''\<newline>'' # r) = Some (fn, CHR ''\<newline>'' # r)"
    by (rule next_word_cons) (use assms sp in simp_all)
  ultimately show ?thesis by (simp add: scan_pair_def list_line_def)
qed

lemma getdu_loop_line:
  assumes "name_ok pkg" "name_ok fn" "length fn < PATH_MAX"
  shows "getdu_loop w dir (list_line pkg fn @ r) n = getdu_loop w dir r (n + of_nat (disk_use w dir fn))"
  using assms
  by (subst getdu_loop.simps)
    (auto simp: scan_pair_line getdu_loop_newline disk_use_def not_le split: option.splits)

text \<open>
  The size \<^verbatim>\<open>getdu\<close> computes for a package file list is the sum over its existing files of
  the length of a regular file and of 512 bytes for any other one, modulo the width of the
  counter.
\<close>

theorem getdu_sum:
  assumes "list_all (\<lambda>(pkg, fn). name_ok pkg \<and> name_ok fn \<and> length fn < PATH_MAX) xs"
  shows "getdu w dir [arg0] (concat (map (\<lambda>(pkg, fn). list_line pkg fn) xs)) =
    Some (of_nat (sum_list (map (\<lambda>(pkg, fn). disk_use w dir fn) xs)))"
proof -
  have "getdu_loop w dir (concat (map (\<lambda>(pkg, fn). list_line pkg fn) xs)) n =
      Some (n + of_nat (sum_list (map (\<lambda>(pkg, fn). disk_use w dir fn) xs)))" for n
    using assms
  proof (induction xs arbitrary: n)
    case Nil
    have "scan_pair [] = None" by (simp add: scan_pair_def next_word_def)
    then show ?case by (simp add: getdu_loop.simps)
  next
    case (Cons x xs)
    then show ?case by (cases x) (simp add: getdu_loop_line add.assoc)
  qed
  then show ?thesis by (simp add: getdu_def)
qed

theorem getdu_sum_witness:
  "getdu small_fs ''/'' [''getdu''] ''pkg: /r/a\<newline>pkg: /r/e\<newline>pkg: /r/x\<newline>'' = Some 517"
  using getdu_sum [of "[(''pkg:'', ''/r/a''), (''pkg:'', ''/r/e''), (''pkg:'', ''/r/x'')]" small_fs "''/''" "''getdu''"]
  by (simp add: name_ok_def c_isspace_def code_def list_line_def disk_use_def small_fs_def PATH_MAX_def)

end
