(* ===== verification/Profiler.thy ===== *)
theory Profiler
  imports CLib
begin

text \<open>
  \<^verbatim>\<open>misc/tools-source/bash_profiler.c\<close>: the wall clock profiler built into the shell.

  The list of entries is a list of records, newest first.  The time of day is passed to each
  call as seconds and microseconds.  A printed line is a \<open>row\<close>: count, total and name (the
  average in it is their quotient).  Counters and milliseconds stay within their types.
\<close>

record bprofent =
  id :: string
  count :: int
  tv_sum :: int
  tv_start :: int

type_synonym timeval = "int \<times> int"

fun mytime :: "timeval \<Rightarrow> int" where
  "mytime (tv_sec, tv_usec) = tv_sec * 1000 + tv_usec div 1000"

type_synonym row = "int \<times> int \<times> string"

definition row_of :: "bprofent \<Rightarrow> row" where
  "row_of e = (count e, tv_sum e, id e)"

fun find_entry :: "string \<Rightarrow> bprofent list \<Rightarrow> bprofent option" where
  "find_entry name [] = None"
| "find_entry name (e # es) = (if id e = name then Some e else find_entry name es)"

definition new_entry :: "string \<Rightarrow> bprofent" where
  "new_entry name = \<lparr>id = name, count = 0, tv_sum = 0, tv_start = 0\<rparr>"

fun update_entry :: "string \<Rightarrow> (bprofent \<Rightarrow> bprofent) \<Rightarrow> bprofent list \<Rightarrow> bprofent list" where
  "update_entry name f [] = []"
| "update_entry name f (e # es) = (if id e = name then f e # es else e # update_entry name f es)"

definition apply_mode :: "string \<Rightarrow> int \<Rightarrow> bprofent \<Rightarrow> bprofent" where
  "apply_mode mode now e =
     (if mode = ''start'' then e\<lparr>tv_start := now\<rparr>
      else if mode = ''stop'' then e\<lparr>tv_sum := tv_sum e + (now - tv_start e), count := count e + 1\<rparr>
      else e)"

text \<open>Return value, list afterwards and lines printed.\<close>

fun bprof_builtin :: "timeval \<Rightarrow> string list \<Rightarrow> bprofent list \<Rightarrow> int \<times> bprofent list \<times> row list" where
  "bprof_builtin now (name # mode # _) es =
     (if mode = ''print'' \<and> name = ''all'' then (0, es, map row_of es)
      else
        (let es1 = (if find_entry name es = None then new_entry name # es else es);
             es2 = update_entry name (apply_mode mode (mytime now)) es1
         in (0, es2, if mode = ''print'' then
               (case find_entry name es2 of None \<Rightarrow> [] | Some e \<Rightarrow> [row_of e]) else [])))"
| "bprof_builtin now _ es = (1, es, [])"

section \<open>Every name has one clock of its own\<close>

type_synonym command = "timeval \<times> string list"

definition run_commands :: "command list \<Rightarrow> bprofent list \<Rightarrow> bprofent list" where
  "run_commands cs es = fold (\<lambda>(now, ws) es. fst (snd (bprof_builtin now ws es))) cs es"

text \<open>The clock of one name and its commands.\<close>

definition entry_after :: "string \<Rightarrow> command \<Rightarrow> bprofent option \<Rightarrow> bprofent option" where
  "entry_after name c e =
     (case c of (now, ws) \<Rightarrow>
        (case ws of
           n # mode # _ \<Rightarrow>
             (if n = name \<and> \<not> (mode = ''print'' \<and> name = ''all'') then
                Some (apply_mode mode (mytime now) (case e of None \<Rightarrow> new_entry name | Some x \<Rightarrow> x))
              else e)
         | _ \<Rightarrow> e))"

lemma id_new [simp]: "id (new_entry n) = n"
  by (simp add: new_entry_def)

lemma id_apply_mode [simp]: "id (apply_mode m t e) = id e"
  by (simp add: apply_mode_def)

lemma find_update:
  "(\<And>e. id (f e) = id e) \<Longrightarrow>
   find_entry n (update_entry m f es) =
     (if n = m then map_option f (find_entry n es) else find_entry n es)"
  by (induction es) auto

lemma builtin_entry:
  "find_entry name (fst (snd (bprof_builtin now ws es))) = entry_after name (now, ws) (find_entry name es)"
  by (cases "(now, ws, es)" rule: bprof_builtin.cases)
    (auto simp: entry_after_def find_update Let_def split: option.splits)

lemma clock:
  "find_entry name (run_commands cs es) =
     fold (entry_after name) (filter (\<lambda>c. snd c \<noteq> [] \<and> hd (snd c) = name) cs) (find_entry name es)"
proof (induction cs arbitrary: es)
  case Nil
  then show ?case by (simp add: run_commands_def)
next
  case (Cons c cs)
  obtain now ws where c: "c = (now, ws)" by (cases c)
  have "run_commands (c # cs) es = run_commands cs (fst (snd (bprof_builtin now ws es)))"
    by (simp add: run_commands_def c)
  moreover have "entry_after name (now, ws) e = e" if "\<not> (ws \<noteq> [] \<and> hd ws = name)" for e
    using that by (cases ws) (auto simp: entry_after_def split: list.splits)
  ultimately show ?case using Cons by (auto simp: builtin_entry c)
qed

text \<open>
  The profile of a name depends on the commands for that name only: a run of the builtin
  with interleaved commands leaves in its entry what the commands for it alone compute.
\<close>

theorem profile_per_name:
  "find_entry name (run_commands cs es) =
     fold (entry_after name) (filter (\<lambda>c. snd c \<noteq> [] \<and> hd (snd c) = name) cs) (find_entry name es)"
  by (rule clock)

text \<open>Commands that start and stop one name.\<close>

fun measure_runs :: "string \<Rightarrow> (timeval \<times> timeval) list \<Rightarrow> command list" where
  "measure_runs name [] = []"
| "measure_runs name ((t0, t1) # rs) =
     (t0, [name, ''start'']) # (t1, [name, ''stop'']) # measure_runs name rs"

lemma measure_runs_fold:
  "fold (entry_after name) (measure_runs name rs) (Some e) =
     Some (case rs of [] \<Rightarrow> e | _ \<Rightarrow>
       e\<lparr>count := count e + int (length rs),
         tv_sum := tv_sum e + sum_list (map (\<lambda>(t0, t1). mytime t1 - mytime t0) rs),
         tv_start := mytime (fst (last rs))\<rparr>)"
proof (induction rs arbitrary: e)
  case (Cons r rs)
  obtain t0 t1 where r: "r = (t0, t1)" by (cases r)
  show ?case
    using Cons by (cases rs) (simp_all add: r entry_after_def apply_mode_def)
qed simp

text \<open>
  After measured runs of one name, with commands for other names in between, its entry
  holds their number and the sum of their durations in milliseconds.
\<close>

theorem profile_sums:
  assumes "rs \<noteq> []" and "filter (\<lambda>c. snd c \<noteq> [] \<and> hd (snd c) = name) cs = measure_runs name rs"
    and "find_entry name es = Some e"
  shows "map_option row_of (find_entry name (run_commands cs es)) =
    Some (count e + int (length rs),
          tv_sum e + sum_list (map (\<lambda>(t0, t1). mytime t1 - mytime t0) rs), name)"
proof -
  have "id e = name" using assms(3) by (induction es) (auto split: if_splits)
  then show ?thesis
    using assms(1) by (cases rs) (simp_all add: clock assms row_of_def measure_runs_fold)
qed

theorem profile_sums_witness:
  "map_option row_of (find_entry ''a''
     (run_commands [((1, 0), [''a'', ''start'']), ((1, 500000), [''b'', ''start'']), ((3, 2000), [''a'', ''stop''])]
        [new_entry ''a''])) = Some (1, 2002, ''a'')"
  using profile_sums [of "[((1, 0), (3, 2000))]" "''a''"
      "[((1, 0), [''a'', ''start'']), ((1, 500000), [''b'', ''start'']), ((3, 2000), [''a'', ''stop''])]"
      "[new_entry ''a'']" "new_entry ''a''"]
  by (simp add: new_entry_def)

end
