(* ===== verification/DialogUtil.thy ===== *)
theory DialogUtil
  imports CLib "HOL-Library.Signed_Division"
begin

text \<open>
  \<^verbatim>\<open>misc/confdialog/util.c\<close>, \<^verbatim>\<open>colors.h\<close> and \<^verbatim>\<open>dialog.h\<close>: what the dialog boxes share.

  Output through curses is a list of calls, \<open>cop\<close>, in the order they are made; a drawing
  function maps the calls so far to the calls so far and its own.  What curses tells the
  program back (the cursor position, \<^verbatim>\<open>getyx\<close>) is a parameter, a function of the calls so far.
  A key is an \<^verbatim>\<open>int\<close> with the numbers of ncurses; an attribute is its index in the table
  \<^verbatim>\<open>attributes\<close>.  Coordinates are C \<^verbatim>\<open>int\<close>s, as mathematical integers with C division.
\<close>

section \<open>Calls of curses\<close>

datatype win = Stdscr | Dialog | Sub

datatype attr = Zero | Attr nat

datatype glyph =
    Chr char
  | ACS_ULCORNER | ACS_LLCORNER | ACS_URCORNER | ACS_LRCORNER
  | ACS_HLINE | ACS_VLINE | ACS_LTEE | ACS_RTEE | ACS_UARROW | ACS_DARROW

datatype cop =
    Wattrset win attr
  | Wbkgdset win attr
  | Wmove win int int
  | Waddch win "attr option" glyph
  | Waddstr win string
  | Shade win
  | Wclrtoeol win
  | Wscrl win int
  | Scrollok win bool
  | Touchwin win
  | Wrefresh win
  | Wnoutrefresh win
  | Doupdate
  | Newwin int int int int
  | Subwin int int int int
  | Delwin
  | Keypad win
  | Start_color
  | Init_pair nat
  | Initscr
  | Cbreak
  | Noecho
  | Endwin
  | Flash

type_synonym screen = "cop list"

definition putch :: "win \<Rightarrow> glyph \<Rightarrow> cop" where "putch w g = Waddch w None g"

definition ESC :: int where "ESC = 27"
definition TAB :: int where "TAB = 9"
definition NEWLINE :: int where "NEWLINE = 10"
definition SPACE :: int where "SPACE = 32"
definition KEY_DOWN :: int where "KEY_DOWN = 258"
definition KEY_UP :: int where "KEY_UP = 259"
definition KEY_LEFT :: int where "KEY_LEFT = 260"
definition KEY_RIGHT :: int where "KEY_RIGHT = 261"
definition KEY_HOME :: int where "KEY_HOME = 262"
definition KEY_BACKSPACE :: int where "KEY_BACKSPACE = 263"
definition KEY_NPAGE :: int where "KEY_NPAGE = 338"
definition KEY_PPAGE :: int where "KEY_PPAGE = 339"
definition KEY_END :: int where "KEY_END = 360"

lemmas key_defs = ESC_def TAB_def NEWLINE_def SPACE_def KEY_DOWN_def KEY_UP_def KEY_LEFT_def
  KEY_RIGHT_def KEY_HOME_def KEY_BACKSPACE_def KEY_NPAGE_def KEY_PPAGE_def KEY_END_def

definition is_key :: "int \<Rightarrow> char \<Rightarrow> bool" where "is_key key c \<longleftrightarrow> key = code c"

definition MAX_LEN :: nat where "MAX_LEN = 2048"

section \<open>Attributes\<close>

datatype color = Black | Red | Green | Yellow | Blue | Cyan | White

datatype style = Normal | Bold | Dim | Reverse

text \<open>The value of an attribute: a style, a color pair (0: none).\<close>

type_synonym attr_value = "style \<times> nat"

definition screen_attr :: attr where "screen_attr = Attr 0"
definition shadow_attr :: attr where "shadow_attr = Attr 1"
definition dialog_attr :: attr where "dialog_attr = Attr 2"
definition title_attr :: attr where "title_attr = Attr 3"
definition border_attr :: attr where "border_attr = Attr 4"
definition button_active_attr :: attr where "button_active_attr = Attr 5"
definition button_inactive_attr :: attr where "button_inactive_attr = Attr 6"
definition button_key_active_attr :: attr where "button_key_active_attr = Attr 7"
definition button_key_inactive_attr :: attr where "button_key_inactive_attr = Attr 8"
definition button_label_active_attr :: attr where "button_label_active_attr = Attr 9"
definition button_label_inactive_attr :: attr where "button_label_inactive_attr = Attr 10"
definition inputbox_attr :: attr where "inputbox_attr = Attr 11"
definition inputbox_border_attr :: attr where "inputbox_border_attr = Attr 12"
definition searchbox_attr :: attr where "searchbox_attr = Attr 13"
definition searchbox_title_attr :: attr where "searchbox_title_attr = Attr 14"
definition searchbox_border_attr :: attr where "searchbox_border_attr = Attr 15"
definition position_indicator_attr :: attr where "position_indicator_attr = Attr 16"
definition menubox_attr :: attr where "menubox_attr = Attr 17"
definition menubox_border_attr :: attr where "menubox_border_attr = Attr 18"
definition item_attr :: attr where "item_attr = Attr 19"
definition item_selected_attr :: attr where "item_selected_attr = Attr 20"
definition tag_attr :: attr where "tag_attr = Attr 21"
definition tag_selected_attr :: attr where "tag_selected_attr = Attr 22"
definition tag_key_attr :: attr where "tag_key_attr = Attr 23"
definition tag_key_selected_attr :: attr where "tag_key_selected_attr = Attr 24"
definition check_attr :: attr where "check_attr = Attr 25"
definition check_selected_attr :: attr where "check_selected_attr = Attr 26"
definition uarrow_attr :: attr where "uarrow_attr = Attr 27"
definition darrow_attr :: attr where "darrow_attr = Attr 28"

definition ATTRIBUTE_COUNT :: nat where "ATTRIBUTE_COUNT = 29"

definition mono_attributes :: "style list" where
  "mono_attributes =
     [Normal, Normal, Normal, Bold, Normal, Reverse, Dim, Reverse,
      Bold, Reverse, Normal, Normal, Normal, Normal, Bold, Normal,
      Bold, Normal, Normal, Normal, Reverse, Bold, Reverse, Bold,
      Reverse, Bold, Reverse, Bold, Bold]"

text \<open>Foreground, background and highlight of each role.\<close>

type_synonym color_triple = "color \<times> color \<times> bool"

definition SCREEN_colors :: color_triple where "SCREEN_colors = (Cyan, Blue, True)"
definition SHADOW_colors :: color_triple where "SHADOW_colors = (Black, Black, True)"
definition DIALOG_colors :: color_triple where "DIALOG_colors = (Black, White, False)"
definition TITLE_colors :: color_triple where "TITLE_colors = (Yellow, White, True)"
definition BORDER_colors :: color_triple where "BORDER_colors = (White, White, True)"
definition BUTTON_ACTIVE_colors :: color_triple where "BUTTON_ACTIVE_colors = (White, Blue, True)"
definition BUTTON_INACTIVE_colors :: color_triple where "BUTTON_INACTIVE_colors = (Black, White, False)"
definition BUTTON_KEY_ACTIVE_colors :: color_triple where "BUTTON_KEY_ACTIVE_colors = (White, Blue, True)"
definition BUTTON_KEY_INACTIVE_colors :: color_triple where "BUTTON_KEY_INACTIVE_colors = (Red, White, False)"
definition BUTTON_LABEL_ACTIVE_colors :: color_triple where "BUTTON_LABEL_ACTIVE_colors = (Yellow, Blue, True)"
definition BUTTON_LABEL_INACTIVE_colors :: color_triple where "BUTTON_LABEL_INACTIVE_colors = (Black, White, True)"
definition INPUTBOX_colors :: color_triple where "INPUTBOX_colors = (Black, White, False)"
definition INPUTBOX_BORDER_colors :: color_triple where "INPUTBOX_BORDER_colors = (Black, White, False)"
definition SEARCHBOX_colors :: color_triple where "SEARCHBOX_colors = (Black, White, False)"
definition SEARCHBOX_TITLE_colors :: color_triple where "SEARCHBOX_TITLE_colors = (Yellow, White, True)"
definition SEARCHBOX_BORDER_colors :: color_triple where "SEARCHBOX_BORDER_colors = (White, White, True)"
definition POSITION_INDICATOR_colors :: color_triple where "POSITION_INDICATOR_colors = (Yellow, White, True)"
definition MENUBOX_colors :: color_triple where "MENUBOX_colors = (Black, White, False)"
definition MENUBOX_BORDER_colors :: color_triple where "MENUBOX_BORDER_colors = (White, White, True)"
definition ITEM_colors :: color_triple where "ITEM_colors = (Black, White, False)"
definition ITEM_SELECTED_colors :: color_triple where "ITEM_SELECTED_colors = (White, Blue, True)"
definition TAG_colors :: color_triple where "TAG_colors = (Yellow, White, True)"
definition TAG_SELECTED_colors :: color_triple where "TAG_SELECTED_colors = (Yellow, Blue, True)"
definition TAG_KEY_colors :: color_triple where "TAG_KEY_colors = (Yellow, White, True)"
definition TAG_KEY_SELECTED_colors :: color_triple where "TAG_KEY_SELECTED_colors = (Yellow, Blue, True)"
definition CHECK_colors :: color_triple where "CHECK_colors = (Black, White, False)"
definition CHECK_SELECTED_colors :: color_triple where "CHECK_SELECTED_colors = (White, Blue, True)"
definition UARROW_colors :: color_triple where "UARROW_colors = (Green, White, True)"
definition DARROW_colors :: color_triple where "DARROW_colors = (Green, White, True)"

definition color_table :: "color_triple list" where
  "color_table =
     [SCREEN_colors, SHADOW_colors, DIALOG_colors,
      TITLE_colors, BORDER_colors, BUTTON_ACTIVE_colors,
      BUTTON_INACTIVE_colors, BUTTON_KEY_ACTIVE_colors, BUTTON_KEY_INACTIVE_colors,
      BUTTON_LABEL_ACTIVE_colors, BUTTON_LABEL_INACTIVE_colors, INPUTBOX_colors,
      INPUTBOX_BORDER_colors, SEARCHBOX_colors, SEARCHBOX_TITLE_colors,
      SEARCHBOX_BORDER_colors, POSITION_INDICATOR_colors, MENUBOX_colors,
      MENUBOX_BORDER_colors, ITEM_colors, ITEM_SELECTED_colors,
      TAG_colors, TAG_SELECTED_colors, TAG_KEY_colors,
      TAG_KEY_SELECTED_colors, CHECK_colors, CHECK_SELECTED_colors,
      UARROW_colors, DARROW_colors]"

definition C_ATTR :: "bool \<Rightarrow> nat \<Rightarrow> attr_value" where
  "C_ATTR x y = (if x then Bold else Normal, y)"

text \<open>The table of attributes and the initialised color pairs.\<close>

record colors =
  attributes :: "attr_value list"
  pairs :: "nat \<rightharpoonup> color \<times> color"

definition initial_colors :: colors where
  "initial_colors = \<lparr>attributes = map (\<lambda>s. (s, 0)) mono_attributes, pairs = Map.empty\<rparr>"

fun init_pairs :: "nat \<Rightarrow> (color \<times> color \<times> bool) list \<Rightarrow> colors \<Rightarrow> colors" where
  "init_pairs i [] c = c"
| "init_pairs i ((fg, bg, hl) # t) c = init_pairs (i + 1) t (c\<lparr>pairs := (pairs c)(i + 1 \<mapsto> (fg, bg))\<rparr>)"

fun set_attributes :: "nat \<Rightarrow> (color \<times> color \<times> bool) list \<Rightarrow> colors \<Rightarrow> colors" where
  "set_attributes i [] c = c"
| "set_attributes i ((fg, bg, hl) # t) c =
     set_attributes (i + 1) t (c\<lparr>attributes := (attributes c)[i := C_ATTR hl (i + 1)]\<rparr>)"

definition color_setup :: "bool \<Rightarrow> colors \<Rightarrow> colors" where
  "color_setup has_colors c =
     (if has_colors then
        set_attributes 0 (take ATTRIBUTE_COUNT color_table)
          (init_pairs 0 (take ATTRIBUTE_COUNT color_table) c)
      else c)"

section \<open>Drawing\<close>

text \<open>\<open>counter n\<close> are the values of the counter of \<^verbatim>\<open>for (i = 0; i < n; i++)\<close>.\<close>

definition counter :: "int \<Rightarrow> int list" where
  "counter n = map int [0..<nat n]"

definition attr_clear :: "win \<Rightarrow> int \<Rightarrow> int \<Rightarrow> attr \<Rightarrow> screen" where
  "attr_clear w height width a =
     [Wattrset w a] @
     concat (map (\<lambda>i. Wmove w i 0 # map (\<lambda>j. putch w (Chr CHR '' '')) (counter width)) (counter height)) @
     [Touchwin w]"

definition dialog_clear :: "int \<Rightarrow> int \<Rightarrow> string option \<Rightarrow> screen" where
  "dialog_clear lines cols backtitle =
     attr_clear Stdscr lines cols screen_attr @
     (case backtitle of
        None \<Rightarrow> []
      | Some t \<Rightarrow>
          [Wattrset Stdscr screen_attr, Wmove Stdscr 0 1, Waddstr Stdscr t, Wmove Stdscr 1 1] @
          map (\<lambda>i. putch Stdscr ACS_HLINE) (counter (cols - 2))) @
     [Wnoutrefresh Stdscr]"

definition init_dialog :: "int \<Rightarrow> int \<Rightarrow> bool \<Rightarrow> string option \<Rightarrow> screen" where
  "init_dialog lines cols has_colors backtitle =
     [Initscr, Keypad Stdscr, Cbreak, Noecho] @
     (if has_colors then Start_color # map (\<lambda>i. Init_pair (i + 1)) [0..<ATTRIBUTE_COUNT] else []) @
     dialog_clear lines cols backtitle"

definition end_dialog :: screen where "end_dialog = [Endwin]"

definition print_button :: "string \<Rightarrow> int \<Rightarrow> int \<Rightarrow> bool \<Rightarrow> screen" where
  "print_button label y x selected =
     (let temp = length (takeWhile (\<lambda>c. c = CHR '' '') label);
          rest = drop temp label;
          lab = Wattrset Dialog (if selected then button_label_active_attr else button_label_inactive_attr)
      in [Wmove Dialog y x,
          Wattrset Dialog (if selected then button_active_attr else button_inactive_attr),
          Waddstr Dialog ''<'', lab] @
         replicate temp (putch Dialog (Chr CHR '' '')) @
         [Wattrset Dialog (if selected then button_key_active_attr else button_key_inactive_attr),
          putch Dialog (Chr (if rest = [] then CHR 0x00 else hd rest)), lab,
          Waddstr Dialog (tl rest),
          Wattrset Dialog (if selected then button_active_attr else button_inactive_attr),
          Waddstr Dialog ''>'',
          Wmove Dialog y (x + int temp + 1)])"

definition box_cell :: "int \<Rightarrow> int \<Rightarrow> attr \<Rightarrow> attr \<Rightarrow> int \<Rightarrow> int \<Rightarrow> cop" where
  "box_cell height width box border i j =
     (if i = 0 \<and> j = 0 then Waddch Dialog (Some border) ACS_ULCORNER
      else if i = height - 1 \<and> j = 0 then Waddch Dialog (Some border) ACS_LLCORNER
      else if i = 0 \<and> j = width - 1 then Waddch Dialog (Some box) ACS_URCORNER
      else if i = height - 1 \<and> j = width - 1 then Waddch Dialog (Some box) ACS_LRCORNER
      else if i = 0 then Waddch Dialog (Some border) ACS_HLINE
      else if i = height - 1 then Waddch Dialog (Some box) ACS_HLINE
      else if j = 0 then Waddch Dialog (Some border) ACS_VLINE
      else if j = width - 1 then Waddch Dialog (Some box) ACS_VLINE
      else Waddch Dialog (Some box) (Chr CHR '' ''))"

definition draw_box :: "int \<Rightarrow> int \<Rightarrow> int \<Rightarrow> int \<Rightarrow> attr \<Rightarrow> attr \<Rightarrow> screen" where
  "draw_box y x height width box border =
     Wattrset Dialog Zero #
     concat (map (\<lambda>i. Wmove Dialog (y + i) x #
       map (\<lambda>j. box_cell height width box border i j) (counter width)) (counter height))"

definition draw_shadow :: "bool \<Rightarrow> int \<Rightarrow> int \<Rightarrow> int \<Rightarrow> int \<Rightarrow> screen" where
  "draw_shadow has_colors y x height width =
     (if has_colors then
        [Wattrset Stdscr shadow_attr, Wmove Stdscr (y + height) (x + 2)] @
        map (\<lambda>i. Shade Stdscr) (counter width) @
        concat (map (\<lambda>i. [Wmove Stdscr (y + 1 + i) (x + width), Shade Stdscr, Shade Stdscr]) (counter height)) @
        [Wnoutrefresh Stdscr]
      else [])"

section \<open>Text that wraps\<close>

definition first_word :: "string \<Rightarrow> string" where
  "first_word s = takeWhile (\<lambda>c. c \<noteq> CHR '' '') s"

text \<open>The text behind the blank that ends the first word (\<^verbatim>\<open>sp\<close>).\<close>

definition after_word :: "string \<Rightarrow> string" where
  "after_word s = tl (dropWhile (\<lambda>c. c \<noteq> CHR '' '') s)"

definition must_wrap :: "int \<Rightarrow> int \<Rightarrow> bool \<Rightarrow> string \<Rightarrow> bool" where
  "must_wrap width cur_x newl s =
     (let room = width - cur_x; wlen = int (length (first_word s)); sp = after_word s in
      wlen > room \<or>
      newl \<and> wlen < 4 \<and> CHR '' '' \<in> set s \<and> wlen + 1 + int (length sp) > room \<and>
      (CHR '' '' \<notin> set sp \<or> wlen + 1 + int (length (first_word sp)) > room))"

lemma after_word_length:
  assumes "s \<noteq> []"
  shows "length (after_word s) < length s"
proof -
  have "length (after_word s) = length (dropWhile (\<lambda>c. c \<noteq> CHR '' '') s) - 1"
    by (simp only: after_word_def length_tl)
  moreover have "length (dropWhile (\<lambda>c. c \<noteq> CHR '' '') s) \<le> length s" by (rule length_dropWhile_le)
  moreover have "0 < length s" using assms by simp
  ultimately show ?thesis by linarith
qed

definition two_blanks :: "string \<Rightarrow> bool" where
  "two_blanks sp \<longleftrightarrow> sp \<noteq> [] \<and> hd sp = CHR '' ''"

definition skip_blanks :: "string \<Rightarrow> string" where
  "skip_blanks sp = dropWhile (\<lambda>c. c = CHR '' '') sp"

function wrap_loop ::
  "(screen \<Rightarrow> int \<times> int) \<Rightarrow> int \<Rightarrow> int \<Rightarrow> string \<Rightarrow> bool \<Rightarrow> int \<times> int \<Rightarrow> screen \<Rightarrow> screen" where
  "wrap_loop getyx width x word newl (cur_y, cur_x) scr =
     (if word = [] then scr
      else
        (let wrap = must_wrap width cur_x newl word;
             cy = (if wrap then cur_y + 1 else cur_y);
             cx = (if wrap then x else cur_x);
             scr' = scr @ [Wmove Dialog cy cx, Waddstr Dialog (first_word word)];
             (ny, nx) = getyx scr';
             sp = after_word word
         in wrap_loop getyx width x (skip_blanks sp) (two_blanks sp)
              (ny, if two_blanks sp then nx + 2 else nx + 1) scr'))"
  by pat_completeness auto
termination
proof (relation "measure (\<lambda>(g, width, x, s, newl, p, scr). length s)", goal_cases)
  case (2 getyx width x word newl cur_y cur_x scr)
  have "length (skip_blanks (after_word word)) \<le> length (after_word word)"
    unfolding skip_blanks_def by (rule length_dropWhile_le)
  with 2 after_word_length [of word] show ?case by simp
qed simp

declare wrap_loop.simps [simp del]

definition no_newlines :: "string \<Rightarrow> string" where
  "no_newlines s = map (\<lambda>c. if c = CHR ''\<newline>'' then CHR '' '' else c) s"

text \<open>\<open>None\<close>: the copy of the prompt overflows its buffer.\<close>

definition print_autowrap ::
  "(screen \<Rightarrow> int \<times> int) \<Rightarrow> string \<Rightarrow> int \<Rightarrow> int \<Rightarrow> int \<Rightarrow> screen \<Rightarrow> screen option" where
  "print_autowrap getyx prompt width y x scr =
     (if length prompt > MAX_LEN then None
      else
        (let tempstr = no_newlines prompt; prompt_len = int (length prompt) in
         if prompt_len \<le> width - x * 2
         then Some (scr @ [Wmove Dialog y ((width - prompt_len) sdiv 2), Waddstr Dialog tempstr])
         else Some (wrap_loop getyx width x tempstr True (y, x) scr)))"

section \<open>Hot keys\<close>

fun alpha_loop :: "nat \<Rightarrow> int \<Rightarrow> string \<Rightarrow> string \<Rightarrow> nat" where
  "alpha_loop i in_paren exempt [] = 0"
| "alpha_loop i in_paren exempt (ch # s) =
     (let c = key_tolower (code ch);
          p1 = (if c \<in> code ` set ''<[('' then in_paren + 1 else in_paren);
          p2 = (if c \<in> code ` set ''>])'' then p1 - 1 else p1)
      in if p2 = 0 \<and> key_isalpha c \<and> c \<notin> code ` set exempt then i
         else alpha_loop (i + 1) p2 exempt s)"

definition first_alpha :: "string \<Rightarrow> string \<Rightarrow> nat" where
  "first_alpha string exempt = alpha_loop 0 0 exempt string"

section \<open>Parts that every box draws\<close>

text \<open>\<^verbatim>\<open>strlen\<close> has an unsigned type: lengths are compared and subtracted modulo the word size.\<close>

definition truncate_title :: "string option \<Rightarrow> int \<Rightarrow> string option" where
  "truncate_title title width =
     (case title of
        None \<Rightarrow> None
      | Some t \<Rightarrow>
          Some (if int (length t) \<ge> (width - 2) mod 2 ^ 64 then take (nat (width - 2)) t else t))"

definition print_title :: "string option \<Rightarrow> int \<Rightarrow> screen" where
  "print_title title width =
     (case title of
        None \<Rightarrow> []
      | Some t \<Rightarrow>
          [Wattrset Dialog title_attr,
           Wmove Dialog 0 (to_int32 (((width - int (length t)) mod 2 ^ 64) div 2 - 1)),
           putch Dialog (Chr CHR '' ''), Waddstr Dialog t, putch Dialog (Chr CHR '' '')])"

text \<open>The terminal: its size, whether it has colors, and what \<^verbatim>\<open>getyx\<close> returns.\<close>

record terminal =
  LINES :: int
  COLS :: int
  colored :: bool
  cursor :: "screen \<Rightarrow> int \<times> int"

definition separator :: "int \<Rightarrow> int \<Rightarrow> screen \<Rightarrow> screen" where
  "separator height width final =
     [Wattrset Dialog border_attr, Wmove Dialog (height - 3) 0, putch Dialog ACS_LTEE] @
     map (\<lambda>i. putch Dialog ACS_HLINE) (counter (width - 2)) @
     [Wattrset Dialog dialog_attr] @ final @ [putch Dialog ACS_RTEE]"

section \<open>Properties\<close>

text \<open>
  With colors, every attribute selects the color pair that was initialised with the
  foreground and background of its own line of the color table, and is bold exactly if that
  line says so.
\<close>

theorem color_pairs_match:
  "length (attributes (color_setup True initial_colors)) = ATTRIBUTE_COUNT \<and>
   list_all (\<lambda>i. case color_table ! i of
       (fg, bg, hl) \<Rightarrow>
         attributes (color_setup True initial_colors) ! i = (if hl then Bold else Normal, i + 1) \<and>
         pairs (color_setup True initial_colors) (i + 1) = Some (fg, bg))
     [0..<ATTRIBUTE_COUNT]"
  by code_simp

text \<open>Words put at positions.\<close>

definition put_words :: "(int \<times> int \<times> string) list \<Rightarrow> screen" where
  "put_words ps = concat (map (\<lambda>(y, x, w). [Wmove Dialog y x, Waddstr Dialog w]) ps)"

text \<open>The behaviour of curses relied on: text that fits moves the cursor behind its end.\<close>

definition cursor_follows :: "(screen \<Rightarrow> int \<times> int) \<Rightarrow> int \<Rightarrow> bool" where
  "cursor_follows getyx width \<longleftrightarrow>
     (\<forall>scr y x w. 0 \<le> x \<and> x + int (length w) \<le> width \<longrightarrow>
        getyx (scr @ [Wmove Dialog y x, Waddstr Dialog w]) = (y, x + int (length w)))"

lemma tokens_dropWhile: "tokens c (dropWhile (\<lambda>d. d = c) s) = tokens c s"
  by (induction s) auto

lemma tokens_first_word:
  "tokens CHR '' '' s =
     (if first_word s = [] then [] else [first_word s]) @ tokens CHR '' '' (after_word s)"
proof (cases "dropWhile (\<lambda>c. c \<noteq> CHR '' '') s")
  case Nil
  then have n: "\<forall>c \<in> set s. c \<noteq> CHR '' ''" by (auto simp: dropWhile_eq_Nil_conv)
  then have "first_word s = s" unfolding first_word_def by (intro takeWhile_no) auto
  moreover have "tokens CHR '' '' s = (if s = [] then [] else [s])" using n by (intro tokens_single) auto
  moreover have "tokens CHR '' '' (after_word s) = []" unfolding after_word_def Nil by simp
  ultimately show ?thesis by (simp only: append_Nil2)
next
  case (Cons d ds)
  then have d: "d = CHR '' ''" using hd_dropWhile [of "\<lambda>c. c \<noteq> CHR '' ''" s] by simp
  have "s = first_word s @ CHR '' '' # ds"
    unfolding first_word_def Cons [unfolded d, symmetric] by (rule takeWhile_dropWhile_id [symmetric])
  moreover have "CHR '' '' \<notin> set (first_word s)" by (auto simp: first_word_def dest: set_takeWhileD)
  ultimately have "tokens CHR '' '' s = (if first_word s = [] then [] else [first_word s]) @ tokens CHR '' '' ds"
    using tokens_append_sep by metis
  then show ?thesis using Cons by (simp add: after_word_def)
qed

definition words_fit :: "int \<Rightarrow> int \<Rightarrow> (int \<times> int \<times> string) list \<Rightarrow> bool" where
  "words_fit x width ps \<longleftrightarrow> list_all (\<lambda>(y, c, w). x \<le> c \<and> c + int (length w) \<le> width) ps"

lemma wrap_loop_fits:
  assumes "cursor_follows getyx width" "0 \<le> x"
  shows "list_all (\<lambda>w. int (length w) \<le> width - x) (tokens CHR '' '' s) \<Longrightarrow> 0 \<le> width - x \<Longrightarrow> x \<le> cur_x \<Longrightarrow>
    \<exists>ps. wrap_loop getyx width x s newl (cur_y, cur_x) scr = scr @ put_words ps \<and>
      filter (\<lambda>w. w \<noteq> []) (map (\<lambda>(y, c, w). w) ps) = tokens CHR '' '' s \<and> words_fit x width ps"
proof (induction s arbitrary: newl cur_y cur_x scr rule: length_induct)
  case (1 s)
  show ?case
  proof (cases "s = []")
    case True
    then show ?thesis by (intro exI [of _ "[]"]) (simp add: wrap_loop.simps put_words_def words_fit_def)
  next
    case False
    define word where "word = first_word s"
    define sp where "sp = after_word s"
    define cy where "cy = (if must_wrap width cur_x newl s then cur_y + 1 else cur_y)"
    define cx where "cx = (if must_wrap width cur_x newl s then x else cur_x)"
    define nx where "nx = (if two_blanks sp then cx + int (length word) + 2 else cx + int (length word) + 1)"
    let ?scr = "scr @ [Wmove Dialog cy cx, Waddstr Dialog word]"
    have tok: "tokens CHR '' '' s = (if word = [] then [] else [word]) @ tokens CHR '' '' sp"
      using tokens_first_word [of s] by (simp add: word_def sp_def)
    then have wl: "int (length word) \<le> width - x" "list_all (\<lambda>w. int (length w) \<le> width - x) (tokens CHR '' '' sp)"
      using 1(2,3) by (auto split: if_splits)
    have "int (length word) \<le> width - cur_x" if "\<not> must_wrap width cur_x newl s"
      using that by (simp add: must_wrap_def word_def Let_def)
    then have cx: "x \<le> cx" "cx + int (length word) \<le> width"
      using wl(1) 1(4) unfolding cx_def by (auto split: if_splits)
    then have g: "getyx ?scr = (cy, cx + int (length word))"
      using assms by (simp add: cursor_follows_def)
    have step: "wrap_loop getyx width x s newl (cur_y, cur_x) scr =
        wrap_loop getyx width x (skip_blanks sp) (two_blanks sp) (cy, nx) ?scr"
      using False g unfolding cy_def cx_def word_def sp_def nx_def
      by (subst wrap_loop.simps) (simp only: Let_def prod.case if_False)
    have "length (skip_blanks sp) \<le> length sp" unfolding skip_blanks_def by (rule length_dropWhile_le)
    then have len: "length (skip_blanks sp) < length s"
      using after_word_length [OF False] by (simp add: sp_def)
    have t: "tokens CHR '' '' (skip_blanks sp) = tokens CHR '' '' sp" by (simp add: skip_blanks_def tokens_dropWhile)
    have "x \<le> nx" using cx(1) by (simp add: nx_def)
    with wl(2) 1(3) obtain ps where ps:
      "wrap_loop getyx width x (skip_blanks sp) (two_blanks sp) (cy, nx) ?scr = ?scr @ put_words ps"
      "filter (\<lambda>w. w \<noteq> []) (map (\<lambda>(y, c, w). w) ps) = tokens CHR '' '' sp" "words_fit x width ps"
      using 1(1) [rule_format, OF len, of nx "two_blanks sp" cy ?scr] unfolding t
      by blast
    show ?thesis
      by (intro exI [of _ "(cy, cx, word) # ps"])
        (use step ps tok cx in \<open>simp add: put_words_def words_fit_def\<close>)
  qed
qed

text \<open>
  A prompt that is too long for one line is printed word by word, all words in order and,
  if every word fits on a line, none across the right margin.
\<close>

theorem autowrap_fits:
  assumes "cursor_follows getyx width" "0 \<le> x" "x \<le> width" "length prompt \<le> MAX_LEN"
    and "width - x * 2 < int (length prompt)"
    and "list_all (\<lambda>w. int (length w) \<le> width - x) (tokens CHR '' '' (no_newlines prompt))"
  shows "\<exists>ps. print_autowrap getyx prompt width y x scr = Some (scr @ put_words ps) \<and>
    filter (\<lambda>w. w \<noteq> []) (map (\<lambda>(y, c, w). w) ps) = tokens CHR '' '' (no_newlines prompt) \<and>
    words_fit x width ps"
  using wrap_loop_fits [OF assms(1,2,6), of x True y scr] assms by (simp add: print_autowrap_def)

definition simple_cursor :: "screen \<Rightarrow> int \<times> int" where
  "simple_cursor scr =
     (case rev scr of
        Waddstr d w # Wmove e y x # _ \<Rightarrow> (y, x + int (length w))
      | _ \<Rightarrow> (0, 0))"

definition term80 :: terminal where
  "term80 = \<lparr>LINES = 24, COLS = 80, colored = True, cursor = simple_cursor\<rparr>"

theorem autowrap_fits_witness:
  "\<exists>ps. print_autowrap simple_cursor ''remove  the old files'' 14 1 3 [] = Some (put_words ps) \<and>
    filter (\<lambda>w. w \<noteq> []) (map (\<lambda>(y, c, w). w) ps) = [''remove'', ''the'', ''old'', ''files''] \<and>
    words_fit 3 14 ps"
  using autowrap_fits [of simple_cursor 14 3 "''remove  the old files''" 1 "[]"]
  by (simp add: cursor_follows_def simple_cursor_def MAX_LEN_def no_newlines_def tokens_def)

section \<open>Hot keys\<close>

definition depth :: "string \<Rightarrow> int" where
  "depth s = int (length (filter (\<lambda>c. c \<in> set ''<[('') s)) - int (length (filter (\<lambda>c. c \<in> set ''>])'') s))"

definition hot :: "string \<Rightarrow> string \<Rightarrow> nat \<Rightarrow> bool" where
  "hot exempt s i \<longleftrightarrow>
     depth (take (Suc i) s) = 0 \<and> key_isalpha (key_tolower (code (s ! i))) \<and>
     key_tolower (code (s ! i)) \<notin> code ` set exempt"

lemma code_inj: "code c = code d \<longleftrightarrow> c = d"
  by (simp add: code_def)

lemma tolower_paren:
  "key_tolower (code c) \<in> code ` set ''<[('' \<longleftrightarrow> c \<in> set ''<[(''"
  "key_tolower (code c) \<in> code ` set ''>])'' \<longleftrightarrow> c \<in> set ''>])''"
proof -
  have "key_tolower (code c) = code d \<longleftrightarrow> c = d" if "d \<in> set ''<[(>])''" for d
  proof -
    have "code d < 65 \<or> 90 < code d \<and> code d < 97" using that by (auto simp: code_def)
    then have "key_tolower (code c) = code d \<longleftrightarrow> code c = code d"
      by (auto simp: key_tolower_def key_isupper_def)
    then show ?thesis by (simp add: code_inj)
  qed
  then show "key_tolower (code c) \<in> code ` set ''<[('' \<longleftrightarrow> c \<in> set ''<[(''"
    "key_tolower (code c) \<in> code ` set ''>])'' \<longleftrightarrow> c \<in> set ''>])''" by simp_all
qed

lemma find_map_index: "find P (map f xs) = map_option f (find (\<lambda>x. P (f x)) xs)"
  by (induction xs) auto

lemma find_cong': "(\<And>x. x \<in> set xs \<Longrightarrow> P x = Q x) \<Longrightarrow> find P xs = find Q xs"
  by (induction xs) auto

lemma alpha_loop_find:
  "alpha_loop i p exempt s =
     (case find (\<lambda>k. p + depth (take (Suc k) s) = 0 \<and> key_isalpha (key_tolower (code (s ! k))) \<and>
                  key_tolower (code (s ! k)) \<notin> code ` set exempt) [0..<length s] of
        None \<Rightarrow> 0
      | Some k \<Rightarrow> i + k)"
proof (induction s arbitrary: i p)
  case Nil
  then show ?case by simp
next
  case (Cons c s)
  let ?d = "depth [c]"
  let ?Q = "\<lambda>k. key_isalpha (key_tolower (code (s ! k))) \<and> key_tolower (code (s ! k)) \<notin> code ` set exempt"
  have "alpha_loop i p exempt (c # s) =
      (if p + ?d = 0 \<and> key_isalpha (key_tolower (code c)) \<and> key_tolower (code c) \<notin> code ` set exempt then i
       else alpha_loop (i + 1) (p + ?d) exempt s)"
    by (simp only: alpha_loop.simps Let_def tolower_paren) (auto simp: depth_def)
  moreover have "[0..<length (c # s)] = 0 # map Suc [0..<length s]"
    by (simp add: upt_conv_Cons map_Suc_upt del: upt_Suc)
  moreover have "find (\<lambda>k. p + depth (c # take (Suc k) s) = 0 \<and> ?Q k) [0..<length s] =
      find (\<lambda>k. p + ?d + depth (take (Suc k) s) = 0 \<and> ?Q k) [0..<length s]"
    by (rule find_cong') (simp add: depth_def algebra_simps)
  ultimately show ?case
    using Cons.IH [of "i + 1" "p + ?d"]
    by (simp add: find_map_index del: alpha_loop.simps upt_Suc split: option.splits)
qed

lemma first_alpha_find:
  "first_alpha s exempt =
     (case find (hot exempt s) [0..<length s] of None \<Rightarrow> 0 | Some i \<Rightarrow> i)"
  using alpha_loop_find [of 0 0 exempt s]
  by (simp add: first_alpha_def hot_def [abs_def] split: option.splits)

text \<open>
  The hot key of a label is its first letter that is outside all brackets and not
  exempt; a label without one has its first character as hot key.
\<close>

theorem first_alpha_spec:
  "first_alpha s exempt =
     (case find (hot exempt s) [0..<length s] of None \<Rightarrow> 0 | Some i \<Rightarrow> i)"
  by (rule first_alpha_find)

lemma first_alpha_less: "s \<noteq> [] \<Longrightarrow> first_alpha s exempt < length s"
  unfolding first_alpha_find by (auto split: option.splits simp: find_Some_iff)

lemma print_autowrap_Some: "length prompt \<le> MAX_LEN \<Longrightarrow> print_autowrap g prompt w y x scr \<noteq> None"
  by (simp add: print_autowrap_def Let_def)

end
