(* ===== verification/DialogBoxes.thy ===== *)
theory DialogBoxes
  imports DialogUtil
begin

text \<open>
  \<^verbatim>\<open>misc/confdialog/yesno.c\<close> and \<^verbatim>\<open>msgbox.c\<close>: the question and message boxes.

  A box is opened by a function from the calls made before to the calls made then (\<open>None\<close>: the
  prompt overflows a buffer); it then reads keys, one step each.  The result of a box is its
  return value with all calls made.
\<close>

section \<open>Question box\<close>

definition yesno_buttons :: "int \<Rightarrow> int \<Rightarrow> int \<Rightarrow> screen" where
  "yesno_buttons height width selected =
     (let x = width sdiv 2 - 10; y = height - 2 in
      print_button '' Yes '' y x (selected = 0) @
      print_button ''  No  '' y (x + 13) (selected = 1) @
      [Wmove Dialog y (x + 1 + 13 * selected), Wrefresh Dialog])"

definition yesno_open ::
  "terminal \<Rightarrow> string option \<Rightarrow> string \<Rightarrow> int \<Rightarrow> int \<Rightarrow> screen \<Rightarrow> screen option" where
  "yesno_open term title prompt height width scr =
     (let x = (COLS term - width) sdiv 2;
          y = (LINES term - height) sdiv 2;
          s1 = scr @ draw_shadow (colored term) y x height width @
            [Newwin height width y x, Keypad Dialog] @
            draw_box 0 0 height width dialog_attr border_attr @
            separator height width [] @
            print_title (truncate_title title width) width @
            [Wattrset Dialog dialog_attr]
      in map_option (\<lambda>s. s @ yesno_buttons height width 0)
           (print_autowrap (cursor term) prompt (width - 2) 1 3 s1))"

record yesno =
  button :: int
  drawn :: screen

definition yesno_step :: "int \<Rightarrow> int \<Rightarrow> yesno \<Rightarrow> int \<Rightarrow> (yesno, int \<times> screen) outcome" where
  "yesno_step height width s key =
     (if is_key key CHR ''Y'' \<or> is_key key CHR ''y'' then Finish (0, drawn s @ [Delwin])
      else if is_key key CHR ''N'' \<or> is_key key CHR ''n'' then Finish (1, drawn s @ [Delwin])
      else if key = TAB \<or> key = KEY_LEFT \<or> key = KEY_RIGHT then
        (let b = (if key = KEY_LEFT then button s - 1 else button s + 1);
             b' = (if b < 0 then 1 else if b > 1 then 0 else b)
         in Continue (s\<lparr>button := b', drawn := drawn s @ yesno_buttons height width b' @ [Wrefresh Dialog]\<rparr>))
      else if key = SPACE \<or> key = NEWLINE then Finish (button s, drawn s @ [Delwin])
      else if key = ESC then Finish (-1, drawn s @ [Delwin])
      else Continue s)"

definition dialog_yesno ::
  "terminal \<Rightarrow> string option \<Rightarrow> string \<Rightarrow> int \<Rightarrow> int \<Rightarrow> screen \<Rightarrow> int list \<Rightarrow> (yesno, int \<times> screen) outcome" where
  "dialog_yesno term title prompt height width scr keys =
     (case yesno_open term title prompt height width scr of
        None \<Rightarrow> Fault
      | Some s \<Rightarrow> run_machine (yesno_step height width) \<lparr>button = 0, drawn = s\<rparr> keys)"

section \<open>Message box\<close>

definition msgbox_open ::
  "terminal \<Rightarrow> string option \<Rightarrow> string \<Rightarrow> int \<Rightarrow> int \<Rightarrow> bool \<Rightarrow> screen \<Rightarrow> screen option" where
  "msgbox_open term title prompt height width pause scr =
     (let x = (COLS term - width) sdiv 2;
          y = (LINES term - height) sdiv 2;
          s1 = scr @ draw_shadow (colored term) y x height width @
            [Newwin height width y x, Keypad Dialog] @
            draw_box 0 0 height width dialog_attr border_attr @
            print_title (truncate_title title width) width @
            [Wattrset Dialog dialog_attr]
      in map_option (\<lambda>s. s @
             (if pause then
                separator height width [] @ print_button ''  Ok  '' (height - 2) (width sdiv 2 - 4) True @
                [Wrefresh Dialog]
              else [Wrefresh Dialog]))
           (print_autowrap (cursor term) prompt (width - 2) 1 2 s1))"

definition closes_msgbox :: "int \<Rightarrow> bool" where
  "closes_msgbox key \<longleftrightarrow>
     key = ESC \<or> key = NEWLINE \<or> key = SPACE \<or> is_key key CHR ''O'' \<or> is_key key CHR ''o'' \<or>
     is_key key CHR ''X'' \<or> is_key key CHR ''x''"

definition msgbox_step :: "screen \<Rightarrow> int \<Rightarrow> (screen, int \<times> screen) outcome" where
  "msgbox_step s key =
     (if closes_msgbox key then Finish (if key = ESC then -1 else 0, s @ [Delwin]) else Continue s)"

definition dialog_msgbox ::
  "terminal \<Rightarrow> string option \<Rightarrow> string \<Rightarrow> int \<Rightarrow> int \<Rightarrow> bool \<Rightarrow> screen \<Rightarrow> int list \<Rightarrow>
   (screen, int \<times> screen) outcome" where
  "dialog_msgbox term title prompt height width pause scr keys =
     (case msgbox_open term title prompt height width pause scr of
        None \<Rightarrow> Fault
      | Some s \<Rightarrow>
          (if pause then run_machine msgbox_step s keys else Finish (0, s @ [Delwin])))"

section \<open>Properties\<close>

lemma open_box:
  "length prompt \<le> MAX_LEN \<Longrightarrow> yesno_open term title prompt height width scr \<noteq> None"
  "length prompt \<le> MAX_LEN \<Longrightarrow> msgbox_open term title prompt height width pause scr \<noteq> None"
  by (simp_all add: yesno_open_def msgbox_open_def print_autowrap_def Let_def)

lemma char_keys:
  "is_key k CHR ''Y'' \<longleftrightarrow> k = 89" "is_key k CHR ''y'' \<longleftrightarrow> k = 121"
  "is_key k CHR ''N'' \<longleftrightarrow> k = 78" "is_key k CHR ''n'' \<longleftrightarrow> k = 110"
  "is_key k CHR ''O'' \<longleftrightarrow> k = 79" "is_key k CHR ''o'' \<longleftrightarrow> k = 111"
  "is_key k CHR ''X'' \<longleftrightarrow> k = 88" "is_key k CHR ''x'' \<longleftrightarrow> k = 120"
  by (simp_all add: is_key_def code_def)

definition moves_button :: "int \<Rightarrow> bool" where
  "moves_button key \<longleftrightarrow> key = TAB \<or> key = KEY_LEFT \<or> key = KEY_RIGHT"

lemma yesno_moves:
  "list_all moves_button ks \<Longrightarrow> button s \<in> {0, 1} \<Longrightarrow>
   \<exists>s'. run_machine (yesno_step height width) s ks = Continue s' \<and>
     button s' = (button s + int (length ks)) mod 2"
proof (induction ks arbitrary: s)
  case Nil
  then show ?case by auto
next
  case (Cons k ks)
  let ?b = "(button s + 1) mod 2"
  have "\<exists>s1. yesno_step height width s k = Continue s1 \<and> button s1 = ?b"
    using Cons.prems by (auto simp: yesno_step_def moves_button_def char_keys key_defs Let_def)
  then obtain s1 where s1: "yesno_step height width s k = Continue s1" "button s1 = ?b" by blast
  have "button s1 \<in> {0, 1}" using Cons.prems s1(2) by auto
  with Cons.IH [of s1] Cons.prems obtain s' where "run_machine (yesno_step height width) s1 ks = Continue s'"
    "button s' = (button s1 + int (length ks)) mod 2" by auto
  then show ?case using s1 by (simp add: mod_simps algebra_simps)
qed

interpretation yesno_box: reactor "yesno_step height width" "\<lambda>s. button s \<in> {0, 1}" "\<lambda>_. True"
  "\<lambda>r. fst r \<in> {-1, 0, 1}"
  for height width
  by unfold_locales (auto simp: yesno_step_def Let_def)

text \<open>
  Whatever keys are pressed, the question box returns 0, 1 or (for escape) -1; after
  \<open>n\<close> presses of a cursor key or tab, return gives the answer \<open>n mod 2\<close>.
\<close>

theorem yesno_answers:
  assumes "length prompt \<le> MAX_LEN"
  shows "outcome_ok (\<lambda>s. button s \<in> {0, 1}) (\<lambda>r. fst r \<in> {-1, 0, 1})
      (dialog_yesno term title prompt height width scr keys) \<and>
    (list_all moves_button ks \<longrightarrow>
     (\<exists>s. dialog_yesno term title prompt height width scr (ks @ [NEWLINE]) = Finish (int (length ks mod 2), s)))"
proof -
  obtain s where s: "yesno_open term title prompt height width scr = Some s"
    using open_box(1) [OF assms] by blast
  have m: "\<exists>t. run_machine (yesno_step height width) \<lparr>button = 0, drawn = s\<rparr> (ks @ [NEWLINE]) =
      Finish (int (length ks mod 2), t)" if k: "list_all moves_button ks"
  proof -
    obtain s' where "run_machine (yesno_step height width) \<lparr>button = 0, drawn = s\<rparr> ks = Continue s'"
      "button s' = int (length ks) mod 2"
      using yesno_moves [OF k, of "\<lparr>button = 0, drawn = s\<rparr>" height width] by auto
    then show ?thesis
      by (simp add: run_machine_append yesno_step_def char_keys key_defs of_nat_mod)
  qed
  have "outcome_ok (\<lambda>s. button s \<in> {0, 1}) (\<lambda>r. fst r \<in> {-1, 0, 1})
      (run_machine (yesno_step height width) \<lparr>button = 0, drawn = s\<rparr> keys)"
    by (rule yesno_box.run_ok) (simp_all add: list_all_iff)
  with m s show ?thesis by (simp add: dialog_yesno_def)
qed

theorem yesno_answers_witness:
  "\<exists>s. dialog_yesno term80 (Some ''Quit'') ''Really?'' 7 30 [] [KEY_LEFT, TAB, KEY_LEFT, NEWLINE] = Finish (1, s)"
  using yesno_answers [of "''Really?''" term80 "Some ''Quit''" 7 30 "[]" "[]" "[KEY_LEFT, TAB, KEY_LEFT]"]
  by (simp add: MAX_LEN_def moves_button_def del: length_Cons)

lemma msgbox_waits:
  "list_all (\<lambda>k. \<not> closes_msgbox k) ks \<Longrightarrow> run_machine msgbox_step s ks = Continue s"
  by (induction ks) (simp_all add: msgbox_step_def)

text \<open>
  A message box with a button waits for the first key that closes it and returns -1 exactly
  if that key is escape; an information box returns 0 at once.
\<close>

theorem msgbox_waits_for_key:
  assumes "length prompt \<le> MAX_LEN" "list_all (\<lambda>k. \<not> closes_msgbox k) ks" "closes_msgbox k"
  shows "(\<exists>s. dialog_msgbox term title prompt height width True scr (ks @ k # ks2) =
      Finish (if k = ESC then -1 else 0, s)) \<and>
    (\<exists>s. dialog_msgbox term title prompt height width False scr [] = Finish (0, s))"
proof -
  obtain s where "msgbox_open term title prompt height width True scr = Some s"
    using open_box(2) [OF assms(1)] by blast
  moreover obtain t where "msgbox_open term title prompt height width False scr = Some t"
    using open_box(2) [OF assms(1)] by blast
  ultimately show ?thesis
    using assms(2,3) by (simp add: dialog_msgbox_def run_machine_append msgbox_waits msgbox_step_def)
qed

theorem msgbox_waits_for_key_witness:
  "\<exists>s. dialog_msgbox term80 None ''Done.'' 7 30 True [] [KEY_UP, ESC] = Finish (-1, s)"
  using msgbox_waits_for_key [of "''Done.''" "[KEY_UP]" ESC term80 None 7 30 "[]" "[]"]
  by (simp add: MAX_LEN_def closes_msgbox_def char_keys key_defs)

end
