(* ===== verification/Checklist.thy ===== *)
theory Checklist
  imports DialogUtil
begin

text \<open>
  \<^verbatim>\<open>misc/confdialog/checklist.c\<close>: the list of options that can be turned on and off, as check
  list or as radio list.

  An item is a triple of tag, label and initial state; what is constant while the box is open is
  the record \<open>cl_box\<close>.  A step has no result (\<open>Fault\<close>) if it reads outside the arrays or
  behind an empty label.  The result of the box is its return value, the text written to
  standard error and all calls of curses.
\<close>

record cl_box =
  items :: "(string \<times> string \<times> string) list"
  list_height :: int
  check :: bool
  list_width :: int
  check_x :: int
  item_x :: int
  box_y :: int
  box_x :: int
  height :: int
  width :: int

record cl_state =
  status :: "bool list"
  choice :: int
  scroll :: int
  drawn :: screen

definition item_no :: "cl_box \<Rightarrow> int" where "item_no b = int (length (items b))"

definition max_choice :: "cl_box \<Rightarrow> int" where "max_choice b = min (list_height b) (item_no b)"

definition at :: "'a list \<Rightarrow> int \<Rightarrow> 'a option" where
  "at xs k = (if 0 \<le> k \<and> k < int (length xs) then Some (xs ! nat k) else None)"

definition bracket :: "cl_box \<Rightarrow> bool \<Rightarrow> string" where
  "bracket b st =
     (if check b then (if st then ''[X]'' else ''[ ]'') else (if st then ''(X)'' else ''( )''))"

text \<open>\<open>k\<close> is the index of the item, \<open>row\<close> its line in the window.\<close>

definition print_item :: "cl_box \<Rightarrow> bool list \<Rightarrow> int \<Rightarrow> int \<Rightarrow> bool \<Rightarrow> screen option" where
  "print_item b st k row selected =
     (case (at (items b) k, at st k) of
        (Some (tag, item, _), Some on) \<Rightarrow>
          (if item = [] then None
           else Some
             ([Wattrset Sub menubox_attr, Wmove Sub row 0] @
              map (\<lambda>i. putch Sub (Chr CHR '' '')) (counter (list_width b)) @
              [Wmove Sub row (check_x b),
               Wattrset Sub (if selected then check_selected_attr else check_attr),
               Waddstr Sub (bracket b on),
               Wattrset Sub (if selected then tag_selected_attr else tag_attr),
               Wmove Sub row (item_x b), putch Sub (Chr (hd item)),
               Wattrset Sub (if selected then item_selected_attr else item_attr),
               Waddstr Sub (tl item)] @
              (if selected then [Wmove Sub row (check_x b + 1), Wrefresh Sub] else [])))
      | _ \<Rightarrow> None)"

definition print_arrows :: "cl_box \<Rightarrow> int \<Rightarrow> int \<Rightarrow> screen" where
  "print_arrows b ch sc =
     (let x = box_x b + check_x b + 5; y = box_y b; y2 = y + list_height b + 1 in
      Wmove Dialog y x #
      (if sc > 0 then [Wattrset Dialog uarrow_attr, putch Dialog ACS_UARROW, Waddstr Dialog ''(-)'']
       else Wattrset Dialog menubox_attr # replicate 4 (putch Dialog ACS_HLINE)) @
      Wmove Dialog y2 x #
      (if list_height b < item_no b \<and> sc + ch < item_no b - 1
       then [Wattrset Dialog darrow_attr, putch Dialog ACS_DARROW, Waddstr Dialog ''(+)'']
       else Wattrset Dialog menubox_border_attr # replicate 4 (putch Dialog ACS_HLINE)))"

definition print_buttons :: "int \<Rightarrow> int \<Rightarrow> screen" where
  "print_buttons h w =
     (let x = w sdiv 2 - 5; y = h - 2 in
      print_button ''Select'' y x True @ [Wmove Dialog y (x + 1), Wrefresh Dialog])"

section \<open>Opening the box\<close>

definition equals_on :: "string \<Rightarrow> bool" where
  "equals_on s \<longleftrightarrow> map (\<lambda>c. key_tolower (code c)) s = map code ''on''"

fun first_choice :: "int \<Rightarrow> int \<Rightarrow> bool list \<Rightarrow> int" where
  "first_choice i ch [] = ch"
| "first_choice i ch (s # ss) = first_choice (i + 1) (if ch = 0 \<and> s then i else ch) ss"

text \<open>Print the items of the rows \<open>is\<close>.\<close>

fun print_rows :: "cl_box \<Rightarrow> bool list \<Rightarrow> int \<Rightarrow> int \<Rightarrow> int list \<Rightarrow> screen option" where
  "print_rows b st sc ch [] = Some []"
| "print_rows b st sc ch (i # is) =
     (case print_item b st (sc + i) i (i = ch) of
        None \<Rightarrow> None
      | Some s \<Rightarrow> map_option ((@) s) (print_rows b st sc ch is))"

definition longest :: "(string \<times> string \<times> string) list \<Rightarrow> int" where
  "longest its = foldl (\<lambda>m (t, item, s). max m (int (length item) + 4)) 0 its"

definition make_box :: "(string \<times> string \<times> string) list \<Rightarrow> int \<Rightarrow> int \<Rightarrow> int \<Rightarrow> bool \<Rightarrow> cl_box" where
  "make_box its h w lh flag =
     (let lw = w - 6; cx = (lw - longest its) sdiv 2 in
      \<lparr>items = its, list_height = lh, check = flag, list_width = lw, check_x = cx, item_x = cx + 4,
       box_y = h - lh - 5, box_x = (w - lw) sdiv 2 - 1, height = h, width = w\<rparr>)"

definition cl_frame ::
  "terminal \<Rightarrow> string option \<Rightarrow> string \<Rightarrow> cl_box \<Rightarrow> screen \<Rightarrow> screen option" where
  "cl_frame term title prompt b scr =
     (let h = height b; w = width b;
          x = (COLS term - w) sdiv 2;
          y = (LINES term - h) sdiv 2;
          s1 = scr @ draw_shadow (colored term) y x h w @ [Newwin h w y x, Keypad Dialog] @
            draw_box 0 0 h w dialog_attr border_attr @ separator h w [] @
            print_title (truncate_title title w) w @ [Wattrset Dialog dialog_attr]
      in map_option (\<lambda>s. s @
             [Subwin (list_height b) (list_width b) (y + box_y b + 1) (x + box_x b + 1), Keypad Sub] @
             draw_box (box_y b) (box_x b) (list_height b + 2) (list_width b + 2)
               menubox_border_attr menubox_attr)
           (print_autowrap (cursor term) prompt (w - 2) 1 3 s1))"

definition cl_open ::
  "terminal \<Rightarrow> string option \<Rightarrow> string \<Rightarrow> cl_box \<Rightarrow> screen \<Rightarrow> cl_state option" where
  "cl_open term title prompt b scr =
     (let st = map (\<lambda>(t, i, s). equals_on s) (items b);
          c0 = first_choice 0 0 st;
          sc = (if c0 \<ge> list_height b then c0 - list_height b + 1 else 0);
          ch = c0 - sc
      in case cl_frame term title prompt b scr of
           None \<Rightarrow> None
         | Some s1 \<Rightarrow>
             (case print_rows b st sc ch (counter (max_choice b)) of
                None \<Rightarrow> None
              | Some s2 \<Rightarrow>
                  Some \<lparr>status = st, choice = ch, scroll = sc,
                        drawn = s1 @ s2 @ print_arrows b ch sc @ print_buttons (height b) (width b) @
                          [Wnoutrefresh Sub, Wnoutrefresh Dialog, Doupdate]\<rparr>))"

section \<open>Keys\<close>

text \<open>The first row whose label starts with the key, or \<open>n\<close>.\<close>

fun match_loop :: "cl_box \<Rightarrow> int \<Rightarrow> int \<Rightarrow> int list \<Rightarrow> int \<Rightarrow> int option" where
  "match_loop b sc key [] n = Some n"
| "match_loop b sc key (i # is) n =
     (case at (items b) (sc + i) of
        None \<Rightarrow> None
      | Some (t, item, s) \<Rightarrow>
          (if key_toupper key = key_toupper (if item = [] then 0 else code (hd item)) then Some i
           else match_loop b sc key is n))"

definition scroll_window :: "int \<Rightarrow> screen" where
  "scroll_window n = [Scrollok Sub True, Wscrl Sub n, Scrollok Sub False]"

definition after_scroll :: "cl_box \<Rightarrow> int \<Rightarrow> int \<Rightarrow> screen" where
  "after_scroll b ch sc = [Wnoutrefresh Sub] @ print_arrows b ch sc @ [Wrefresh Dialog]"

definition scroll_down :: "cl_box \<Rightarrow> cl_state \<Rightarrow> (cl_state, int \<times> string \<times> screen) outcome" where
  "scroll_down b s =
     (case (if list_height b > 1
            then map_option (\<lambda>x. x @ scroll_window (-1)) (print_item b (status s) (scroll s) 0 False)
            else Some []) of
        None \<Rightarrow> Fault
      | Some d1 \<Rightarrow>
          (case print_item b (status s) (scroll s - 1) 0 True of
             None \<Rightarrow> Fault
           | Some d2 \<Rightarrow>
               Continue (s\<lparr>scroll := scroll s - 1,
                 drawn := drawn s @ d1 @ d2 @ after_scroll b (choice s) (scroll s - 1)\<rparr>)))"

definition scroll_up :: "cl_box \<Rightarrow> cl_state \<Rightarrow> (cl_state, int \<times> string \<times> screen) outcome" where
  "scroll_up b s =
     (let m = max_choice b in
      case (if list_height b > 1
            then map_option (\<lambda>x. x @ scroll_window 1)
                   (print_item b (status s) (scroll s + m - 1) (m - 1) False)
            else Some []) of
        None \<Rightarrow> Fault
      | Some d1 \<Rightarrow>
          (case print_item b (status s) (scroll s + 1 + m - 1) (m - 1) True of
             None \<Rightarrow> Fault
           | Some d2 \<Rightarrow>
               Continue (s\<lparr>scroll := scroll s + 1,
                 drawn := drawn s @ d1 @ d2 @ after_scroll b (choice s) (scroll s + 1)\<rparr>)))"

definition move_to :: "cl_box \<Rightarrow> cl_state \<Rightarrow> int \<Rightarrow> (cl_state, int \<times> string \<times> screen) outcome" where
  "move_to b s i =
     (if i = choice s then Continue s
      else case print_item b (status s) (scroll s + choice s) (choice s) False of
             None \<Rightarrow> Fault
           | Some d1 \<Rightarrow>
               (case print_item b (status s) (scroll s + i) i True of
                  None \<Rightarrow> Fault
                | Some d2 \<Rightarrow>
                    Continue (s\<lparr>choice := i,
                      drawn := drawn s @ d1 @ d2 @ [Wnoutrefresh Sub, Wrefresh Dialog]\<rparr>)))"

definition chosen_tags :: "cl_box \<Rightarrow> bool list \<Rightarrow> string" where
  "chosen_tags b st =
     concat (map (\<lambda>((tag, _), on). if \<not> on then [] else if check b then CHR 0x22 # tag @ [CHR 0x22, CHR '' ''] else tag)
       (zip (items b) st))"

definition select :: "cl_box \<Rightarrow> cl_state \<Rightarrow> (cl_state, int \<times> string \<times> screen) outcome" where
  "select b s =
     (let k = scroll s + choice s in
      case at (status s) k of
        None \<Rightarrow> Fault
      | Some on \<Rightarrow>
          (if check b then
             (let st = (status s)[nat k := \<not> on] in
              Finish (0, chosen_tags b st,
                drawn s @ [Wmove Sub (choice s) (check_x b), Wattrset Sub check_selected_attr,
                  Waddstr Sub (bracket b (\<not> on)), Wnoutrefresh Sub, Wrefresh Dialog, Delwin]))
           else if \<not> on then
             (let st = (map (\<lambda>_. False) (status s))[nat k := True] in
              case print_rows b st (scroll s) (choice s) (counter (max_choice b)) of
                None \<Rightarrow> Fault
              | Some d \<Rightarrow>
                  Finish (0, chosen_tags b st, drawn s @ d @ [Wnoutrefresh Sub, Wrefresh Dialog, Delwin]))
           else Finish (0, chosen_tags b (status s), drawn s @ [Wnoutrefresh Sub, Wrefresh Dialog, Delwin])))"

definition is_up :: "int \<Rightarrow> bool" where "is_up key \<longleftrightarrow> key = KEY_UP \<or> is_key key CHR ''-''"
definition is_down :: "int \<Rightarrow> bool" where "is_down key \<longleftrightarrow> key = KEY_DOWN \<or> is_key key CHR ''+''"

definition cl_step :: "cl_box \<Rightarrow> cl_state \<Rightarrow> int \<Rightarrow> (cl_state, int \<times> string \<times> screen) outcome" where
  "cl_step b s key =
     (case match_loop b (scroll s) key (counter (max_choice b)) (max 0 (max_choice b)) of
        None \<Rightarrow> Fault
      | Some i \<Rightarrow>
          (if i < max_choice b \<or> is_up key \<or> is_down key then
             (if is_up key then
                (if choice s = 0 then (if scroll s = 0 then Continue s else scroll_down b s)
                 else move_to b s (choice s - 1))
              else if is_down key then
                (if choice s = max_choice b - 1
                 then (if scroll s + choice s \<ge> item_no b - 1 then Continue s else scroll_up b s)
                 else move_to b s (choice s + 1))
              else move_to b s i)
           else if is_key key CHR ''H'' \<or> is_key key CHR ''h'' \<or> is_key key CHR ''?'' then
             Finish (1, [], drawn s @ [Delwin])
           else if is_key key CHR ''S'' \<or> is_key key CHR ''s'' \<or> key = SPACE \<or> key = NEWLINE then select b s
           else if is_key key CHR ''X'' \<or> is_key key CHR ''x'' \<or> key = ESC then
             Finish (-1, [], drawn s @ [Doupdate, Delwin])
           else Continue (s\<lparr>drawn := drawn s @ [Doupdate]\<rparr>)))"

definition dialog_checklist ::
  "terminal \<Rightarrow> string option \<Rightarrow> string \<Rightarrow> int \<Rightarrow> int \<Rightarrow> int \<Rightarrow> (string \<times> string \<times> string) list \<Rightarrow> bool \<Rightarrow>
   screen \<Rightarrow> int list \<Rightarrow> (cl_state, int \<times> string \<times> screen) outcome" where
  "dialog_checklist term title prompt h w lh its flag scr keys =
     (let b = make_box its h w lh flag in
      case cl_open term title prompt b scr of
        None \<Rightarrow> Fault
      | Some s \<Rightarrow> run_machine (cl_step b) s keys)"

section \<open>The cursor stays inside the list\<close>

definition label_ok :: "string \<times> string \<times> string \<Rightarrow> bool" where
  "label_ok it \<longleftrightarrow> (case it of (tag, item, st) \<Rightarrow> item \<noteq> [])"

definition box_ok :: "cl_box \<Rightarrow> bool" where
  "box_ok b \<longleftrightarrow> items b \<noteq> [] \<and> 0 < list_height b \<and> list_all label_ok (items b)"

definition cl_ok :: "cl_box \<Rightarrow> cl_state \<Rightarrow> bool" where
  "cl_ok b s \<longleftrightarrow> box_ok b \<and> int (length (status s)) = item_no b \<and>
     0 \<le> scroll s \<and> scroll s + max_choice b \<le> item_no b \<and> 0 \<le> choice s \<and> choice s < max_choice b"

definition position :: "cl_state \<Rightarrow> int" where "position s = scroll s + choice s"

lemma print_item_ok:
  assumes "box_ok b" "int (length st) = item_no b" "0 \<le> k" "k < item_no b"
  obtains d where "print_item b st k row sel = Some d"
proof -
  obtain tag item x where i: "items b ! nat k = (tag, item, x)" by (cases "items b ! nat k") auto
  have k: "nat k < length (items b)" using assms by (simp add: item_no_def)
  then have "label_ok (items b ! nat k)" using assms(1) by (simp add: box_ok_def list_all_length)
  then have "item \<noteq> []" by (simp add: label_ok_def i)
  with i k assms that show thesis by (simp add: print_item_def at_def item_no_def)
qed

lemma print_rows_ok:
  assumes "box_ok b" "int (length st) = item_no b"
  shows "list_all (\<lambda>i. 0 \<le> sc + i \<and> sc + i < item_no b) is \<Longrightarrow> print_rows b st sc ch is \<noteq> None"
proof (induction "is")
  case (Cons i "is")
  obtain d where "print_item b st (sc + i) i (i = ch) = Some d"
    using print_item_ok [OF assms, of "sc + i"] Cons.prems by auto
  with Cons show ?case by simp
qed simp

lemma counter_all: "list_all P (counter n) \<longleftrightarrow> (\<forall>i. 0 \<le> i \<and> i < n \<longrightarrow> P i)"
proof -
  have "set (counter n) = {i. 0 \<le> i \<and> i < n}"
  proof (intro set_eqI iffI)
    fix i assume "i \<in> {i. 0 \<le> i \<and> i < n}"
    then show "i \<in> set (counter n)" by (auto simp: counter_def image_iff intro!: bexI [of _ "nat i"])
  qed (auto simp: counter_def)
  then show ?thesis by (auto simp: list_all_iff)
qed

lemma match_loop_ok:
  assumes "list_all (\<lambda>i. 0 \<le> sc + i \<and> sc + i < item_no b) is"
  shows "\<exists>i. match_loop b sc key is n = Some i \<and> (i = n \<or> i \<in> set is)"
  using assms
proof (induction "is")
  case (Cons i "is")
  then obtain t item s where "at (items b) (sc + i) = Some (t, item, s)"
    by (cases "items b ! nat (sc + i)") (auto simp: at_def item_no_def)
  with Cons show ?case by auto
qed simp

lemma match_ok:
  assumes "cl_ok b s"
  obtains i where "match_loop b (scroll s) key (counter (max_choice b)) (max 0 (max_choice b)) = Some i"
    "0 \<le> i" "i \<le> max_choice b"
proof -
  have "list_all (\<lambda>i. 0 \<le> scroll s + i \<and> scroll s + i < item_no b) (counter (max_choice b))"
    using assms by (auto simp: counter_all cl_ok_def)
  from match_loop_ok [OF this, of key "max 0 (max_choice b)"] obtain i where
    "match_loop b (scroll s) key (counter (max_choice b)) (max 0 (max_choice b)) = Some i"
    "i = max 0 (max_choice b) \<or> i \<in> set (counter (max_choice b))" by blast
  with that assms show thesis by (auto simp: counter_def cl_ok_def)
qed

lemma move_to_ok:
  assumes "cl_ok b s" "0 \<le> i" "i < max_choice b"
  shows "\<exists>s'. move_to b s i = Continue s' \<and> cl_ok b s' \<and> position s' = scroll s + i \<and> status s' = status s"
proof -
  have b: "box_ok b" "int (length (status s)) = item_no b" using assms(1) by (simp_all add: cl_ok_def)
  obtain d1 where "print_item b (status s) (scroll s + choice s) (choice s) False = Some d1"
    using print_item_ok [OF b, of "scroll s + choice s"] assms(1) by (auto simp: cl_ok_def)
  moreover obtain d2 where "print_item b (status s) (scroll s + i) i True = Some d2"
    using print_item_ok [OF b, of "scroll s + i"] assms by (auto simp: cl_ok_def)
  ultimately show ?thesis using assms by (auto simp: move_to_def cl_ok_def position_def)
qed

lemma scroll_down_ok:
  assumes "cl_ok b s" "choice s = 0" "scroll s \<noteq> 0"
  shows "\<exists>s'. scroll_down b s = Continue s' \<and> cl_ok b s' \<and> position s' = position s - 1 \<and> status s' = status s"
proof -
  have b: "box_ok b" "int (length (status s)) = item_no b" using assms(1) by (simp_all add: cl_ok_def)
  obtain d1 where "print_item b (status s) (scroll s) 0 False = Some d1"
    using print_item_ok [OF b, of "scroll s"] assms by (auto simp: cl_ok_def)
  moreover obtain d2 where "print_item b (status s) (scroll s - 1) 0 True = Some d2"
    using print_item_ok [OF b, of "scroll s - 1"] assms by (auto simp: cl_ok_def)
  ultimately show ?thesis using assms by (auto simp: scroll_down_def cl_ok_def position_def)
qed

lemma scroll_up_ok:
  assumes "cl_ok b s" "choice s = max_choice b - 1" "scroll s + choice s < item_no b - 1"
  shows "\<exists>s'. scroll_up b s = Continue s' \<and> cl_ok b s' \<and> position s' = position s + 1 \<and> status s' = status s"
proof -
  have b: "box_ok b" "int (length (status s)) = item_no b" using assms(1) by (simp_all add: cl_ok_def)
  obtain d1 where "print_item b (status s) (scroll s + max_choice b - 1) (max_choice b - 1) False = Some d1"
    using print_item_ok [OF b, of "scroll s + max_choice b - 1"] assms by (auto simp: cl_ok_def)
  moreover obtain d2 where "print_item b (status s) (scroll s + 1 + max_choice b - 1) (max_choice b - 1) True = Some d2"
    using print_item_ok [OF b, of "scroll s + 1 + max_choice b - 1"] assms by (auto simp: cl_ok_def)
  ultimately show ?thesis using assms by (auto simp: scroll_up_def cl_ok_def position_def Let_def)
qed

lemma select_ok:
  assumes "cl_ok b s"
  shows "\<exists>out scr. select b s = Finish (0, out, scr) \<and>
    out = chosen_tags b
      (if check b then (status s)[nat (position s) := \<not> status s ! nat (position s)]
       else if status s ! nat (position s) then status s
       else (map (\<lambda>_. False) (status s))[nat (position s) := True])"
proof -
  have b: "box_ok b" "int (length (status s)) = item_no b" using assms by (simp_all add: cl_ok_def)
  have a: "at (status s) (scroll s + choice s) = Some (status s ! nat (position s))"
    using assms by (auto simp: at_def cl_ok_def position_def)
  have "list_all (\<lambda>i. 0 \<le> scroll s + i \<and> scroll s + i < item_no b) (counter (max_choice b))"
    using assms by (auto simp: counter_all cl_ok_def)
  then have "print_rows b ((map (\<lambda>_. False) (status s))[nat (position s) := True]) (scroll s) (choice s)
      (counter (max_choice b)) \<noteq> None"
    using b by (intro print_rows_ok) simp_all
  with a show ?thesis by (auto simp: select_def Let_def position_def)
qed

lemma up_key: "is_up k \<Longrightarrow> \<not> is_down k"
  by (auto simp: is_up_def is_down_def is_key_def code_def key_defs)

lemma cl_step_up:
  assumes "cl_ok b s" "is_up key"
  shows "\<exists>s'. cl_step b s key = Continue s' \<and> cl_ok b s' \<and> position s' = max 0 (position s - 1) \<and>
    status s' = status s"
proof -
  obtain i where m: "match_loop b (scroll s) key (counter (max_choice b)) (max 0 (max_choice b)) = Some i"
    using match_ok [OF assms(1)] by blast
  show ?thesis
  proof (cases "choice s = 0")
    case True
    show ?thesis
    proof (cases "scroll s = 0")
      case sc: True
      then show ?thesis using True m assms by (simp add: cl_step_def position_def)
    next
      case False
      then have "cl_step b s key = scroll_down b s" using True m assms(2) by (simp add: cl_step_def)
      moreover have "0 \<le> position s - 1" using False assms(1) by (simp add: cl_ok_def position_def)
      ultimately show ?thesis using scroll_down_ok [OF assms(1) True False] by simp
    qed
  next
    case False
    then have "cl_step b s key = move_to b s (choice s - 1)" using m assms(2) by (simp add: cl_step_def)
    moreover have "0 \<le> choice s - 1" "choice s - 1 < max_choice b" "0 \<le> position s - 1"
      using False assms(1) by (auto simp: cl_ok_def position_def)
    ultimately show ?thesis using move_to_ok [OF assms(1), of "choice s - 1"] by (auto simp: position_def)
  qed
qed

lemma cl_step_down:
  assumes "cl_ok b s" "is_down key"
  shows "\<exists>s'. cl_step b s key = Continue s' \<and> cl_ok b s' \<and>
    position s' = min (item_no b - 1) (position s + 1) \<and> status s' = status s"
proof -
  obtain i where m: "match_loop b (scroll s) key (counter (max_choice b)) (max 0 (max_choice b)) = Some i"
    using match_ok [OF assms(1)] by blast
  have k: "\<not> is_up key" using assms(2) up_key by blast
  show ?thesis
  proof (cases "choice s = max_choice b - 1")
    case True
    show ?thesis
    proof (cases "scroll s + choice s \<ge> item_no b - 1")
      case sc: True
      then have "position s = item_no b - 1" using True assms(1) by (simp add: cl_ok_def position_def)
      then show ?thesis using True sc m k assms by (simp add: cl_step_def)
    next
      case False
      then have "cl_step b s key = scroll_up b s" using True m k assms(2) by (simp add: cl_step_def)
      moreover have "position s + 1 \<le> item_no b - 1" using False by (simp add: position_def)
      ultimately show ?thesis using scroll_up_ok [OF assms(1) True] False by simp
    qed
  next
    case False
    then have "cl_step b s key = move_to b s (choice s + 1)" using m k assms(2) by (simp add: cl_step_def)
    moreover have "0 \<le> choice s + 1" "choice s + 1 < max_choice b" "position s + 1 \<le> item_no b - 1"
      using False assms(1) by (auto simp: cl_ok_def position_def)
    ultimately show ?thesis using move_to_ok [OF assms(1), of "choice s + 1"] by (auto simp: position_def)
  qed
qed

lemma cl_step_ok:
  assumes "cl_ok b s"
  shows "outcome_ok (cl_ok b) (\<lambda>r. fst r \<in> {-1, 0, 1}) (cl_step b s key)"
proof -
  obtain i where m: "match_loop b (scroll s) key (counter (max_choice b)) (max 0 (max_choice b)) = Some i"
    "0 \<le> i" "i \<le> max_choice b"
    using match_ok [OF assms(1)] by blast
  consider "is_up key" | "is_down key" | "\<not> is_up key" "\<not> is_down key" "i < max_choice b"
    | "\<not> is_up key" "\<not> is_down key" "\<not> i < max_choice b" by blast
  then show ?thesis
  proof cases
    case 1
    then show ?thesis using cl_step_up [OF assms 1] by auto
  next
    case 2
    then show ?thesis using cl_step_down [OF assms 2] by auto
  next
    case 3
    then show ?thesis using move_to_ok [OF assms m(2)] m(1) by (auto simp: cl_step_def)
  next
    case 4
    have "cl_ok b (s\<lparr>drawn := d\<rparr>)" for d using assms by (simp add: cl_ok_def)
    then show ?thesis using 4 select_ok [OF assms] m(1) by (auto simp: cl_step_def)
  qed
qed

interpretation checklist: reactor "cl_step b" "cl_ok b" "\<lambda>_. True" "\<lambda>r. fst r \<in> {-1, 0, 1}"
  for b
  by unfold_locales (rule cl_step_ok)

section \<open>Opening\<close>

lemma first_choice_bounds:
  "0 \<le> ch \<Longrightarrow> 0 \<le> i \<Longrightarrow>
   0 \<le> first_choice i ch st \<and> (first_choice i ch st = ch \<or> first_choice i ch st < i + int (length st))"
proof (induction st arbitrary: i ch)
  case (Cons s st)
  show ?case using Cons.IH [of "if ch = 0 \<and> s then i else ch" "i + 1"] Cons.prems by (auto split: if_splits)
qed simp

definition start :: "(string \<times> string \<times> string) list \<Rightarrow> int" where
  "start its = first_choice 0 0 (map (\<lambda>(t, i, s). equals_on s) its)"

lemma start_bounds: "its \<noteq> [] \<Longrightarrow> 0 \<le> start its \<and> start its < int (length its)"
  using first_choice_bounds [of 0 0 "map (\<lambda>(t, i, s). equals_on s) its"]
  by (cases its) (auto simp: start_def)

lemma cl_open_ok:
  assumes "box_ok b" "length prompt \<le> MAX_LEN"
  obtains s where "cl_open term title prompt b scr = Some s" "cl_ok b s"
    "position s = start (items b)" "status s = map (\<lambda>(t, i, s). equals_on s) (items b)"
proof -
  let ?st = "map (\<lambda>(t, i, s). equals_on s) (items b)"
  let ?c0 = "start (items b)"
  let ?sc = "if ?c0 \<ge> list_height b then ?c0 - list_height b + 1 else 0"
  have c0: "0 \<le> ?c0" "?c0 < item_no b" using start_bounds [of "items b"] assms(1) by (auto simp: box_ok_def item_no_def)
  have lh: "0 < list_height b" using assms(1) by (simp add: box_ok_def)
  have ok: "0 \<le> ?sc" "?sc + max_choice b \<le> item_no b" "0 \<le> ?c0 - ?sc" "?c0 - ?sc < max_choice b"
    using c0 lh by (auto simp: max_choice_def)
  obtain s1 where s1: "cl_frame term title prompt b scr = Some s1"
    using print_autowrap_Some [OF assms(2)] unfolding cl_frame_def Let_def by fastforce
  have "list_all (\<lambda>i. 0 \<le> ?sc + i \<and> ?sc + i < item_no b) (counter (max_choice b))"
    using ok(1,2) unfolding counter_all by auto
  then obtain s2 where s2: "print_rows b ?st ?sc (?c0 - ?sc) (counter (max_choice b)) = Some s2"
    using print_rows_ok [OF assms(1), of ?st ?sc "counter (max_choice b)" "?c0 - ?sc"] by (auto simp: item_no_def)
  let ?s = "\<lparr>status = ?st, choice = ?c0 - ?sc, scroll = ?sc,
      drawn = s1 @ s2 @ print_arrows b (?c0 - ?sc) ?sc @ print_buttons (height b) (width b) @
                [Wnoutrefresh Sub, Wnoutrefresh Dialog, Doupdate]\<rparr>"
  have "cl_open term title prompt b scr = Some ?s"
    using s1 s2 unfolding cl_open_def Let_def start_def [symmetric] by simp
  moreover have "cl_ok b ?s" using ok assms(1) by (simp add: cl_ok_def item_no_def)
  moreover have "position ?s = ?c0" by (simp add: position_def)
  ultimately show thesis using that by simp
qed

section \<open>Properties\<close>

definition is_on :: "(string \<times> string \<times> string) list \<Rightarrow> bool list" where
  "is_on its = map (\<lambda>(t, i, s). equals_on s) its"

definition tags_on :: "(string \<times> string \<times> string) list \<Rightarrow> bool list \<Rightarrow> string list" where
  "tags_on its st = map (\<lambda>(it, on). fst it) (filter snd (zip its st))"

lemma chosen_tags_on:
  "chosen_tags b st =
     concat (map (\<lambda>t. if check b then CHR 0x22 # t @ [CHR 0x22, CHR '' ''] else t) (tags_on (items b) st))"
proof -
  have "concat (map (\<lambda>((tag, _), on). if \<not> on then [] else if check b then CHR 0x22 # tag @ [CHR 0x22, CHR '' ''] else tag) xs) =
      concat (map (\<lambda>t. if check b then CHR 0x22 # t @ [CHR 0x22, CHR '' ''] else t)
        (map (\<lambda>(it, on). fst it) (filter snd xs)))" for xs :: "((string \<times> string \<times> string) \<times> bool) list"
    by (induction xs) auto
  then show ?thesis by (simp add: chosen_tags_def tags_on_def)
qed

lemma make_box_sel [simp]:
  "items (make_box its h w lh flag) = its" "list_height (make_box its h w lh flag) = lh"
  "check (make_box its h w lh flag) = flag" "item_no (make_box its h w lh flag) = int (length its)"
  by (simp_all add: make_box_def Let_def item_no_def)

lemma make_box_ok: "its \<noteq> [] \<Longrightarrow> list_all label_ok its \<Longrightarrow> 0 < lh \<Longrightarrow> box_ok (make_box its h w lh flag)"
  by (simp add: box_ok_def)

text \<open>
  With a visible row, at least one item and no empty label, no sequence of keys makes the box
  read outside its arrays; the cursor stays on an item, and the box returns 0, 1 or -1.
\<close>

theorem checklist_safe:
  assumes "its \<noteq> []" "list_all label_ok its" "0 < lh" "length prompt \<le> MAX_LEN"
  shows "outcome_ok (cl_ok (make_box its h w lh flag)) (\<lambda>r. fst r \<in> {-1, 0, 1})
    (dialog_checklist term title prompt h w lh its flag scr keys)"
proof -
  obtain s where "cl_open term title prompt (make_box its h w lh flag) scr = Some s"
    "cl_ok (make_box its h w lh flag) s"
    using cl_open_ok [OF make_box_ok [OF assms(1,2,3)] assms(4)] by metis
  then show ?thesis
    using checklist.run_ok [of "make_box its h w lh flag" s keys] by (simp add: dialog_checklist_def Let_def list_all_iff)
qed

definition two_items :: "(string \<times> string \<times> string) list" where
  "two_items = [(''a'', ''Apple'', ''off''), (''b'', ''Bear'', ''ON''), (''c'', ''Cat'', ''off'')]"

theorem checklist_safe_witness:
  "outcome_ok (cl_ok (make_box two_items 15 40 2 True)) (\<lambda>r. fst r \<in> {-1, 0, 1})
    (dialog_checklist term80 None ''Pick'' 15 40 2 two_items True [] [KEY_UP, KEY_UP, KEY_UP, 120])"
  by (rule checklist_safe) (simp_all add: two_items_def label_ok_def MAX_LEN_def)

lemma cl_downs:
  "cl_ok b s \<Longrightarrow>
   \<exists>s'. run_machine (cl_step b) s (replicate n KEY_DOWN) = Continue s' \<and> cl_ok b s' \<and>
     position s' = min (item_no b - 1) (position s + int n) \<and> status s' = status s"
proof (induction n arbitrary: s)
  case 0
  then have "position s \<le> item_no b - 1" by (auto simp: cl_ok_def position_def)
  with 0 show ?case by simp
next
  case (Suc n)
  obtain s1 where s1: "cl_step b s KEY_DOWN = Continue s1" "cl_ok b s1"
    "position s1 = min (item_no b - 1) (position s + 1)" "status s1 = status s"
    using cl_step_down [OF Suc.prems, of KEY_DOWN] by (auto simp: is_down_def)
  with Suc.IH [OF s1(2)] show ?case by auto
qed

lemma match_none:
  assumes "cl_ok b s" "list_all (\<lambda>it. code (hd (fst (snd it))) \<noteq> 32) (items b)"
  shows "match_loop b (scroll s) SPACE (counter (max_choice b)) (max 0 (max_choice b)) = Some (max_choice b)"
proof -
  have u: "key_toupper c = 32 \<longleftrightarrow> c = 32" for c by (auto simp: key_toupper_def key_islower_def)
  have "list_all (\<lambda>i. 0 \<le> scroll s + i \<and> scroll s + i < item_no b) is \<Longrightarrow>
      match_loop b (scroll s) SPACE is n = Some n" for "is" n
  proof (induction "is")
    case (Cons i "is")
    let ?k = "nat (scroll s + i)"
    have k: "?k < length (items b)" using Cons.prems by (auto simp: item_no_def)
    obtain t item st where it: "items b ! ?k = (t, item, st)" by (cases "items b ! ?k")
    have "label_ok (items b ! ?k)" using assms(1) k by (auto simp: cl_ok_def box_ok_def list_all_length)
    moreover have "code (hd (fst (snd (items b ! ?k)))) \<noteq> 32" using assms(2) k by (simp add: list_all_length)
    ultimately have "item \<noteq> []" "code (hd item) \<noteq> 32" by (simp_all add: it label_ok_def)
    then show ?case using Cons it k u [of 32] u [of "code (hd item)"] by (simp add: at_def item_no_def SPACE_def)
  qed simp
  moreover have "list_all (\<lambda>i. 0 \<le> scroll s + i \<and> scroll s + i < item_no b) (counter (max_choice b))"
    using assms(1) by (auto simp: counter_all cl_ok_def)
  moreover have "0 \<le> max_choice b" using assms(1) by (simp add: cl_ok_def)
  ultimately show ?thesis by simp
qed

lemma step_space:
  assumes "cl_ok b s" "list_all (\<lambda>it. code (hd (fst (snd it))) \<noteq> 32) (items b)"
  shows "cl_step b s SPACE = select b s"
proof -
  have "\<not> is_up SPACE" "\<not> is_down SPACE" "\<not> is_key SPACE CHR ''H''" "\<not> is_key SPACE CHR ''h''"
    "\<not> is_key SPACE CHR ''?''"
    by (simp_all add: is_up_def is_down_def is_key_def code_def key_defs)
  then show ?thesis by (simp add: cl_step_def match_none [OF assms])
qed

definition final_status :: "bool \<Rightarrow> nat \<Rightarrow> bool list \<Rightarrow> bool list" where
  "final_status flag k st =
     (if flag then st[k := \<not> st ! k] else if st ! k then st else (map (\<lambda>_. False) st)[k := True])"

text \<open>
  C35: after \<open>n\<close> times cursor down the cursor is \<open>n\<close> items behind the one it began on, at most on the last one, and
  the select key ends the box and prints tags.  In a check list these are the tags that are on after the item under the
  cursor is toggled, in quotes.  In a radio list nothing is toggled: if the item under the cursor is off, it is the only one printed;
  if it is on already, nothing changes and all that were on are printed, which are more than one if the caller gave more.
  Conditions: there is an item and a line for the list, no item has an empty text or one that begins with a blank,
  and the prompt fits its buffer.
\<close>

theorem checklist_select:
  assumes "its \<noteq> []" "list_all label_ok its" "0 < lh" "length prompt \<le> MAX_LEN"
    and "list_all (\<lambda>it. code (hd (fst (snd it))) \<noteq> 32) its"
    and "k = min (length its - 1) (nat (start its) + n)"
  shows "\<exists>s. dialog_checklist term title prompt h w lh its flag scr (replicate n KEY_DOWN @ [SPACE]) =
    Finish (0, concat (map (\<lambda>t. if flag then CHR 0x22 # t @ [CHR 0x22, CHR '' ''] else t)
                 (tags_on its (final_status flag k (is_on its)))), s)"
proof -
  let ?b = "make_box its h w lh flag"
  obtain s where s: "cl_open term title prompt ?b scr = Some s" "cl_ok ?b s" "position s = start its"
    "status s = is_on its"
    using cl_open_ok [OF make_box_ok [OF assms(1,2,3)] assms(4), of "term" title h w flag scr]
    by (metis is_on_def make_box_sel(1))
  obtain s' where s': "run_machine (cl_step ?b) s (replicate n KEY_DOWN) = Continue s'" "cl_ok ?b s'"
    "position s' = min (int (length its) - 1) (start its + int n)" "status s' = is_on its"
    using cl_downs [OF s(2), of n] s(3,4) by auto
  have "nat (position s') = k"
    using start_bounds [OF assms(1)] assms(6) unfolding s'(3) by (auto simp: min_def)
  then obtain t where "select ?b s' = Finish (0, chosen_tags ?b (final_status flag k (is_on its)), t)"
    using select_ok [OF s'(2)] s'(4) by (auto simp: final_status_def)
  then show ?thesis
    using s(1) s'(1) step_space [OF s'(2)] assms(5)
    by (simp add: dialog_checklist_def Let_def run_machine_append chosen_tags_on)
qed

theorem checklist_select_witness:
  "\<exists>s. dialog_checklist term80 None ''Pick'' 15 40 2 two_items False [] [KEY_DOWN, SPACE] = Finish (0, ''c'', s)"
proof -
  have st: "start two_items = 1" "is_on two_items = [False, True, False]"
    by (simp_all add: start_def two_items_def equals_on_def key_tolower_def key_isupper_def code_def is_on_def)
  show ?thesis
    using checklist_select [of two_items 2 "''Pick''" 2 1 term80 None 15 40 False "[]"] st
    by (simp add: two_items_def label_ok_def MAX_LEN_def code_def final_status_def tags_on_def numeral_2_eq_2)
qed

end
