(* ===== verification/Menubox.thy ===== *)
theory Menubox
  imports DialogUtil
begin

text \<open>
  \<^verbatim>\<open>misc/confdialog/menubox.c\<close>: the menu.

  An item is a pair of tag and label; \<open>mb_box\<close> holds what is constant while the menu is open.
  The scroll position of an earlier run, read from \<^verbatim>\<open>confdialog.scrltmp\<close>, is a parameter
  (\<open>None\<close>: no file, \<open>Some None\<close>: no number in it); the file is removed in the end.  \<open>Fault\<close> is an
  access outside the arrays.  The result is return value, text on standard error and calls.
\<close>

record mb_box =
  items :: "(string \<times> string) list"
  menu_height :: int
  menu_width :: int
  item_x :: int
  box_y :: int
  box_x :: int
  height :: int
  width :: int

record mb_state =
  choice :: int
  scroll :: int
  button :: int
  drawn :: screen

definition item_no :: "mb_box \<Rightarrow> int" where "item_no b = int (length (items b))"

definition max_choice :: "mb_box \<Rightarrow> int" where "max_choice b = min (menu_height b) (item_no b)"

definition item_at :: "mb_box \<Rightarrow> int \<Rightarrow> (string \<times> string) option" where
  "item_at b k = (if 0 \<le> k \<and> k < item_no b then Some (items b ! nat k) else None)"

definition char_at :: "string \<Rightarrow> nat \<Rightarrow> char" where
  "char_at s j = (if j < length s then s ! j else CHR 0x00)"

text \<open>
  \<open>k\<close> is the index of the item, \<open>row\<close> its line; a tag that starts with a colon has no hot key.
\<close>

definition print_item :: "mb_box \<Rightarrow> int \<Rightarrow> int \<Rightarrow> bool \<Rightarrow> screen option" where
  "print_item b k row selected =
     (case item_at b k of
        None \<Rightarrow> None
      | Some (tag, item) \<Rightarrow>
          (if menu_width b < 0 then None
           else
             (let menu_item = take (nat (menu_width b)) item;
                  j = first_alpha menu_item ''YyNnMm'';
                  hotkey = (char_at tag 0 \<noteq> CHR '':'')
              in Some
                ([Wattrset Sub menubox_attr, Wmove Sub row 0, Wclrtoeol Sub,
                  Wattrset Sub (if selected then item_selected_attr else item_attr),
                  Wmove Sub row (item_x b), Waddstr Sub menu_item] @
                 (if hotkey then
                    [Wattrset Sub (if selected then tag_key_selected_attr else tag_key_attr),
                     Wmove Sub row (item_x b + int j), putch Sub (Chr (char_at menu_item j))]
                  else []) @
                 (if selected then [Wmove Sub row (item_x b + 1), Wrefresh Sub] else [])))))"

text \<open>The cursor is saved and restored: \<open>scr\<close> are the calls so far.\<close>

definition print_arrows :: "terminal \<Rightarrow> mb_box \<Rightarrow> int \<Rightarrow> screen \<Rightarrow> screen" where
  "print_arrows term b sc scr =
     (let (cur_y, cur_x) = cursor term scr;
          x = box_x b + item_x b + 1; y = box_y b; y2 = y + menu_height b + 1
      in scr @
         Wmove Dialog y x #
         (if sc > 0 then [Wattrset Dialog uarrow_attr, putch Dialog ACS_UARROW, Waddstr Dialog ''(-)'']
          else Wattrset Dialog menubox_attr # replicate 4 (putch Dialog ACS_HLINE)) @
         Wmove Dialog y2 x #
         (if menu_height b < item_no b \<and> sc + menu_height b < item_no b
          then [Wattrset Dialog darrow_attr, putch Dialog ACS_DARROW, Waddstr Dialog ''(+)'']
          else Wattrset Dialog menubox_border_attr # replicate 4 (putch Dialog ACS_HLINE)) @
         [Wmove Dialog cur_y cur_x])"

definition print_buttons :: "int \<Rightarrow> int \<Rightarrow> int \<Rightarrow> screen" where
  "print_buttons h w selected =
     (let x = w sdiv 2 - 16; y = h - 2 in
      print_button ''Select'' y x (selected = 0) @
      print_button '' Exit '' y (x + 12) (selected = 1) @
      print_button '' Help '' y (x + 24) (selected = 2) @
      [Wmove Dialog y (x + 1 + 12 * selected), Wrefresh Dialog])"

section \<open>Opening the menu\<close>

fun current_index :: "int \<Rightarrow> int \<Rightarrow> string \<Rightarrow> (string \<times> string) list \<Rightarrow> int" where
  "current_index i ch current [] = ch"
| "current_index i ch current ((tag, item) # its) =
     current_index (i + 1) (if current = tag then i else ch) current its"

definition widest :: "int \<Rightarrow> (string \<times> string) list \<Rightarrow> int" where
  "widest mw its = foldl (\<lambda>m (t, item). max m (min mw (int (length item) + 2))) 0 its"

definition make_menu :: "(string \<times> string) list \<Rightarrow> int \<Rightarrow> int \<Rightarrow> int \<Rightarrow> mb_box" where
  "make_menu its h w mh =
     (let mw = w - 6 in
      \<lparr>items = its, menu_height = mh, menu_width = mw, item_x = (mw - widest mw its) sdiv 2,
       box_y = h - mh - 5, box_x = (w - mw) sdiv 2 - 1, height = h, width = w\<rparr>)"

text \<open>Scroll position and row of the current item.\<close>

definition initial_position :: "int \<Rightarrow> int \<Rightarrow> int \<Rightarrow> int option option \<Rightarrow> int \<times> int" where
  "initial_position n mc c0 saved =
     (let good = (case saved of
                    Some (Some sc) \<Rightarrow> sc \<le> c0 \<and> sc + mc > c0 \<and> sc \<ge> 0 \<and> sc + mc \<le> n
                  | _ \<Rightarrow> False);
          sc0 = (if good then the (the saved) else 0);
          ch0 = (if good then c0 - sc0 else c0)
      in if ch0 \<ge> mc \<or> (\<not> good \<and> ch0 \<ge> mc sdiv 2) then
           (let sc = (if ch0 \<ge> n - mc sdiv 2 then n - mc else ch0 - mc sdiv 2) in (sc, ch0 - sc))
         else (sc0, ch0))"

fun print_rows :: "mb_box \<Rightarrow> int \<Rightarrow> int \<Rightarrow> int list \<Rightarrow> screen option" where
  "print_rows b first_item ch [] = Some []"
| "print_rows b first_item ch (i # is) =
     (case print_item b (first_item + i) i (i = ch) of
        None \<Rightarrow> None
      | Some s \<Rightarrow> map_option ((@) s) (print_rows b first_item ch is))"

definition mb_frame ::
  "terminal \<Rightarrow> string option \<Rightarrow> string \<Rightarrow> mb_box \<Rightarrow> screen \<Rightarrow> screen option" where
  "mb_frame term title prompt b scr =
     (let h = height b; w = width b;
          x = (COLS term - w) sdiv 2;
          y = (LINES term - h) sdiv 2;
          s1 = scr @ draw_shadow (colored term) y x h w @ [Newwin h w y x, Keypad Dialog] @
            draw_box 0 0 h w dialog_attr border_attr @ separator h w [Wbkgdset Dialog dialog_attr] @
            print_title (truncate_title title w) w @ [Wattrset Dialog dialog_attr]
      in map_option (\<lambda>s. s @
             [Subwin (menu_height b) (menu_width b) (y + box_y b + 1) (x + box_x b + 1), Keypad Sub] @
             draw_box (box_y b) (box_x b) (menu_height b + 2) (menu_width b + 2)
               menubox_border_attr menubox_attr)
           (print_autowrap (cursor term) prompt (w - 2) 1 3 s1))"

definition mb_open ::
  "terminal \<Rightarrow> string option \<Rightarrow> string \<Rightarrow> mb_box \<Rightarrow> string \<Rightarrow> int option option \<Rightarrow> screen \<Rightarrow> mb_state option" where
  "mb_open term title prompt b current saved scr =
     (let (sc, ch) = initial_position (item_no b) (max_choice b) (current_index 0 0 current (items b)) saved
      in case mb_frame term title prompt b scr of
           None \<Rightarrow> None
         | Some s1 \<Rightarrow>
             (case print_rows b sc ch (counter (max_choice b)) of
                None \<Rightarrow> None
              | Some s2 \<Rightarrow>
                  Some \<lparr>choice = ch, scroll = sc, button = 0,
                        drawn = print_arrows term b sc (s1 @ s2 @ [Wnoutrefresh Sub]) @
                          print_buttons (height b) (width b) 0 @
                          [Wmove Sub ch (item_x b + 1), Wrefresh Sub]\<rparr>))"

section \<open>Keys\<close>

text \<open>The first of the rows \<open>is\<close> whose hot key is the key, or \<open>n\<close>.\<close>

fun match_loop :: "mb_box \<Rightarrow> int \<Rightarrow> int \<Rightarrow> int list \<Rightarrow> int \<Rightarrow> int option" where
  "match_loop b sc key [] n = Some n"
| "match_loop b sc key (i # is) n =
     (case item_at b (sc + i) of
        None \<Rightarrow> None
      | Some (t, item) \<Rightarrow>
          (if key = key_tolower (code (char_at item (first_alpha item ''YyNnMm''))) then Some i
           else match_loop b sc key is n))"

definition rows_after :: "mb_box \<Rightarrow> int \<Rightarrow> int list" where
  "rows_after b ch = filter (\<lambda>i. ch < i) (counter (max_choice b))"

text \<open>\<^verbatim>\<open>strchr("? \n", key)\<close>; its argument is converted to a character, and the NUL is found.\<close>

definition ends_menu :: "int \<Rightarrow> bool" where
  "ends_menu key \<longleftrightarrow> key mod 256 \<in> {63, 32, 10, 0}"

definition find_row :: "mb_box \<Rightarrow> mb_state \<Rightarrow> int \<Rightarrow> int option" where
  "find_row b s key =
     (if ends_menu key then Some (max_choice b)
      else case match_loop b (scroll s) key (rows_after b (choice s)) (max_choice b) of
             None \<Rightarrow> None
           | Some i \<Rightarrow>
               (if i = max_choice b
                then match_loop b (scroll s) key (counter (max_choice b)) (max_choice b)
                else Some i))"

definition scroll_window :: "int \<Rightarrow> screen" where
  "scroll_window n = [Scrollok Sub True, Wscrl Sub n, Scrollok Sub False]"

text \<open>The moves; each gives the new scroll position, row and calls.\<close>

type_synonym move = "(int \<times> int \<times> screen) option"

definition move_up :: "mb_box \<Rightarrow> int \<Rightarrow> int \<Rightarrow> screen \<Rightarrow> move" where
  "move_up b sc ch scr =
     (if ch < 2 \<and> sc \<noteq> 0 then
        map_option (\<lambda>d. (sc - 1, ch, scr @ scroll_window (-1) @ d)) (print_item b (sc - 1) 0 False)
      else Some (sc, max (ch - 1) 0, scr))"

definition move_down :: "mb_box \<Rightarrow> int \<Rightarrow> int \<Rightarrow> screen \<Rightarrow> move" where
  "move_down b sc ch scr =
     (case print_item b (sc + ch) ch False of
        None \<Rightarrow> None
      | Some d0 \<Rightarrow>
          (if ch > max_choice b - 3 \<and> sc + max_choice b < item_no b then
             map_option (\<lambda>d. (sc + 1, ch, scr @ d0 @ scroll_window 1 @ d))
               (print_item b (sc + 1 + max_choice b - 1) (max_choice b - 1) False)
           else Some (sc, min (ch + 1) (max_choice b - 1), scr @ d0)))"

fun page_up :: "mb_box \<Rightarrow> int list \<Rightarrow> int \<Rightarrow> int \<Rightarrow> screen \<Rightarrow> move" where
  "page_up b [] sc ch scr = Some (sc, ch, scr)"
| "page_up b (i # is) sc ch scr =
     (if sc > 0 then
        (case print_item b (sc - 1) 0 False of
           None \<Rightarrow> None
         | Some d \<Rightarrow> page_up b is (sc - 1) ch (scr @ [Wscrl Sub (-1)] @ d))
      else page_up b is sc (if ch > 0 then ch - 1 else ch) scr)"

fun page_down :: "mb_box \<Rightarrow> int list \<Rightarrow> int \<Rightarrow> int \<Rightarrow> screen \<Rightarrow> move" where
  "page_down b [] sc ch scr = Some (sc, ch, scr)"
| "page_down b (i # is) sc ch scr =
     (if sc + max_choice b < item_no b then
        (case print_item b (sc + 1 + max_choice b - 1) (max_choice b - 1) False of
           None \<Rightarrow> None
         | Some d \<Rightarrow> page_down b is (sc + 1) ch (scr @ scroll_window 1 @ d))
      else page_down b is sc (if ch + 1 < max_choice b then ch + 1 else ch) scr)"

definition is_up :: "int \<Rightarrow> bool" where "is_up key \<longleftrightarrow> key = KEY_UP \<or> is_key key CHR ''-''"
definition is_down :: "int \<Rightarrow> bool" where "is_down key \<longleftrightarrow> key = KEY_DOWN \<or> is_key key CHR ''+''"

definition do_move :: "mb_box \<Rightarrow> int \<Rightarrow> int \<Rightarrow> mb_state \<Rightarrow> screen \<Rightarrow> move" where
  "do_move b key i s scr =
     (if is_up key then move_up b (scroll s) (choice s) scr
      else if is_down key then move_down b (scroll s) (choice s) scr
      else if key = KEY_PPAGE then
        map_option (\<lambda>(sc, ch, d). (sc, ch, d @ [Scrollok Sub False]))
          (page_up b (counter (max_choice b)) (scroll s) (choice s) (scr @ [Scrollok Sub True]))
      else if key = KEY_NPAGE then page_down b (counter (max_choice b)) (scroll s) (choice s) scr
      else Some (scroll s, i, scr))"

definition navigate ::
  "terminal \<Rightarrow> mb_box \<Rightarrow> int \<Rightarrow> int \<Rightarrow> mb_state \<Rightarrow> (mb_state, int \<times> string \<times> screen) outcome" where
  "navigate term b key i s =
     (case print_item b (scroll s + choice s) (choice s) False of
        None \<Rightarrow> Fault
      | Some d0 \<Rightarrow>
          (case do_move b key i s (drawn s @ d0) of
             None \<Rightarrow> Fault
           | Some (sc, ch, scr) \<Rightarrow>
               (case print_item b (sc + ch) ch True of
                  None \<Rightarrow> Fault
                | Some d1 \<Rightarrow>
                    Continue (s\<lparr>scroll := sc, choice := ch,
                      drawn := print_arrows term b sc (scr @ d1) @ [Wnoutrefresh Dialog, Wrefresh Sub]\<rparr>))))"

definition answer :: "mb_box \<Rightarrow> mb_state \<Rightarrow> int \<Rightarrow> (mb_state, int \<times> string \<times> screen) outcome" where
  "answer b s btn =
     (case item_at b (scroll s + choice s) of
        None \<Rightarrow> Fault
      | Some (tag, item) \<Rightarrow>
          Finish (btn,
            if btn = 2 then tag @ [CHR '' '', CHR 0x22] @ drop (first_alpha item []) item @ [CHR 0x22] @ ''\<newline>''
            else tag @ ''\<newline>'',
            drawn s @ [Delwin]))"

definition mb_step ::
  "terminal \<Rightarrow> mb_box \<Rightarrow> mb_state \<Rightarrow> int \<Rightarrow> (mb_state, int \<times> string \<times> screen) outcome" where
  "mb_step term b s key0 =
     (let key = (if key0 < 256 \<and> key_isalpha key0 then key_tolower key0 else key0) in
      case find_row b s key of
        None \<Rightarrow> Fault
      | Some i \<Rightarrow>
          (if i < max_choice b \<or> is_up key \<or> is_down key \<or> key = KEY_PPAGE \<or> key = KEY_NPAGE
           then navigate term b key i s
           else if key = KEY_LEFT \<or> key = TAB \<or> key = KEY_RIGHT then
             (let btn = (if key = KEY_LEFT then button s - 1 else button s + 1);
                  btn' = (if btn < 0 then 2 else if btn > 2 then 0 else btn)
              in Continue (s\<lparr>button := btn',
                   drawn := drawn s @ print_buttons (height b) (width b) btn' @ [Wrefresh Sub]\<rparr>))
           else if is_key key CHR ''?'' then answer b s 2
           else if key = SPACE then answer b s 0
           else if key = NEWLINE then answer b s (button s)
           else if key = ESC then Finish (-1, [], drawn s @ [Delwin])
           else Continue s))"

definition dialog_menu ::
  "terminal \<Rightarrow> string option \<Rightarrow> string \<Rightarrow> int \<Rightarrow> int \<Rightarrow> int \<Rightarrow> string \<Rightarrow> (string \<times> string) list \<Rightarrow>
   int option option \<Rightarrow> screen \<Rightarrow> int list \<Rightarrow> (mb_state, int \<times> string \<times> screen) outcome" where
  "dialog_menu term title prompt h w mh current its saved scr keys =
     (let b = make_menu its h w mh in
      case mb_open term title prompt b current saved scr of
        None \<Rightarrow> Fault
      | Some s \<Rightarrow> run_machine (mb_step term b) s keys)"

section \<open>The cursor stays inside the menu\<close>

definition box_ok :: "mb_box \<Rightarrow> bool" where
  "box_ok b \<longleftrightarrow> items b \<noteq> [] \<and> 0 < menu_height b \<and> 0 \<le> menu_width b"

definition pos_ok :: "mb_box \<Rightarrow> int \<Rightarrow> int \<Rightarrow> bool" where
  "pos_ok b sc ch \<longleftrightarrow> 0 \<le> sc \<and> sc + max_choice b \<le> item_no b \<and> 0 \<le> ch \<and> ch < max_choice b"

definition mb_ok :: "mb_box \<Rightarrow> mb_state \<Rightarrow> bool" where
  "mb_ok b s \<longleftrightarrow> box_ok b \<and> pos_ok b (scroll s) (choice s) \<and> button s \<in> {0, 1, 2}"

definition position :: "mb_state \<Rightarrow> int" where "position s = scroll s + choice s"

lemma mb_print_item_ok:
  assumes "box_ok b" "0 \<le> k" "k < item_no b"
  obtains d where "print_item b k row sel = Some d"
  using assms that by (cases "items b ! nat k") (auto simp: print_item_def item_at_def box_ok_def Let_def)

lemma pos_okD:
  assumes "pos_ok b sc ch"
  shows "0 \<le> sc + ch" "sc + ch < item_no b"
  using assms by (auto simp: pos_ok_def)

lemma counter_set: "set (counter n) = {i. 0 \<le> i \<and> i < n}"
proof (intro set_eqI iffI)
  fix i assume "i \<in> {i. 0 \<le> i \<and> i < n}"
  then show "i \<in> set (counter n)" by (auto simp: counter_def image_iff intro!: bexI [of _ "nat i"])
qed (auto simp: counter_def)

lemma length_counter: "length (counter n) = nat n"
  by (simp add: counter_def)

lemma mb_match_loop_ok:
  assumes "list_all (\<lambda>i. 0 \<le> sc + i \<and> sc + i < item_no b) is"
  shows "\<exists>i. match_loop b sc key is n = Some i \<and> (i = n \<or> i \<in> set is)"
  using assms
proof (induction "is")
  case (Cons i "is")
  then obtain t item where "item_at b (sc + i) = Some (t, item)"
    by (cases "items b ! nat (sc + i)") (auto simp: item_at_def)
  with Cons show ?case by auto
qed simp

lemma find_row_ok:
  assumes "mb_ok b s"
  obtains i where "find_row b s key = Some i" "0 \<le> i" "i \<le> max_choice b"
proof -
  have p: "0 \<le> scroll s" "scroll s + max_choice b \<le> item_no b" "0 < max_choice b"
    using assms by (auto simp: mb_ok_def pos_ok_def)
  have r: "list_all (\<lambda>i. 0 \<le> scroll s + i \<and> scroll s + i < item_no b) (rows_after b (choice s))"
    "list_all (\<lambda>i. 0 \<le> scroll s + i \<and> scroll s + i < item_no b) (counter (max_choice b))"
    using p by (auto simp: list_all_iff rows_after_def counter_set)
  have s: "i \<in> set (rows_after b (choice s)) \<Longrightarrow> 0 \<le> i \<and> i < max_choice b"
    "i \<in> set (counter (max_choice b)) \<Longrightarrow> 0 \<le> i \<and> i < max_choice b" for i
    by (auto simp: rows_after_def counter_set)
  obtain i where i: "match_loop b (scroll s) key (rows_after b (choice s)) (max_choice b) = Some i"
    "i = max_choice b \<or> i \<in> set (rows_after b (choice s))"
    using mb_match_loop_ok [OF r(1)] by metis
  obtain j where j: "match_loop b (scroll s) key (counter (max_choice b)) (max_choice b) = Some j"
    "j = max_choice b \<or> j \<in> set (counter (max_choice b))"
    using mb_match_loop_ok [OF r(2)] by metis
  show thesis
  proof (cases "ends_menu key")
    case True
    then show thesis using that [of "max_choice b"] p by (simp add: find_row_def)
  next
    case False
    show thesis
    proof (cases "i = max_choice b")
      case True
      then show thesis using that [of j] False i j s(2) [of j] p by (auto simp: find_row_def)
    next
      case F: False
      then show thesis using that [of i] False i s(1) [of i] by (auto simp: find_row_def)
    qed
  qed
qed

section \<open>What the moves do\<close>

text \<open>The specification: a cursor on \<open>n\<close> items and pages of \<open>m\<close> rows.\<close>

definition move_cursor :: "int \<Rightarrow> int \<Rightarrow> int \<Rightarrow> int \<Rightarrow> int" where
  "move_cursor n m key p =
     (if is_up key then max 0 (p - 1)
      else if is_down key then min (n - 1) (p + 1)
      else if key = KEY_PPAGE then max 0 (p - m)
      else if key = KEY_NPAGE then min (n - 1) (p + m)
      else p)"

definition moved :: "mb_box \<Rightarrow> move \<Rightarrow> int \<Rightarrow> bool" where
  "moved b r p = (case r of None \<Rightarrow> False | Some (sc, ch, scr) \<Rightarrow> pos_ok b sc ch \<and> sc + ch = p)"

lemma move_up_ok:
  assumes "box_ok b" "pos_ok b sc ch"
  shows "moved b (move_up b sc ch scr) (max 0 (sc + ch - 1))"
proof (cases "ch < 2 \<and> sc \<noteq> 0")
  case True
  then have k: "0 \<le> sc - 1" "sc - 1 < item_no b" using assms(2) by (auto simp: pos_ok_def)
  obtain d where "print_item b (sc - 1) 0 False = Some d" using mb_print_item_ok [OF assms(1) k] .
  then show ?thesis using True assms(2) by (auto simp: move_up_def moved_def pos_ok_def)
next
  case False
  then show ?thesis using assms(2) by (auto simp: move_up_def moved_def pos_ok_def)
qed

lemma move_down_ok:
  assumes "box_ok b" "pos_ok b sc ch"
  shows "moved b (move_down b sc ch scr) (min (item_no b - 1) (sc + ch + 1))"
proof -
  obtain d0 where d0: "print_item b (sc + ch) ch False = Some d0"
    using mb_print_item_ok [OF assms(1) pos_okD [OF assms(2)]] .
  show ?thesis
  proof (cases "ch > max_choice b - 3 \<and> sc + max_choice b < item_no b")
    case True
    then have k: "0 \<le> sc + 1 + max_choice b - 1" "sc + 1 + max_choice b - 1 < item_no b"
      using assms(2) by (auto simp: pos_ok_def)
    obtain d where "print_item b (sc + 1 + max_choice b - 1) (max_choice b - 1) False = Some d"
      using mb_print_item_ok [OF assms(1) k] .
    then show ?thesis using True d0 assms(2) by (auto simp: move_down_def moved_def pos_ok_def)
  next
    case False
    then show ?thesis using d0 assms(2) by (auto simp: move_down_def moved_def pos_ok_def)
  qed
qed

lemma page_up_ok:
  assumes "box_ok b"
  shows "pos_ok b sc ch \<Longrightarrow> moved b (page_up b is sc ch scr) (max 0 (sc + ch - int (length is)))"
proof (induction "is" arbitrary: sc ch scr)
  case Nil
  then show ?case by (auto simp: moved_def pos_ok_def)
next
  case (Cons i "is")
  show ?case
  proof (cases "sc > 0")
    case True
    then have k: "0 \<le> sc - 1" "sc - 1 < item_no b" "pos_ok b (sc - 1) ch" using Cons.prems by (auto simp: pos_ok_def)
    obtain d where "print_item b (sc - 1) 0 False = Some d" using mb_print_item_ok [OF assms k(1,2)] .
    then show ?thesis using True Cons.IH [OF k(3)] by (simp add: algebra_simps)
  next
    case False
    let ?ch = "if ch > 0 then ch - 1 else ch"
    have "pos_ok b sc ?ch" "max 0 (sc + ?ch - int (length is)) = max 0 (sc + ch - int (length (i # is)))"
      using Cons.prems False by (auto simp: pos_ok_def)
    then show ?thesis using False Cons.IH [of sc ?ch scr] by simp
  qed
qed

lemma page_down_ok:
  assumes "box_ok b"
  shows "pos_ok b sc ch \<Longrightarrow>
    moved b (page_down b is sc ch scr) (min (item_no b - 1) (sc + ch + int (length is)))"
proof (induction "is" arbitrary: sc ch scr)
  case Nil
  then show ?case by (auto simp: moved_def pos_ok_def)
next
  case (Cons i "is")
  show ?case
  proof (cases "sc + max_choice b < item_no b")
    case True
    then have k: "0 \<le> sc + 1 + max_choice b - 1" "sc + 1 + max_choice b - 1 < item_no b" "pos_ok b (sc + 1) ch"
      using Cons.prems by (auto simp: pos_ok_def)
    obtain d where "print_item b (sc + 1 + max_choice b - 1) (max_choice b - 1) False = Some d"
      using mb_print_item_ok [OF assms k(1,2)] .
    then show ?thesis using True Cons.IH [OF k(3)] by (simp add: algebra_simps)
  next
    case False
    let ?ch = "if ch + 1 < max_choice b then ch + 1 else ch"
    have "pos_ok b sc ?ch"
      "min (item_no b - 1) (sc + ?ch + int (length is)) = min (item_no b - 1) (sc + ch + int (length (i # is)))"
      using Cons.prems False by (auto simp: pos_ok_def)
    then show ?thesis using False Cons.IH [of sc ?ch scr] by simp
  qed
qed

definition is_nav :: "int \<Rightarrow> bool" where
  "is_nav key \<longleftrightarrow> is_up key \<or> is_down key \<or> key = KEY_PPAGE \<or> key = KEY_NPAGE"

lemma do_move_ok:
  assumes "mb_ok b s"
  shows "is_nav key \<Longrightarrow> moved b (do_move b key i s scr) (move_cursor (item_no b) (max_choice b) key (position s))"
    and "\<not> is_nav key \<Longrightarrow> 0 \<le> i \<Longrightarrow> i < max_choice b \<Longrightarrow> moved b (do_move b key i s scr) (scroll s + i)"
proof -
  have b: "box_ok b" "pos_ok b (scroll s) (choice s)" using assms by (simp_all add: mb_ok_def)
  then have m: "0 \<le> max_choice b" by (auto simp: pos_ok_def)
  have pu: "moved b (map_option (\<lambda>(sc, ch, d). (sc, ch, d @ x)) r) p = moved b r p" for r x p
    by (auto simp: moved_def split: option.splits)
  assume n: "is_nav key"
  have l: "int (length (counter (max_choice b))) = max_choice b" using m by (simp add: length_counter)
  show "moved b (do_move b key i s scr) (move_cursor (item_no b) (max_choice b) key (position s))"
    using n move_up_ok [OF b, of scr] move_down_ok [OF b, of scr]
      page_up_ok [OF b, of "counter (max_choice b)" "scr @ [Scrollok Sub True]"]
      page_down_ok [OF b, of "counter (max_choice b)" scr]
    by (auto simp: is_nav_def do_move_def move_cursor_def position_def pu l)
next
  assume "\<not> is_nav key" "0 \<le> i" "i < max_choice b"
  then show "moved b (do_move b key i s scr) (scroll s + i)"
    using assms by (auto simp: do_move_def is_nav_def moved_def mb_ok_def pos_ok_def)
qed

lemma navigate_ok:
  assumes "mb_ok b s" "\<And>scr. moved b (do_move b key i s scr) p"
  shows "\<exists>s'. navigate term b key i s = Continue s' \<and> mb_ok b s' \<and> position s' = p \<and> button s' = button s"
proof -
  have b: "box_ok b" "pos_ok b (scroll s) (choice s)" using assms by (simp_all add: mb_ok_def)
  obtain d0 where d0: "print_item b (scroll s + choice s) (choice s) False = Some d0"
    using mb_print_item_ok [OF b(1) pos_okD [OF b(2)]] .
  obtain sc ch scr where m: "do_move b key i s (drawn s @ d0) = Some (sc, ch, scr)" "pos_ok b sc ch" "sc + ch = p"
    using assms(2) [of "drawn s @ d0"] by (auto simp: moved_def split: option.splits)
  obtain d1 where "print_item b (sc + ch) ch True = Some d1"
    using mb_print_item_ok [OF b(1) pos_okD [OF m(2)]] .
  with d0 m b assms(1) show ?thesis by (auto simp: navigate_def mb_ok_def position_def)
qed

lemma mb_step_nav:
  assumes "mb_ok b s" "is_nav key"
  shows "\<exists>s'. mb_step term b s key = Continue s' \<and> mb_ok b s' \<and> button s' = button s \<and>
    position s' = move_cursor (item_no b) (max_choice b) key (position s)"
proof -
  have k: "(if key < 256 \<and> key_isalpha key then key_tolower key else key) = key"
    using assms(2) by (auto simp: is_nav_def is_up_def is_down_def is_key_def key_tolower_def key_isupper_def code_def key_defs)
  obtain i where "find_row b s key = Some i" using find_row_ok [OF assms(1)] .
  then have "mb_step term b s key = navigate term b key i s"
    using assms(2) by (auto simp: mb_step_def k is_nav_def Let_def)
  moreover have "\<And>scr. moved b (do_move b key i s scr) (move_cursor (item_no b) (max_choice b) key (position s))"
    by (rule do_move_ok(1) [OF assms])
  ultimately show ?thesis using navigate_ok [OF assms(1)] by metis
qed

lemma answer_ok:
  assumes "mb_ok b s"
  shows "\<exists>out scr. answer b s btn = Finish (btn, out, scr) \<and>
    (btn \<noteq> 2 \<longrightarrow> out = fst (items b ! nat (position s)) @ ''\<newline>'')"
proof -
  have "0 \<le> position s" "position s < item_no b"
    using pos_okD [of b "scroll s" "choice s"] assms by (auto simp: mb_ok_def position_def)
  then show ?thesis
    by (cases "items b ! nat (position s)") (auto simp: answer_def item_at_def position_def)
qed

lemma mb_step_ok:
  assumes "mb_ok b s"
  shows "outcome_ok (mb_ok b) (\<lambda>r. fst r \<in> {-1, 0, 1, 2}) (mb_step term b s key0)"
proof -
  define key where "key = (if key0 < 256 \<and> key_isalpha key0 then key_tolower key0 else key0)"
  obtain i where i: "find_row b s key = Some i" "0 \<le> i" "i \<le> max_choice b" using find_row_ok [OF assms] .
  have bt: "button s \<in> {0, 1, 2}" using assms by (simp add: mb_ok_def)
  show ?thesis
  proof (cases "i < max_choice b \<or> is_nav key")
    case True
    then have "\<exists>p. \<forall>scr. moved b (do_move b key i s scr) p"
      using do_move_ok(1) [OF assms, of key] do_move_ok(2) [OF assms, of key i] i(2) by metis
    then obtain p where "\<And>scr. moved b (do_move b key i s scr) p" by blast
    then obtain s' where "navigate term b key i s = Continue s'" "mb_ok b s'"
      using navigate_ok [OF assms] by metis
    then show ?thesis using i True by (auto simp: mb_step_def key_def [symmetric] is_nav_def Let_def)
  next
    case False
    have a: "outcome_ok (mb_ok b) (\<lambda>r. fst r \<in> {-1, 0, 1, 2}) (answer b s btn)" if "btn \<in> {0, 1, 2}" for btn
      using answer_ok [OF assms, of btn] that by auto
    have u: "mb_ok b (s\<lparr>button := n, drawn := d\<rparr>)" if "n \<in> {0, 1, 2}" for n d
      using assms that by (simp add: mb_ok_def)
    have n: "\<not> i < max_choice b" "\<not> is_up key" "\<not> is_down key" "key \<noteq> KEY_PPAGE" "key \<noteq> KEY_NPAGE"
      using False by (auto simp: is_nav_def)
    define btn where "btn = (if key = KEY_LEFT then button s - 1 else button s + 1)"
    define btn' where "btn' = (if btn < 0 then 2 else if btn > 2 then 0 else btn)"
    have st: "mb_step term b s key0 =
        (if key = KEY_LEFT \<or> key = TAB \<or> key = KEY_RIGHT then
           Continue (s\<lparr>button := btn', drawn := drawn s @ print_buttons (height b) (width b) btn' @ [Wrefresh Sub]\<rparr>)
         else if is_key key CHR ''?'' then answer b s 2
         else if key = SPACE then answer b s 0
         else if key = NEWLINE then answer b s (button s)
         else if key = ESC then Finish (-1, [], drawn s @ [Delwin])
         else Continue s)"
      unfolding mb_step_def key_def [symmetric] i Let_def btn_def btn'_def by (simp only: n simp_thms if_False option.case)
    have "btn' \<in> {0, 1, 2}" using bt by (auto simp: btn'_def btn_def)
    then have "mb_ok b (s\<lparr>button := btn', drawn := d\<rparr>)" for d by (rule u)
    then show ?thesis
      unfolding st using assms a [of 2] a [of 0] a [OF bt] by simp
  qed
qed

interpretation menu: reactor "mb_step term b" "mb_ok b" "\<lambda>_. True" "\<lambda>r. fst r \<in> {-1, 0, 1, 2}"
  for "term" b
  by unfold_locales (rule mb_step_ok)

section \<open>Opening\<close>

lemma current_index_bounds:
  "0 \<le> ch \<Longrightarrow> 0 \<le> i \<Longrightarrow>
   0 \<le> current_index i ch c its \<and> (current_index i ch c its = ch \<or> current_index i ch c its < i + int (length its))"
proof (induction i ch c its rule: current_index.induct)
  case (2 i ch current tag item its)
  then show ?case by (cases "current = tag") (auto split: if_splits)
qed simp

lemma current_index_less:
  "its \<noteq> [] \<Longrightarrow> 0 \<le> current_index 0 0 c its \<and> current_index 0 0 c its < int (length its)"
  using current_index_bounds [of 0 0 c its] by auto

lemma initial_position_ok:
  assumes "0 \<le> c0" "c0 < n" "0 < mc" "mc \<le> n" "initial_position n mc c0 saved = (sc, ch)"
  shows "0 \<le> sc" "sc + mc \<le> n" "0 \<le> ch" "ch < mc" "sc + ch = c0"
proof -
  have d: "mc sdiv 2 = mc div 2" using assms(3) by (simp add: signed_divide_int_def)
  have h: "0 \<le> mc div 2" "mc div 2 < mc" "mc - 1 \<le> 2 * (mc div 2)" "2 * (mc div 2) \<le> mc" using assms(3) by auto
  define h where "h = mc div 2"
  note f = assms h[folded h_def] d[folded h_def]
  define good where "good = (case saved of
                    Some (Some sc) \<Rightarrow> sc \<le> c0 \<and> sc + mc > c0 \<and> sc \<ge> 0 \<and> sc + mc \<le> n
                  | _ \<Rightarrow> False)"
  have "0 \<le> sc \<and> sc + mc \<le> n \<and> 0 \<le> ch \<and> ch < mc \<and> sc + ch = c0"
  proof (cases good)
    case True
    then obtain sv where "saved = Some (Some sv)" "sv \<le> c0" "sv + mc > c0" "sv \<ge> 0" "sv + mc \<le> n"
      by (auto simp: good_def split: option.splits)
    then show ?thesis using f True by (auto simp: initial_position_def good_def Let_def split: if_splits)
  next
    case False
    then show ?thesis using f unfolding initial_position_def good_def[symmetric] Let_def
      by (auto split: if_splits)
  qed
  then show "0 \<le> sc" "sc + mc \<le> n" "0 \<le> ch" "ch < mc" "sc + ch = c0" by auto
qed

lemma mb_print_rows_ok:
  assumes "box_ok b"
  shows "list_all (\<lambda>i. 0 \<le> fi + i \<and> fi + i < item_no b) is \<Longrightarrow> print_rows b fi ch is \<noteq> None"
proof (induction "is")
  case (Cons i "is")
  then obtain d where "print_item b (fi + i) i (i = ch) = Some d" using mb_print_item_ok [OF assms, of "fi + i" i "i = ch"] by auto
  with Cons show ?case by auto
qed simp

lemma mb_open_ok:
  assumes "box_ok b" "length prompt \<le> MAX_LEN"
  obtains s where "mb_open term title prompt b current saved scr = Some s" "mb_ok b s"
    "position s = current_index 0 0 current (items b)" "button s = 0"
proof -
  let ?c0 = "current_index 0 0 current (items b)"
  obtain sc ch where ip: "initial_position (item_no b) (max_choice b) ?c0 saved = (sc, ch)" by fastforce
  have n: "0 \<le> ?c0" "?c0 < item_no b" "0 < max_choice b" "max_choice b \<le> item_no b"
    using assms(1) current_index_less [of "items b" current] by (auto simp: box_ok_def item_no_def max_choice_def)
  note p = initial_position_ok [OF n ip]
  obtain s1 where s1: "mb_frame term title prompt b scr = Some s1"
    using print_autowrap_Some [OF assms(2)] unfolding mb_frame_def Let_def by fastforce
  have "print_rows b sc ch (counter (max_choice b)) \<noteq> None"
    using p by (intro mb_print_rows_ok [OF assms(1)]) (auto simp: list_all_iff counter_set)
  then obtain s2 where s2: "print_rows b sc ch (counter (max_choice b)) = Some s2" by blast
  show thesis
    using that ip s1 s2 p assms(1) by (auto simp: mb_open_def Let_def mb_ok_def pos_ok_def position_def)
qed

lemma make_menu_sel [simp]:
  "items (make_menu its h w mh) = its" "menu_height (make_menu its h w mh) = mh"
  "menu_width (make_menu its h w mh) = w - 6"
  "item_no (make_menu its h w mh) = int (length its)"
  "max_choice (make_menu its h w mh) = min mh (int (length its))"
  by (simp_all add: make_menu_def Let_def item_no_def max_choice_def)

lemma make_menu_ok: "its \<noteq> [] \<Longrightarrow> 6 \<le> w \<Longrightarrow> 0 < mh \<Longrightarrow> box_ok (make_menu its h w mh)"
  by (simp add: box_ok_def)

section \<open>Properties\<close>

text \<open>
  Whatever scroll position an earlier run has left, no sequence of keys makes the menu read
  outside its items; cursor and window stay on the items, and the answer is 0, 1, 2 or -1.
\<close>

theorem menu_safe:
  assumes "its \<noteq> []" "6 \<le> w" "0 < mh" "length prompt \<le> MAX_LEN"
  shows "outcome_ok (mb_ok (make_menu its h w mh)) (\<lambda>r. fst r \<in> {-1, 0, 1, 2})
    (dialog_menu term title prompt h w mh current its saved scr keys)"
proof -
  obtain s where "mb_open term title prompt (make_menu its h w mh) current saved scr = Some s"
    "mb_ok (make_menu its h w mh) s"
    using mb_open_ok [OF make_menu_ok [OF assms(1,2,3)] assms(4)] by metis
  then show ?thesis
    using menu.run_ok [of "make_menu its h w mh" s keys "term"] by (simp add: dialog_menu_def Let_def list_all_iff)
qed

definition three_items :: "(string \<times> string) list" where
  "three_items = [(''a'', ''Apple''), ('':'', ''-- Sweet --''), (''c'', ''Cat'')]"

theorem menu_safe_witness:
  "outcome_ok (mb_ok (make_menu three_items 15 40 2)) (\<lambda>r. fst r \<in> {-1, 0, 1, 2})
    (dialog_menu term80 None ''Pick'' 15 40 2 ''c'' three_items (Some (Some 77)) [] [KEY_UP, KEY_UP, 97, 63])"
  by (rule menu_safe) (simp_all add: three_items_def MAX_LEN_def)

lemma menu_moves:
  "mb_ok b s \<Longrightarrow> list_all is_nav ks \<Longrightarrow>
   \<exists>s'. run_machine (mb_step term b) s ks = Continue s' \<and> mb_ok b s' \<and> button s' = button s \<and>
     position s' = foldl (\<lambda>p k. move_cursor (item_no b) (max_choice b) k p) (position s) ks"
proof (induction ks arbitrary: s)
  case (Cons k ks)
  obtain s1 where s1: "mb_step term b s k = Continue s1" "mb_ok b s1" "button s1 = button s"
    "position s1 = move_cursor (item_no b) (max_choice b) k (position s)"
    using mb_step_nav [OF Cons.prems(1), of k "term"] Cons.prems(2) by auto
  with Cons.IH [OF s1(2)] Cons.prems(2) show ?case by auto
qed simp

lemma menu_prints:
  assumes "its \<noteq> []" "6 \<le> w" "0 < mh" "length prompt \<le> MAX_LEN" "list_all is_nav ks"
    and "p = foldl (\<lambda>p k. move_cursor (int (length its)) (min mh (int (length its))) k p)
               (current_index 0 0 current its) ks"
  shows "\<exists>s. dialog_menu term title prompt h w mh current its saved scr (ks @ [NEWLINE]) =
    Finish (0, fst (its ! nat p) @ ''\<newline>'', s)"
proof -
  let ?b = "make_menu its h w mh"
  obtain s where s: "mb_open term title prompt ?b current saved scr = Some s" "mb_ok ?b s"
    "position s = current_index 0 0 current its" "button s = 0"
    using mb_open_ok [OF make_menu_ok [OF assms(1,2,3)] assms(4)] by (metis make_menu_sel(1))
  obtain s' where s': "run_machine (mb_step term ?b) s ks = Continue s'" "mb_ok ?b s'"
    "button s' = 0" "position s' = p"
    using menu_moves [OF s(2) assms(5)] s(3,4) assms(6) by auto
  have "mb_step term ?b s' NEWLINE = answer ?b s' 0"
    using s'(3) by (simp add: mb_step_def find_row_def ends_menu_def is_up_def is_down_def is_key_def
      key_isalpha_def key_isupper_def key_islower_def code_def key_defs)
  then show ?thesis
    using answer_ok [OF s'(2), of 0] s s' by (auto simp: dialog_menu_def Let_def run_machine_append)
qed

text \<open>
  C11: the scrolling window implements a cursor on the list of all items: after any movement
  keys the enter key prints the tag of the item where a plain cursor would be that started on
  the current item, moved by one for the arrow keys and by one page for the page keys, and
  stopped at both ends.
\<close>

theorem menu_cursor:
  assumes "its \<noteq> []" "6 \<le> w" "0 < mh" "length prompt \<le> MAX_LEN" "list_all is_nav ks"
    and "p = foldl (\<lambda>p k. move_cursor (int (length its)) (min mh (int (length its))) k p)
               (current_index 0 0 current its) ks"
  shows "\<exists>s. dialog_menu term title prompt h w mh current its saved scr (ks @ [NEWLINE]) =
    Finish (0, fst (its ! nat p) @ ''\<newline>'', s)"
  using assms by (rule menu_prints)

theorem menu_cursor_witness:
  "\<exists>s. dialog_menu term80 None ''Pick'' 15 40 2 ''c'' three_items None [] [KEY_PPAGE, KEY_UP, KEY_DOWN, KEY_NPAGE, NEWLINE] =
    Finish (0, ''c\<newline>'', s)"
  using menu_cursor [of three_items 40 2 "''Pick''" "[KEY_PPAGE, KEY_UP, KEY_DOWN, KEY_NPAGE]" 2 "''c''" term80 None 15 None "[]"]
  by (simp add: three_items_def MAX_LEN_def is_nav_def move_cursor_def is_up_def is_down_def is_key_def code_def key_defs)

end
