(* ===== verification/Inputbox.thy ===== *)
theory Inputbox
  imports DialogUtil
begin

text \<open>
  \<^verbatim>\<open>misc/confdialog/inputbox.c\<close>: the one line editor.

  \<open>instr\<close> is the array \<^verbatim>\<open>dialog_input_result\<close> of \<open>MAX_LEN + 1\<close> characters, all NUL at the start
  of the program.  The locale is \<^verbatim>\<open>C\<close>: the program calls \<^verbatim>\<open>setlocale\<close> only if it is compiled with
  \<^verbatim>\<open>LOCALE\<close>.  \<open>Fault\<close> is an access outside the array.  The result is the return value, the text
  of the array and the calls of curses.
\<close>

record ib_box =
  box_width :: int
  box_y :: int
  box_x :: int
  height :: int
  width :: int

record ib_state =
  instr :: string
  input_x :: int
  scroll :: int
  button :: int
  drawn :: screen

definition NUL :: char where "NUL = CHR 0x00"

definition peek :: "string \<Rightarrow> int \<Rightarrow> char option" where
  "peek a k = (if 0 \<le> k \<and> k < int (length a) then Some (a ! nat k) else None)"

definition poke :: "string \<Rightarrow> int \<Rightarrow> char \<Rightarrow> string option" where
  "poke a k c = (if 0 \<le> k \<and> k < int (length a) then Some (a[nat k := c]) else None)"

definition text_of :: "string \<Rightarrow> string" where
  "text_of a = takeWhile (\<lambda>c. c \<noteq> NUL) a"

definition strcpy :: "string \<Rightarrow> string \<Rightarrow> string option" where
  "strcpy a s = (if length s < length a then Some (s @ NUL # drop (length s + 1) a) else None)"

definition print_buttons :: "int \<Rightarrow> int \<Rightarrow> int \<Rightarrow> screen" where
  "print_buttons h w selected =
     (let x = w sdiv 2 - 5; y = h - 2 in
      print_button ''  Ok  '' y x (selected = 0) @
      [Wmove Dialog y (x + 1 + 14 * selected), Wrefresh Dialog])"

text \<open>Print the characters at the places \<open>sc + i\<close>; with \<open>blank\<close> a NUL is shown as a blank.\<close>

fun show_chars :: "bool \<Rightarrow> string \<Rightarrow> int \<Rightarrow> int list \<Rightarrow> screen option" where
  "show_chars blank a sc [] = Some []"
| "show_chars blank a sc (i # is) =
     (case peek a (sc + i) of
        None \<Rightarrow> None
      | Some c \<Rightarrow>
          map_option ((#) (putch Dialog (Chr (if blank \<and> c = NUL then CHR '' '' else c))))
            (show_chars blank a sc is))"

section \<open>Opening\<close>

definition ib_frame ::
  "terminal \<Rightarrow> string option \<Rightarrow> string \<Rightarrow> int \<Rightarrow> int \<Rightarrow> screen \<Rightarrow> (ib_box \<times> screen) option" where
  "ib_frame term title prompt h w scr =
     (let x = (COLS term - w) sdiv 2;
          y = (LINES term - h) sdiv 2;
          s1 = scr @ draw_shadow (colored term) y x h w @ [Newwin h w y x, Keypad Dialog] @
            draw_box 0 0 h w dialog_attr border_attr @ separator h w [] @
            print_title (truncate_title title w) w @ [Wattrset Dialog dialog_attr]
      in case print_autowrap (cursor term) prompt (w - 2) 1 3 s1 of
           None \<Rightarrow> None
         | Some s2 \<Rightarrow>
             (let bw = w - 6; cy = fst (cursor term s2); bx = (w - bw) sdiv 2
              in Some (\<lparr>box_width = bw, box_y = cy + 2, box_x = bx, height = h, width = w\<rparr>,
                       s2 @ draw_box (cy + 1) (bx - 1) 3 (bw + 2) border_attr dialog_attr @
                       print_buttons h w 0)))"

definition initial_text :: "string option \<Rightarrow> string \<Rightarrow> string option" where
  "initial_text init a = (case init of None \<Rightarrow> poke a 0 NUL | Some s \<Rightarrow> strcpy a s)"

definition ib_open :: "ib_box \<Rightarrow> string option \<Rightarrow> string \<Rightarrow> screen \<Rightarrow> ib_state option" where
  "ib_open b init a scr =
     (case initial_text init a of
        None \<Rightarrow> None
      | Some a1 \<Rightarrow>
          (let len = int (length (text_of a1));
               too_long = (len \<ge> box_width b);
               sc = (if too_long then len - box_width b + 1 else 0);
               ix = (if too_long then box_width b - 1 else len)
           in map_option (\<lambda>d.
                  \<lparr>instr = a1, input_x = ix, scroll = sc, button = -1,
                   drawn = scr @ [Wmove Dialog (box_y b) (box_x b), Wattrset Dialog inputbox_attr] @ d @
                     [Wmove Dialog (box_y b) (box_x b + ix), Wrefresh Dialog]\<rparr>)
                (if too_long then show_chars False a1 sc (counter (box_width b - 1))
                 else Some [Waddstr Dialog (text_of a1)])))"

section \<open>Keys\<close>

definition backspace :: "ib_box \<Rightarrow> ib_state \<Rightarrow> (ib_state, int \<times> string \<times> screen) outcome" where
  "backspace b s =
     (if input_x s = 0 \<and> scroll s = 0 then Continue s
      else
        (let sc = (if input_x s \<noteq> 0 then scroll s
                   else if scroll s < box_width b - 1 then 0 else scroll s - (box_width b - 1));
             ix = (if input_x s \<noteq> 0 then input_x s - 1 else int (length (text_of (instr s))) - sc)
         in case (if input_x s \<noteq> 0 then Some []
                  else map_option ((#) (Wmove Dialog (box_y b) (box_x b)))
                         (show_chars True (instr s) sc (counter (box_width b)))) of
              None \<Rightarrow> Fault
            | Some d \<Rightarrow>
                (case poke (instr s) (sc + ix) NUL of
                   None \<Rightarrow> Fault
                 | Some a \<Rightarrow>
                     Continue (s\<lparr>instr := a, input_x := ix, scroll := sc,
                       drawn := drawn s @ Wattrset Dialog inputbox_attr # d @
                         [Wmove Dialog (box_y b) (ix + box_x b), putch Dialog (Chr CHR '' ''),
                          Wmove Dialog (box_y b) (ix + box_x b), Wrefresh Dialog]\<rparr>))))"

definition poke2 :: "string \<Rightarrow> int \<Rightarrow> char \<Rightarrow> string option" where
  "poke2 a k c = (case poke a k c of None \<Rightarrow> None | Some a' \<Rightarrow> poke a' (k + 1) NUL)"

definition type_char :: "ib_box \<Rightarrow> ib_state \<Rightarrow> int \<Rightarrow> (ib_state, int \<times> string \<times> screen) outcome" where
  "type_char b s key =
     (let k = scroll s + input_x s; c = char_of key in
      if k < int MAX_LEN then
        (case poke2 (instr s) k c of
           None \<Rightarrow> Fault
         | Some a \<Rightarrow>
             (if input_x s = box_width b - 1 then
                (case show_chars False a (scroll s + 1) (counter (box_width b - 1)) of
                   None \<Rightarrow> Fault
                 | Some d \<Rightarrow>
                     Continue (s\<lparr>instr := a, scroll := scroll s + 1,
                       drawn := drawn s @ [Wattrset Dialog inputbox_attr, Wmove Dialog (box_y b) (box_x b)] @
                         d @ [Wrefresh Dialog]\<rparr>))
              else
                Continue (s\<lparr>instr := a, input_x := input_x s + 1,
                  drawn := drawn s @ [Wattrset Dialog inputbox_attr,
                    Wmove Dialog (box_y b) (input_x s + box_x b), putch Dialog (Chr c), Wrefresh Dialog]\<rparr>)))
      else Continue (s\<lparr>drawn := drawn s @ [Flash]\<rparr>))"

definition set_button :: "ib_box \<Rightarrow> ib_state \<Rightarrow> int \<Rightarrow> int \<Rightarrow> ib_state" where
  "set_button b s btn shown =
     s\<lparr>button := btn,
       drawn := drawn s @ print_buttons (height b) (width b) shown @
         (if btn = -1 then [Wmove Dialog (box_y b) (box_x b + input_x s), Wrefresh Dialog] else [])\<rparr>"

definition button_key :: "ib_box \<Rightarrow> ib_state \<Rightarrow> int \<Rightarrow> (ib_state, int \<times> string \<times> screen) outcome" where
  "button_key b s key =
     (if is_key key CHR ''O'' \<or> is_key key CHR ''o'' then Finish (0, text_of (instr s), drawn s @ [Delwin])
      else if key = KEY_UP \<or> key = KEY_LEFT then
        Continue (if button s = -1 then set_button b s 1 1
                  else if button s = 0 then set_button b s (-1) 0
                  else if button s = 1 then set_button b s 0 0 else s)
      else if key = TAB \<or> key = KEY_DOWN \<or> key = KEY_RIGHT then
        Continue (if button s = -1 then set_button b s 1 0
                  else if button s = 0 then set_button b s 1 1
                  else if button s = 1 then set_button b s (-1) 0 else s)
      else if key = SPACE \<or> key = NEWLINE then
        Finish (if button s = -1 then 0 else button s, text_of (instr s), drawn s @ [Delwin])
      else if is_key key CHR ''X'' \<or> is_key key CHR ''x'' \<or> key = ESC then
        Finish (-1, text_of (instr s), drawn s @ [Delwin])
      else Continue s)"

definition ib_step :: "ib_box \<Rightarrow> ib_state \<Rightarrow> int \<Rightarrow> (ib_state, int \<times> string \<times> screen) outcome" where
  "ib_step b s key =
     (if button s = -1 then
        (if key = TAB \<or> key = KEY_UP \<or> key = KEY_DOWN then button_key b s key
         else if key = KEY_LEFT \<or> key = KEY_RIGHT then Continue s
         else if key = KEY_BACKSPACE \<or> key = 127 then backspace b s
         else if key < 0x100 \<and> key_isprint key then type_char b s key
         else button_key b s key)
      else button_key b s key)"

definition dialog_input_result :: string where
  "dialog_input_result = replicate (MAX_LEN + 1) NUL"

definition dialog_inputbox ::
  "terminal \<Rightarrow> string option \<Rightarrow> string \<Rightarrow> int \<Rightarrow> int \<Rightarrow> string option \<Rightarrow> screen \<Rightarrow> int list \<Rightarrow>
   (ib_state, int \<times> string \<times> screen) outcome" where
  "dialog_inputbox term title prompt h w init scr keys =
     (case ib_frame term title prompt h w scr of
        None \<Rightarrow> Fault
      | Some (b, scr1) \<Rightarrow>
          (case ib_open b init dialog_input_result scr1 of
             None \<Rightarrow> Fault
           | Some s \<Rightarrow> run_machine (ib_step b) s keys))"

section \<open>The array holds the text\<close>

definition holds :: "ib_box \<Rightarrow> ib_state \<Rightarrow> string \<Rightarrow> bool" where
  "holds b s t \<longleftrightarrow>
     (\<exists>r. instr s = t @ NUL # r) \<and> length (instr s) = MAX_LEN + 1 \<and> NUL \<notin> set t \<and>
     scroll s + input_x s = int (length t) \<and> 0 \<le> scroll s \<and> 0 \<le> input_x s \<and> input_x s < box_width b"

definition fits :: "ib_box \<Rightarrow> bool" where
  "fits b \<longleftrightarrow> 1 \<le> box_width b \<and> box_width b \<le> int MAX_LEN + 1"


lemma text_of_array: "NUL \<notin> set t \<Longrightarrow> text_of (t @ NUL # r) = t"
  by (induction t) (auto simp: text_of_def)

lemma holds_text: "holds b s t \<Longrightarrow> text_of (instr s) = t"
  by (auto simp: holds_def text_of_array)

lemma holds_length: "holds b s t \<Longrightarrow> length t \<le> MAX_LEN"
  by (auto simp: holds_def)

lemma poke_cut:
  assumes "a = t @ NUL # r" "0 \<le> k" "k \<le> int (length t)"
  shows "\<exists>r'. poke a k NUL = Some (take (nat k) t @ NUL # r')"
proof -
  have n: "nat k < length a" "nat k \<le> length t" using assms by auto
  have "a[nat k := NUL] = take (nat k) a @ NUL # drop (Suc (nat k)) a" by (rule upd_conv_take_nth_drop [OF n(1)])
  moreover have "take (nat k) a = take (nat k) t" using assms(1) n by simp
  ultimately show ?thesis using assms n by (auto simp: poke_def)
qed

lemma poke2_append:
  assumes "a = t @ NUL # r" "r \<noteq> []" "k = int (length t)"
  shows "poke2 a k c = Some ((t @ [c]) @ NUL # tl r)"
proof -
  obtain x r' where "r = x # r'" using assms(2) by (cases r) auto
  then show ?thesis using assms by (simp add: poke2_def poke_def nat_add_distrib list_update_append)
qed

lemma show_chars_ok:
  "list_all (\<lambda>i. 0 \<le> sc + i \<and> sc + i < int (length a)) is \<Longrightarrow> show_chars blank a sc is \<noteq> None"
  by (induction "is") (auto simp: peek_def)

lemma show_chars_counter:
  assumes "0 \<le> sc" "sc + n \<le> int (length a)"
  obtains d where "show_chars blank a sc (counter n) = Some d"
proof -
  have "list_all (\<lambda>i. 0 \<le> sc + i \<and> sc + i < int (length a)) (counter n)"
    using assms by (auto simp: list_all_iff counter_def)
  from show_chars_ok [OF this, of blank] show thesis using that by blast
qed

section \<open>What the keys do to the text\<close>

text \<open>
  The specification: text and first shown character.  A backspace at the left edge of a
  scrolled window only scrolls.
\<close>

definition ed_back :: "int \<Rightarrow> string \<times> int \<Rightarrow> string \<times> int" where
  "ed_back bw = (\<lambda>(t, sc).
     if int (length t) = sc then (t, max 0 (sc - (bw - 1))) else (butlast t, sc))"

definition ed_type :: "int \<Rightarrow> char \<Rightarrow> string \<times> int \<Rightarrow> string \<times> int" where
  "ed_type bw c = (\<lambda>(t, sc).
     if length t < MAX_LEN then (t @ [c], if int (length t) - sc = bw - 1 then sc + 1 else sc) else (t, sc))"

lemma backspace_ok:
  assumes "holds b s t" "fits b"
  shows "\<exists>s' t'. backspace b s = Continue s' \<and> button s' = button s \<and> holds b s' t' \<and>
    (t', scroll s') = ed_back (box_width b) (t, scroll s)"
proof -
  obtain r where r: "instr s = t @ NUL # r" "length (instr s) = MAX_LEN + 1" "NUL \<notin> set t"
    and p: "scroll s + input_x s = int (length t)" "0 \<le> scroll s" "0 \<le> input_x s" "input_x s < box_width b"
    using assms(1) by (auto simp: holds_def)
  have l: "length t \<le> MAX_LEN" using holds_length [OF assms(1)] .
  consider "input_x s = 0" "scroll s = 0" | "input_x s = 0" "scroll s \<noteq> 0" | "input_x s \<noteq> 0" by blast
  then show ?thesis
  proof cases
    case 1
    then show ?thesis using assms p by (auto simp: backspace_def ed_back_def fits_def)
  next
    case 2
    define sc where "sc = (if scroll s < box_width b - 1 then 0 else scroll s - (box_width b - 1))"
    have sc: "0 \<le> sc" "sc \<le> scroll s" "sc + box_width b \<le> int (length (instr s))" "sc = max 0 (scroll s - (box_width b - 1))"
      using p 2 l r(2) assms(2) by (auto simp: sc_def fits_def)
    obtain d where d: "show_chars True (instr s) sc (counter (box_width b)) = Some d"
      using show_chars_counter [OF sc(1,3)] .
    have ix: "sc + (int (length t) - sc) = int (length t)" by simp
    obtain r' where r': "poke (instr s) (int (length t)) NUL = Some (t @ NUL # r')"
      using poke_cut [OF r(1), of "int (length t)"] by auto
    then have len: "length (t @ NUL # r') = MAX_LEN + 1"
      using r(2) unfolding poke_def by (metis length_list_update option.inject option.distinct(1))
    have e: "ed_back (box_width b) (t, scroll s) = (t, sc)" using 2 p sc(4) by (simp add: ed_back_def)
    have f: "int (length t) - sc < box_width b" using 2 p assms(2) by (auto simp: sc_def fits_def)
    define s' where "s' = s\<lparr>instr := t @ NUL # r', input_x := int (length t) - sc, scroll := sc,
      drawn := drawn s @ Wattrset Dialog inputbox_attr # (Wmove Dialog (box_y b) (box_x b) # d) @
        [Wmove Dialog (box_y b) (int (length t) - sc + box_x b), putch Dialog (Chr CHR '' ''),
         Wmove Dialog (box_y b) (int (length t) - sc + box_x b), Wrefresh Dialog]\<rparr>"
    have "backspace b s = Continue s'"
      unfolding backspace_def Let_def holds_text [OF assms(1)] s'_def
      using 2 d r' by (simp add: sc_def [symmetric])
    moreover have "holds b s' t" using len f r(3) sc(1,2) p 2 by (auto simp: s'_def holds_def)
    moreover have "button s' = button s" "scroll s' = sc" by (simp_all add: s'_def)
    ultimately show ?thesis using e by metis
  next
    case 3
    have k: "0 \<le> scroll s + (input_x s - 1)" "scroll s + (input_x s - 1) \<le> int (length t)" using 3 p by auto
    have n: "take (nat (scroll s + (input_x s - 1))) t = butlast t"
      using p 3 by (simp add: butlast_conv_take nat_diff_distrib algebra_simps)
    obtain r' where r': "poke (instr s) (scroll s + (input_x s - 1)) NUL = Some (butlast t @ NUL # r')"
      using poke_cut [OF r(1) k] n by auto
    then have len: "length (butlast t @ NUL # r') = MAX_LEN + 1"
      using r(2) unfolding poke_def by (metis length_list_update option.inject option.distinct(1))
    have e: "ed_back (box_width b) (t, scroll s) = (butlast t, scroll s)" using 3 p by (simp add: ed_back_def)
    define s' where "s' = s\<lparr>instr := butlast t @ NUL # r', input_x := input_x s - 1,
      drawn := drawn s @ Wattrset Dialog inputbox_attr # [] @
        [Wmove Dialog (box_y b) (input_x s - 1 + box_x b), putch Dialog (Chr CHR '' ''),
         Wmove Dialog (box_y b) (input_x s - 1 + box_x b), Wrefresh Dialog]\<rparr>"
    have "backspace b s = Continue s'"
      unfolding backspace_def Let_def s'_def using 3 r' by simp
    moreover have "int (length (butlast t)) = int (length t) - 1" using 3 p by (cases t) auto
    then have "holds b s' (butlast t)" using len r(3) p 3 by (auto simp: s'_def holds_def dest: in_set_butlastD)
    moreover have "button s' = button s" "scroll s' = scroll s" by (simp_all add: s'_def)
    ultimately show ?thesis using e by metis
  qed
qed

lemma type_char_ok:
  assumes "holds b s t" "fits b" "key_isprint key"
  shows "\<exists>s' t'. type_char b s key = Continue s' \<and> button s' = button s \<and> holds b s' t' \<and>
    (t', scroll s') = ed_type (box_width b) (char_of key) (t, scroll s)"
proof -
  obtain r where r: "instr s = t @ NUL # r" "length (instr s) = MAX_LEN + 1" "NUL \<notin> set t"
    and p: "scroll s + input_x s = int (length t)" "0 \<le> scroll s" "0 \<le> input_x s" "input_x s < box_width b"
    using assms(1) by (auto simp: holds_def)
  show ?thesis
  proof (cases "length t < MAX_LEN")
    case True
    let ?c = "char_of key :: char"
    have "(of_char ?c :: int) = key" using assms(3) by (simp add: key_isprint_def)
    moreover have "(of_char NUL :: int) = 0" by (simp add: NUL_def)
    ultimately have c: "?c \<noteq> NUL" using assms(3) by (metis key_isprint_def not_numeral_le_zero)
    have rn: "r \<noteq> []" using True r by auto
    let ?a = "(t @ [?c]) @ NUL # tl r"
    have a: "poke2 (instr s) (scroll s + input_x s) ?c = Some ?a"
      using poke2_append [OF r(1) rn p(1)] by simp
    have la: "length ?a = MAX_LEN + 1" using rn r True by (cases r) auto
    have k: "scroll s + input_x s < int MAX_LEN" using p True by simp
    show ?thesis
    proof (cases "input_x s = box_width b - 1")
      case T: True
      have "0 \<le> scroll s + 1" "scroll s + 1 + (box_width b - 1) \<le> int (length ?a)"
        using p T k la assms(2) unfolding la by (auto simp: fits_def)
      then obtain d where d: "show_chars False ?a (scroll s + 1) (counter (box_width b - 1)) = Some d"
        using show_chars_counter by metis
      define s' where "s' = s\<lparr>instr := ?a, scroll := scroll s + 1,
        drawn := drawn s @ [Wattrset Dialog inputbox_attr, Wmove Dialog (box_y b) (box_x b)] @ d @ [Wrefresh Dialog]\<rparr>"
      have "type_char b s key = Continue s'"
        unfolding type_char_def Let_def a using T k d by (simp add: s'_def)
      moreover have "holds b s' (t @ [?c])" using la p r(3) c T by (auto simp: s'_def holds_def)
      moreover have "ed_type (box_width b) ?c (t, scroll s) = (t @ [?c], scroll s')"
        using True T p by (simp add: ed_type_def s'_def)
      moreover have "button s' = button s" by (simp add: s'_def)
      ultimately show ?thesis by metis
    next
      case F: False
      define s' where "s' = s\<lparr>instr := ?a, input_x := input_x s + 1, drawn := drawn s @ [Wattrset Dialog inputbox_attr,
                    Wmove Dialog (box_y b) (input_x s + box_x b), putch Dialog (Chr ?c), Wrefresh Dialog]\<rparr>"
      have "type_char b s key = Continue s'"
        unfolding type_char_def Let_def a using F k by (simp add: s'_def)
      moreover have "holds b s' (t @ [?c])" using la p r(3) c F by (auto simp: s'_def holds_def)
      moreover have "ed_type (box_width b) ?c (t, scroll s) = (t @ [?c], scroll s')"
        using True F p by (auto simp: ed_type_def s'_def)
      moreover have "button s' = button s" by (simp add: s'_def)
      ultimately show ?thesis by metis
    qed
  next
    case False
    then show ?thesis using assms(1) p by (auto simp: type_char_def Let_def holds_def ed_type_def)
  qed
qed





section \<open>Opening\<close>

definition start_text :: "string option \<Rightarrow> string" where
  "start_text init = (case init of None \<Rightarrow> [] | Some t \<Rightarrow> t)"

text \<open>The window shows the end of the text.\<close>

definition window :: "int \<Rightarrow> string \<Rightarrow> int" where
  "window bw t = max 0 (int (length t) - (bw - 1))"

lemma initial_text_ok:
  assumes "length (start_text init) \<le> MAX_LEN"
  shows "\<exists>a r. initial_text init dialog_input_result = Some a \<and> a = start_text init @ NUL # r \<and> length a = MAX_LEN + 1"
proof (cases init)
  case None
  then show ?thesis
    by (auto simp: initial_text_def poke_def dialog_input_result_def start_text_def list_update_same_conv)
next
  case (Some t)
  then show ?thesis
    using assms by (auto simp: initial_text_def strcpy_def dialog_input_result_def start_text_def)
qed

lemma ib_open_ok:
  assumes "fits b" "length (start_text init) \<le> MAX_LEN" "NUL \<notin> set (start_text init)"
  obtains s where "ib_open b init dialog_input_result scr = Some s" "holds b s (start_text init)"
    "scroll s = window (box_width b) (start_text init)" "button s = -1"
proof -
  obtain a r where a: "initial_text init dialog_input_result = Some a" "a = start_text init @ NUL # r" "length a = MAX_LEN + 1"
    using initial_text_ok [OF assms(2)] by blast
  have t: "text_of a = start_text init" using a(2) assms(3) by (simp add: text_of_array)
  show thesis
  proof (cases "int (length (start_text init)) \<ge> box_width b")
    case True
    let ?sc = "int (length (start_text init)) - box_width b + 1"
    have "0 \<le> ?sc" "?sc + (box_width b - 1) \<le> int (length a)" using True a(3) assms(2) by auto
    then obtain d where "show_chars False a ?sc (counter (box_width b - 1)) = Some d"
      using show_chars_counter by metis
    then show thesis using that True a t assms by (auto simp: ib_open_def Let_def holds_def window_def fits_def)
  next
    case False
    then show thesis using that a t assms by (auto simp: ib_open_def Let_def holds_def window_def fits_def)
  qed
qed

lemma ib_frame_ok:
  assumes "length prompt \<le> MAX_LEN"
  obtains b scr1 where "ib_frame term title prompt h w scr = Some (b, scr1)" "box_width b = w - 6"
proof -
  obtain r where "ib_frame term title prompt h w scr = Some r"
    using print_autowrap_Some [OF assms] by (fastforce simp: ib_frame_def Let_def split: option.splits)
  moreover have "box_width (fst r) = w - 6"
    using calculation unfolding ib_frame_def Let_def by (auto split: option.splits)
  ultimately show thesis using that by (cases r) auto
qed

section \<open>Properties\<close>

lemma fits_width: "7 \<le> w \<Longrightarrow> w \<le> int MAX_LEN + 7 \<Longrightarrow> box_width b = w - 6 \<Longrightarrow> fits b"
  by (simp add: fits_def)




lemma type_run:
  assumes "fits b" "list_all (\<lambda>c. key_isprint (code c)) cs"
  shows "holds b s t \<Longrightarrow> button s = -1 \<Longrightarrow> scroll s = window (box_width b) t \<Longrightarrow> length (t @ cs) \<le> MAX_LEN \<Longrightarrow>
    \<exists>s'. run_machine (ib_step b) s (map code cs) = Continue s' \<and> button s' = -1 \<and> holds b s' (t @ cs) \<and>
      scroll s' = window (box_width b) (t @ cs)"
  using assms(2)
proof (induction cs arbitrary: s t)
  case (Cons c cs)
  have k: "key_isprint (code c)" "code c < 256" "code c \<notin> {TAB, KEY_UP, KEY_DOWN, KEY_LEFT, KEY_RIGHT, KEY_BACKSPACE, 127}"
    "char_of (code c) = c"
    using Cons.prems(5) by (auto simp: key_isprint_def key_defs code_def)
  then have st: "ib_step b s (code c) = type_char b s (code c)"
    using Cons.prems(2) by (simp add: ib_step_def)
  obtain s1 t1 where s1: "type_char b s (code c) = Continue s1" "button s1 = -1" "holds b s1 t1"
    "(t1, scroll s1) = ed_type (box_width b) c (t, scroll s)"
    using type_char_ok [OF Cons.prems(1) assms(1) k(1)] Cons.prems(2) k(4) by auto
  have "t1 = t @ [c] \<and> scroll s1 = window (box_width b) (t @ [c])"
    using s1(4) Cons.prems(3,4) assms(1) by (auto simp: ed_type_def window_def fits_def split: if_splits)
  then show ?case using Cons.IH [of s1 "t @ [c]"] s1 st Cons.prems(4,5) by simp
qed simp

text \<open>The number of characters left after \<open>n\<close> backspaces: every \<open>bw\<close>-th of them is lost.\<close>

definition kept :: "int \<Rightarrow> string \<Rightarrow> nat \<Rightarrow> nat" where
  "kept bw t n = length t - (n - n div nat bw)"

lemma back_run:
  assumes "fits b" "2 \<le> box_width b"
  shows "holds b s (take (k - (q * (nat (box_width b) - 1) + r)) t) \<Longrightarrow> k = length t \<Longrightarrow> r < nat (box_width b) \<Longrightarrow> button s = -1 \<Longrightarrow>
    scroll s = max 0 (int k - (int q + 1) * (box_width b - 1)) \<Longrightarrow>
    \<exists>s'. run_machine (ib_step b) s (replicate m KEY_BACKSPACE) = Continue s' \<and> button s' = -1 \<and>
      text_of (instr s') = take (kept (box_width b) t (q * nat (box_width b) + r + m)) t"
proof (induction m arbitrary: s q r)
  case 0
  define B where "B = nat (box_width b)"
  have "q * B + r - (q * B + r) div B = q * (B - 1) + r"
    using 0(3) by (simp add: B_def [symmetric] algebra_simps)
  then show ?case using 0 holds_text [OF 0(1)] by (simp add: kept_def B_def)
next
  case (Suc m)
  define B where "B = nat (box_width b)"
  have B: "box_width b = int B" "2 \<le> B" using assms(2) by (simp_all add: B_def)
  define u where "u = take (k - (q * (B - 1) + r)) t"
  have h: "holds b s u" using Suc.prems(1) by (simp add: u_def B_def)
  obtain s1 t1 where s1: "backspace b s = Continue s1" "button s1 = -1" "holds b s1 t1"
    "(t1, scroll s1) = ed_back (box_width b) (u, scroll s)"
    using backspace_ok [OF h assms(1)] Suc.prems(4) by metis
  have st: "ib_step b s KEY_BACKSPACE = Continue s1"
    using s1(1) Suc.prems(4) by (simp add: ib_step_def key_defs)
  have lu: "length u = k - (q * (B - 1) + r)" using Suc.prems(2) by (simp add: u_def)
  have sc: "scroll s = max 0 (int k - (int q + 1) * (int B - 1))" using Suc.prems(5) by (simp add: B)
  have mul: "int (q * (B - 1)) = int q * (int B - 1)" using B(2) by (simp add: of_nat_diff)
  define z where "z = q * (B - 1)"
  have "int z = int q * (int B - 1)" using mul by (simp add: z_def)
  then have "(int q + 1) * (int B - 1) = int z + (int B - 1)" by (simp only: distrib_right mult_1_left)
  then have sc': "scroll s = max 0 (int k - int z - (int B - 1))" using sc by simp
  have lz: "length u = k - (z + r)" using lu by (simp only: z_def)
  have uz: "u = take (k - (z + r)) t" by (simp only: u_def z_def)
  show ?case
  proof (cases "r < B - 1")
    case True
    have "t1 = take (k - (z + Suc r)) t \<and> scroll s1 = scroll s"
    proof (cases "z + r < k")
      case lt: True
      then have "int (length u) \<noteq> scroll s" using lz sc' \<open>r < B - 1\<close> by linarith
      moreover have "butlast u = take (k - (z + Suc r)) t"
        using Suc.prems(2) lt by (simp add: uz butlast_take)
      ultimately show ?thesis using s1(4) by (simp add: ed_back_def)
    next
      case ge: False
      then have "scroll s = 0" using sc' \<open>r < B - 1\<close> by linarith
      moreover have "u = []" using ge lz by simp
      ultimately have "scroll s = 0" "u = []" by simp_all
      then show ?thesis using s1(4) ge B by (simp add: ed_back_def)
    qed
    then show ?thesis
      using Suc.IH [of s1 q "Suc r"] s1(2,3) st Suc.prems True B by (simp add: z_def B_def [symmetric] sc)
  next
    case False
    then have r: "r = B - 1" using Suc.prems(3) by (simp add: B_def [symmetric])
    have k0: "k - (z + r) = k - (Suc q * (B - 1) + 0)" by (simp add: z_def r)
    have "int (length u) = scroll s" using lz sc' r B(2) by (simp add: of_nat_diff max_def)
    then have e: "t1 = u" "scroll s1 = max 0 (scroll s - (int B - 1))" using s1(4) by (simp_all add: ed_back_def B)
    have "scroll s1 = max 0 (int k - (int (Suc q) + 1) * (int B - 1))"
    proof -
      have "int z = int q * (int B - 1)" using mul by (simp add: z_def)
      then have "(int (Suc q) + 1) * (int B - 1) = int z + (int B - 1) + (int B - 1)"
        by (simp only: of_nat_Suc) (simp only: distrib_right mult_1_left add.assoc add.commute add.left_commute)
      then show ?thesis using e(2) sc' B(2) by linarith
    qed
    moreover have "holds b s1 (take (k - (Suc q * (B - 1) + 0)) t)"
      using s1(3) e(1) k0 by (simp add: u_def z_def)
    ultimately have "\<exists>s'. run_machine (ib_step b) s1 (replicate m KEY_BACKSPACE) = Continue s' \<and> button s' = -1 \<and>
      text_of (instr s') = take (kept (box_width b) t (Suc q * nat (box_width b) + 0 + m)) t"
      using s1(2) Suc.prems(2) B by (intro Suc.IH) (simp_all add: B_def [symmetric])
    moreover have "Suc q * nat (box_width b) + 0 + m = q * nat (box_width b) + r + Suc m"
      using r B(2) by (simp add: B_def [symmetric])
    ultimately show ?thesis using st by (simp only: replicate_Suc run_machine.simps outcome.case)
  qed
qed

lemma input_prints:
  assumes "length prompt \<le> MAX_LEN" "8 \<le> w" "w \<le> int MAX_LEN + 7"
    and "list_all (\<lambda>c. key_isprint (code c)) cs" "length (start_text init @ cs) \<le> MAX_LEN"
    and "NUL \<notin> set (start_text init)" "t = start_text init @ cs"
  shows "(\<exists>s. dialog_inputbox term title prompt h w init scr
        (map code cs @ replicate n KEY_BACKSPACE @ [NEWLINE]) = Finish (0, take (kept (w - 6) t n) t, s)) \<and>
    (\<exists>s. dialog_inputbox term title prompt h w init scr (map code cs @ [TAB, NEWLINE]) = Finish (1, t, s))"
proof -
  obtain b scr1 where f: "ib_frame term title prompt h w scr = Some (b, scr1)" "box_width b = w - 6"
    using ib_frame_ok [OF assms(1)] .
  have b: "fits b" "2 \<le> box_width b" using fits_width [of w b] f assms(2,3) by simp_all
  obtain s where s: "ib_open b init dialog_input_result scr1 = Some s" "holds b s (start_text init)" "button s = -1"
    "scroll s = window (box_width b) (start_text init)"
    using ib_open_ok [OF b(1) _ assms(6)] assms(5) by (metis length_append le_add1 le_trans)
  obtain s1 where s1: "run_machine (ib_step b) s (map code cs) = Continue s1" "button s1 = -1" "holds b s1 t"
    "scroll s1 = window (box_width b) t"
    using assms(5,7) type_run [OF b(1) assms(4) s(2,3,4)] by metis
  have z: "0 < nat (box_width b)" using b(2) by simp
  obtain s2 where s2: "run_machine (ib_step b) s1 (replicate n KEY_BACKSPACE) = Continue s2" "button s2 = -1"
    "text_of (instr s2) = take (kept (box_width b) t n) t"
    using back_run [OF b, of s1 "length t" 0 0 t n] s1 z by (auto simp: window_def)
  have nl: "ib_step b s2 NEWLINE = Finish (0, text_of (instr s2), drawn s2 @ [Delwin])"
    using s2(2) by (simp add: ib_step_def button_key_def is_key_def code_def key_isprint_def key_defs)
  have tb: "ib_step b s1 TAB = Continue (set_button b s1 1 0)"
    using s1(2) by (simp add: ib_step_def button_key_def is_key_def code_def key_isprint_def key_defs)
  have nl1: "ib_step b (set_button b s1 1 0) NEWLINE = Finish (1, t, drawn (set_button b s1 1 0) @ [Delwin])"
    using holds_text [OF s1(3)]
    by (simp add: set_button_def ib_step_def button_key_def is_key_def code_def key_isprint_def key_defs)
  show ?thesis
    using f s(1) s1(1) s2(1,3) nl tb nl1 by (simp add: dialog_inputbox_def run_machine_append)
qed

text \<open>
  C15: return gives back the initial text with the characters typed after it; when \<open>n\<close>
  backspaces come before it, all but every \<open>(w - 6)\<close>-th of them delete a character.  Tab and
  return give 1 instead, although the box has one button only.
\<close>

theorem input_edits:
  assumes "length prompt \<le> MAX_LEN" "8 \<le> w" "w \<le> int MAX_LEN + 7"
    and "list_all (\<lambda>c. key_isprint (code c)) cs" "length (start_text init @ cs) \<le> MAX_LEN"
    and "NUL \<notin> set (start_text init)" "t = start_text init @ cs"
  shows "(\<exists>s. dialog_inputbox term title prompt h w init scr
        (map code cs @ replicate n KEY_BACKSPACE @ [NEWLINE]) = Finish (0, take (kept (w - 6) t n) t, s)) \<and>
    (\<exists>s. dialog_inputbox term title prompt h w init scr (map code cs @ [TAB, NEWLINE]) = Finish (1, t, s))"
  using assms by (rule input_prints)

theorem input_edits_witness:
  "\<exists>s. dialog_inputbox term80 None ''Name'' 8 10 (Some ''abc'') []
    (map code ''def'' @ replicate 4 KEY_BACKSPACE @ [NEWLINE]) = Finish (0, ''abc'', s)"
proof -
  have k: "take (kept (10 - 6) ''abcdef'' 4) ''abcdef'' = ''abc''" by (simp add: kept_def)
  have p: "list_all (\<lambda>c. key_isprint (code c)) ''def''" by (simp add: code_def key_isprint_def)
  have "length ''Name'' \<le> MAX_LEN" "(10::int) \<le> int MAX_LEN + 7"
    "length (start_text (Some ''abc'') @ ''def'') \<le> MAX_LEN" "NUL \<notin> set (start_text (Some ''abc''))"
    "''abcdef'' = start_text (Some ''abc'') @ ''def''"
    by (simp_all add: MAX_LEN_def start_text_def NUL_def)
  note a = input_edits [OF this(1) _ this(2) p this(3-5), of term80 None 8 "[]" 4]
  show ?thesis using conjunct1 [OF a] unfolding k by simp
qed

end
