(* ===== verification/Textbox.thy ===== *)
theory Textbox
  imports DialogUtil
begin

text \<open>
  \<^verbatim>\<open>misc/confdialog/textbox.c\<close>: the file viewer, with its buffer of \<open>BUF_SIZE\<close> bytes.

  The file is a regular file that does not change, shorter than 2 GB; a read returns what is
  there, up to the size asked for.  \<open>tb\<close> holds the static variables of the C file: \<open>buf\<close> is the
  valid part of the buffer (its length is \<^verbatim>\<open>bytes_read\<close>, a NUL follows it), \<open>page\<close> an index into it
  and \<open>fpos\<close> the offset of the file descriptor.  \<open>Bad\<close> is an access outside the valid part,
  \<open>Died\<close> the end of the program with a message.
\<close>

definition BUF_SIZE :: nat where "BUF_SIZE = 10 * 1024"

record tb =
  buf :: string
  fpos :: nat
  page :: nat
  begin_reached :: bool
  end_reached :: bool
  page_length :: nat
  hscroll :: int
  drawn :: screen

datatype 'a res = Ok 'a | Died string | Bad

definition NL :: char where "NL = CHR ''\<newline>''"
definition NUL :: char where "NUL = CHR 0x00"

definition read_at :: "string \<Rightarrow> nat \<Rightarrow> string" where
  "read_at content pos = take BUF_SIZE (drop pos content)"

definition peek :: "tb \<Rightarrow> char option" where
  "peek s = (if page s < length (buf s) then Some (buf s ! page s)
             else if page s = length (buf s) then Some NUL else None)"

section \<open>Reading a line\<close>

text \<open>Read the next part of the file.\<close>

definition refill :: "string \<Rightarrow> tb \<Rightarrow> tb" where
  "refill content s =
     (let b = read_at content (fpos s)
      in s\<lparr>buf := b, fpos := fpos s + length b, page := 0\<rparr>)"

lemma read_at_less: "pos < length content \<Longrightarrow> 0 < length (read_at content pos)"
  by (simp add: read_at_def BUF_SIZE_def)

function get_loop :: "string \<Rightarrow> tb \<Rightarrow> string \<Rightarrow> (tb \<times> string) res" where
  "get_loop content s ln =
     (case peek s of
        None \<Rightarrow> Bad
      | Some c \<Rightarrow>
          (if c = NL then Ok (s, ln)
           else if c = NUL then
             (if fpos s < length content then get_loop content (refill content s) ln
              else Ok (s\<lparr>end_reached := True\<rparr>, ln))
           else get_loop content (s\<lparr>page := page s + 1\<rparr>) (if length ln < MAX_LEN then ln @ [c] else ln)))"
  by pat_completeness auto

termination
proof (relation "measure (\<lambda>(content, s, ln). 2 * (length content - fpos s) + (length (buf s) - page s))", goal_cases)
  case 1
  then show ?case by simp
next
  case (2 content s ln c)
  then show ?case
    using read_at_less [of "fpos s" content]
    by (auto simp: refill_def Let_def read_at_def)
next
  case (3 content s ln c)
  then show ?case by (auto simp: peek_def split: if_splits)
qed

declare get_loop.simps [simp del]

definition get_line :: "string \<Rightarrow> tb \<Rightarrow> (tb \<times> string) res" where
  "get_line content s =
     (case get_loop content (s\<lparr>end_reached := False\<rparr>) [] of
        Ok (s1, ln) \<Rightarrow> Ok (if end_reached s1 then s1 else s1\<lparr>page := page s1 + 1\<rparr>, ln)
      | Died m \<Rightarrow> Died m
      | Bad \<Rightarrow> Bad)"

section \<open>Going back\<close>

text \<open>
  At the start of the buffer read the previous part of the file; no result if this is the start
  of the file.
\<close>

definition back_fill :: "string \<Rightarrow> tb \<Rightarrow> tb option" where
  "back_fill content s =
     (if fpos s > length (buf s) then
        (let pos = (if fpos s < BUF_SIZE div 2 + length (buf s) then 0
                    else fpos s - (BUF_SIZE div 2 + length (buf s)));
             pg = (if fpos s < BUF_SIZE div 2 + length (buf s) then fpos s - length (buf s)
                   else BUF_SIZE div 2);
             b = read_at content pos
         in Some (s\<lparr>buf := b, fpos := pos + length b, page := pg\<rparr>))
      else None)"

text \<open>
  \<open>back_char\<close>: the test for the start of the buffer and \<^verbatim>\<open>--page\<close>.  \<open>back_line\<close>: back to a
  newline; with \<open>True\<close> the start of the file was reached.
\<close>

definition back_char :: "string \<Rightarrow> tb \<Rightarrow> tb option" where
  "back_char content s =
     (if page s = 0 then map_option (\<lambda>s1. s1\<lparr>page := page s1 - 1\<rparr>) (back_fill content s)
      else Some (s\<lparr>page := page s - 1\<rparr>))"

lemma back_char_decreases:
  "back_char content s = Some s1 \<Longrightarrow>
   (fpos s1 - length (buf s1), page s1) = (fpos s - length (buf s), page s - 1) \<and> 0 < page s \<or>
   fpos s1 - length (buf s1) < fpos s - length (buf s)"
  by (auto simp: back_char_def back_fill_def Let_def BUF_SIZE_def split: if_splits)

function back_line :: "string \<Rightarrow> tb \<Rightarrow> (tb \<times> bool) res" where
  "back_line content s =
     (case back_char content s of
        None \<Rightarrow> Ok (s\<lparr>begin_reached := True\<rparr>, True)
      | Some s1 \<Rightarrow>
          (case peek s1 of
             None \<Rightarrow> Bad
           | Some c \<Rightarrow> if c = NL then Ok (s1, False) else back_line content s1))"
  by pat_completeness auto

termination
proof (relation "measures [\<lambda>(content, s). fpos s - length (buf s), \<lambda>(content, s). page s]", goal_cases)
  case 1
  then show ?case by simp
next
  case (2 content s s1 c)
  then show ?case using back_char_decreases [OF 2(1)] by auto
qed

declare back_line.simps [simp del]

text \<open>\<open>back_loop\<close>: the outer loop with the \<^verbatim>\<open>page++\<close> behind it.\<close>

fun back_loop :: "string \<Rightarrow> nat \<Rightarrow> tb \<Rightarrow> tb res" where
  "back_loop content 0 s = Ok (s\<lparr>page := page s + 1\<rparr>)"
| "back_loop content (Suc n) s =
     (case back_line content s of
        Ok (s1, at_start) \<Rightarrow> if at_start then Ok s1 else back_loop content n s1
      | Died m \<Rightarrow> Died m
      | Bad \<Rightarrow> Bad)"

definition back_lines :: "string \<Rightarrow> nat \<Rightarrow> tb \<Rightarrow> tb res" where
  "back_lines content n s0 =
     (let s = s0\<lparr>begin_reached := False\<rparr> in
      if end_reached s then back_loop content n s
      else
        (case back_char content s of
           None \<Rightarrow> Ok (s\<lparr>begin_reached := True\<rparr>)
         | Some s1 \<Rightarrow>
             (case peek s1 of
                None \<Rightarrow> Bad
              | Some c \<Rightarrow>
                  if c = NL then back_loop content n s1
                  else Died ''Internal error in back_lines().'')))"

section \<open>Printing\<close>

text \<open>\<open>w\<close> is the width of the text window; \<^verbatim>\<open>strlen\<close> has an unsigned type.\<close>

definition shown_part :: "int \<Rightarrow> int \<Rightarrow> string \<Rightarrow> string" where
  "shown_part w hs ln =
     (let ln1 = drop (min (length ln) (nat (hs mod 2 ^ 64))) ln
      in take (nat (min (int (length ln1)) ((w - 2) mod 2 ^ 64))) ln1)"

definition print_line :: "string \<Rightarrow> int \<Rightarrow> int \<Rightarrow> tb \<Rightarrow> tb res" where
  "print_line content row w s =
     (case get_line content s of
        Ok (s1, ln) \<Rightarrow>
          Ok (s1\<lparr>drawn := drawn s1 @
            [Wmove Sub row 0, putch Sub (Chr CHR '' ''), Waddstr Sub (shown_part w (hscroll s1) ln),
             Wclrtoeol Sub]\<rparr>)
      | Died m \<Rightarrow> Died m
      | Bad \<Rightarrow> Bad)"

text \<open>The bookkeeping of \<^verbatim>\<open>page_length\<close> and \<^verbatim>\<open>passed_end\<close> after a line.\<close>

definition count_line :: "bool \<Rightarrow> tb \<Rightarrow> tb \<times> bool" where
  "count_line passed s =
     ((if passed then s else s\<lparr>page_length := page_length s + 1\<rparr>), passed \<or> end_reached s)"

fun page_loop :: "string \<Rightarrow> int \<Rightarrow> int list \<Rightarrow> bool \<Rightarrow> tb \<Rightarrow> tb res" where
  "page_loop content w [] passed s = Ok s"
| "page_loop content w (i # is) passed s =
     (case print_line content i w s of
        Ok s1 \<Rightarrow> (let (s2, passed2) = count_line passed s1 in page_loop content w is passed2 s2)
      | Died m \<Rightarrow> Died m
      | Bad \<Rightarrow> Bad)"

definition print_page :: "string \<Rightarrow> int \<Rightarrow> int \<Rightarrow> tb \<Rightarrow> tb res" where
  "print_page content h w s =
     (case page_loop content w (counter h) False (s\<lparr>page_length := 0\<rparr>) of
        Ok s1 \<Rightarrow> Ok (s1\<lparr>drawn := drawn s1 @ [Wnoutrefresh Sub]\<rparr>)
      | Died m \<Rightarrow> Died m
      | Bad \<Rightarrow> Bad)"

text \<open>The loop of the key up: the first line is printed, the others only read.\<close>

fun up_loop :: "string \<Rightarrow> int \<Rightarrow> int list \<Rightarrow> bool \<Rightarrow> tb \<Rightarrow> tb res" where
  "up_loop content w [] passed s = Ok s"
| "up_loop content w (i # is) passed s =
     (case (if i = 0 then
              (case print_line content 0 w s of
                 Ok s1 \<Rightarrow> Ok (s1\<lparr>drawn := drawn s1 @ [Wnoutrefresh Sub]\<rparr>)
               | Died m \<Rightarrow> Died m
               | Bad \<Rightarrow> Bad)
            else
              (case get_line content s of
                 Ok (s1, ln) \<Rightarrow> Ok s1
               | Died m \<Rightarrow> Died m
               | Bad \<Rightarrow> Bad)) of
        Ok s1 \<Rightarrow> (let (s2, passed2) = count_line passed s1 in up_loop content w is passed2 s2)
      | Died m \<Rightarrow> Died m
      | Bad \<Rightarrow> Bad)"

definition pad3 :: "int \<Rightarrow> string" where
  "pad3 n = (let s = show_int n in replicate (3 - length s) CHR '' '' @ s)"

definition percent :: "string \<Rightarrow> tb \<Rightarrow> int" where
  "percent content s =
     (if content = [] then 100
      else ((int (fpos s) - int (length (buf s)) + int (page s)) * 100) sdiv int (length content))"

definition print_position :: "string \<Rightarrow> int \<Rightarrow> int \<Rightarrow> tb \<Rightarrow> tb" where
  "print_position content h w s =
     s\<lparr>drawn := drawn s @
       [Wattrset Dialog position_indicator_attr, Wbkgdset Dialog position_indicator_attr,
        Wmove Dialog (h - 3) (w - 9), Waddstr Dialog (''('' @ pad3 (percent content s) @ ''%)'')]\<rparr>"

section \<open>The box\<close>

record tb_box =
  content :: string
  height :: int
  width :: int
  saved_cursor :: "int \<times> int"

text \<open>Restore the cursor and refresh.\<close>

definition settle :: "tb_box \<Rightarrow> tb \<Rightarrow> tb" where
  "settle b s =
     s\<lparr>drawn := drawn s @
       [Wmove Dialog (fst (saved_cursor b)) (snd (saved_cursor b)), Wrefresh Dialog]\<rparr>"

definition position_and_settle :: "tb_box \<Rightarrow> tb \<Rightarrow> tb" where
  "position_and_settle b s = settle b (print_position (content b) (height b) (width b) s)"

fun map_res :: "('a \<Rightarrow> 'b) \<Rightarrow> 'a res \<Rightarrow> 'b res" where
  "map_res f (Ok x) = Ok (f x)"
| "map_res f (Died m) = Died m"
| "map_res f Bad = Bad"

fun bind_res :: "'a res \<Rightarrow> ('a \<Rightarrow> 'b res) \<Rightarrow> 'b res" where
  "bind_res (Ok x) f = f x"
| "bind_res (Died m) f = Died m"
| "bind_res Bad f = Bad"

definition show_page :: "tb_box \<Rightarrow> tb \<Rightarrow> tb res" where
  "show_page b s = print_page (content b) (height b - 4) (width b - 2) s"

text \<open>
  \<open>at_home\<close>: the buffer holds the start of the file again.  \<open>at_end\<close>: it holds the end; moving
  the file position before the start of a file fails.
\<close>

definition at_home :: "string \<Rightarrow> tb \<Rightarrow> tb" where
  "at_home ct s =
     (let s1 = (if fpos s > length (buf s)
                then (let d = read_at ct 0 in s\<lparr>buf := d, fpos := length d\<rparr>) else s)
      in s1\<lparr>page := 0\<rparr>)"

definition at_end :: "string \<Rightarrow> tb \<Rightarrow> tb res" where
  "at_end ct s =
     map_res (\<lambda>s1. s1\<lparr>page := length (buf s1)\<rparr>)
       (if fpos s < length ct then
          (if length ct < BUF_SIZE then Died ''Error moving file pointer in dialog_textbox().''
           else (let pos = length ct - BUF_SIZE; d = read_at ct pos
                 in Ok (s\<lparr>buf := d, fpos := pos + length d\<rparr>)))
        else Ok s)"

definition scroll_text :: "int \<Rightarrow> tb \<Rightarrow> tb" where
  "scroll_text n s = s\<lparr>drawn := drawn s @ [Scrollok Sub True, Wscrl Sub n, Scrollok Sub False]\<rparr>"

definition first_page :: "tb_box \<Rightarrow> tb \<Rightarrow> tb res" where
  "first_page b s =
     (if begin_reached s then Ok s
      else map_res (position_and_settle b) (show_page b (at_home (content b) (s\<lparr>begin_reached := True\<rparr>))))"

definition last_page :: "tb_box \<Rightarrow> tb \<Rightarrow> tb res" where
  "last_page b s =
     bind_res (at_end (content b) (s\<lparr>end_reached := True\<rparr>)) (\<lambda>s1.
     bind_res (back_lines (content b) (nat (height b - 4)) s1) (\<lambda>s2.
     map_res (position_and_settle b) (show_page b s2)))"

definition previous_line :: "tb_box \<Rightarrow> tb \<Rightarrow> tb res" where
  "previous_line b s =
     (if begin_reached s then Ok s
      else
        bind_res (back_lines (content b) (page_length s + 1) s) (\<lambda>s1.
        map_res (position_and_settle b)
          (up_loop (content b) (width b - 2) (counter (height b - 4)) False
            (scroll_text (-1) s1\<lparr>page_length := 0\<rparr>))))"

definition previous_page :: "tb_box \<Rightarrow> tb \<Rightarrow> tb res" where
  "previous_page b s =
     (if begin_reached s then Ok s
      else
        bind_res (back_lines (content b) (nat (int (page_length s) + height b - 4)) s) (\<lambda>s1.
        map_res (position_and_settle b) (show_page b s1)))"

definition next_line :: "tb_box \<Rightarrow> tb \<Rightarrow> tb res" where
  "next_line b s =
     (if end_reached s then Ok s
      else
        bind_res (print_line (content b) (height b - 5) (width b - 2) (scroll_text 1 (s\<lparr>begin_reached := False\<rparr>)))
          (\<lambda>s1. Ok (position_and_settle b (s1\<lparr>drawn := drawn s1 @ [Wnoutrefresh Sub]\<rparr>))))"

definition next_page :: "tb_box \<Rightarrow> tb \<Rightarrow> tb res" where
  "next_page b s =
     (if end_reached s then Ok s
      else map_res (position_and_settle b) (show_page b (s\<lparr>begin_reached := False\<rparr>)))"

definition reprint :: "tb_box \<Rightarrow> tb \<Rightarrow> tb res" where
  "reprint b s =
     bind_res (back_lines (content b) (page_length s) s) (\<lambda>s1. map_res (settle b) (show_page b s1))"

definition left :: "tb_box \<Rightarrow> bool \<Rightarrow> tb \<Rightarrow> tb res" where
  "left b to_start s =
     (if hscroll s \<le> 0 then Ok s
      else reprint b (s\<lparr>hscroll := if to_start then 0 else hscroll s - 1\<rparr>))"

definition right :: "tb_box \<Rightarrow> tb \<Rightarrow> tb res" where
  "right b s = (if hscroll s \<ge> int MAX_LEN then Ok s else reprint b (s\<lparr>hscroll := hscroll s + 1\<rparr>))"

definition one_of :: "int \<Rightarrow> string \<Rightarrow> bool" where
  "one_of key cs \<longleftrightarrow> list_ex (is_key key) cs"

datatype tb_result = Returned int screen | Exited string

fun continue_with :: "tb res \<Rightarrow> (tb, tb_result) outcome" where
  "continue_with (Ok s) = Continue s"
| "continue_with (Died m) = Finish (Exited m)"
| "continue_with Bad = Fault"

definition tb_step :: "tb_box \<Rightarrow> tb \<Rightarrow> int \<Rightarrow> (tb, tb_result) outcome" where
  "tb_step b s key =
     (if one_of key ''EeXx'' then Finish (Returned 0 (drawn s @ [Delwin]))
      else if one_of key ''g'' \<or> key = KEY_HOME then continue_with (first_page b s)
      else if one_of key ''G'' \<or> key = KEY_END then continue_with (last_page b s)
      else if one_of key ''Kk'' \<or> key = KEY_UP then continue_with (previous_line b s)
      else if one_of key ''Bb'' \<or> key = KEY_PPAGE then continue_with (previous_page b s)
      else if one_of key ''Jj'' \<or> key = KEY_DOWN then continue_with (next_line b s)
      else if key = KEY_NPAGE \<or> key = SPACE then continue_with (next_page b s)
      else if one_of key ''0Hh'' \<or> key = KEY_LEFT then continue_with (left b (is_key key CHR ''0'') s)
      else if one_of key ''Ll'' \<or> key = KEY_RIGHT then continue_with (right b s)
      else if key = ESC \<or> key = NEWLINE then Finish (Returned (-1) (drawn s @ [Delwin]))
      else Continue s)"

text \<open>\<open>tb_frame\<close>: the drawing calls up to the place where the cursor is saved.\<close>

definition tb_frame :: "terminal \<Rightarrow> string option \<Rightarrow> int \<Rightarrow> int \<Rightarrow> screen \<Rightarrow> screen" where
  "tb_frame term title h w scr =
     (let x = (COLS term - w) sdiv 2;
          y = (LINES term - h) sdiv 2
      in scr @ draw_shadow (colored term) y x h w @
         [Newwin h w y x, Keypad Dialog, Subwin (h - 4) (w - 2) (y + 1) (x + 1),
          Wattrset Sub dialog_attr, Wbkgdset Sub dialog_attr, Keypad Sub] @
         draw_box 0 0 h w dialog_attr border_attr @ separator h w [Wbkgdset Dialog dialog_attr] @
         print_title (truncate_title title w) w @
         print_button '' Exit '' (h - 2) (w sdiv 2 - 4) True @ [Wnoutrefresh Dialog])"

definition start_state :: "string \<Rightarrow> screen \<Rightarrow> tb" where
  "start_state ct scr =
     (let d = read_at ct 0 in
      \<lparr>buf = d, fpos = length d, page = 0, begin_reached = True, end_reached = False,
       page_length = 0, hscroll = 0, drawn = scr\<rparr>)"

definition tb_open :: "tb_box \<Rightarrow> screen \<Rightarrow> tb res" where
  "tb_open b scr =
     map_res (position_and_settle b)
       (show_page b (start_state (content b) (scr @ attr_clear Sub (height b - 4) (width b - 2) dialog_attr)))"

text \<open>\<open>file\<close> is the content of the file, if it can be opened.\<close>

definition dialog_textbox ::
  "terminal \<Rightarrow> string option \<Rightarrow> string option \<Rightarrow> int \<Rightarrow> int \<Rightarrow> screen \<Rightarrow> int list \<Rightarrow> (tb, tb_result) outcome" where
  "dialog_textbox term title file h w scr keys =
     (case file of
        None \<Rightarrow> Finish (Exited ''Can't open input file in dialog_textbox().'')
      | Some ct \<Rightarrow>
          (let s1 = tb_frame term title h w scr;
               b = \<lparr>content = ct, height = h, width = w, saved_cursor = cursor term s1\<rparr>
           in case tb_open b s1 of
                Ok s \<Rightarrow> run_machine (tb_step b) s keys
              | Died m \<Rightarrow> Finish (Exited m)
              | Bad \<Rightarrow> Fault))"

end
