(* ===== verification/Pager.thy ===== *)
theory Pager
  imports Textbox
begin

text \<open>
  The file viewer of \<open>Textbox\<close> as a window on the list of the lines of the file.

  First the buffer is removed: \<open>pos\<close> is the offset in the file of the character \<open>page\<close> points
  to, and every operation is described by what it does to it.  Then offsets are replaced by
  line numbers, and in the end the calls of curses by the rows they leave on the screen.
\<close>

section \<open>The buffer is a window on the file\<close>

definition tb_ok :: "string \<Rightarrow> tb \<Rightarrow> bool" where
  "tb_ok ct s \<longleftrightarrow>
     (\<exists>start \<le> length ct. buf s = read_at ct start \<and> fpos s = start + length (buf s)) \<and>
     page s \<le> length (buf s)"

definition pos :: "tb \<Rightarrow> nat" where
  "pos s = fpos s - length (buf s) + page s"

text \<open>What reading and going back never change.\<close>

definition same_view :: "tb \<Rightarrow> tb \<Rightarrow> bool" where
  "same_view s s' \<longleftrightarrow>
     page_length s' = page_length s \<and> hscroll s' = hscroll s \<and> drawn s' = drawn s"

lemma same_view_refl [simp]: "same_view s s"
  by (simp add: same_view_def)

lemma same_view_trans: "same_view s s1 \<Longrightarrow> same_view s1 s2 \<Longrightarrow> same_view s s2"
  by (simp add: same_view_def)

lemma length_read_at: "length (read_at ct start) = min BUF_SIZE (length ct - start)"
  by (simp add: read_at_def)

lemma pos_le: "tb_ok ct s \<Longrightarrow> pos s \<le> length ct"
  by (auto simp: tb_ok_def pos_def length_read_at)

lemma fpos_pos: "tb_ok ct s \<Longrightarrow> fpos s = pos s + (length (buf s) - page s)"
  by (auto simp: tb_ok_def pos_def)

lemma peek_pos:
  assumes "tb_ok ct s" "page s < length (buf s)"
  shows "peek s = Some (ct ! pos s)" "pos s < length ct"
proof -
  obtain start where "start \<le> length ct" "buf s = read_at ct start" "fpos s = start + length (buf s)"
    using assms(1) by (auto simp: tb_ok_def)
  then show "peek s = Some (ct ! pos s)" "pos s < length ct"
    using assms(2) by (auto simp: peek_def pos_def read_at_def)
qed

lemma peek_end: "page s = length (buf s) \<Longrightarrow> peek s = Some NUL"
  by (simp add: peek_def)

lemma tb_ok_next:
  "tb_ok ct s \<Longrightarrow> page s < length (buf s) \<Longrightarrow> tb_ok ct (s\<lparr>page := page s + 1\<rparr>) \<and> pos (s\<lparr>page := page s + 1\<rparr>) = pos s + 1"
  by (auto simp: tb_ok_def pos_def)

lemma tb_ok_refill:
  assumes "tb_ok ct s" "page s = length (buf s)"
  shows "tb_ok ct (refill ct s)" "pos (refill ct s) = pos s" "same_view s (refill ct s)"
    "end_reached (refill ct s) = end_reached s" "begin_reached (refill ct s) = begin_reached s"
proof -
  have "fpos s \<le> length ct" using pos_le [OF assms(1)] fpos_pos [OF assms(1)] assms(2) by simp
  then show "tb_ok ct (refill ct s)" by (auto simp: tb_ok_def refill_def Let_def)
  show "pos (refill ct s) = pos s"
    using fpos_pos [OF assms(1)] assms(2) by (simp add: pos_def refill_def Let_def)
qed (simp_all add: refill_def Let_def same_view_def)

section \<open>Reading a line\<close>

lemma get_loop_spec:
  assumes "NUL \<notin> set ct"
  shows "tb_ok ct s \<Longrightarrow> length ln \<le> MAX_LEN \<Longrightarrow>
    \<exists>s'. get_loop ct s ln = Ok (s', take MAX_LEN (ln @ takeWhile (\<lambda>c. c \<noteq> NL) (drop (pos s) ct))) \<and>
      tb_ok ct s' \<and> pos s' = pos s + length (takeWhile (\<lambda>c. c \<noteq> NL) (drop (pos s) ct)) \<and>
      same_view s s' \<and> begin_reached s' = begin_reached s \<and>
      (if NL \<in> set (drop (pos s) ct) then end_reached s' = end_reached s \<and> page s' < length (buf s')
       else end_reached s')"
  using assms
proof (induction ct s ln rule: get_loop.induct)
  case (1 ct s ln)
  note IH = "1.IH" and ok = "1.prems"(1) and len = "1.prems"(2) and nul = "1.prems"(3)
  have nn: "NL \<noteq> NUL" by (simp add: NL_def NUL_def)
  show ?case
  proof (cases "page s < length (buf s)")
    case True
    note p = peek_pos [OF ok True]
    have d: "drop (pos s) ct = ct ! pos s # drop (Suc (pos s)) ct" using p(2) by (simp add: Cons_nth_drop_Suc)
    have nz: "ct ! pos s \<noteq> NUL" using nul p(2) by (metis nth_mem)
    show ?thesis
    proof (cases "ct ! pos s = NL")
      case nl: True
      then show ?thesis using p ok len True by (subst get_loop.simps) (auto simp: d)
    next
      case False
      let ?s = "s\<lparr>page := page s + 1\<rparr>"
      let ?ln = "if length ln < MAX_LEN then ln @ [ct ! pos s] else ln"
      have u: "get_loop ct s ln = get_loop ct ?s ?ln"
        using p nz False by (subst get_loop.simps) simp
      note n = tb_ok_next [OF ok True]
      have l: "length ?ln \<le> MAX_LEN" using len by auto
      have sv: "same_view s ?s" "end_reached ?s = end_reached s" "begin_reached ?s = begin_reached s"
        by (simp_all add: same_view_def)
      have t: "take MAX_LEN (?ln @ x) = take MAX_LEN (ln @ ct ! pos s # x)" for x
        using len by (auto simp: take_Cons' less_imp_diff_less)
      show ?thesis
        using IH(2) [OF p(1) False nz _ l nul] n nn False
        unfolding u d t by (auto simp: same_view_def)
    qed
  next
    case False
    then have e: "page s = length (buf s)" using ok by (simp add: tb_ok_def)
    have f: "fpos s = pos s" using fpos_pos [OF ok] e by simp
    show ?thesis
    proof (cases "fpos s < length ct")
      case True
      have u: "get_loop ct s ln = get_loop ct (refill ct s) ln"
        using peek_end [OF e] nn True by (subst get_loop.simps) simp
      note r = tb_ok_refill [OF ok e]
      show ?thesis
        using IH(1) [OF peek_end [OF e] nn [symmetric] refl True r(1) len nul] r same_view_trans
        unfolding u by (auto simp: same_view_def)
    next
      case False
      then have d: "drop (pos s) ct = []" using f by simp
      have o: "tb_ok ct (s\<lparr>end_reached := True\<rparr>)" "pos (s\<lparr>end_reached := True\<rparr>) = pos s"
        using ok by (simp_all add: tb_ok_def pos_def)
      show ?thesis
        using peek_end [OF e] nn False d o len by (subst get_loop.simps) (auto simp: same_view_def)
    qed
  qed
qed

lemma tb_ok_update [simp]:
  "tb_ok ct (s\<lparr>end_reached := e\<rparr>) = tb_ok ct s" "pos (s\<lparr>end_reached := e\<rparr>) = pos s"
  "tb_ok ct (s\<lparr>begin_reached := e\<rparr>) = tb_ok ct s" "pos (s\<lparr>begin_reached := e\<rparr>) = pos s"
  "tb_ok ct (s\<lparr>page_length := n\<rparr>) = tb_ok ct s" "pos (s\<lparr>page_length := n\<rparr>) = pos s"
  "tb_ok ct (s\<lparr>hscroll := k\<rparr>) = tb_ok ct s" "pos (s\<lparr>hscroll := k\<rparr>) = pos s"
  "tb_ok ct (s\<lparr>drawn := d\<rparr>) = tb_ok ct s" "pos (s\<lparr>drawn := d\<rparr>) = pos s"
  by (simp_all add: tb_ok_def pos_def)

lemma get_line_spec:
  assumes "NUL \<notin> set ct" "tb_ok ct s"
  defines "line \<equiv> takeWhile (\<lambda>c. c \<noteq> NL) (drop (pos s) ct)"
  shows "\<exists>s'. get_line ct s = Ok (s', take MAX_LEN line) \<and> tb_ok ct s' \<and> same_view s s' \<and>
    begin_reached s' = begin_reached s \<and> end_reached s' = (NL \<notin> set (drop (pos s) ct)) \<and>
    pos s' = pos s + length line + (if NL \<in> set (drop (pos s) ct) then 1 else 0)"
proof -
  obtain s1 where s1: "get_loop ct (s\<lparr>end_reached := False\<rparr>) [] = Ok (s1, take MAX_LEN line)" "tb_ok ct s1"
    "pos s1 = pos s + length line" "same_view s s1" "begin_reached s1 = begin_reached s"
    "if NL \<in> set (drop (pos s) ct) then \<not> end_reached s1 \<and> page s1 < length (buf s1) else end_reached s1"
    using get_loop_spec [OF assms(1), of "s\<lparr>end_reached := False\<rparr>" "[]"] assms(2)
    by (auto simp: line_def same_view_def)
  show ?thesis
  proof (cases "NL \<in> set (drop (pos s) ct)")
    case True
    then have p: "page s1 < length (buf s1)" "\<not> end_reached s1" using s1(6) by simp_all
    show ?thesis
      using s1 p True tb_ok_next [OF s1(2) p(1)] by (auto simp: get_line_def same_view_def)
  next
    case False
    then show ?thesis using s1 by (auto simp: get_line_def)
  qed
qed

section \<open>Going back\<close>

lemma back_char_none:
  assumes "tb_ok ct s" "pos s = 0"
  shows "back_char ct s = None"
  using assms by (auto simp: tb_ok_def pos_def back_char_def back_fill_def)

lemma back_char_some:
  assumes "tb_ok ct s" "0 < pos s"
  obtains s' where "back_char ct s = Some s'" "tb_ok ct s'" "pos s' = pos s - 1" "page s' < length (buf s')"
    "same_view s s'" "end_reached s' = end_reached s" "begin_reached s' = begin_reached s"
proof -
  obtain start where st: "start \<le> length ct" "buf s = read_at ct start" "fpos s = start + length (buf s)"
    "page s \<le> length (buf s)" using assms(1) by (auto simp: tb_ok_def)
  show thesis
  proof (cases "page s = 0")
    case False
    then show thesis
      using that [of "s\<lparr>page := page s - 1\<rparr>"] assms(1) by (auto simp: back_char_def tb_ok_def pos_def same_view_def)
  next
    case True
    then have pos: "pos s = start" "fpos s - length (buf s) = start" "0 < start" using st assms(2) by (simp_all add: pos_def)
    define near where "near = (fpos s < BUF_SIZE div 2 + length (buf s))"
    define p where "p = (if near then 0 else fpos s - (BUF_SIZE div 2 + length (buf s)))"
    define g where "g = (if near then start else BUF_SIZE div 2)"
    have near_start: "near \<longleftrightarrow> start < BUF_SIZE div 2" using st(3) by (auto simp: near_def)
    have b: "0 < BUF_SIZE div 2" "BUF_SIZE div 2 \<le> BUF_SIZE" by (simp_all add: BUF_SIZE_def)
    have pg: "p + g = start" "0 < g" "g \<le> BUF_SIZE" "p \<le> length ct" using st pos near_start b by (auto simp: p_def g_def)
    have gl: "g \<le> length (read_at ct p)" using pg st(1) by (simp add: length_read_at)
    define s' where "s' = s\<lparr>buf := read_at ct p, fpos := p + length (read_at ct p), page := g - 1\<rparr>"
    have "back_char ct s = Some s'"
      using True st(3) pos(2,3) by (simp add: back_char_def back_fill_def Let_def s'_def p_def g_def near_def)
    moreover have "tb_ok ct s'" using pg(4) gl by (auto simp: s'_def tb_ok_def)
    moreover have "pos s' = pos s - 1" using pg gl pos(1) by (simp add: s'_def pos_def)
    moreover have "page s' < length (buf s')" using pg gl by (simp add: s'_def)
    ultimately show thesis using that [of s'] by (simp add: s'_def same_view_def)
  qed
qed

text \<open>From offset \<open>length (a @ NL # b)\<close> back to \<open>length a\<close>, or to the start.\<close>

lemma back_line_spec:
  "tb_ok ct s \<Longrightarrow>
   (\<forall>a b. take (pos s) ct = a @ NL # b \<longrightarrow> NL \<notin> set b \<longrightarrow>
      (\<exists>s'. back_line ct s = Ok (s', False) \<and> tb_ok ct s' \<and> pos s' = length a \<and> page s' < length (buf s') \<and>
        same_view s s' \<and> end_reached s' = end_reached s \<and> begin_reached s' = begin_reached s)) \<and>
   (NL \<notin> set (take (pos s) ct) \<longrightarrow>
      (\<exists>s'. back_line ct s = Ok (s', True) \<and> tb_ok ct s' \<and> pos s' = 0 \<and>
        same_view s s' \<and> end_reached s' = end_reached s \<and> begin_reached s'))"
proof (induction ct s rule: back_line.induct)
  case (1 ct s)
  show ?case
  proof (cases "pos s = 0")
    case True
    then show ?thesis
      using back_char_none [OF "1.prems" True] "1.prems"
      by (subst back_line.simps) (auto simp: same_view_def back_line.simps)
  next
    case False
    then obtain s1 where s1: "back_char ct s = Some s1" "tb_ok ct s1" "pos s1 = pos s - 1" "page s1 < length (buf s1)"
      "same_view s s1" "end_reached s1 = end_reached s" "begin_reached s1 = begin_reached s"
      using back_char_some [OF "1.prems"] by auto
    have p: "peek s1 = Some (ct ! (pos s - 1))" "pos s - 1 < length ct" using peek_pos [OF s1(2,4)] s1(3) by simp_all
    have tk: "take (pos s) ct = take (pos s - 1) ct @ [ct ! (pos s - 1)]"
      using False p(2) take_Suc_conv_app_nth [OF p(2)] by simp
    show ?thesis
    proof (cases "ct ! (pos s - 1) = NL")
      case True
      have u: "back_line ct s = Ok (s1, False)" using s1(1) p(1) True by (subst back_line.simps) simp
      have "length a = pos s - 1" if "take (pos s) ct = a @ NL # b" "NL \<notin> set b" for a b
      proof (cases b rule: rev_cases)
        case Nil
        then have "a = take (pos s - 1) ct" using that(1) unfolding tk by simp
        then show ?thesis using p(2) by simp
      next
        case (snoc b' c)
        then have "c = NL" using that(1) True unfolding tk by (metis append.assoc append_Cons last_snoc)
        then show ?thesis using that(2) snoc by simp
      qed
      then have "\<exists>s'. back_line ct s = Ok (s', False) \<and> tb_ok ct s' \<and> pos s' = length a \<and> page s' < length (buf s') \<and>
          same_view s s' \<and> end_reached s' = end_reached s \<and> begin_reached s' = begin_reached s"
        if "take (pos s) ct = a @ NL # b" "NL \<notin> set b" for a b
        using that u s1 by metis
      moreover have "NL \<in> set (take (pos s) ct)" unfolding tk using True by simp
      ultimately show ?thesis by blast
    next
      case F: False
      have u: "back_line ct s = back_line ct s1" using s1(1) p(1) F by (subst back_line.simps) simp
      note IH = "1.IH" [OF s1(1) p(1) F s1(2)]
      have sh: "\<exists>b'. take (pos s1) ct = a @ NL # b' \<and> NL \<notin> set b'"
        if "take (pos s) ct = a @ NL # b" "NL \<notin> set b" for a b
      proof (cases b rule: rev_cases)
        case Nil
        then show ?thesis using that(1) F unfolding tk by simp
      next
        case (snoc b' c)
        then show ?thesis using that s1(3) unfolding tk by auto
      qed
      have ns: "NL \<notin> set (take (pos s1) ct)" if "NL \<notin> set (take (pos s) ct)"
        using that s1(3) unfolding tk by auto
      show ?thesis
      proof (intro conjI allI impI)
        fix a b assume "take (pos s) ct = a @ NL # b" "NL \<notin> set b"
        then obtain b' where "take (pos s1) ct = a @ NL # b'" "NL \<notin> set b'" using sh by blast
        then obtain s' where s': "back_line ct s1 = Ok (s', False)" "tb_ok ct s'" "pos s' = length a"
          "page s' < length (buf s')" "same_view s1 s'" "end_reached s' = end_reached s1" "begin_reached s' = begin_reached s1"
          using IH by blast
        show "\<exists>s'. back_line ct s = Ok (s', False) \<and> tb_ok ct s' \<and> pos s' = length a \<and> page s' < length (buf s') \<and>
          same_view s s' \<and> end_reached s' = end_reached s \<and> begin_reached s' = begin_reached s"
          using s' s1(6,7) same_view_trans [OF s1(5) s'(5)] u by (intro exI [of _ s']) simp
      next
        assume "NL \<notin> set (take (pos s) ct)"
        then obtain s' where s': "back_line ct s1 = Ok (s', True)" "tb_ok ct s'" "pos s' = 0"
          "same_view s1 s'" "end_reached s' = end_reached s1" "begin_reached s'"
          using IH ns by blast
        show "\<exists>s'. back_line ct s = Ok (s', True) \<and> tb_ok ct s' \<and> pos s' = 0 \<and>
          same_view s s' \<and> end_reached s' = end_reached s \<and> begin_reached s'"
          using s' s1(6,7) same_view_trans [OF s1(5) s'(4)] u by (intro exI [of _ s']) simp
      qed
    qed
  qed
qed

section \<open>Lines\<close>

text \<open>The lines of a file are the pieces between newlines; \<open>off ls i\<close> is where line \<open>i\<close> starts.\<close>

definition off :: "string list \<Rightarrow> nat \<Rightarrow> nat" where
  "off ls i = sum_list (map (\<lambda>l. length l + 1) (take i ls))"

lemma off_0 [simp]: "off ls 0 = 0"
  by (simp add: off_def)

lemma off_Suc: "i < length ls \<Longrightarrow> off ls (Suc i) = off ls i + length (ls ! i) + 1"
  by (simp add: off_def take_Suc_conv_app_nth)

lemma off_pos: "0 < i \<Longrightarrow> i \<le> length ls \<Longrightarrow> 0 < off ls i"
  by (cases i) (auto simp: off_Suc)

lemma join_length: "ls \<noteq> [] \<Longrightarrow> length (join NL ls) + 1 = off ls (length ls)"
  by (induction NL ls rule: join.induct) (auto simp: off_def)

lemma drop_off: "i < length ls \<Longrightarrow> drop (off ls i) (join NL ls) = join NL (drop i ls)"
proof (induction i arbitrary: ls)
  case (Suc i)
  then obtain l k ls' where ls: "ls = l # k # ls'" by (cases ls; cases "tl ls") auto
  have "off ls (Suc i) = length l + 1 + off (k # ls') i" by (simp add: ls off_def)
  then show ?case using Suc.IH [of "k # ls'"] Suc.prems by (simp add: ls)
qed simp

lemma take_off:
  "0 < i \<Longrightarrow> i \<le> length ls \<Longrightarrow> take (off ls i - 1) (join NL ls) = join NL (take i ls)"
proof (induction i arbitrary: ls)
  case (Suc i)
  obtain l ls' where ls: "ls = l # ls'" using Suc.prems by (cases ls) auto
  show ?case
  proof (cases "i = 0")
    case True
    then show ?thesis by (cases ls') (simp_all add: ls off_def)
  next
    case False
    then obtain k ls'' where k: "ls' = k # ls''" using Suc.prems ls by (cases ls') auto
    have "off ls (Suc i) - 1 = length l + 1 + (off ls' i - 1)"
      using off_pos [of i ls'] False Suc.prems by (simp add: ls off_def)
    moreover have "take (off ls' i - 1) (join NL ls') = join NL (take i ls')"
      using Suc.IH [of ls'] False Suc.prems by (simp add: ls)
    moreover have "take i ls' \<noteq> []" using False k by simp
    ultimately show ?thesis by (simp add: ls join_Cons k)
  qed
qed simp

lemma join_snoc: "xs \<noteq> [] \<Longrightarrow> join s (xs @ [x]) = join s xs @ s # x"
  by (induction xs) (auto simp: join_Cons)

lemma join_first:
  assumes "NL \<notin> set l"
  shows "takeWhile (\<lambda>c. c \<noteq> NL) (join NL (l # ls)) = l"
    and "NL \<in> set (join NL (l # ls)) \<longleftrightarrow> ls \<noteq> []"
proof -
  have t: "takeWhile (\<lambda>c. c \<noteq> NL) (l @ NL # x) = l" for x
    using assms by (subst takeWhile_append2) auto
  have "takeWhile (\<lambda>c. c \<noteq> NL) l = l" using assms by (intro takeWhile_no) auto
  then show "takeWhile (\<lambda>c. c \<noteq> NL) (join NL (l # ls)) = l" using t by (simp add: join_Cons)
  show "NL \<in> set (join NL (l # ls)) \<longleftrightarrow> ls \<noteq> []" using assms by (simp add: join_Cons)
qed

definition lines_of :: "string \<Rightarrow> string list" where "lines_of ct = pieces NL ct"

definition line_pos :: "string list \<Rightarrow> nat \<Rightarrow> nat" where
  "line_pos ls i = (if i < length ls then off ls i else off ls (length ls) - 1)"

text \<open>The next line to read is line \<open>i\<close>; all lines have been read if \<open>i\<close> is their number.\<close>

definition at_line :: "string \<Rightarrow> nat \<Rightarrow> tb \<Rightarrow> bool" where
  "at_line ct i s \<longleftrightarrow> tb_ok ct s \<and> pos s = line_pos (lines_of ct) i"

definition file_line :: "string \<Rightarrow> nat \<Rightarrow> string" where
  "file_line ct i = (if i < length (lines_of ct) then take MAX_LEN (lines_of ct ! i) else [])"

lemma lines_of_nonempty [simp]: "lines_of ct \<noteq> []"
  by (simp add: lines_of_def)

lemma lines_of_pos: "0 < length (lines_of ct)"
  by simp

lemma join_lines: "join NL (lines_of ct) = ct"
  by (simp add: lines_of_def join_pieces)

lemma lines_no_NL: "l \<in> set (lines_of ct) \<Longrightarrow> NL \<notin> set l"
  by (auto simp: lines_of_def dest: pieces_no_sep)

lemma nth_no_NL: "i < length (lines_of ct) \<Longrightarrow> NL \<notin> set (lines_of ct ! i)"
  by (meson lines_no_NL nth_mem)

lemma length_ct: "length ct = off (lines_of ct) (length (lines_of ct)) - 1"
  using join_length [of "lines_of ct"] by (simp add: join_lines)

lemma get_line_at:
  assumes "NUL \<notin> set ct" "at_line ct i s" "i \<le> length (lines_of ct)"
  shows "\<exists>s'. get_line ct s = Ok (s', file_line ct i) \<and> at_line ct (min (length (lines_of ct)) (i + 1)) s' \<and>
    same_view s s' \<and> begin_reached s' = begin_reached s \<and> end_reached s' = (length (lines_of ct) \<le> i + 1)"
proof (cases "i < length (lines_of ct)")
  case True
  let ?ls = "lines_of ct"
  have tb: "tb_ok ct s" "pos s = off ?ls i" using assms(2) True by (simp_all add: at_line_def line_pos_def)
  have d: "drop (pos s) ct = join NL (?ls ! i # drop (Suc i) ?ls)"
    using drop_off [OF True] True tb(2) by (simp add: join_lines Cons_nth_drop_Suc)
  have nl: "NL \<notin> set (?ls ! i)" using nth_no_NL [OF True] .
  note f = join_first [OF nl, of "drop (Suc i) ?ls"]
  have e: "NL \<in> set (drop (pos s) ct) \<longleftrightarrow> Suc i < length ?ls" using f(2) by (auto simp: d)
  have p: "pos s + length (?ls ! i) + (if Suc i < length ?ls then 1 else 0) = line_pos ?ls (min (length ?ls) (i + 1))"
  proof (cases "Suc i < length ?ls")
    case T: True
    then show ?thesis using True off_Suc [OF True] tb(2) by (simp add: line_pos_def)
  next
    case F: False
    then have "length ?ls = Suc i" using True by simp
    then show ?thesis using off_Suc [OF True] tb(2) by (simp add: line_pos_def)
  qed
  show ?thesis
    using get_line_spec [OF assms(1) tb(1)] f(1) e p True
    by (auto simp: d [symmetric] at_line_def file_line_def)
next
  case False
  then have i: "i = length (lines_of ct)" using assms(3) by simp
  then have "drop (pos s) ct = []" using assms(2) by (simp add: at_line_def line_pos_def length_ct)
  then show ?thesis
    using get_line_spec [OF assms(1), of s] assms(2) i by (auto simp: at_line_def file_line_def)
qed

lemma back_loop_at:
  "1 \<le> j \<Longrightarrow> j \<le> length (lines_of ct) \<Longrightarrow> tb_ok ct s \<Longrightarrow> pos s = off (lines_of ct) j - 1 \<Longrightarrow>
   (n = 0 \<longrightarrow> page s < length (buf s)) \<Longrightarrow>
   \<exists>s'. back_loop ct n s = Ok s' \<and> tb_ok ct s' \<and> pos s' = off (lines_of ct) (j - n) \<and> same_view s s' \<and>
     end_reached s' = end_reached s \<and> begin_reached s' = (begin_reached s \<or> j \<le> n)"
proof (induction n arbitrary: j s)
  case 0
  then have p: "page s < length (buf s)" by simp
  show ?case
    using tb_ok_next [OF 0(3) p] off_pos [of j "lines_of ct"] 0 by (auto simp: same_view_def)
next
  case (Suc n)
  let ?ls = "lines_of ct"
  have tk: "take (pos s) ct = join NL (take j ?ls)"
    using take_off [of j ?ls] Suc.prems by (simp add: join_lines)
  show ?case
  proof (cases "j = 1")
    case True
    then have "take j ?ls = [?ls ! 0]" using Suc.prems(2) by (cases ?ls) auto
    then have "NL \<notin> set (take (pos s) ct)" using tk nth_no_NL [OF lines_of_pos] by simp
    then obtain s' where "back_line ct s = Ok (s', True)" "tb_ok ct s'" "pos s' = 0" "same_view s s'"
      "end_reached s' = end_reached s" "begin_reached s'"
      using back_line_spec [OF Suc.prems(3)] by blast
    then show ?thesis using True by auto
  next
    case False
    then obtain k where k: "j = Suc k" "1 \<le> k" using Suc.prems(1) by (cases j) auto
    then have kl: "k < length ?ls" "take j ?ls = take k ?ls @ [?ls ! k]" "take k ?ls \<noteq> []"
      using Suc.prems(2) by (auto simp: take_Suc_conv_app_nth)
    have "take (pos s) ct = join NL (take k ?ls) @ NL # ?ls ! k" using tk kl by (simp add: join_snoc)
    moreover have "NL \<notin> set (?ls ! k)" using nth_no_NL [OF kl(1)] .
    ultimately obtain s1 where s1: "back_line ct s = Ok (s1, False)" "tb_ok ct s1" "pos s1 = length (join NL (take k ?ls))"
      "page s1 < length (buf s1)" "same_view s s1" "end_reached s1 = end_reached s" "begin_reached s1 = begin_reached s"
      using back_line_spec [OF Suc.prems(3)] by blast
    have "length (join NL (take k ?ls)) = off ?ls k - 1"
      using join_length [OF kl(3)] kl(1) by (simp add: off_def min_def)
    then show ?thesis
      using Suc.IH [of k s1] s1 k Suc.prems(2) same_view_trans [OF s1(5)] by auto
  qed
qed

lemma back_lines_at:
  assumes "at_line ct i s" "i \<le> length (lines_of ct)" "end_reached s \<longleftrightarrow> i = length (lines_of ct)" "1 \<le> n"
  shows "\<exists>s'. back_lines ct n s = Ok s' \<and> at_line ct (i - n) s' \<and> same_view s s' \<and> begin_reached s' = (i \<le> n)"
proof -
  let ?ls = "lines_of ct"
  let ?s = "s\<lparr>begin_reached := False\<rparr>"
  have ok: "tb_ok ct ?s" "same_view s ?s" using assms(1) by (simp_all add: at_line_def same_view_def)
  have fin: "at_line ct (i - n) s'" if "tb_ok ct s'" "pos s' = off ?ls (i - n)" for s'
  proof -
    have "i - n < length ?ls" using assms(2,4) lines_of_pos [of ct] by linarith
    then show ?thesis using that by (simp add: at_line_def line_pos_def)
  qed
  show ?thesis
  proof (cases "end_reached s")
    case True
    then have i: "i = length ?ls" "pos ?s = off ?ls i - 1" using assms(1,3) by (simp_all add: at_line_def line_pos_def)
    have "1 \<le> i" using i(1) lines_of_pos [of ct] by linarith
    then show ?thesis
      using back_loop_at [OF _ assms(2) ok(1) i(2), of n] assms(4) True fin same_view_trans [OF ok(2)]
      by (auto simp: back_lines_def)
  next
    case False
    then have i: "i < length ?ls" "pos ?s = off ?ls i" using assms(1-3) by (auto simp: at_line_def line_pos_def)
    show ?thesis
    proof (cases "i = 0")
      case True
      then show ?thesis
        using back_char_none [OF ok(1)] i(2) False assms(1) fin [of "?s\<lparr>begin_reached := True\<rparr>"] ok
        by (auto simp: back_lines_def same_view_def)
    next
      case i0: False
      then have "0 < pos ?s" using i off_pos [of i ?ls] by simp
      then obtain s1 where s1: "back_char ct ?s = Some s1" "tb_ok ct s1" "pos s1 = pos ?s - 1" "page s1 < length (buf s1)"
        "same_view ?s s1" "end_reached s1 = end_reached ?s" "begin_reached s1 = begin_reached ?s"
        using back_char_some [OF ok(1)] by metis
      obtain k where k: "i = Suc k" using i0 by (cases i) auto
      have kl: "k < length ?ls" using i(1) k by simp
      have "off ?ls i - 1 = off ?ls k + length (?ls ! k)" using off_Suc [OF kl] k by simp
      moreover have "drop (off ?ls k) ct = ?ls ! k @ NL # join NL (drop i ?ls)"
        using drop_off [OF kl] i(1) k kl by (simp add: join_lines Cons_nth_drop_Suc [symmetric] join_Cons)
      ultimately have "drop (off ?ls i - 1) ct = NL # join NL (drop i ?ls)"
        by (metis add.commute append_eq_conv_conj drop_drop)
      then have "ct ! (off ?ls i - 1) = NL"
        by (metis Cons_nth_drop_Suc drop_all leI list.distinct(1) list.inject)
      then have pk: "peek s1 = Some NL" using peek_pos(1) [OF s1(2,4)] s1(3) i(2) by simp
      have "1 \<le> i" using i0 by simp
      then obtain s' where "back_loop ct n s1 = Ok s'" "tb_ok ct s'" "pos s' = off ?ls (i - n)" "same_view s1 s'"
        "begin_reached s' = (begin_reached s1 \<or> i \<le> n)"
        using back_loop_at [of i ct s1 n] s1(2,3,4) i(2) assms(2) by auto
      moreover have "same_view s s1" using same_view_trans [OF ok(2) s1(5)] .
      ultimately show ?thesis
        using False s1(1,7) pk fin [of s'] same_view_trans [of s s1 s'] by (auto simp: back_lines_def)
    qed
  qed
qed

section \<open>What is on the screen\<close>

text \<open>
  The rows of the text window after some calls, read off the calls that move its cursor, write
  a string into it or scroll its \<open>m\<close> rows.
\<close>

fun row_op :: "int \<Rightarrow> cop \<Rightarrow> int \<times> (int \<Rightarrow> string) \<Rightarrow> int \<times> (int \<Rightarrow> string)" where
  "row_op m (Wmove Sub r c) (cur, rs) = (r, rs)"
| "row_op m (Waddstr Sub str) (cur, rs) = (cur, rs(cur := str))"
| "row_op m (Wscrl Sub n) (cur, rs) = (cur, \<lambda>r. if 0 \<le> r + n \<and> r + n < m then rs (r + n) else [])"
| "row_op m _ st = st"

definition row_state :: "int \<Rightarrow> screen \<Rightarrow> int \<times> (int \<Rightarrow> string)" where
  "row_state m d = fold (row_op m) d (0, \<lambda>_. [])"

definition screen_rows :: "int \<Rightarrow> screen \<Rightarrow> int \<Rightarrow> string" where
  "screen_rows m d = snd (row_state m d)"

lemma row_state_append: "row_state m (d @ e) = fold (row_op m) e (row_state m d)"
  by (simp add: row_state_def)

lemma rows_line:
  "screen_rows m (d @ [Wmove Sub r 0, putch Sub g, Waddstr Sub str, Wclrtoeol Sub]) = (screen_rows m d)(r := str)"
  by (cases "row_state m d") (simp add: screen_rows_def row_state_append putch_def)

lemma rows_scroll:
  "screen_rows m (d @ [Scrollok Sub True, Wscrl Sub n, Scrollok Sub False]) =
     (\<lambda>r. if 0 \<le> r + n \<and> r + n < m then screen_rows m d (r + n) else [])"
proof (cases "row_state m d")
  case (Pair a b)
  show ?thesis unfolding screen_rows_def row_state_append Pair snd_conv by simp
qed

lemma rows_quiet:
  "screen_rows m (d @ [Wnoutrefresh Sub]) = screen_rows m d"
  "screen_rows m (d @ [Wmove Dialog r c, Wrefresh Dialog]) = screen_rows m d"
  "screen_rows m (d @ [Wattrset Dialog a, Wbkgdset Dialog a', Wmove Dialog r c, Waddstr Dialog str]) = screen_rows m d"
  by (cases "row_state m d"; simp add: screen_rows_def row_state_append)+

section \<open>Pages\<close>

text \<open>\<open>n\<close> lines were read from line \<open>i\<close> on.\<close>

definition advanced :: "string \<Rightarrow> nat \<Rightarrow> nat \<Rightarrow> tb \<Rightarrow> tb \<Rightarrow> bool" where
  "advanced ct i n s s' \<longleftrightarrow>
     at_line ct (min (length (lines_of ct)) (i + n)) s' \<and>
     page_length s' = page_length s + min n (length (lines_of ct) - i) \<and>
     hscroll s' = hscroll s \<and> begin_reached s' = begin_reached s \<and>
     (0 < n \<longrightarrow> end_reached s' = (length (lines_of ct) \<le> i + n))"

lemma at_line_update [simp]:
  "at_line ct i (s\<lparr>begin_reached := e\<rparr>) = at_line ct i s"
  "at_line ct i (s\<lparr>end_reached := e\<rparr>) = at_line ct i s"
  "at_line ct i (s\<lparr>page_length := n\<rparr>) = at_line ct i s"
  "at_line ct i (s\<lparr>hscroll := k\<rparr>) = at_line ct i s"
  "at_line ct i (s\<lparr>drawn := d\<rparr>) = at_line ct i s"
  by (simp_all add: at_line_def)

lemma print_line_at:
  assumes "NUL \<notin> set ct" "at_line ct i s" "i \<le> length (lines_of ct)"
  shows "\<exists>s'. print_line ct r w s = Ok s' \<and> at_line ct (min (length (lines_of ct)) (i + 1)) s' \<and>
    page_length s' = page_length s \<and> hscroll s' = hscroll s \<and>
    begin_reached s' = begin_reached s \<and> end_reached s' = (length (lines_of ct) \<le> i + 1) \<and>
    screen_rows m (drawn s') = (screen_rows m (drawn s))(r := shown_part w (hscroll s) (file_line ct i))"
  using get_line_at [OF assms]
  by (auto simp: print_line_def same_view_def rows_line)

lemma advanced_step:
  assumes "at_line ct (min (length (lines_of ct)) (i + 1)) s1" "page_length s1 = page_length s"
    "hscroll s1 = hscroll s" "begin_reached s1 = begin_reached s" "end_reached s1 = (length (lines_of ct) \<le> i + 1)"
    and "passed \<longleftrightarrow> i = length (lines_of ct)" "i \<le> length (lines_of ct)"
    and "count_line passed s1 = (s2, passed2)"
    and "advanced ct (min (length (lines_of ct)) (i + 1)) n s2 s3" "end_reached s2 = end_reached s1"
    and "n = 0 \<longrightarrow> s3 = s2"
  shows "advanced ct i (Suc n) s s3"
proof -
  let ?N = "length (lines_of ct)"
  have s2: "s2 = (if passed then s1 else s1\<lparr>page_length := page_length s1 + 1\<rparr>)"
    using assms(8) by (simp add: count_line_def)
  have m: "min ?N (min ?N (i + 1) + n) = min ?N (i + Suc n)" by simp
  have e: "end_reached s3 = (?N \<le> i + Suc n)"
    using assms(5,7,9,10,11) by (cases "n = 0") (auto simp: advanced_def min_def)
  have p: "page_length s3 = page_length s + min (Suc n) (?N - i)"
    using assms(2,6,7,9) s2 by (auto simp: advanced_def min_def)
  show ?thesis using assms(3,4,9) s2 m e p by (auto simp: advanced_def)
qed

lemma count_line_facts:
  assumes "count_line passed s1 = (s2, passed2)" "passed \<longleftrightarrow> i = length (lines_of ct)" "i \<le> length (lines_of ct)"
    "end_reached s1 = (length (lines_of ct) \<le> i + 1)" "at_line ct (min (length (lines_of ct)) (i + 1)) s1"
  shows "passed2 \<longleftrightarrow> min (length (lines_of ct)) (i + 1) = length (lines_of ct)"
    "at_line ct (min (length (lines_of ct)) (i + 1)) s2" "end_reached s2 = end_reached s1"
    "drawn s2 = drawn s1" "hscroll s2 = hscroll s1"
  using assms by (auto simp: count_line_def min_def split: if_splits)

lemma int_upt: "k < m \<Longrightarrow> map int [k..<m] = int k # map int [Suc k..<m]"
  by (simp add: upt_rec [of k m])

lemma page_loop_at:
  assumes "NUL \<notin> set ct"
  shows "at_line ct i s \<Longrightarrow> i \<le> length (lines_of ct) \<Longrightarrow> (passed \<longleftrightarrow> i = length (lines_of ct)) \<Longrightarrow> n = m - k \<Longrightarrow> k \<le> m \<Longrightarrow>
    \<exists>s'. page_loop ct w (map int [k..<m]) passed s = Ok s' \<and> advanced ct i n s s' \<and>
      (n = 0 \<longrightarrow> s' = s) \<and>
      (\<forall>r. screen_rows h (drawn s') r =
         (if int k \<le> r \<and> r < int m then shown_part w (hscroll s) (file_line ct (i + nat r - k))
          else screen_rows h (drawn s) r))"
proof (induction n arbitrary: i s passed k)
  case 0
  then show ?case by (auto simp: advanced_def)
next
  case (Suc n)
  let ?N = "length (lines_of ct)"
  have k: "k < m" "n = m - Suc k" "Suc k \<le> m" using Suc.prems(4) by simp_all
  obtain s1 where s1: "print_line ct (int k) w s = Ok s1" "at_line ct (min ?N (i + 1)) s1"
    "page_length s1 = page_length s" "hscroll s1 = hscroll s" "begin_reached s1 = begin_reached s"
    "end_reached s1 = (?N \<le> i + 1)"
    "screen_rows h (drawn s1) = (screen_rows h (drawn s))(int k := shown_part w (hscroll s) (file_line ct i))"
    using print_line_at [OF assms Suc.prems(1,2)] by metis
  obtain s2 passed2 where c: "count_line passed s1 = (s2, passed2)" by fastforce
  note f = count_line_facts [OF c Suc.prems(3,2) s1(6,2)]
  obtain s3 where s3: "page_loop ct w (map int [Suc k..<m]) passed2 s2 = Ok s3" "advanced ct (min ?N (i + 1)) n s2 s3"
    "n = 0 \<longrightarrow> s3 = s2"
    "\<forall>r. screen_rows h (drawn s3) r =
         (if int (Suc k) \<le> r \<and> r < int m then shown_part w (hscroll s2) (file_line ct (min ?N (i + 1) + nat r - Suc k))
          else screen_rows h (drawn s2) r)"
    using Suc.IH [OF f(2) _ f(1) k(2,3)] by auto
  have l: "file_line ct (min ?N (i + 1) + nat r - Suc k) = file_line ct (i + nat r - k)"
    if "int (Suc k) \<le> r" for r
    using that Suc.prems(2) by (auto simp: file_line_def min_def)
  have "\<forall>r. screen_rows h (drawn s3) r =
         (if int k \<le> r \<and> r < int m then shown_part w (hscroll s) (file_line ct (i + nat r - k))
          else screen_rows h (drawn s) r)"
    using s3(4) s1(4,7) f(4,5) l k(1) by (auto simp: le_less)
  moreover have "advanced ct i (Suc n) s s3"
    using advanced_step [OF s1(2-6) Suc.prems(3,2) c s3(2) f(3) s3(3)] .
  ultimately show ?case using s1(1) c s3(1) by (simp add: int_upt [OF k(1)])
qed

lemma up_rest_at:
  assumes "NUL \<notin> set ct"
  shows "at_line ct i s \<Longrightarrow> i \<le> length (lines_of ct) \<Longrightarrow> (passed \<longleftrightarrow> i = length (lines_of ct)) \<Longrightarrow> n = m - k \<Longrightarrow> k \<le> m \<Longrightarrow>
    0 < k \<Longrightarrow>
    \<exists>s'. up_loop ct w (map int [k..<m]) passed s = Ok s' \<and> advanced ct i n s s' \<and> (n = 0 \<longrightarrow> s' = s) \<and>
      drawn s' = drawn s"
proof (induction n arbitrary: i s passed k)
  case 0
  then show ?case by (auto simp: advanced_def)
next
  case (Suc n)
  let ?N = "length (lines_of ct)"
  have k: "k < m" "n = m - Suc k" "Suc k \<le> m" using Suc.prems(4) by simp_all
  obtain s1 where s1: "get_line ct s = Ok (s1, file_line ct i)" "at_line ct (min ?N (i + 1)) s1"
    "page_length s1 = page_length s" "hscroll s1 = hscroll s" "begin_reached s1 = begin_reached s"
    "end_reached s1 = (?N \<le> i + 1)" "drawn s1 = drawn s"
    using get_line_at [OF assms Suc.prems(1,2)] by (auto simp: same_view_def)
  obtain s2 passed2 where c: "count_line passed s1 = (s2, passed2)" by fastforce
  note f = count_line_facts [OF c Suc.prems(3,2) s1(6,2)]
  obtain s3 where s3: "up_loop ct w (map int [Suc k..<m]) passed2 s2 = Ok s3" "advanced ct (min ?N (i + 1)) n s2 s3"
    "n = 0 \<longrightarrow> s3 = s2" "drawn s3 = drawn s2"
    using Suc.IH [OF f(2) _ f(1) k(2,3)] by auto
  have "advanced ct i (Suc n) s s3"
    using advanced_step [OF s1(2-6) Suc.prems(3,2) c s3(2) f(3) s3(3)] .
  then show ?case using s1(1,7) c s3 f(4) Suc.prems(6) by (simp add: int_upt [OF k(1)])
qed

section \<open>The viewer shows a window of the lines\<close>

definition box_ok :: "tb_box \<Rightarrow> bool" where
  "box_ok b \<longleftrightarrow> NUL \<notin> set (content b) \<and> 5 \<le> height b"

definition page_rows :: "tb_box \<Rightarrow> nat" where "page_rows b = nat (height b - 4)"

definition line_count :: "tb_box \<Rightarrow> nat" where "line_count b = length (lines_of (content b))"

text \<open>The text window shows the file from line \<open>t\<close> and column \<open>hs\<close> on.\<close>

definition displays :: "tb_box \<Rightarrow> screen \<Rightarrow> nat \<Rightarrow> int \<Rightarrow> bool" where
  "displays b d t hs \<longleftrightarrow>
     (\<forall>r. 0 \<le> r \<and> r < int (page_rows b) \<longrightarrow>
        screen_rows (int (page_rows b)) d r = shown_part (width b - 2) hs (file_line (content b) (t + nat r)))"

definition views :: "tb_box \<Rightarrow> tb \<Rightarrow> nat \<Rightarrow> int \<Rightarrow> bool" where
  "views b s t hs \<longleftrightarrow>
     t < line_count b \<and> at_line (content b) (min (line_count b) (t + page_rows b)) s \<and>
     end_reached s = (line_count b \<le> t + page_rows b) \<and> begin_reached s = (t = 0) \<and>
     page_length s = min (page_rows b) (line_count b - t) \<and>
     hscroll s = hs \<and> 0 \<le> hs \<and> hs \<le> int MAX_LEN \<and> displays b (drawn s) t hs"

lemma views_drawn:
  "views b s t hs \<Longrightarrow> screen_rows (int (page_rows b)) d = screen_rows (int (page_rows b)) (drawn s) \<Longrightarrow>
   views b (s\<lparr>drawn := d\<rparr>) t hs"
  by (simp add: views_def displays_def)

lemma views_settle:
  "views b s t hs \<Longrightarrow> views b (settle b s) t hs"
  "views b s t hs \<Longrightarrow> views b (position_and_settle b s) t hs"
proof -
  show st: "views b (settle b s) t hs" if "views b s t hs" for s
    unfolding settle_def by (rule views_drawn [OF that]) (simp add: rows_quiet)
  show "views b s t hs \<Longrightarrow> views b (position_and_settle b s) t hs"
    unfolding position_and_settle_def print_position_def
    by (rule st, rule views_drawn) (simp_all add: rows_quiet)
qed

lemma counter_rows: "counter (height b - 4) = map int [0..<page_rows b]"
  by (simp add: counter_def page_rows_def)

lemma show_page_views:
  assumes "box_ok b" "at_line (content b) t s" "t < line_count b" "begin_reached s = (t = 0)"
    "0 \<le> hscroll s" "hscroll s \<le> int MAX_LEN"
  shows "\<exists>s'. show_page b s = Ok s' \<and> views b s' t (hscroll s)"
proof -
  let ?ct = "content b" and ?m = "page_rows b"
  have m: "0 < ?m" using assms(1) by (simp add: box_ok_def page_rows_def)
  have n: "NUL \<notin> set ?ct" using assms(1) by (simp add: box_ok_def)
  have t: "t \<le> length (lines_of ?ct)" "False \<longleftrightarrow> t = length (lines_of ?ct)" using assms(3) by (simp_all add: line_count_def)
  obtain s1 where s1: "page_loop ?ct (width b - 2) (map int [0..<?m]) False (s\<lparr>page_length := 0\<rparr>) = Ok s1"
    "advanced ?ct t ?m (s\<lparr>page_length := 0\<rparr>) s1"
    "\<forall>r. screen_rows (int ?m) (drawn s1) r =
         (if int 0 \<le> r \<and> r < int ?m then shown_part (width b - 2) (hscroll (s\<lparr>page_length := 0\<rparr>)) (file_line ?ct (t + nat r - 0))
          else screen_rows (int ?m) (drawn (s\<lparr>page_length := 0\<rparr>)) r)"
    using page_loop_at [OF n, of t "s\<lparr>page_length := 0\<rparr>" False ?m ?m 0 "width b - 2" "int ?m"] assms(2) t by auto
  have v: "views b s1 t (hscroll s)"
    using s1(2,3) m assms(3-6) by (simp add: views_def advanced_def displays_def line_count_def)
  show ?thesis
    using s1(1) views_drawn [OF v, of "drawn s1 @ [Wnoutrefresh Sub]"]
    by (simp add: show_page_def print_page_def counter_rows rows_quiet)
qed

lemma views_facts:
  assumes "views b s t hs" "box_ok b"
  shows "min (line_count b) (t + page_rows b) = t + page_length s" "1 \<le> page_length s"
    "end_reached s \<longleftrightarrow> min (line_count b) (t + page_rows b) = line_count b"
    "at_line (content b) (t + page_length s) s" "t + page_length s \<le> line_count b"
    "0 < page_rows b"
proof -
  have m: "0 < page_rows b" using assms(2) by (simp add: box_ok_def page_rows_def)
  show p: "min (line_count b) (t + page_rows b) = t + page_length s" "1 \<le> page_length s"
    using assms(1) m by (auto simp: views_def)
  show "end_reached s \<longleftrightarrow> min (line_count b) (t + page_rows b) = line_count b"
    using assms(1) by (auto simp: views_def)
  have "at_line (content b) (min (line_count b) (t + page_rows b)) s" using assms(1) by (simp add: views_def)
  then show "at_line (content b) (t + page_length s) s" unfolding p(1) .
  show "t + page_length s \<le> line_count b" using p(1) by simp
  show "0 < page_rows b" by (rule m)
qed

text \<open>Going back \<open>n\<close> lines from the end of the page.\<close>

lemma views_back:
  assumes "views b s t hs" "box_ok b" "1 \<le> n"
  shows "\<exists>s'. back_lines (content b) n s = Ok s' \<and> at_line (content b) (t + page_length s - n) s' \<and>
    same_view s s' \<and> begin_reached s' = (t + page_length s \<le> n)"
proof -
  note f = views_facts [OF assms(1,2)]
  have "end_reached s \<longleftrightarrow> t + page_length s = length (lines_of (content b))"
    using f(1,3) by (simp add: line_count_def)
  then show ?thesis
    using back_lines_at [OF f(4) _ _ assms(3)] f(5) by (simp add: line_count_def)
qed

section \<open>What the keys do to the window\<close>

text \<open>The specification: first line and column of a window of \<open>m\<close> rows on \<open>n\<close> lines.\<close>

definition view_key :: "nat \<Rightarrow> nat \<Rightarrow> int \<Rightarrow> nat \<times> int \<Rightarrow> nat \<times> int" where
  "view_key n m key = (\<lambda>(t, hs).
     if one_of key ''g'' \<or> key = KEY_HOME then (0, hs)
     else if one_of key ''G'' \<or> key = KEY_END then (n - m, hs)
     else if one_of key ''Kk'' \<or> key = KEY_UP then (t - 1, hs)
     else if one_of key ''Bb'' \<or> key = KEY_PPAGE then (t - m, hs)
     else if one_of key ''Jj'' \<or> key = KEY_DOWN then (if n \<le> t + m then t else t + 1, hs)
     else if key = KEY_NPAGE \<or> key = SPACE then (if n \<le> t + m then t else t + m, hs)
     else if is_key key CHR ''0'' then (t, 0)
     else if one_of key ''Hh'' \<or> key = KEY_LEFT then (t, max 0 (hs - 1))
     else if one_of key ''Ll'' \<or> key = KEY_RIGHT then (t, min (int MAX_LEN) (hs + 1))
     else (t, hs))"

definition view_result :: "tb_box \<Rightarrow> nat \<Rightarrow> int \<Rightarrow> tb res \<Rightarrow> bool" where
  "view_result b t hs r \<longleftrightarrow> (\<exists>s'. r = Ok s' \<and> views b s' t hs)"

lemma view_result_settle:
  "view_result b t hs r \<Longrightarrow> view_result b t hs (map_res (settle b) r)"
  "view_result b t hs r \<Longrightarrow> view_result b t hs (map_res (position_and_settle b) r)"
  by (auto simp: view_result_def views_settle)

lemma show_page_result:
  assumes "box_ok b" "at_line (content b) t s" "t < line_count b" "begin_reached s = (t = 0)"
    "hscroll s = hs" "0 \<le> hs" "hs \<le> int MAX_LEN"
  shows "view_result b t hs (show_page b s)"
  using show_page_views [OF assms(1-4)] assms(5-7) by (auto simp: view_result_def)

lemma first_page_views:
  assumes "views b s t hs" "box_ok b"
  shows "view_result b 0 hs (first_page b s)"
proof (cases "begin_reached s")
  case True
  then have "t = 0" using assms(1) by (simp add: views_def)
  with True show ?thesis using assms(1) by (simp add: first_page_def view_result_def)
next
  case False
  let ?s = "at_home (content b) (s\<lparr>begin_reached := True\<rparr>)"
  have n: "0 < line_count b" by (simp add: line_count_def)
  obtain start where st: "buf s = read_at (content b) start" "fpos s = start + length (buf s)"
    using assms(1) by (auto simp: views_def at_line_def tb_ok_def)
  then have "tb_ok (content b) ?s" "pos ?s = 0"
    by (cases start; force simp: at_home_def Let_def tb_ok_def pos_def)+
  then have "at_line (content b) 0 ?s" using n by (simp add: at_line_def line_pos_def line_count_def)
  moreover have "begin_reached ?s" "hscroll ?s = hs" using assms(1) by (simp_all add: at_home_def Let_def views_def)
  ultimately have "view_result b 0 hs (show_page b ?s)"
    using show_page_result [OF assms(2), of 0 ?s hs] n assms(1) by (simp add: views_def)
  then show ?thesis using False view_result_settle by (simp add: first_page_def)
qed

lemma last_page_views:
  assumes "views b s t hs" "box_ok b"
  shows "view_result b (line_count b - page_rows b) hs (last_page b s)"
proof -
  let ?ct = "content b"
  have n: "0 < line_count b" "0 < page_rows b" using views_facts(6) [OF assms] by (simp_all add: line_count_def)
  obtain start where st: "start \<le> length ?ct" "buf s = read_at ?ct start" "fpos s = start + length (buf s)"
    using assms(1) by (auto simp: views_def at_line_def tb_ok_def)
  have long: "\<not> length ?ct < BUF_SIZE" if "fpos s < length ?ct"
    using that st by (auto simp: length_read_at)
  obtain s1 where s1: "at_end ?ct (s\<lparr>end_reached := True\<rparr>) = Ok s1" "tb_ok ?ct s1" "pos s1 = length ?ct"
    "end_reached s1" "hscroll s1 = hs"
  proof (cases "fpos s < length ?ct")
    case True
    let ?p = "length ?ct - BUF_SIZE"
    let ?s1 = "s\<lparr>end_reached := True, buf := read_at ?ct ?p, fpos := ?p + length (read_at ?ct ?p),
      page := length (read_at ?ct ?p)\<rparr>"
    have "at_end ?ct (s\<lparr>end_reached := True\<rparr>) = Ok ?s1" using True long by (simp add: at_end_def Let_def)
    moreover have "tb_ok ?ct ?s1" by (auto simp: tb_ok_def)
    moreover have "pos ?s1 = length ?ct" using long [OF True] by (simp add: pos_def length_read_at)
    ultimately show thesis using that [of ?s1] assms(1) by (simp add: views_def)
  next
    case False
    let ?s1 = "s\<lparr>end_reached := True, page := length (buf s)\<rparr>"
    have "at_end ?ct (s\<lparr>end_reached := True\<rparr>) = Ok ?s1" using False by (simp add: at_end_def)
    moreover have "tb_ok ?ct ?s1" using st by (auto simp: tb_ok_def)
    moreover have "pos ?s1 = length ?ct" using st False by (auto simp: pos_def length_read_at)
    ultimately show thesis using that [of ?s1] assms(1) by (simp add: views_def)
  qed
  then have at: "at_line ?ct (line_count b) s1" by (simp add: at_line_def line_pos_def line_count_def length_ct)
  have "1 \<le> page_rows b" "line_count b \<le> length (lines_of ?ct)" using n by (simp_all add: line_count_def)
  then obtain s2 where s2: "back_lines ?ct (page_rows b) s1 = Ok s2" "at_line ?ct (line_count b - page_rows b) s2"
    "same_view s1 s2" "begin_reached s2 = (line_count b \<le> page_rows b)"
    using back_lines_at [OF at _ _ \<open>1 \<le> page_rows b\<close>] s1(4) by (auto simp: line_count_def)
  then have "view_result b (line_count b - page_rows b) hs (show_page b s2)"
    using show_page_result [OF assms(2) s2(2), of hs] n s1(5) assms(1) by (auto simp: views_def same_view_def)
  then show ?thesis using s1(1) s2(1) view_result_settle by (simp add: last_page_def page_rows_def)
qed

lemma reprint_views:
  assumes "views b s t hs" "box_ok b" "0 \<le> hs'" "hs' \<le> int MAX_LEN"
  shows "view_result b t hs' (reprint b (s\<lparr>hscroll := hs'\<rparr>))"
proof -
  have "\<exists>s'. back_lines (content b) (page_length s) (s\<lparr>hscroll := hs'\<rparr>) = Ok s' \<and> at_line (content b) t s' \<and>
    same_view (s\<lparr>hscroll := hs'\<rparr>) s' \<and> begin_reached s' = (t = 0)"
    using back_lines_at [of "content b" "t + page_length s" "s\<lparr>hscroll := hs'\<rparr>" "page_length s"]
      views_facts [OF assms(1,2)] by (simp add: line_count_def)
  then obtain s' where s': "back_lines (content b) (page_length s) (s\<lparr>hscroll := hs'\<rparr>) = Ok s'" "at_line (content b) t s'"
    "same_view (s\<lparr>hscroll := hs'\<rparr>) s'" "begin_reached s' = (t = 0)" by blast
  have "view_result b t hs' (show_page b s')"
    using show_page_result [OF assms(2) s'(2)] s'(3,4) assms by (auto simp: views_def same_view_def)
  then show ?thesis using s'(1) view_result_settle by (simp add: reprint_def)
qed

lemma previous_page_views:
  assumes "views b s t hs" "box_ok b"
  shows "view_result b (t - page_rows b) hs (previous_page b s)"
proof (cases "begin_reached s")
  case True
  then have "t = 0" using assms(1) by (simp add: views_def)
  with True show ?thesis using assms(1) by (simp add: previous_page_def view_result_def)
next
  case False
  note f = views_facts [OF assms]
  let ?n = "nat (int (page_length s) + height b - 4)"
  have n: "?n = page_length s + page_rows b"   proof -
    have "4 \<le> height b" using assms(2) by (simp add: box_ok_def)
    then have "int (page_length s) + height b - 4 = int (page_length s + page_rows b)" by (simp add: page_rows_def)
    then show ?thesis by (simp only: nat_int)
  qed
  let ?k = "page_length s + page_rows b"
  have "1 \<le> ?k" using f(2) by simp
  then obtain s1 where s1: "back_lines (content b) ?k s = Ok s1" "at_line (content b) (t + page_length s - ?k) s1"
    "same_view s s1" "begin_reached s1 = (t + page_length s \<le> ?k)"
    using views_back [OF assms] by blast
  have t: "t + page_length s - ?k = t - page_rows b" "(t + page_length s \<le> ?k) = (t - page_rows b = 0)" by auto
  have "view_result b (t - page_rows b) hs (show_page b s1)"
    using show_page_result [OF assms(2), of "t - page_rows b" s1 hs] s1(2-4) assms(1) unfolding t
    by (auto simp: views_def same_view_def)
  then show ?thesis using False s1(1) view_result_settle unfolding previous_page_def n by simp
qed

lemma next_page_views:
  assumes "views b s t hs" "box_ok b"
  shows "view_result b (if line_count b \<le> t + page_rows b then t else t + page_rows b) hs (next_page b s)"
proof (cases "end_reached s")
  case True
  then show ?thesis using assms(1) by (auto simp: next_page_def view_result_def views_def)
next
  case False
  note f = views_facts [OF assms]
  have l: "t + page_rows b < line_count b" using False assms(1) by (simp add: views_def)
  let ?s = "s\<lparr>begin_reached := False\<rparr>"
  have "at_line (content b) (t + page_rows b) ?s" using l assms(1) by (simp add: views_def)
  then have "view_result b (t + page_rows b) hs (show_page b ?s)"
    using show_page_result [OF assms(2), of "t + page_rows b" ?s hs] l f(6) assms(1) by (simp add: views_def)
  then show ?thesis using False l view_result_settle by (simp add: next_page_def)
qed

lemma next_line_views:
  assumes "views b s t hs" "box_ok b"
  shows "view_result b (if line_count b \<le> t + page_rows b then t else t + 1) hs (next_line b s)"
proof (cases "end_reached s")
  case True
  then show ?thesis using assms(1) by (auto simp: next_line_def view_result_def views_def)
next
  case False
  let ?ct = "content b" and ?m = "page_rows b"
  note f = views_facts [OF assms]
  have l: "t + ?m < line_count b" using False assms(1) by (simp add: views_def)
  let ?s = "scroll_text 1 (s\<lparr>begin_reached := False\<rparr>)"
  have h: "height b - 5 = int ?m - 1" using assms(2) by (simp add: box_ok_def page_rows_def)
  have at: "at_line ?ct (t + ?m) ?s" "t + ?m \<le> length (lines_of ?ct)"
    using l assms(1) by (simp_all add: views_def scroll_text_def line_count_def)
  have nul: "NUL \<notin> set ?ct" using assms(2) by (simp add: box_ok_def)
  have e: "min (line_count b) (t + ?m + 1) = t + 1 + ?m" "(line_count b \<le> t + ?m + 1) = (line_count b \<le> t + 1 + ?m)"
    using l by simp_all
  obtain s1 where s1: "print_line ?ct (height b - 5) (width b - 2) ?s = Ok s1"
    "at_line ?ct (t + 1 + ?m) s1" "page_length s1 = page_length s" "hscroll s1 = hs" "\<not> begin_reached s1"
    "end_reached s1 = (line_count b \<le> t + 1 + ?m)"
    "screen_rows (int ?m) (drawn s1) =
       (screen_rows (int ?m) (drawn ?s))(int ?m - 1 := shown_part (width b - 2) hs (file_line ?ct (t + ?m)))"
    using print_line_at [OF nul at, of "height b - 5" "width b - 2" "int ?m"] assms(1) e
    unfolding line_count_def [symmetric] h by (auto simp: views_def scroll_text_def)
  have d: "displays b (drawn s) t hs" using assms(1) by (simp add: views_def)
  have "displays b (drawn s1) (t + 1) hs"
    unfolding displays_def
  proof (intro allI impI)
    fix r assume r: "0 \<le> r \<and> r < int ?m"
    show "screen_rows (int ?m) (drawn s1) r = shown_part (width b - 2) hs (file_line ?ct (t + 1 + nat r))"
    proof (cases "r = int ?m - 1")
      case True
      then have "t + 1 + nat r = t + ?m" using f(6) by simp
      then show ?thesis using s1(7) True by (simp only: fun_upd_same)
    next
      case False
      then have "0 \<le> r + 1" "r + 1 < int ?m" "t + nat (r + 1) = t + 1 + nat r"
        using r Suc_nat_eq_nat_zadd1 [of r] by (simp_all add: add.commute)
      then show ?thesis using s1(7) False d by (auto simp: scroll_text_def rows_scroll displays_def)
    qed
  qed
  then have v: "views b s1 (t + 1) hs"
    using s1(2-6) l assms(1) e f(1,6) by (auto simp: views_def)
  show ?thesis
    using False l s1(1) views_settle(2) [OF views_drawn [OF v, of "drawn s1 @ [Wnoutrefresh Sub]"]]
    by (simp add: next_line_def view_result_def rows_quiet)
qed

lemma up_loop_at:
  assumes "NUL \<notin> set ct" "at_line ct i s" "i < length (lines_of ct)" "0 < m"
  shows "\<exists>s'. up_loop ct w (map int [0..<m]) False s = Ok s' \<and> advanced ct i m s s' \<and>
    screen_rows h (drawn s') = (screen_rows h (drawn s))(0 := shown_part w (hscroll s) (file_line ct i))"
proof -
  let ?N = "length (lines_of ct)"
  have i: "i \<le> ?N" "False \<longleftrightarrow> i = ?N" using assms(3) by simp_all
  obtain s0 where s0: "print_line ct 0 w s = Ok s0" "at_line ct (min ?N (i + 1)) s0"
    "page_length s0 = page_length s" "hscroll s0 = hscroll s" "begin_reached s0 = begin_reached s"
    "end_reached s0 = (?N \<le> i + 1)"
    "screen_rows h (drawn s0) = (screen_rows h (drawn s))(0 := shown_part w (hscroll s) (file_line ct i))"
    using print_line_at [OF assms(1,2) i(1)] by metis
  define s1 where "s1 = s0\<lparr>drawn := drawn s0 @ [Wnoutrefresh Sub]\<rparr>"
  have s1: "at_line ct (min ?N (i + 1)) s1" "page_length s1 = page_length s" "hscroll s1 = hscroll s"
    "begin_reached s1 = begin_reached s" "end_reached s1 = (?N \<le> i + 1)"
    using s0 by (simp_all add: s1_def)
  obtain s2 passed2 where c: "count_line False s1 = (s2, passed2)" by fastforce
  note f = count_line_facts [OF c i(2,1) s1(5,1)]
  obtain s3 where s3: "up_loop ct w (map int [1..<m]) passed2 s2 = Ok s3" "advanced ct (min ?N (i + 1)) (m - 1) s2 s3"
    "m - 1 = 0 \<longrightarrow> s3 = s2" "drawn s3 = drawn s2"
    using up_rest_at [OF assms(1) f(2) _ f(1), of "m - 1" m 1 w] assms(4) by auto
  have "advanced ct i (Suc (m - 1)) s s3"
    using advanced_step [OF s1 i(2,1) c s3(2) f(3) s3(3)] .
  moreover have "map int [0..<m] = 0 # map int [1..<m]" using int_upt [OF assms(4)] by simp
  ultimately show ?thesis
    using s0(1,7) c s3(1,4) f(4) assms(4) by (simp add: s1_def rows_quiet)
qed

lemma previous_line_views:
  assumes "views b s t hs" "box_ok b"
  shows "view_result b (t - 1) hs (previous_line b s)"
proof (cases "begin_reached s")
  case True
  then have "t = 0" using assms(1) by (simp add: views_def)
  with True show ?thesis using assms(1) by (simp add: previous_line_def view_result_def)
next
  case False
  let ?ct = "content b" and ?m = "page_rows b"
  note f = views_facts [OF assms]
  have t0: "0 < t" "t < line_count b" using False assms(1) by (simp_all add: views_def)
  obtain s1 where s1: "back_lines ?ct (page_length s + 1) s = Ok s1" "at_line ?ct (t - 1) s1" "same_view s s1"
    "begin_reached s1 = (t - 1 = 0)"
    using views_back [OF assms, of "page_length s + 1"] by auto
  let ?s = "scroll_text (-1) s1\<lparr>page_length := 0\<rparr>"
  have nul: "NUL \<notin> set ?ct" using assms(2) by (simp add: box_ok_def)
  have at: "at_line ?ct (t - 1) ?s" "t - 1 < length (lines_of ?ct)"
    using s1(2) t0 by (simp_all add: scroll_text_def line_count_def)
  obtain s2 where s2: "up_loop ?ct (width b - 2) (map int [0..<?m]) False ?s = Ok s2" "advanced ?ct (t - 1) ?m ?s s2"
    "screen_rows (int ?m) (drawn s2) =
      (screen_rows (int ?m) (drawn ?s))(0 := shown_part (width b - 2) (hscroll ?s) (file_line ?ct (t - 1)))"
    using up_loop_at [OF nul at f(6)] by metis
  have d: "displays b (drawn s) t hs" "hscroll ?s = hs" "drawn s1 = drawn s"
    using assms(1) s1(3) by (simp_all add: views_def scroll_text_def same_view_def)
  have "displays b (drawn s2) (t - 1) hs"
    unfolding displays_def
  proof (intro allI impI)
    fix r assume r: "0 \<le> r \<and> r < int ?m"
    show "screen_rows (int ?m) (drawn s2) r = shown_part (width b - 2) hs (file_line ?ct (t - 1 + nat r))"
    proof (cases "r = 0")
      case True
      then show ?thesis using s2(3) d(2) by simp
    next
      case False
      then have rr: "0 \<le> r + -1" "r + -1 < int ?m" using r by simp_all
      have "nat r = Suc (nat (r + -1))" using Suc_nat_eq_nat_zadd1 [OF rr(1)] by simp
      then have rr2: "t + nat (r + -1) = t - 1 + nat r" using t0(1) by simp
      show ?thesis using rr rr2 s2(3) False d by (auto simp: scroll_text_def rows_scroll displays_def)
    qed
  qed
  then have "views b s2 (t - 1) hs"
    using s2(2) s1(3,4) t0 assms(1) f(6) unfolding views_def advanced_def line_count_def [symmetric]
    by (auto simp: scroll_text_def same_view_def)
  then show ?thesis
    using False s1(1) s2(1) views_settle(2)
    by (simp add: previous_line_def view_result_def counter_rows)
qed

lemma left_views:
  assumes "views b s t hs" "box_ok b"
  shows "view_result b t (if z then 0 else max 0 (hs - 1)) (left b z s)"
proof -
  have h: "hscroll s = hs" "0 \<le> hs" "hs \<le> int MAX_LEN" using assms(1) by (simp_all add: views_def)
  show ?thesis
    using assms h reprint_views [OF assms, of "if z then 0 else hs - 1"]
    by (cases "hs = 0") (auto simp: left_def view_result_def max_def)
qed

lemma right_views:
  assumes "views b s t hs" "box_ok b"
  shows "view_result b t (min (int MAX_LEN) (hs + 1)) (right b s)"
proof -
  have h: "hscroll s = hs" "0 \<le> hs" "hs \<le> int MAX_LEN" using assms(1) by (simp_all add: views_def)
  show ?thesis
    using assms h reprint_views [OF assms, of "hs + 1"]
    by (cases "hs = int MAX_LEN") (auto simp: right_def view_result_def)
qed


definition closes :: "int \<Rightarrow> bool" where
  "closes key \<longleftrightarrow> one_of key ''EeXx'' \<or> key = ESC \<or> key = NEWLINE"

lemma view_key_result:
  assumes "views b s t hs" "box_ok b" "\<not> closes key"
  shows "\<exists>r. tb_step b s key = continue_with r \<and>
    view_result b (fst (view_key (line_count b) (page_rows b) key (t, hs)))
      (snd (view_key (line_count b) (page_rows b) key (t, hs))) r"
proof -
  have z: "one_of key ''0Hh'' \<longleftrightarrow> is_key key CHR ''0'' \<or> one_of key ''Hh''" by (auto simp: one_of_def)
  have x: "\<not> one_of key ''EeXx''" "key \<noteq> ESC" "key \<noteq> NEWLINE" using assms(3) by (auto simp: closes_def)
  note d = tb_step_def view_key_def z
  consider (k0) "one_of key ''g'' \<or> key = KEY_HOME"
    | (k1) "\<not> (one_of key ''g'' \<or> key = KEY_HOME)" "one_of key ''G'' \<or> key = KEY_END"
    | (k2) "\<not> (one_of key ''g'' \<or> key = KEY_HOME)" "\<not> (one_of key ''G'' \<or> key = KEY_END)" "one_of key ''Kk'' \<or> key = KEY_UP"
    | (k3) "\<not> (one_of key ''g'' \<or> key = KEY_HOME)" "\<not> (one_of key ''G'' \<or> key = KEY_END)" "\<not> (one_of key ''Kk'' \<or> key = KEY_UP)" "one_of key ''Bb'' \<or> key = KEY_PPAGE"
    | (k4) "\<not> (one_of key ''g'' \<or> key = KEY_HOME)" "\<not> (one_of key ''G'' \<or> key = KEY_END)" "\<not> (one_of key ''Kk'' \<or> key = KEY_UP)" "\<not> (one_of key ''Bb'' \<or> key = KEY_PPAGE)" "one_of key ''Jj'' \<or> key = KEY_DOWN"
    | (k5) "\<not> (one_of key ''g'' \<or> key = KEY_HOME)" "\<not> (one_of key ''G'' \<or> key = KEY_END)" "\<not> (one_of key ''Kk'' \<or> key = KEY_UP)" "\<not> (one_of key ''Bb'' \<or> key = KEY_PPAGE)" "\<not> (one_of key ''Jj'' \<or> key = KEY_DOWN)" "key = KEY_NPAGE \<or> key = SPACE"
    | (k6) "\<not> (one_of key ''g'' \<or> key = KEY_HOME)" "\<not> (one_of key ''G'' \<or> key = KEY_END)" "\<not> (one_of key ''Kk'' \<or> key = KEY_UP)" "\<not> (one_of key ''Bb'' \<or> key = KEY_PPAGE)" "\<not> (one_of key ''Jj'' \<or> key = KEY_DOWN)" "\<not> (key = KEY_NPAGE \<or> key = SPACE)" "is_key key CHR ''0''"
    | (k7) "\<not> (one_of key ''g'' \<or> key = KEY_HOME)" "\<not> (one_of key ''G'' \<or> key = KEY_END)" "\<not> (one_of key ''Kk'' \<or> key = KEY_UP)" "\<not> (one_of key ''Bb'' \<or> key = KEY_PPAGE)" "\<not> (one_of key ''Jj'' \<or> key = KEY_DOWN)" "\<not> (key = KEY_NPAGE \<or> key = SPACE)" "\<not> (is_key key CHR ''0'')" "one_of key ''Hh'' \<or> key = KEY_LEFT"
    | (k8) "\<not> (one_of key ''g'' \<or> key = KEY_HOME)" "\<not> (one_of key ''G'' \<or> key = KEY_END)" "\<not> (one_of key ''Kk'' \<or> key = KEY_UP)" "\<not> (one_of key ''Bb'' \<or> key = KEY_PPAGE)" "\<not> (one_of key ''Jj'' \<or> key = KEY_DOWN)" "\<not> (key = KEY_NPAGE \<or> key = SPACE)" "\<not> (is_key key CHR ''0'')" "\<not> (one_of key ''Hh'' \<or> key = KEY_LEFT)" "one_of key ''Ll'' \<or> key = KEY_RIGHT"
    | (other) "\<not> (one_of key ''g'' \<or> key = KEY_HOME)" "\<not> (one_of key ''G'' \<or> key = KEY_END)" "\<not> (one_of key ''Kk'' \<or> key = KEY_UP)" "\<not> (one_of key ''Bb'' \<or> key = KEY_PPAGE)" "\<not> (one_of key ''Jj'' \<or> key = KEY_DOWN)" "\<not> (key = KEY_NPAGE \<or> key = SPACE)" "\<not> (is_key key CHR ''0'')" "\<not> (one_of key ''Hh'' \<or> key = KEY_LEFT)" "\<not> (one_of key ''Ll'' \<or> key = KEY_RIGHT)"
    by blast
  then show ?thesis
  proof cases
    case k0
    then show ?thesis using x first_page_views [OF assms(1,2)] unfolding d by (simp only: simp_thms if_True if_False split_conv fst_conv snd_conv) blast
  next
    case k1
    then show ?thesis using x last_page_views [OF assms(1,2)] unfolding d by (simp only: simp_thms if_True if_False split_conv fst_conv snd_conv) blast
  next
    case k2
    then show ?thesis using x previous_line_views [OF assms(1,2)] unfolding d by (simp only: simp_thms if_True if_False split_conv fst_conv snd_conv) blast
  next
    case k3
    then show ?thesis using x previous_page_views [OF assms(1,2)] unfolding d by (simp only: simp_thms if_True if_False split_conv fst_conv snd_conv) blast
  next
    case k4
    then show ?thesis using x next_line_views [OF assms(1,2)] unfolding d by (simp only: simp_thms if_True if_False split_conv fst_conv snd_conv) blast
  next
    case k5
    then show ?thesis using x next_page_views [OF assms(1,2)] unfolding d by (simp only: simp_thms if_True if_False split_conv fst_conv snd_conv) blast
  next
    case k6
    then show ?thesis using x left_views [OF assms(1,2), of True] unfolding d by (simp only: simp_thms if_True if_False split_conv fst_conv snd_conv) blast
  next
    case k7
    then show ?thesis using x left_views [OF assms(1,2), of False] unfolding d by (simp only: simp_thms if_True if_False split_conv fst_conv snd_conv) blast
  next
    case k8
    then show ?thesis using x right_views [OF assms(1,2)] unfolding d by (simp only: simp_thms if_True if_False split_conv fst_conv snd_conv) blast
  next
    case other
    have "view_result b t hs (Ok s)" "Continue s = continue_with (Ok s)" using assms(1) by (simp_all add: view_result_def)
    then show ?thesis using x other unfolding d by (simp only: simp_thms if_True if_False split_conv fst_conv snd_conv) blast
  qed
qed

lemma view_step:
  assumes "views b s t hs" "box_ok b" "\<not> closes key" "view_key (line_count b) (page_rows b) key (t, hs) = (t', hs')"
  shows "\<exists>s'. tb_step b s key = Continue s' \<and> views b s' t' hs'"
  using view_key_result [OF assms(1-3)] assms(4) by (auto simp: view_result_def)

interpretation viewer: reactor "tb_step b" "\<lambda>s. box_ok b \<and> (\<exists>t hs. views b s t hs)" "\<lambda>_. True"
  "\<lambda>r. \<exists>k scr. r = Returned k scr \<and> k \<in> {-1, 0}"
  for b
proof unfold_locales
  fix s key
  assume inv: "box_ok b \<and> (\<exists>t hs. views b s t hs)"
  then obtain t hs where v: "views b s t hs" "box_ok b" by blast
  show "outcome_ok (\<lambda>s. box_ok b \<and> (\<exists>t hs. views b s t hs)) (\<lambda>r. \<exists>k scr. r = Returned k scr \<and> k \<in> {-1, 0})
    (tb_step b s key)"
  proof (cases "closes key")
    case True
    have k: "\<not> one_of ESC cs" if "cs \<in> {''g'', ''G'', ''Kk'', ''Bb'', ''Jj'', ''0Hh'', ''Ll''}" for cs
      using that by (auto simp: one_of_def is_key_def code_def ESC_def)
    have l: "\<not> one_of NEWLINE cs" if "cs \<in> {''g'', ''G'', ''Kk'', ''Bb'', ''Jj'', ''0Hh'', ''Ll''}" for cs
      using that by (auto simp: one_of_def is_key_def code_def NEWLINE_def)
    from True consider "one_of key ''EeXx''" | "\<not> one_of key ''EeXx''" "key = ESC" | "\<not> one_of key ''EeXx''" "key = NEWLINE"
      by (auto simp: closes_def)
    then show ?thesis
      by cases (simp_all add: tb_step_def k l, simp_all add: key_defs)
  next
    case False
    then show ?thesis
      using view_step [OF v False] v(2) by (cases "view_key (line_count b) (page_rows b) key (t, hs)") fastforce
  qed
qed

lemma tb_open_views:
  assumes "box_ok b"
  shows "view_result b 0 0 (tb_open b scr)"
proof -
  let ?s = "start_state (content b) (scr @ attr_clear Sub (height b - 4) (width b - 2) dialog_attr)"
  have "tb_ok (content b) ?s" "pos ?s = 0" by (auto simp: start_state_def Let_def tb_ok_def pos_def)
  then have "at_line (content b) 0 ?s" using lines_of_pos [of "content b"] by (simp add: at_line_def line_pos_def)
  moreover have "0 < line_count b" by (simp add: line_count_def)
  ultimately have "view_result b 0 0 (show_page b ?s)"
    by (intro show_page_result [OF assms]) (simp_all add: start_state_def Let_def)
  then show ?thesis unfolding tb_open_def by (rule view_result_settle)
qed

lemma view_keys:
  "views b s t hs \<Longrightarrow> box_ok b \<Longrightarrow> list_all (\<lambda>k. \<not> closes k) keys \<Longrightarrow>
   foldl (\<lambda>v k. view_key (line_count b) (page_rows b) k v) (t, hs) keys = (t', hs') \<Longrightarrow>
   \<exists>s'. run_machine (tb_step b) s keys = Continue s' \<and> views b s' t' hs'"
proof (induction keys arbitrary: s t hs)
  case (Cons k keys)
  obtain t1 hs1 where k: "view_key (line_count b) (page_rows b) k (t, hs) = (t1, hs1)" by fastforce
  obtain s1 where s1: "tb_step b s k = Continue s1" "views b s1 t1 hs1"
    using view_step [OF Cons.prems(1,2) _ k] Cons.prems(3) by auto
  then show ?case using Cons.IH [OF s1(2) Cons.prems(2)] Cons.prems(3,4) k by simp
qed simp

section \<open>Properties\<close>

text \<open>
  C12: after any keys that do not close it the viewer shows, row by row, the lines of the file from
  the line and column on that the keys lead to in a plain model of a window on a list of lines,
  however the file is cut into buffers (and lines longer than \<open>MAX_LEN\<close> are cut).
\<close>

theorem viewer_window:
  assumes "NUL \<notin> set ct" "5 \<le> h" "list_all (\<lambda>k. \<not> closes k) keys"
    and "foldl (\<lambda>v k. view_key (length (lines_of ct)) (nat (h - 4)) k v) (0, 0) keys = (t, hs)"
  shows "\<exists>s. dialog_textbox term title (Some ct) h w scr keys = Continue s \<and> t < length (lines_of ct) \<and>
    (\<forall>r. 0 \<le> r \<and> r < h - 4 \<longrightarrow>
       screen_rows (h - 4) (drawn s) r = shown_part (w - 2) hs (file_line ct (t + nat r)))"
proof -
  let ?s1 = "tb_frame term title h w scr"
  let ?b = "\<lparr>content = ct, height = h, width = w, saved_cursor = cursor term ?s1\<rparr>"
  have b: "box_ok ?b" using assms(1,2) by (simp add: box_ok_def)
  obtain s where s: "tb_open ?b ?s1 = Ok s" "views ?b s 0 0" using tb_open_views [OF b] by (auto simp: view_result_def)
  have c: "line_count ?b = length (lines_of ct)" "page_rows ?b = nat (h - 4)" "int (page_rows ?b) = h - 4"
    using assms(2) by (simp_all add: line_count_def page_rows_def)
  obtain s' where "run_machine (tb_step ?b) s keys = Continue s'" "views ?b s' t hs"
    using view_keys [OF s(2) b assms(3), of t hs] assms(4) unfolding c(1,2) by blast
  then show ?thesis
    using s(1) c by (auto simp: dialog_textbox_def Let_def views_def displays_def)
qed

theorem viewer_window_witness:
  "\<exists>s. dialog_textbox term80 None (Some ''a\<newline>bc\<newline>d\<newline>'') 6 20 [] [KEY_DOWN, KEY_RIGHT] = Continue s \<and>
    (\<forall>r. 0 \<le> r \<and> r < 2 \<longrightarrow>
       screen_rows 2 (drawn s) r = shown_part 18 1 (file_line ''a\<newline>bc\<newline>d\<newline>'' (1 + nat r)))"
proof -
  have "length (lines_of ''a\<newline>bc\<newline>d\<newline>'') = 4" by (simp add: lines_of_def NL_def)
  moreover have "view_key 4 2 KEY_DOWN (0, 0) = (1, 0)" "view_key 4 2 KEY_RIGHT (1, 0) = (1, 1)"
    by (simp_all add: view_key_def one_of_def is_key_def code_def key_defs MAX_LEN_def)
  moreover have "list_all (\<lambda>k. \<not> closes k) [KEY_DOWN, KEY_RIGHT]"
    by (simp add: closes_def one_of_def is_key_def code_def key_defs)
  ultimately show ?thesis
    using viewer_window [of "''a\<newline>bc\<newline>d\<newline>''" 6 "[KEY_DOWN, KEY_RIGHT]" 1 1 term80 None 20 "[]"]
    by (simp add: NUL_def)
qed

text \<open>
  On a file without NUL characters no sequence of keys makes the viewer read outside its buffer, fail
  to move in the file or meet its internal error: it goes on or returns 0 or -1.
\<close>

theorem viewer_safe:
  assumes "NUL \<notin> set ct" "5 \<le> h"
  shows "outcome_ok (\<lambda>_. True) (\<lambda>r. \<exists>k scr'. r = Returned k scr' \<and> k \<in> {-1, 0})
    (dialog_textbox term title (Some ct) h w scr keys)"
proof -
  let ?s1 = "tb_frame term title h w scr"
  let ?b = "\<lparr>content = ct, height = h, width = w, saved_cursor = cursor term ?s1\<rparr>"
  have b: "box_ok ?b" using assms by (simp add: box_ok_def)
  obtain s where s: "tb_open ?b ?s1 = Ok s" "views ?b s 0 0" using tb_open_views [OF b] by (auto simp: view_result_def)
  have "outcome_ok (\<lambda>s. box_ok ?b \<and> (\<exists>t hs. views ?b s t hs)) (\<lambda>r. \<exists>k scr. r = Returned k scr \<and> k \<in> {-1, 0})
    (run_machine (tb_step ?b) s keys)"
    using b s(2) by (intro viewer.run_ok) (auto simp: list_all_iff)
  then show ?thesis using s(1) by (auto simp: dialog_textbox_def Let_def elim!: outcome_ok_mono)
qed

theorem viewer_safe_witness:
  "outcome_ok (\<lambda>_. True) (\<lambda>r. \<exists>k scr'. r = Returned k scr' \<and> k \<in> {-1, 0})
    (dialog_textbox term80 None (Some ''one line'') 5 20 [] [KEY_END, KEY_UP, KEY_NPAGE, KEY_PPAGE, NEWLINE])"
  by (rule viewer_safe) (simp_all add: NUL_def)

end
