(* ===== verification/ConfDialog.thy ===== *)
theory ConfDialog
  imports DialogBoxes Checklist Menubox Inputbox Textbox
begin

text \<open>
  \<^verbatim>\<open>misc/confdialog/confdialog.c\<close>: the command line of the dialog program.

  The arguments are a list of strings; the element behind the last one is the null pointer and what
  follows is outside the array.  What the program finds outside are the parameters in \<open>world\<close>:
  the terminal, the files that can be opened, the scroll position left by an earlier menu and the
  keys the user types.  \<open>Undefined\<close> is behaviour the C standard leaves undefined, \<open>Waits\<close> a
  program that is still waiting for a key.  The exit status is the argument of \<^verbatim>\<open>exit\<close>.
\<close>

section \<open>Arguments\<close>

text \<open>\<open>Some None\<close> is the null pointer.\<close>

definition arg_at :: "string list \<Rightarrow> nat \<Rightarrow> string option option" where
  "arg_at argv i =
     (if i < length argv then Some (Some (argv ! i)) else if i = length argv then Some None else None)"

datatype mode = J_menu | J_checklist | J_radiolist | J_yesno | J_textbox | J_inputbox | J_msgbox | J_infobox

record mode_entry =
  mode_name :: string
  argmin :: nat
  argmax :: nat
  argmod :: nat
  jumper :: mode

definition modes :: "mode_entry list" where
  "modes =
     [\<lparr>mode_name = ''--menu'', argmin = 9, argmax = 0, argmod = 3, jumper = J_menu\<rparr>,
      \<lparr>mode_name = ''--checklist'', argmin = 9, argmax = 0, argmod = 3, jumper = J_checklist\<rparr>,
      \<lparr>mode_name = ''--radiolist'', argmin = 9, argmax = 0, argmod = 3, jumper = J_radiolist\<rparr>,
      \<lparr>mode_name = ''--yesno'', argmin = 5, argmax = 5, argmod = 1, jumper = J_yesno\<rparr>,
      \<lparr>mode_name = ''--textbox'', argmin = 5, argmax = 5, argmod = 1, jumper = J_textbox\<rparr>,
      \<lparr>mode_name = ''--inputbox'', argmin = 5, argmax = 6, argmod = 1, jumper = J_inputbox\<rparr>,
      \<lparr>mode_name = ''--msgbox'', argmin = 5, argmax = 5, argmod = 1, jumper = J_msgbox\<rparr>,
      \<lparr>mode_name = ''--infobox'', argmin = 5, argmax = 5, argmod = 1, jumper = J_infobox\<rparr>]"

section \<open>Common options\<close>

record common =
  offset :: nat
  title :: "string option"
  backtitle :: "string option"
  clear_screen :: bool

definition no_common :: common where
  "no_common = \<lparr>offset = 0, title = None, backtitle = None, clear_screen = False\<rparr>"

datatype parsed = Parsed common | Wrong_usage | Only_clear | Out_of_args

function common_loop :: "string list \<Rightarrow> common \<Rightarrow> parsed" where
  "common_loop argv c =
     (if offset c + 1 < length argv then
        (let a = argv ! (offset c + 1) in
         if a = ''--title'' then
           (if length argv - offset c < 3 \<or> title c \<noteq> None then Wrong_usage
            else common_loop argv (c\<lparr>title := Some (argv ! (offset c + 2)), offset := offset c + 2\<rparr>))
         else if a = ''--backtitle'' then
           (if backtitle c \<noteq> None then Wrong_usage
            else case arg_at argv (offset c + 2) of
                   None \<Rightarrow> Out_of_args
                 | Some t \<Rightarrow> common_loop argv (c\<lparr>backtitle := t, offset := offset c + 2\<rparr>))
         else if a = ''--clear'' then
           (if clear_screen c then Wrong_usage
            else if length argv = 2 then Only_clear
            else common_loop argv (c\<lparr>clear_screen := True, offset := offset c + 1\<rparr>))
         else Parsed c)
      else Parsed c)"
  by pat_completeness auto

termination
  by (relation "measure (\<lambda>(argv, c). length argv - offset c)") auto

declare common_loop.simps [simp del]

section \<open>The boxes\<close>

record world =
  tty :: terminal
  read_file :: "string \<Rightarrow> string option"
  saved_scroll :: "int option option"

datatype ending =
    Waits
  | Returns int string screen
  | Dies string
  | Undefined

fun end_pair :: "('s, int \<times> screen) outcome \<Rightarrow> ending" where
  "end_pair (Continue s) = Waits"
| "end_pair (Finish (r, scr)) = Returns r [] scr"
| "end_pair Fault = Undefined"

fun end_triple :: "('s, int \<times> string \<times> screen) outcome \<Rightarrow> ending" where
  "end_triple (Continue s) = Waits"
| "end_triple (Finish (r, out, scr)) = Returns r out scr"
| "end_triple Fault = Undefined"

fun end_textbox :: "(tb, tb_result) outcome \<Rightarrow> ending" where
  "end_textbox (Continue s) = Waits"
| "end_textbox (Finish (Returned r scr)) = Returns r [] scr"
| "end_textbox (Finish (Exited m)) = Dies m"
| "end_textbox Fault = Undefined"

text \<open>\<open>n\<close> groups of two or three arguments; no result if one of them is the null pointer.\<close>

fun pairs_of :: "nat \<Rightarrow> string list \<Rightarrow> (string \<times> string) list option" where
  "pairs_of 0 as = Some []"
| "pairs_of (Suc n) (a # b # as) = map_option ((#) (a, b)) (pairs_of n as)"
| "pairs_of (Suc n) _ = None"

fun triples_of :: "nat \<Rightarrow> string list \<Rightarrow> (string \<times> string \<times> string) list option" where
  "triples_of 0 as = Some []"
| "triples_of (Suc n) (a # b # c # as) = map_option ((#) (a, b, c)) (triples_of n as)"
| "triples_of (Suc n) _ = None"

text \<open>\<open>av\<close> are the arguments from the one before the name of the box on; its length is \<^verbatim>\<open>ac\<close>.\<close>

definition j_menu :: "world \<Rightarrow> string option \<Rightarrow> string list \<Rightarrow> screen \<Rightarrow> int list \<Rightarrow> ending" where
  "j_menu wd t av scr keys =
     (case pairs_of ((length av - 6) div 2) (drop 7 av) of
        None \<Rightarrow> Undefined
      | Some its \<Rightarrow>
          end_triple (dialog_menu (tty wd) t (av ! 2) (atoi (av ! 3)) (atoi (av ! 4)) (atoi (av ! 5)) (av ! 6) its
            (saved_scroll wd) scr keys))"

definition j_list :: "bool \<Rightarrow> world \<Rightarrow> string option \<Rightarrow> string list \<Rightarrow> screen \<Rightarrow> int list \<Rightarrow> ending" where
  "j_list flag wd t av scr keys =
     (case triples_of ((length av - 6) div 3) (drop 6 av) of
        None \<Rightarrow> Undefined
      | Some its \<Rightarrow>
          end_triple (dialog_checklist (tty wd) t (av ! 2) (atoi (av ! 3)) (atoi (av ! 4)) (atoi (av ! 5)) its flag
            scr keys))"

definition j_checklist :: "world \<Rightarrow> string option \<Rightarrow> string list \<Rightarrow> screen \<Rightarrow> int list \<Rightarrow> ending" where
  "j_checklist = j_list True"

definition j_radiolist :: "world \<Rightarrow> string option \<Rightarrow> string list \<Rightarrow> screen \<Rightarrow> int list \<Rightarrow> ending" where
  "j_radiolist = j_list False"

definition j_textbox :: "world \<Rightarrow> string option \<Rightarrow> string list \<Rightarrow> screen \<Rightarrow> int list \<Rightarrow> ending" where
  "j_textbox wd t av scr keys =
     end_textbox (dialog_textbox (tty wd) t (read_file wd (av ! 2)) (atoi (av ! 3)) (atoi (av ! 4)) scr keys)"

definition j_yesno :: "world \<Rightarrow> string option \<Rightarrow> string list \<Rightarrow> screen \<Rightarrow> int list \<Rightarrow> ending" where
  "j_yesno wd t av scr keys =
     end_pair (dialog_yesno (tty wd) t (av ! 2) (atoi (av ! 3)) (atoi (av ! 4)) scr keys)"

text \<open>\<^verbatim>\<open>fprintf\<close> with the text as format and no further argument.\<close>

fun format_alone :: "string \<Rightarrow> string option" where
  "format_alone [] = Some []"
| "format_alone (c # s) =
     (if c \<noteq> CHR ''%'' then map_option ((#) c) (format_alone s)
      else case s of
             [] \<Rightarrow> None
           | d # s' \<Rightarrow> if d = CHR ''%'' then map_option ((#) d) (format_alone s') else None)"

definition j_inputbox :: "world \<Rightarrow> string option \<Rightarrow> string list \<Rightarrow> screen \<Rightarrow> int list \<Rightarrow> ending" where
  "j_inputbox wd t av scr keys =
     (case end_triple (dialog_inputbox (tty wd) t (av ! 2) (atoi (av ! 3)) (atoi (av ! 4))
             (if length av = 6 then Some (av ! 5) else None) scr keys) of
        Returns r out s \<Rightarrow>
          (if r = 0 then (case format_alone out of None \<Rightarrow> Undefined | Some o1 \<Rightarrow> Returns r o1 s)
           else Returns r [] s)
      | e \<Rightarrow> e)"

definition j_msgbox :: "world \<Rightarrow> string option \<Rightarrow> string list \<Rightarrow> screen \<Rightarrow> int list \<Rightarrow> ending" where
  "j_msgbox wd t av scr keys =
     end_pair (dialog_msgbox (tty wd) t (av ! 2) (atoi (av ! 3)) (atoi (av ! 4)) True scr keys)"

definition j_infobox :: "world \<Rightarrow> string option \<Rightarrow> string list \<Rightarrow> screen \<Rightarrow> int list \<Rightarrow> ending" where
  "j_infobox wd t av scr keys =
     end_pair (dialog_msgbox (tty wd) t (av ! 2) (atoi (av ! 3)) (atoi (av ! 4)) False scr keys)"

fun jump :: "mode \<Rightarrow> world \<Rightarrow> string option \<Rightarrow> string list \<Rightarrow> screen \<Rightarrow> int list \<Rightarrow> ending" where
  "jump J_menu = j_menu"
| "jump J_checklist = j_checklist"
| "jump J_radiolist = j_radiolist"
| "jump J_yesno = j_yesno"
| "jump J_textbox = j_textbox"
| "jump J_inputbox = j_inputbox"
| "jump J_msgbox = j_msgbox"
| "jump J_infobox = j_infobox"

section \<open>The program\<close>

datatype exit_or_wait =
    Usage
  | Exit int string screen
  | Error_exit string
  | Waiting
  | Crash

definition run_box :: "world \<Rightarrow> common \<Rightarrow> string list \<Rightarrow> mode_entry \<Rightarrow> int list \<Rightarrow> exit_or_wait" where
  "run_box wd c argv m keys =
     (let scr = init_dialog (LINES (tty wd)) (COLS (tty wd)) (colored (tty wd)) (backtitle c) in
      case jump (jumper m) wd (title c) (drop (offset c) argv) scr keys of
        Waits \<Rightarrow> Waiting
      | Returns r out s \<Rightarrow>
          Exit r out (s @
            (if clear_screen c
             then attr_clear Stdscr (LINES (tty wd)) (COLS (tty wd)) screen_attr @ [Wrefresh Stdscr] else []) @
            end_dialog)
      | Dies msg \<Rightarrow> Error_exit msg
      | Undefined \<Rightarrow> Crash)"

definition confdialog :: "world \<Rightarrow> string list \<Rightarrow> int list \<Rightarrow> exit_or_wait" where
  "confdialog wd argv keys =
     (if length argv < 2 then Usage
      else
        (case common_loop argv no_common of
           Wrong_usage \<Rightarrow> Usage
         | Out_of_args \<Rightarrow> Crash
         | Only_clear \<Rightarrow>
             Exit 0 [] (init_dialog (LINES (tty wd)) (COLS (tty wd)) (colored (tty wd)) None @
               [Wrefresh Stdscr] @ end_dialog)
         | Parsed c \<Rightarrow>
             (if length argv - 1 = offset c then Usage
              else
                (case arg_at argv (offset c + 1) of
                   Some (Some name) \<Rightarrow>
                     (case find (\<lambda>m. mode_name m = name) modes of
                        None \<Rightarrow> Usage
                      | Some m \<Rightarrow>
                          (if length argv - offset c < argmin m then Usage
                           else if argmax m \<noteq> 0 \<and> length argv - offset c > argmax m then Usage
                           else run_box wd c argv m keys))
                 | _ \<Rightarrow> Crash))))"

section \<open>Common options\<close>

text \<open>Options as data, and how they are written.\<close>

datatype opt = Title string | Backtitle string | Clear

fun show_opt :: "opt \<Rightarrow> string list" where
  "show_opt (Title t) = [''--title'', t]"
| "show_opt (Backtitle t) = [''--backtitle'', t]"
| "show_opt Clear = [''--clear'']"

fun set_opt :: "opt \<Rightarrow> common \<Rightarrow> common" where
  "set_opt (Title t) c = c\<lparr>title := Some t\<rparr>"
| "set_opt (Backtitle t) c = c\<lparr>backtitle := Some t\<rparr>"
| "set_opt Clear c = c\<lparr>clear_screen := True\<rparr>"

fun opt_free :: "opt \<Rightarrow> common \<Rightarrow> bool" where
  "opt_free (Title t) c = (title c = None)"
| "opt_free (Backtitle t) c = (backtitle c = None)"
| "opt_free Clear c = (\<not> clear_screen c)"

text \<open>No option is given twice.\<close>

fun opts_once :: "opt list \<Rightarrow> common \<Rightarrow> bool" where
  "opts_once [] c = True"
| "opts_once (op # ops) c = (opt_free op c \<and> opts_once ops (set_opt op c))"

definition show_opts :: "opt list \<Rightarrow> string list" where
  "show_opts ops = concat (map show_opt ops)"

definition set_opts :: "opt list \<Rightarrow> common \<Rightarrow> common" where
  "set_opts ops c = fold set_opt ops c"

definition common_option :: "string \<Rightarrow> bool" where
  "common_option a \<longleftrightarrow> a \<in> {''--title'', ''--backtitle'', ''--clear''}"

lemma set_opt_offset [simp]: "offset (set_opt op c) = offset c"
  by (cases op) auto

lemma set_opt_commutes: "set_opt op (c\<lparr>offset := n\<rparr>) = (set_opt op c)\<lparr>offset := n\<rparr>"
  by (cases op) auto

lemma opts_once_offset: "opts_once ops (c\<lparr>offset := n\<rparr>) = opts_once ops c"
proof (induction ops arbitrary: c)
  case (Cons op ops)
  have "opt_free op (c\<lparr>offset := n\<rparr>) = opt_free op c" by (cases op) auto
  with Cons show ?case by (simp add: set_opt_commutes)
qed simp

lemma fold_set_opt_offset: "fold set_opt ops (c\<lparr>offset := n\<rparr>) = (fold set_opt ops c)\<lparr>offset := n\<rparr>"
  by (induction ops arbitrary: c) (auto simp: set_opt_commutes)

lemma common_step:
  assumes "argv = pre @ show_opt op @ post" "length pre = offset c + 1" "post \<noteq> []" "opt_free op c" "length argv \<noteq> 2"
  shows "common_loop argv c = common_loop argv ((set_opt op c)\<lparr>offset := offset c + length (show_opt op)\<rparr>)"
proof -
  have k: "argv ! (offset c + 1) = hd (show_opt op)" "offset c + 1 < length argv"
    using assms(1,2) by (cases op; simp add: nth_append)+
  have t: "op = Title x \<or> op = Backtitle x \<Longrightarrow> argv ! (offset c + 2) = x \<and> offset c + 2 < length argv" for x
    using assms(1-3) by (cases op) (auto simp: nth_append)
  have l: "2 \<le> length argv - offset c" "op \<noteq> Clear \<Longrightarrow> 3 \<le> length argv - offset c"
    using assms(1-3) by (cases op; cases post; simp)+
  show ?thesis
    using k t l assms(4,5) by (subst common_loop.simps) (cases op; simp add: arg_at_def)
qed

lemma common_loop_opts:
  "argv = pre @ show_opts ops @ post \<Longrightarrow> length pre = offset c + 1 \<Longrightarrow> post \<noteq> [] \<Longrightarrow> \<not> common_option (hd post) \<Longrightarrow>
   opts_once ops c \<Longrightarrow> length argv \<noteq> 2 \<or> ops = [] \<Longrightarrow>
   common_loop argv c = Parsed ((set_opts ops c)\<lparr>offset := offset c + length (show_opts ops)\<rparr>)"
proof (induction ops arbitrary: pre c)
  case Nil
  have "argv ! (offset c + 1) = hd post" using Nil by (simp add: show_opts_def nth_append hd_conv_nth)
  then show ?case using Nil
    by (subst common_loop.simps) (auto simp: common_option_def show_opts_def set_opts_def)
next
  case (Cons op ops)
  let ?c = "(set_opt op c)\<lparr>offset := offset c + length (show_opt op)\<rparr>"
  have a: "argv = pre @ show_opt op @ show_opts ops @ post" using Cons.prems(1) by (simp add: show_opts_def)
  have "common_loop argv c = common_loop argv ?c"
    using common_step [OF a Cons.prems(2)] Cons.prems(3,5,6) by auto
  also have "\<dots> = Parsed ((set_opts ops ?c)\<lparr>offset := offset ?c + length (show_opts ops)\<rparr>)"
    using Cons.IH [of "pre @ show_opt op" ?c] Cons.prems a by (auto simp: opts_once_offset)
  finally show ?case by (simp add: set_opts_def show_opts_def fold_set_opt_offset)
qed

lemma confdialog_options:
  assumes "opts_once ops no_common" "rest \<noteq> []" "\<not> common_option (hd rest)" "common_loop (name # show_opts ops @ rest) no_common = r"
  shows "r = Parsed ((set_opts ops no_common)\<lparr>offset := length (show_opts ops)\<rparr>)"
proof -
  have "length (name # show_opts ops @ rest) \<noteq> 2 \<or> ops = []"
    using assms(2) by (cases ops; cases rest; cases "hd ops") (auto simp: show_opts_def)
  then show ?thesis
    using common_loop_opts [of "name # show_opts ops @ rest" "[name]" ops rest no_common] assms
    by (simp add: no_common_def)
qed

section \<open>Which box is opened\<close>

definition chosen_box :: "string \<Rightarrow> nat \<Rightarrow> mode_entry option" where
  "chosen_box name n =
     (case find (\<lambda>m. mode_name m = name) modes of
        None \<Rightarrow> None
      | Some m \<Rightarrow> if n < argmin m \<or> (argmax m \<noteq> 0 \<and> n > argmax m) then None else Some m)"

lemma confdialog_box:
  assumes "opts_once ops no_common" "\<not> common_option box"
  shows "confdialog wd (name # show_opts ops @ box # args) keys =
    (case chosen_box box (length args + 2) of
       None \<Rightarrow> Usage
     | Some m \<Rightarrow>
         run_box wd ((set_opts ops no_common)\<lparr>offset := length (show_opts ops)\<rparr>) (name # show_opts ops @ box # args) m keys)"
proof -
  let ?argv = "name # show_opts ops @ box # args"
  let ?c = "(set_opts ops no_common)\<lparr>offset := length (show_opts ops)\<rparr>"
  have p: "common_loop ?argv no_common = Parsed ?c"
    using confdialog_options [OF assms(1), of "box # args" name] assms(2) by simp
  have o: "offset ?c = length (show_opts ops)" by simp
  have a: "arg_at ?argv (length (show_opts ops) + 1) = Some (Some box)"
    "length ?argv - length (show_opts ops) = length args + 2"
    by (simp_all add: arg_at_def nth_append)
  have n: "(length ?argv < 2) = False" "(length ?argv - 1 = length (show_opts ops)) = False" by simp_all
  show ?thesis
    unfolding confdialog_def p chosen_box_def n parsed.case o a if_False option.case
    by (cases "find (\<lambda>m. mode_name m = box) modes") simp_all
qed

lemma drop_common: "drop (length (show_opts ops)) (name # show_opts ops @ rest) =
    last (name # show_opts ops) # rest"
proof -
  have "drop (length xs) (x # xs @ ys) = last (x # xs) # ys" for x :: 'a and xs ys
    by (induction xs arbitrary: x) auto
  then show ?thesis .
qed

section \<open>Properties\<close>

text \<open>
  Behind any common options, a box is opened exactly if its name is in the table and the number
  of arguments is within the bounds given there; everything else ends with the usage message.
\<close>

theorem confdialog_usage:
  assumes "opts_once ops no_common" "\<not> common_option box"
  shows "confdialog wd (name # show_opts ops @ box # args) keys = Usage \<longleftrightarrow> chosen_box box (length args + 2) = None"
proof -
  have "run_box wd c argv m keys \<noteq> Usage" for c argv m
    by (auto simp: run_box_def Let_def split: ending.splits)
  then show ?thesis by (simp add: confdialog_box [OF assms] split: option.splits)
qed

definition some_world :: world where
  "some_world = \<lparr>tty = term80, read_file = (\<lambda>f. None), saved_scroll = None\<rparr>"

theorem confdialog_usage_witness:
  "confdialog some_world [''dialog'', ''--title'', ''T'', ''--clear'', ''--yesno'', ''Really?'', ''7''] [] = Usage"
  using confdialog_usage [of "[Title ''T'', Clear]" "''--yesno''" some_world "''dialog''" "[''Really?'', ''7'']" "[]"]
  by (simp add: show_opts_def no_common_def common_option_def chosen_box_def modes_def)

lemma pairs_of_concat: "pairs_of (length its) (concat (map (\<lambda>(t, i). [t, i]) its)) = Some its"
  by (induction its) auto

lemma length_pairs: "length (concat (map (\<lambda>(t, i). [t, i]) its)) = 2 * length its"
  by (induction its) auto

lemma run_box_drop:
  "run_box wd (c\<lparr>offset := length (show_opts ops)\<rparr>) (name # show_opts ops @ rest) m keys =
     (let scr = init_dialog (LINES (tty wd)) (COLS (tty wd)) (colored (tty wd)) (backtitle c) in
      case jump (jumper m) wd (title c) (last (name # show_opts ops) # rest) scr keys of
        Waits \<Rightarrow> Waiting
      | Returns r out s \<Rightarrow>
          Exit r out (s @
            (if clear_screen c
             then attr_clear Stdscr (LINES (tty wd)) (COLS (tty wd)) screen_attr @ [Wrefresh Stdscr] else []) @
            end_dialog)
      | Dies msg \<Rightarrow> Error_exit msg
      | Undefined \<Rightarrow> Crash)"
proof -
  have s: "offset (c\<lparr>offset := n\<rparr>) = n" "title (c\<lparr>offset := n\<rparr>) = title c" "backtitle (c\<lparr>offset := n\<rparr>) = backtitle c"
    "clear_screen (c\<lparr>offset := n\<rparr>) = clear_screen c" for n by simp_all
  show ?thesis unfolding run_box_def s drop_common by (rule refl)
qed

text \<open>
  C30: the whole program on a menu: after movement keys and enter it prints the tag of the item under
  the cursor and exits with 0, whatever common options are given.
\<close>

theorem confdialog_menu:
  assumes "opts_once ops no_common" "its \<noteq> []" "6 \<le> atoi w" "0 < atoi mh" "length prompt \<le> MAX_LEN"
    and "list_all is_nav ks"
    and "p = foldl (\<lambda>p k. move_cursor (int (length its)) (min (atoi mh) (int (length its))) k p)
               (current_index 0 0 current its) ks"
  shows "\<exists>scr. confdialog wd
      (name # show_opts ops @ [''--menu'', prompt, h, w, mh, current] @ concat (map (\<lambda>(t, i). [t, i]) its))
      (ks @ [NEWLINE]) = Exit 0 (fst (its ! nat p) @ ''\<newline>'') scr"
proof -
  let ?its = "concat (map (\<lambda>(t, i). [t, i]) its)"
  let ?args = "[prompt, h, w, mh, current] @ ?its"
  let ?c = "set_opts ops no_common"
  let ?av = "last (name # show_opts ops) # ''--menu'' # ?args"
  let ?scr = "init_dialog (LINES (tty wd)) (COLS (tty wd)) (colored (tty wd)) (backtitle ?c)"
  have "length its \<noteq> 0" using assms(2) by simp
  then have box: "chosen_box ''--menu'' (length ?args + 2) = Some (hd modes)"
    by (simp add: chosen_box_def modes_def length_pairs)
  have j: "jumper (hd modes) = J_menu" by (simp add: modes_def)
  have n: "(length ?av - 6) div 2 = length its" "drop 7 ?av = ?its" by (simp_all add: length_pairs)
  obtain s where "dialog_menu (tty wd) (title ?c) prompt (atoi h) (atoi w) (atoi mh) current its (saved_scroll wd) ?scr
      (ks @ [NEWLINE]) = Finish (0, fst (its ! nat p) @ ''\<newline>'', s)"
    using menu_prints [OF assms(2-7)] by blast
  then have "j_menu wd (title ?c) ?av ?scr (ks @ [NEWLINE]) = Returns 0 (fst (its ! nat p) @ ''\<newline>'') s"
    unfolding j_menu_def n pairs_of_concat by (simp add: eval_nat_numeral)
  moreover have "\<not> common_option ''--menu''" by (simp add: common_option_def)
  ultimately show ?thesis
    using confdialog_box [OF assms(1), of "''--menu''" wd name ?args "ks @ [NEWLINE]"] box j
    by (simp add: run_box_drop Let_def)
qed

theorem confdialog_menu_witness:
  "\<exists>scr. confdialog some_world
      [''dialog'', ''--backtitle'', ''T2'', ''--menu'', ''Pick'', ''15'', ''40'', ''2'', ''b'', ''a'', ''Apple'', ''b'', ''Bear'', ''c'', ''Cat'']
      [KEY_DOWN, NEWLINE] = Exit 0 ''c\<newline>'' scr"
proof -
  let ?its = "[(''a'', ''Apple''), (''b'', ''Bear''), (''c'', ''Cat'')]"
  have "atoi ''40'' = 40" "atoi ''2'' = 2" by code_simp+
  then have a: "6 \<le> atoi ''40''" "0 < atoi ''2''" "atoi ''2'' = 2" by simp_all
  have b: "opts_once [Backtitle ''T2''] no_common" "?its \<noteq> []" "length ''Pick'' \<le> MAX_LEN" "list_all is_nav [KEY_DOWN]"
    by (simp_all add: no_common_def MAX_LEN_def is_nav_def Menubox.is_down_def)
  have "move_cursor 3 2 KEY_DOWN 1 = 2"
    by (simp add: move_cursor_def Menubox.is_up_def Menubox.is_down_def is_key_def code_def key_defs)
  moreover have "current_index 0 0 ''b'' ?its = 1" by simp
  ultimately have "2 = foldl (\<lambda>p k. move_cursor (int (length ?its)) (min (atoi ''2'') (int (length ?its))) k p)
      (current_index 0 0 ''b'' ?its) [KEY_DOWN]"
    by (simp add: a(3))
  from confdialog_menu [OF b(1,2) a(1,2) b(3,4) this, of some_world "''dialog''" "''15''"]
  show ?thesis by (simp add: show_opts_def)
qed

text \<open>
  An item of a menu without its label (an odd number of arguments behind the active item) is not
  refused: the null pointer behind the arguments is used as label.
\<close>

theorem menu_odd_arguments:
  assumes "opts_once ops no_common" "odd (length as)" "3 \<le> length as"
  shows "confdialog wd (name # show_opts ops @ [''--menu'', prompt, h, w, mh, current] @ as) keys = Crash"
proof -
  let ?args = "[prompt, h, w, mh, current] @ as"
  have box: "chosen_box ''--menu'' (length ?args + 2) = Some (hd modes)"
    using assms(3) by (simp add: chosen_box_def modes_def)
  have "pairs_of n as = None" if "length as < 2 * n" for n
    using that by (induction n as rule: pairs_of.induct) auto
  moreover have "length as < 2 * ((length as + 1) div 2)" using assms(2) by (auto elim!: oddE)
  ultimately have pn: "pairs_of ((length as + 1) div 2) as = None" by blast
  have "j_menu wd t (x # ''--menu'' # ?args) scr keys = Undefined" for t x scr
    using pn by (simp add: j_menu_def)
  moreover have "\<not> common_option ''--menu''" "jumper (hd modes) = J_menu" by (simp_all add: common_option_def modes_def)
  ultimately show ?thesis
    using confdialog_box [OF assms(1), of "''--menu''" wd name ?args keys] box
    by (simp add: run_box_drop Let_def)
qed

theorem menu_odd_arguments_witness:
  "confdialog some_world [''dialog'', ''--menu'', ''Pick'', ''15'', ''40'', ''2'', ''b'', ''a'', ''Apple'', ''b''] [] = Crash"
  using menu_odd_arguments [of "[]" "[''a'', ''Apple'', ''b'']" some_world "''dialog''" "''Pick''" "''15''" "''40''" "''2''" "''b''" "[]"]
  by (simp add: show_opts_def)

lemma format_alone_plain: "CHR ''%'' \<notin> set t \<Longrightarrow> format_alone t = Some t"
  by (induction t) auto

text \<open>
  The whole program on an input line: the typed text is printed behind the initial text, but as a
  format string: a text with a lone percent sign is undefined behaviour.
\<close>

theorem confdialog_input:
  assumes "opts_once ops no_common" "length prompt \<le> MAX_LEN" "8 \<le> atoi w" "atoi w \<le> int MAX_LEN + 7"
    and "list_all (\<lambda>c. key_isprint (code c)) cs" "length (init @ cs) \<le> MAX_LEN" "Inputbox.NUL \<notin> set init"
    and "argv = name # show_opts ops @ [''--inputbox'', prompt, h, w, init]" "keys = map code cs @ [NEWLINE]"
  shows "(CHR ''%'' \<notin> set (init @ cs) \<longrightarrow> (\<exists>scr. confdialog wd argv keys = Exit 0 (init @ cs) scr)) \<and>
    (format_alone (init @ cs) = None \<longrightarrow> confdialog wd argv keys = Crash)"
proof -
  let ?args = "[prompt, h, w, init]"
  let ?c = "set_opts ops no_common"
  let ?av = "last (name # show_opts ops) # ''--inputbox'' # ?args"
  let ?scr = "init_dialog (LINES (tty wd)) (COLS (tty wd)) (colored (tty wd)) (backtitle ?c)"
  have box: "chosen_box ''--inputbox'' (length ?args + 2) = Some (modes ! 5)" "jumper (modes ! 5) = J_inputbox"
    by (simp_all add: chosen_box_def modes_def)
  have s: "start_text (Some init) = init" by (simp add: start_text_def)
  have k: "take (kept (atoi w - 6) (init @ cs) 0) (init @ cs) = init @ cs" by (simp add: kept_def)
  obtain s where s: "dialog_inputbox (tty wd) (title ?c) prompt (atoi h) (atoi w) (Some init) ?scr keys =
      Finish (0, init @ cs, s)"
    using conjunct1 [OF input_prints [OF assms(2-5), of "Some init" "init @ cs" "tty wd" "title ?c" "atoi h" ?scr 0]]
      assms(6,7,9) unfolding s k by auto
  have j: "j_inputbox wd (title ?c) ?av ?scr keys =
      (case format_alone (init @ cs) of None \<Rightarrow> Undefined | Some o1 \<Rightarrow> Returns 0 o1 s)"
    using s by (simp add: j_inputbox_def eval_nat_numeral)
  have "\<not> common_option ''--inputbox''" by (simp add: common_option_def)
  then have "confdialog wd argv keys =
      run_box wd (?c\<lparr>offset := length (show_opts ops)\<rparr>) (name # show_opts ops @ ''--inputbox'' # ?args) (modes ! 5) keys"
    using confdialog_box [OF assms(1), of "''--inputbox''" wd name ?args keys] box(1) assms(8) by simp
  then have e: "confdialog wd argv keys = (case format_alone (init @ cs) of None \<Rightarrow> Crash | Some o1 \<Rightarrow>
      Exit 0 o1 (s @ (if clear_screen ?c then attr_clear Stdscr (LINES (tty wd)) (COLS (tty wd)) screen_attr @ [Wrefresh Stdscr] else []) @
            end_dialog))"
    unfolding run_box_drop Let_def box(2) jump.simps j by (simp split: option.splits)
  show ?thesis using format_alone_plain [of "init @ cs"] unfolding e by auto
qed

theorem confdialog_input_witness:
  "(\<exists>scr. confdialog some_world [''dialog'', ''--inputbox'', ''Name'', ''8'', ''30'', ''ab''] [99, NEWLINE] = Exit 0 ''abc'' scr) \<and>
    confdialog some_world [''dialog'', ''--inputbox'', ''Name'', ''8'', ''30'', ''100''] [37, NEWLINE] = Crash"
proof -
  have a: "atoi ''30'' = 30" by code_simp
  have c: "map code ''c'' = [99]" "map code ''%'' = [37]" by (simp_all add: code_def)
  have f: "format_alone ''100%'' = None" by simp
  have m: "length ''Name'' \<le> MAX_LEN" "8 \<le> atoi ''30''" "atoi ''30'' \<le> int MAX_LEN + 7" "opts_once [] no_common"
    by (simp_all add: a MAX_LEN_def)
  have "list_all (\<lambda>c. key_isprint (code c)) ''c''" "length (''ab'' @ ''c'') \<le> MAX_LEN" "Inputbox.NUL \<notin> set ''ab''"
    by (simp_all add: code_def key_isprint_def MAX_LEN_def Inputbox.NUL_def)
  note 1 = confdialog_input [OF m(4,1,2,3) this refl refl, of some_world "''dialog''" "''8''"]
  have "list_all (\<lambda>c. key_isprint (code c)) ''%''" "length (''100'' @ ''%'') \<le> MAX_LEN" "Inputbox.NUL \<notin> set ''100''"
    by (simp_all add: code_def key_isprint_def MAX_LEN_def Inputbox.NUL_def)
  note 2 = confdialog_input [OF m(4,1,2,3) this refl refl, of some_world "''dialog''" "''8''"]
  show ?thesis using conjunct1 [OF 1] conjunct2 [OF 2] f unfolding c by (simp add: show_opts_def)
qed

text \<open>The null pointer behind a last \<^verbatim>\<open>--backtitle\<close> is skipped together with the end of the arguments.\<close>

lemma backtitle_last_overruns: "confdialog wd [name, ''--backtitle''] keys = Crash"
  by (simp add: confdialog_def common_loop.simps no_common_def arg_at_def)

end
