(* ===== verification/IfEnslave.thy ===== *)
theory IfEnslave
  imports CLib
begin

unbundle bit_operations_syntax

text \<open>
  \<^verbatim>\<open>package/network/ifenslave/ifenslave.c\<close>: attach network interfaces to a bonding master.

  The program talks to the kernel by \<^verbatim>\<open>ioctl\<close> on a \<^verbatim>\<open>struct ifreq\<close>.  The kernel is the parameter
  \<open>'k sys\<close>: a call gives a new kernel state and either an error number or the request
  structure as it is afterwards (the members of the union that the program uses are fields).
  \<open>'k prog\<close> holds the global variables, all calls made so far and the messages.  The reports
  of the verbose mode (\<^verbatim>\<open>v_print\<close>) change nothing and are left out, as is the list of interfaces
  when it does not fit into the buffer of \<^verbatim>\<open>if_print\<close>.
\<close>

section \<open>The kernel\<close>

record sockaddr =
  family :: int
  sa_data :: "int list"

record ifreq =
  ifr_name :: string
  ifr_flags :: int
  ifr_mtu :: int
  ifr_metric :: int
  ifr_addr :: sockaddr
  ifr_slave :: string
  ifr_info :: string

datatype ioctl_code =
    SIOCGIFFLAGS | SIOCGIFADDR | SIOCGIFHWADDR | SIOCGIFMETRIC | SIOCGIFMTU | SIOCGIFDSTADDR
  | SIOCGIFBRDADDR | SIOCGIFNETMASK | SIOCETHTOOL
  | SIOCBONDCHANGEACTIVE | BOND_CHANGE_ACTIVE_OLD | SIOCBONDENSLAVE | BOND_ENSLAVE_OLD
  | SIOCBONDRELEASE | BOND_RELEASE_OLD
  | SIOCSIFFLAGS | SIOCSIFMTU | SIOCSIFHWADDR | SIOCSIFADDR | SIOCSIFDSTADDR | SIOCSIFBRDADDR
  | SIOCSIFNETMASK

record 'k sys =
  ioctl :: "'k \<Rightarrow> ioctl_code \<Rightarrow> ifreq \<Rightarrow> 'k \<times> (int + ifreq)"
  ifconf :: "'k \<Rightarrow> 'k \<times> (int + string list)"
  socket_ok :: bool
  bond_abi_version :: int

datatype message =
    Usage_msg | Version_msg | Help_msg | Socket_failed | Conf_failed
  | Handshake_failed string | Settings_failed string int | Not_master string | Not_up string
  | Not_ethernet string | Flags_failed string | Change_failed string string
  | Release_failed string string | Enslave_failed string string | Not_slave string | Already_slave string
  | Down_failed string | Up_failed string | Address_failed string | Clear_failed string
  | Mtu_failed string | Hwaddr_failed string | Unknown_interface string
  | Flags_are string int | Address_is "int list" | Hwaddr_is int "int list"

record 'k prog =
  kern :: 'k
  calls :: "(ioctl_code \<times> ifreq) list"
  said :: "message list"
  abi_ver :: int
  hwaddr_set :: bool
  master_mtu :: ifreq
  master_flags :: ifreq
  master_hwaddr :: ifreq
  slave_mtu :: ifreq
  slave_flags :: ifreq
  slave_hwaddr :: ifreq

definition AF_INET :: int where "AF_INET = 2"
definition EOPNOTSUPP :: int where "EOPNOTSUPP = 95"
definition IFF_UP :: int where "IFF_UP = 1"
definition IFF_MASTER :: int where "IFF_MASTER = 0x400"
definition IFF_SLAVE :: int where "IFF_SLAVE = 0x800"

definition no_addr :: sockaddr where
  "no_addr = \<lparr>family = 0, sa_data = replicate 14 0\<rparr>"

definition inet_zero :: sockaddr where
  "inet_zero = \<lparr>family = AF_INET, sa_data = replicate 14 0\<rparr>"

definition no_ifreq :: ifreq where
  "no_ifreq = \<lparr>ifr_name = [], ifr_flags = 0, ifr_mtu = 0, ifr_metric = 0, ifr_addr = no_addr, ifr_slave = [], ifr_info = []\<rparr>"

text \<open>\<^verbatim>\<open>strncpy (ifr.ifr_name, name, IFNAMSIZ)\<close>\<close>

definition named :: "string \<Rightarrow> ifreq \<Rightarrow> ifreq" where
  "named n r = r\<lparr>ifr_name := take 16 n\<rparr>"

definition call :: "'k sys \<Rightarrow> ioctl_code \<Rightarrow> ifreq \<Rightarrow> 'k prog \<Rightarrow> (int + ifreq) \<times> 'k prog" where
  "call sys rq r s =
     (case ioctl sys (kern s) rq r of (k, x) \<Rightarrow> (x, s\<lparr>kern := k, calls := calls s @ [(rq, r)]\<rparr>))"

definition say :: "message \<Rightarrow> 'k prog \<Rightarrow> 'k prog" where
  "say m s = s\<lparr>said := said s @ [m]\<rparr>"

text \<open>A request whose answer is not used: 0 or -1.\<close>

definition request :: "'k sys \<Rightarrow> ioctl_code \<Rightarrow> ifreq \<Rightarrow> 'k prog \<Rightarrow> int \<times> 'k prog" where
  "request sys rq r s = (case call sys rq r s of (Inl e, s1) \<Rightarrow> (-1, s1) | (Inr r1, s1) \<Rightarrow> (0, s1))"

text \<open>\<open>A\<close>, and if it fails \<open>B\<close>; the result says whether both failed.\<close>

definition both_fail :: "'k sys \<Rightarrow> ioctl_code \<Rightarrow> ioctl_code \<Rightarrow> ifreq \<Rightarrow> 'k prog \<Rightarrow> bool \<times> 'k prog" where
  "both_fail sys a b r s =
     (case request sys a r s of
        (n, s1) \<Rightarrow>
          (if n < 0 then (case request sys b r s1 of (m, s2) \<Rightarrow> (m < 0, s2)) else (False, s1)))"

section \<open>Settings of one interface\<close>

definition set_if_flags :: "'k sys \<Rightarrow> string \<Rightarrow> int \<Rightarrow> 'k prog \<Rightarrow> int \<times> 'k prog" where
  "set_if_flags sys n flags = request sys SIOCSIFFLAGS (named n (no_ifreq\<lparr>ifr_flags := flags\<rparr>))"

definition set_if_up :: "'k sys \<Rightarrow> string \<Rightarrow> int \<Rightarrow> 'k prog \<Rightarrow> int \<times> 'k prog" where
  "set_if_up sys n flags = set_if_flags sys n (flags OR IFF_UP)"

definition set_if_down :: "'k sys \<Rightarrow> string \<Rightarrow> int \<Rightarrow> 'k prog \<Rightarrow> int \<times> 'k prog" where
  "set_if_down sys n flags = set_if_flags sys n (flags AND NOT IFF_UP)"

definition set_slave_mtu :: "'k sys \<Rightarrow> string \<Rightarrow> int \<Rightarrow> 'k prog \<Rightarrow> int \<times> 'k prog" where
  "set_slave_mtu sys n mtu = request sys SIOCSIFMTU (named n (no_ifreq\<lparr>ifr_mtu := mtu\<rparr>))"

definition set_master_hwaddr :: "'k sys \<Rightarrow> string \<Rightarrow> sockaddr \<Rightarrow> 'k prog \<Rightarrow> int \<times> 'k prog" where
  "set_master_hwaddr sys n a = request sys SIOCSIFHWADDR (named n (no_ifreq\<lparr>ifr_addr := a\<rparr>))"

definition set_slave_hwaddr :: "'k sys \<Rightarrow> string \<Rightarrow> sockaddr \<Rightarrow> 'k prog \<Rightarrow> int \<times> 'k prog" where
  "set_slave_hwaddr sys n a = request sys SIOCSIFHWADDR (named n (no_ifreq\<lparr>ifr_addr := a\<rparr>))"

definition clear_if_addr :: "'k sys \<Rightarrow> string \<Rightarrow> 'k prog \<Rightarrow> int \<times> 'k prog" where
  "clear_if_addr sys n = request sys SIOCSIFADDR (named n (no_ifreq\<lparr>ifr_addr := inet_zero\<rparr>))"

definition addr_requests :: "(ioctl_code \<times> ioctl_code) list" where
  "addr_requests =
     [(SIOCGIFADDR, SIOCSIFADDR), (SIOCGIFDSTADDR, SIOCSIFDSTADDR),
      (SIOCGIFBRDADDR, SIOCSIFBRDADDR), (SIOCGIFNETMASK, SIOCSIFNETMASK)]"

fun copy_addrs :: "'k sys \<Rightarrow> string \<Rightarrow> string \<Rightarrow> (ioctl_code \<times> ioctl_code) list \<Rightarrow> ifreq \<Rightarrow> 'k prog \<Rightarrow> int \<times> 'k prog" where
  "copy_addrs sys m n [] r s = (0, s)"
| "copy_addrs sys m n ((g, st) # rs) r s =
     (case call sys g (named m r) s of
        (x, s1) \<Rightarrow>
          (let r1 = (case x of Inl e \<Rightarrow> (named m r)\<lparr>ifr_addr := inet_zero\<rparr> | Inr r' \<Rightarrow> r');
               r2 = named n r1
           in case call sys st r2 s1 of
                (Inl e, s2) \<Rightarrow> (-1, s2)
              | (Inr r3, s2) \<Rightarrow> copy_addrs sys m n rs r3 s2))"

definition set_if_addr :: "'k sys \<Rightarrow> string \<Rightarrow> string \<Rightarrow> 'k prog \<Rightarrow> int \<times> 'k prog" where
  "set_if_addr sys m n = copy_addrs sys m n addr_requests no_ifreq"

section \<open>Reading settings\<close>

definition get_slave_flags :: "'k sys \<Rightarrow> string \<Rightarrow> 'k prog \<Rightarrow> int \<times> 'k prog" where
  "get_slave_flags sys n s =
     (let s0 = s\<lparr>slave_flags := named n (slave_flags s)\<rparr> in
      case call sys SIOCGIFFLAGS (slave_flags s0) s0 of
        (Inl e, s1) \<Rightarrow> (-1, s1)
      | (Inr r, s1) \<Rightarrow> (0, s1\<lparr>slave_flags := r\<rparr>))"

text \<open>The rows of the tables \<^verbatim>\<open>master_ifra\<close> and \<^verbatim>\<open>slave_ifra\<close>: variable and request.\<close>

datatype variable = Mtu | Flags | Hwaddr

definition ifra :: "(variable \<times> ioctl_code) list" where
  "ifra = [(Mtu, SIOCGIFMTU), (Flags, SIOCGIFFLAGS), (Hwaddr, SIOCGIFHWADDR)]"

fun get_var :: "bool \<Rightarrow> variable \<Rightarrow> 'k prog \<Rightarrow> ifreq" where
  "get_var master Mtu s = (if master then master_mtu s else slave_mtu s)"
| "get_var master Flags s = (if master then master_flags s else slave_flags s)"
| "get_var master Hwaddr s = (if master then master_hwaddr s else slave_hwaddr s)"

fun set_var :: "bool \<Rightarrow> variable \<Rightarrow> ifreq \<Rightarrow> 'k prog \<Rightarrow> 'k prog" where
  "set_var master Mtu r s = (if master then s\<lparr>master_mtu := r\<rparr> else s\<lparr>slave_mtu := r\<rparr>)"
| "set_var master Flags r s = (if master then s\<lparr>master_flags := r\<rparr> else s\<lparr>slave_flags := r\<rparr>)"
| "set_var master Hwaddr r s = (if master then s\<lparr>master_hwaddr := r\<rparr> else s\<lparr>slave_hwaddr := r\<rparr>)"

fun settings_loop :: "'k sys \<Rightarrow> bool \<Rightarrow> string \<Rightarrow> (variable \<times> ioctl_code) list \<Rightarrow> 'k prog \<Rightarrow> int \<times> 'k prog" where
  "settings_loop sys master n [] s = (0, s)"
| "settings_loop sys master n ((v, rq) # vs) s =
     (let s0 = set_var master v (named n (get_var master v s)) s in
      case call sys rq (get_var master v s0) s0 of
        (Inl e, s1) \<Rightarrow> (e, s1)
      | (Inr r, s1) \<Rightarrow> settings_loop sys master n vs (set_var master v r s1))"

definition get_if_settings :: "'k sys \<Rightarrow> bool \<Rightarrow> string \<Rightarrow> 'k prog \<Rightarrow> int \<times> 'k prog" where
  "get_if_settings sys master n = settings_loop sys master n ifra"

section \<open>Handshake with the driver\<close>

text \<open>\<^verbatim>\<open>strtoul (s, &endptr, 0)\<close>: the value modulo the word size and the rest of the text.\<close>

definition digit_of :: "int \<Rightarrow> char \<Rightarrow> int option" where
  "digit_of base c =
     (let k = code c;
          v = (if 48 \<le> k \<and> k \<le> 57 then k - 48 else if 97 \<le> k \<and> k \<le> 122 then k - 87
               else if 65 \<le> k \<and> k \<le> 90 then k - 55 else 99)
      in if v < base then Some v else None)"

fun read_base :: "int \<Rightarrow> int \<Rightarrow> string \<Rightarrow> int \<times> string" where
  "read_base base acc [] = (acc, [])"
| "read_base base acc (c # cs) =
     (case digit_of base c of None \<Rightarrow> (acc, c # cs) | Some v \<Rightarrow> read_base base (base * acc + v) cs)"

definition read_number :: "string \<Rightarrow> (int \<times> string) option" where
  "read_number s =
     (case s of
        a # b # c # cs \<Rightarrow>
          (if a = CHR ''0'' \<and> (b = CHR ''x'' \<or> b = CHR ''X'') \<and> digit_of 16 c \<noteq> None
           then Some (read_base 16 0 (c # cs))
           else if a = CHR ''0'' then Some (read_base 8 0 s)
           else if c_isdigit a then Some (read_base 10 0 s) else None)
      | a # cs \<Rightarrow>
          (if a = CHR ''0'' then Some (read_base 8 0 s) else if c_isdigit a then Some (read_base 10 0 s) else None)
      | [] \<Rightarrow> None)"

definition strtoul0 :: "string \<Rightarrow> int \<times> string" where
  "strtoul0 s =
     (let t = dropWhile c_isspace s;
          negative = (t \<noteq> [] \<and> hd t = CHR ''-'');
          u = (if t \<noteq> [] \<and> (hd t = CHR ''-'' \<or> hd t = CHR ''+'') then tl t else t)
      in case read_number u of
           None \<Rightarrow> (0, s)
         | Some (v, rest) \<Rightarrow>
             (if v \<ge> 2 ^ 64 then 2 ^ 64 - 1 else if negative then (- v) mod 2 ^ 64 else v, rest))"

definition get_drv_info :: "'k sys \<Rightarrow> string \<Rightarrow> 'k prog \<Rightarrow> int \<times> 'k prog" where
  "get_drv_info sys m s =
     (case call sys SIOCETHTOOL (named m (no_ifreq\<lparr>ifr_info := show_int (bond_abi_version sys)\<rparr>)) s of
        (Inl e, s1) \<Rightarrow> (if e = EOPNOTSUPP then 0 else 1, s1)
      | (Inr r, s1) \<Rightarrow>
          (let (v, rest) = strtoul0 (ifr_info r); s2 = s1\<lparr>abi_ver := to_int32 v\<rparr>
           in (if rest \<noteq> [] then 1 else 0, s2)))"

section \<open>Changing the bond\<close>

definition bond_req :: "string \<Rightarrow> string \<Rightarrow> ifreq" where
  "bond_req m n = named m (no_ifreq\<lparr>ifr_slave := take 16 n\<rparr>)"

definition is_slave :: "'k prog \<Rightarrow> bool" where
  "is_slave s \<longleftrightarrow> ifr_flags (slave_flags s) AND IFF_SLAVE \<noteq> 0"

definition change_active :: "'k sys \<Rightarrow> string \<Rightarrow> string \<Rightarrow> 'k prog \<Rightarrow> int \<times> 'k prog" where
  "change_active sys m n s =
     (if \<not> is_slave s then (1, say (Not_slave n) s)
      else case both_fail sys SIOCBONDCHANGEACTIVE BOND_CHANGE_ACTIVE_OLD (bond_req m n) s of
             (f, s1) \<Rightarrow> (if f then 1 else 0, s1))"

text \<open>Where \<^verbatim>\<open>enslave\<close> goes on when a step has failed.\<close>

datatype label = Go_on | Undo_master_mac | Undo_slave_mac | Undo_mtu

definition rollback :: "'k sys \<Rightarrow> string \<Rightarrow> string \<Rightarrow> label \<Rightarrow> 'k prog \<Rightarrow> 'k prog" where
  "rollback sys m n l s =
     (let s1 = (case l of
                  Undo_master_mac \<Rightarrow>
                    (snd (set_master_hwaddr sys m (ifr_addr (master_hwaddr s)) s))\<lparr>hwaddr_set := False\<rparr>
                | Undo_slave_mac \<Rightarrow> snd (set_slave_hwaddr sys n (ifr_addr (slave_hwaddr s)) s)
                | _ \<Rightarrow> s)
      in snd (set_slave_mtu sys n (ifr_mtu (slave_mtu s1)) s1))"

text \<open>The hardware addresses: the result, where to go, and the new state.\<close>

definition old_slave_addr :: "'k sys \<Rightarrow> string \<Rightarrow> 'k prog \<Rightarrow> int \<times> label \<times> 'k prog" where
  "old_slave_addr sys n s =
     (case set_slave_hwaddr sys n (ifr_addr (master_hwaddr s)) s of
        (r, s1) \<Rightarrow>
          (if r \<noteq> 0 then (r, Undo_mtu, say (Hwaddr_failed n) s1)
           else (case set_if_up sys n (ifr_flags (slave_flags s1)) s1 of
                   (r2, s2) \<Rightarrow>
                     (if r2 \<noteq> 0 then (r2, Undo_slave_mac, say (Down_failed n) s2) else (0, Go_on, s2)))))"

definition new_master_addr :: "'k sys \<Rightarrow> string \<Rightarrow> 'k prog \<Rightarrow> int \<times> label \<times> 'k prog" where
  "new_master_addr sys m s =
     (case (if abi_ver s < 1 then set_if_down sys m (ifr_flags (master_flags s)) s else (0, s)) of
        (r0, s0) \<Rightarrow>
          (if r0 \<noteq> 0 then (r0, Undo_mtu, say (Down_failed m) s0)
           else
             (case set_master_hwaddr sys m (ifr_addr (slave_hwaddr s0)) s0 of
                (r1, s1) \<Rightarrow>
                  (if r1 \<noteq> 0 then (r1, Undo_mtu, say (Hwaddr_failed m) s1)
                   else
                     (case (if abi_ver s1 < 1 then set_if_up sys m (ifr_flags (master_flags s1)) s1 else (0, s1)) of
                        (r2, s2) \<Rightarrow>
                          (if r2 \<noteq> 0 then (r2, Undo_master_mac, say (Up_failed m) s2)
                           else (0, Go_on, s2\<lparr>hwaddr_set := True\<rparr>)))))))"

definition set_hwaddrs :: "'k sys \<Rightarrow> string \<Rightarrow> string \<Rightarrow> 'k prog \<Rightarrow> int \<times> label \<times> 'k prog" where
  "set_hwaddrs sys m n s =
     (if hwaddr_set s then (if abi_ver s < 1 then old_slave_addr sys n s else (0, Go_on, s))
      else new_master_addr sys m s)"

text \<open>Down, addresses and MTU of the slave: the steps that are not undone when they fail.\<close>

definition prepare_slave :: "'k sys \<Rightarrow> string \<Rightarrow> string \<Rightarrow> 'k prog \<Rightarrow> int \<times> 'k prog" where
  "prepare_slave sys m n s =
     (case set_if_down sys n (ifr_flags (slave_flags s)) s of
        (r, s1) \<Rightarrow>
          (if r \<noteq> 0 then (r, say (Down_failed n) s1)
           else
             (case (if abi_ver s1 < 2 then set_if_addr sys m n s1 else clear_if_addr sys n s1) of
                (r2, s2) \<Rightarrow>
                  (if r2 \<noteq> 0 then (r2, say (if abi_ver s2 < 2 then Address_failed n else Clear_failed n) s2)
                   else if ifr_mtu (master_mtu s2) \<noteq> ifr_mtu (slave_mtu s2) then
                     (case set_slave_mtu sys n (ifr_mtu (master_mtu s2)) s2 of
                        (r3, s3) \<Rightarrow> (r3, if r3 \<noteq> 0 then say (Mtu_failed n) s3 else s3))
                   else (0, s2)))))"

definition enslave :: "'k sys \<Rightarrow> string \<Rightarrow> string \<Rightarrow> 'k prog \<Rightarrow> int \<times> 'k prog" where
  "enslave sys m n s =
     (if is_slave s then (1, say (Already_slave n) s)
      else
        (case prepare_slave sys m n s of
           (r, s1) \<Rightarrow>
             (if r \<noteq> 0 then (r, s1)
              else
                (case set_hwaddrs sys m n s1 of
                   (r2, l, s2) \<Rightarrow>
                     (if l \<noteq> Go_on then (r2, rollback sys m n l s2)
                      else
                        (case both_fail sys SIOCBONDENSLAVE BOND_ENSLAVE_OLD (bond_req m n) s2 of
                           (f, s3) \<Rightarrow> if f then (1, rollback sys m n Undo_master_mac s3) else (0, s3)))))))"

definition release :: "'k sys \<Rightarrow> string \<Rightarrow> string \<Rightarrow> 'k prog \<Rightarrow> int \<times> 'k prog" where
  "release sys m n s =
     (if \<not> is_slave s then (1, say (Not_slave n) s)
      else
        (case both_fail sys SIOCBONDRELEASE BOND_RELEASE_OLD (bond_req m n) s of
           (f, s1) \<Rightarrow>
             (if f then (1, s1)
              else
                (case (if abi_ver s1 < 1 then set_if_down sys n (ifr_flags (slave_flags s1)) s1 else (0, s1)) of
                   (r, s2) \<Rightarrow>
                     (r, snd (set_slave_mtu sys n 1500 (if r \<noteq> 0 then say (Down_failed n) s2 else s2)))))))"

section \<open>Showing interfaces\<close>

text \<open>
  The name is copied with \<^verbatim>\<open>strcpy\<close> into 16 characters: no result if it does not fit.  Of the
  values read at the end only the calls remain.
\<close>

fun get_all :: "'k sys \<Rightarrow> string \<Rightarrow> ioctl_code list \<Rightarrow> ifreq \<Rightarrow> 'k prog \<Rightarrow> 'k prog" where
  "get_all sys n [] r s = s"
| "get_all sys n (rq # rqs) r s =
     (case call sys rq (named n r) s of
        (Inl e, s1) \<Rightarrow> get_all sys n rqs (named n r) s1
      | (Inr r1, s1) \<Rightarrow> get_all sys n rqs r1 s1)"

definition if_getconfig :: "'k sys \<Rightarrow> string \<Rightarrow> 'k prog \<Rightarrow> (int \<times> 'k prog) option" where
  "if_getconfig sys n s =
     (if length n \<ge> 16 then None
      else Some
        (case call sys SIOCGIFFLAGS (named n no_ifreq) s of
           (Inl e, s1) \<Rightarrow> (-1, s1)
         | (Inr r1, s1) \<Rightarrow>
             (case call sys SIOCGIFADDR (named n r1) (say (Flags_are n (ifr_flags r1)) s1) of
                (Inl e, s2) \<Rightarrow> (-1, s2)
              | (Inr r2, s2) \<Rightarrow>
                  (case call sys SIOCGIFHWADDR (named n r2) (say (Address_is (take 4 (sa_data (ifr_addr r2)))) s2) of
                     (Inl e, s3) \<Rightarrow> (-1, s3)
                   | (Inr r3, s3) \<Rightarrow>
                       (0, get_all sys n [SIOCGIFMETRIC, SIOCGIFMTU, SIOCGIFDSTADDR, SIOCGIFBRDADDR, SIOCGIFNETMASK] r3
                             (say (Hwaddr_is (family (ifr_addr r3)) (take 6 (sa_data (ifr_addr r3)))) s3))))))"

fun print_all :: "'k sys \<Rightarrow> string list \<Rightarrow> 'k prog \<Rightarrow> 'k prog option" where
  "print_all sys [] s = Some s"
| "print_all sys (n # ns) s =
     (case if_getconfig sys n s of
        None \<Rightarrow> None
      | Some (r, s1) \<Rightarrow> print_all sys ns (if r < 0 then say (Unknown_interface n) s1 else s1))"

definition if_print :: "'k sys \<Rightarrow> string option \<Rightarrow> 'k prog \<Rightarrow> 'k prog option" where
  "if_print sys name s =
     (case name of
        Some n \<Rightarrow> print_all sys [n] s
      | None \<Rightarrow>
          (case ifconf sys (kern s) of
             (k, Inl e) \<Rightarrow> Some (say Conf_failed (s\<lparr>kern := k\<rparr>))
           | (k, Inr ns) \<Rightarrow> print_all sys ns (s\<lparr>kern := k\<rparr>)))"

section \<open>Command line\<close>

definition longopts :: "(string \<times> char) list" where
  "longopts =
     [(''all-interfaces'', CHR ''a''), (''change-active'', CHR ''c''), (''detach'', CHR ''d''),
      (''force'', CHR ''f''), (''help'', CHR ''h''), (''usage'', CHR ''u''),
      (''verbose'', CHR ''v''), (''version'', CHR ''V'')]"

text \<open>
  \<^verbatim>\<open>getopt_long\<close> with this table: the options found (\<open>?\<close> for a bad one) and the other arguments.
  A long option may be abbreviated as long as it is unique and takes no value.
\<close>

definition long_opt :: "string \<Rightarrow> char" where
  "long_opt a =
     (case find (\<lambda>p. fst p = a) longopts of
        Some (n, c) \<Rightarrow> c
      | None \<Rightarrow>
          (case filter (\<lambda>p. take (length a) (fst p) = a) longopts of
             [(n, c)] \<Rightarrow> c
           | _ \<Rightarrow> CHR ''?''))"

definition short_opt :: "char \<Rightarrow> char" where
  "short_opt c = (if c \<in> set ''acdfhuvV'' then c else CHR ''?'')"

fun getopt_long :: "string list \<Rightarrow> string \<times> string list" where
  "getopt_long [] = ([], [])"
| "getopt_long (a # as) =
     (if a = ''--'' then ([], as)
      else
        (let (os, ns) = getopt_long as in
         if take 2 a = ''--'' then (long_opt (drop 2 a) # os, ns)
         else if take 1 a = ''-'' \<and> 1 < length a then (map short_opt (drop 1 a) @ os, ns)
         else (os, a # ns)))"


definition count :: "char \<Rightarrow> string \<Rightarrow> nat" where
  "count c os = length (filter (\<lambda>d. d = c) os)"

definition start :: "'k \<Rightarrow> 'k prog" where
  "start k = \<lparr>kern = k, calls = [], said = [], abi_ver = 0, hwaddr_set = False,
     master_mtu = no_ifreq, master_flags = no_ifreq, master_hwaddr = no_ifreq,
     slave_mtu = no_ifreq, slave_flags = no_ifreq, slave_hwaddr = no_ifreq\<rparr>"

text \<open>The loop over the slaves; \<open>res\<close> is the last error.\<close>

definition detach_one :: "'k sys \<Rightarrow> string \<Rightarrow> string \<Rightarrow> 'k prog \<Rightarrow> int \<times> 'k prog" where
  "detach_one sys m n s =
     (case get_slave_flags sys n s of
        (r, s1) \<Rightarrow>
          (if r \<noteq> 0 then (r, say (Flags_failed n) s1)
           else case release sys m n s1 of
                  (r2, s2) \<Rightarrow> (r2, if r2 \<noteq> 0 then say (Release_failed m n) s2 else s2)))"

definition attach_one :: "'k sys \<Rightarrow> string \<Rightarrow> string \<Rightarrow> 'k prog \<Rightarrow> int \<times> 'k prog" where
  "attach_one sys m n s =
     (case get_if_settings sys False n s of
        (r, s1) \<Rightarrow>
          (if r \<noteq> 0 then (r, say (Settings_failed n r) s1)
           else case enslave sys m n s1 of
                  (r2, s2) \<Rightarrow> (r2, if r2 \<noteq> 0 then say (Enslave_failed m n) s2 else s2)))"

fun slaves_loop :: "'k sys \<Rightarrow> bool \<Rightarrow> string \<Rightarrow> string list \<Rightarrow> int \<Rightarrow> 'k prog \<Rightarrow> int \<times> 'k prog" where
  "slaves_loop sys detach m [] res s = (res, s)"
| "slaves_loop sys detach m (n # ns) res s =
     (case (if detach then detach_one sys m n s else attach_one sys m n s) of
        (r, s1) \<Rightarrow> slaves_loop sys detach m ns (if r \<noteq> 0 then r else res) s1)"

definition check_hwaddr :: "'k prog \<Rightarrow> 'k prog" where
  "check_hwaddr s =
     (if list_ex (\<lambda>b. b \<noteq> 0) (take 6 (sa_data (ifr_addr (master_hwaddr s)))) then s\<lparr>hwaddr_set := True\<rparr> else s)"

text \<open>With a master that has passed the checks.\<close>

definition work :: "'k sys \<Rightarrow> bool \<Rightarrow> bool \<Rightarrow> bool \<Rightarrow> string \<Rightarrow> string list \<Rightarrow> 'k prog \<Rightarrow> int \<times> 'k prog" where
  "work sys opt_c opt_d opt_f m ns s =
     (if \<not> opt_c \<and> \<not> opt_d \<and> family (ifr_addr (master_hwaddr s)) \<noteq> 1 \<and> \<not> opt_f
      then (1, say (Not_ethernet m) s)
      else
        (let s1 = (if \<not> opt_c \<and> \<not> opt_d then check_hwaddr s else s) in
         if opt_c then
           (case get_slave_flags sys (hd ns) s1 of
              (r, s2) \<Rightarrow>
                (if r \<noteq> 0 then (r, say (Flags_failed (hd ns)) s2)
                 else case change_active sys m (hd ns) s2 of
                        (r2, s3) \<Rightarrow> (r2, if r2 \<noteq> 0 then say (Change_failed m (hd ns)) s3 else s3)))
         else slaves_loop sys opt_d m ns 0 s1))"

definition with_master :: "'k sys \<Rightarrow> bool \<Rightarrow> bool \<Rightarrow> bool \<Rightarrow> string \<Rightarrow> string list \<Rightarrow> 'k prog \<Rightarrow> (int \<times> 'k prog) option" where
  "with_master sys opt_c opt_d opt_f m ns s =
     (case get_drv_info sys m s of
        (r, s1) \<Rightarrow>
          (if r \<noteq> 0 then Some (r, say (Handshake_failed m) s1)
           else if ns = [] then
             (if opt_d \<or> opt_c then Some (2, say Usage_msg s1)
              else map_option (\<lambda>s2. (0, s2)) (if_print sys (Some m) s1))
           else
             (case get_if_settings sys True m s1 of
                (r2, s2) \<Rightarrow>
                  Some
                    (if r2 \<noteq> 0 then (r2, say (Settings_failed m r2) s2)
                     else if ifr_flags (master_flags s2) AND IFF_MASTER = 0 then (1, say (Not_master m) s2)
                     else if ifr_flags (master_flags s2) AND IFF_UP = 0 then (1, say (Not_up m) s2)
                     else work sys opt_c opt_d opt_f m ns s2))))"

definition ifenslave :: "'k sys \<Rightarrow> string list \<Rightarrow> 'k \<Rightarrow> (int \<times> 'k prog) option" where
  "ifenslave sys argv k =
     (let (os, ns) = getopt_long (tl argv);
          opt = (\<lambda>c. 0 < count c os);
          s = (if opt CHR ''v'' \<or> opt CHR ''V'' then say Version_msg (start k) else start k)
      in if CHR ''?'' \<in> set os \<or> length (filter (\<lambda>c. c \<noteq> CHR ''v'') os) > 1 then Some (2, say Usage_msg (start k))
         else if opt CHR ''V'' then Some (0, s)
         else if opt CHR ''u'' then Some (0, say Usage_msg s)
         else if opt CHR ''h'' then Some (0, say Help_msg (say Usage_msg s))
         else if \<not> socket_ok sys then Some (1, say Socket_failed s)
         else if opt CHR ''a'' then
           (if ns = [] then map_option (\<lambda>s1. (0, s1)) (if_print sys None s) else Some (2, say Usage_msg s))
         else
           (case ns of
              [] \<Rightarrow> Some (2, say Usage_msg s)
            | m # ns' \<Rightarrow> with_master sys (opt CHR ''c'') (opt CHR ''d'') (opt CHR ''f'') m ns' s))"

section \<open>Frame conditions\<close>

text \<open>Changing the bond or an interface never touches what was read about the master.\<close>

definition keeps :: "'k prog \<Rightarrow> 'k prog \<Rightarrow> bool" where
  "keeps s s' \<longleftrightarrow> master_flags s' = master_flags s \<and> master_mtu s' = master_mtu s \<and>
     master_hwaddr s' = master_hwaddr s \<and> abi_ver s' = abi_ver s"

text \<open>So does it not touch what was read about the slave.\<close>

definition keeps_slave :: "'k prog \<Rightarrow> 'k prog \<Rightarrow> bool" where
  "keeps_slave s s' \<longleftrightarrow> slave_flags s' = slave_flags s \<and> slave_mtu s' = slave_mtu s \<and>
     slave_hwaddr s' = slave_hwaddr s"

lemma keeps_refl [simp]: "keeps s s" "keeps_slave s s"
  by (simp_all add: keeps_def keeps_slave_def)

lemma keeps_trans: "keeps s t \<Longrightarrow> keeps t u \<Longrightarrow> keeps s u"
  by (simp add: keeps_def)

lemma keeps_slave_trans: "keeps_slave s t \<Longrightarrow> keeps_slave t u \<Longrightarrow> keeps_slave s u"
  by (simp add: keeps_slave_def)

lemma keeps_say [simp]: "keeps s (say m t) = keeps s t" "keeps_slave s (say m t) = keeps_slave s t"
  by (simp_all add: keeps_def keeps_slave_def say_def)

lemma keeps_hwaddr_set [simp]: "keeps s (t\<lparr>hwaddr_set := h\<rparr>) = keeps s t" "keeps_slave s (t\<lparr>hwaddr_set := h\<rparr>) = keeps_slave s t"
  by (simp_all add: keeps_def keeps_slave_def)

definition framed :: "'k prog \<Rightarrow> 'k prog \<Rightarrow> bool" where
  "framed s t \<longleftrightarrow> keeps s t \<and> keeps_slave s t \<and> hwaddr_set t = hwaddr_set s"

lemma framed_refl [simp]: "framed s s" by (simp add: framed_def)

lemma framed_trans: "framed s t \<Longrightarrow> framed t u \<Longrightarrow> framed s u"
  by (auto simp: framed_def intro: keeps_trans keeps_slave_trans)

lemma framed_say [simp]: "framed s (say m t) = framed s t"
  by (simp add: framed_def say_def keeps_def keeps_slave_def)

lemma call_framed: "call sys rq r s = (x, t) \<Longrightarrow> framed s t"
  by (auto simp: call_def framed_def keeps_def keeps_slave_def split: prod.splits)

lemma request_framed: "request sys rq r s = (x, t) \<Longrightarrow> framed s t"
  by (auto simp: request_def dest: call_framed split: prod.splits sum.splits)

lemma both_fail_framed: "both_fail sys a b r s = (x, t) \<Longrightarrow> framed s t"
  by (auto simp: both_fail_def dest!: request_framed intro: framed_trans split: prod.splits if_splits)

lemma setters_framed:
  "set_if_down sys n f s = (x, t) \<Longrightarrow> framed s t" "set_if_up sys n f s = (x, t) \<Longrightarrow> framed s t"
  "set_slave_mtu sys n k s = (x, t) \<Longrightarrow> framed s t" "set_master_hwaddr sys n a s = (x, t) \<Longrightarrow> framed s t"
  "set_slave_hwaddr sys n a s = (x, t) \<Longrightarrow> framed s t" "clear_if_addr sys n s = (x, t) \<Longrightarrow> framed s t"
  by (auto simp: set_if_down_def set_if_up_def set_if_flags_def set_slave_mtu_def set_master_hwaddr_def
      set_slave_hwaddr_def clear_if_addr_def dest: request_framed)

lemma copy_addrs_framed: "copy_addrs sys m n rs r s = (x, t) \<Longrightarrow> framed s t"
proof (induction sys m n rs r s rule: copy_addrs.induct)
  case (2 sys m n g st rs r s)
  then show ?case
    by (auto simp: Let_def dest!: call_framed intro: framed_trans split: prod.splits sum.splits)
qed simp

lemma set_if_addr_framed: "set_if_addr sys m n s = (x, t) \<Longrightarrow> framed s t"
  by (auto simp: set_if_addr_def dest: copy_addrs_framed)

lemmas framed_rules = setters_framed set_if_addr_framed both_fail_framed

lemma prepare_slave_framed: "prepare_slave sys m n s = (x, t) \<Longrightarrow> framed s t"
  by (auto simp: prepare_slave_def dest!: framed_rules split: prod.splits if_splits)
    (meson framed_trans)+

definition framed_hw :: "'k prog \<Rightarrow> 'k prog \<Rightarrow> bool" where
  "framed_hw s t \<longleftrightarrow> keeps s t \<and> keeps_slave s t"

lemma framed_hwI: "framed s t \<Longrightarrow> framed_hw s t"
  by (simp add: framed_def framed_hw_def)

lemma framed_hw_trans: "framed_hw s t \<Longrightarrow> framed_hw t u \<Longrightarrow> framed_hw s u"
  by (auto simp: framed_hw_def intro: keeps_trans keeps_slave_trans)

lemma framed_hw_simps [simp]:
  "framed_hw s s" "framed_hw s (say m t) = framed_hw s t" "framed_hw s (t\<lparr>hwaddr_set := h\<rparr>) = framed_hw s t"
  by (simp_all add: framed_hw_def)

lemma old_slave_addr_framed: "old_slave_addr sys n s = (x, l, t) \<Longrightarrow> framed_hw s t"
  by (auto simp: old_slave_addr_def dest!: framed_rules split: prod.splits if_splits)
    (meson framed_hwI framed_hw_trans)+

lemma new_master_addr_framed: "new_master_addr sys m s = (x, l, t) \<Longrightarrow> framed_hw s t"
  by (auto simp: new_master_addr_def dest!: framed_rules split: prod.splits if_splits)
    (meson framed_hwI framed_hw_trans)+

lemma set_hwaddrs_framed: "set_hwaddrs sys m n s = (x, l, t) \<Longrightarrow> framed_hw s t"
  by (auto simp: set_hwaddrs_def dest: old_slave_addr_framed new_master_addr_framed split: if_splits)

lemma snd_framed:
  "framed s (snd (set_slave_mtu sys n k s))" "framed s (snd (set_master_hwaddr sys n a s))"
  "framed s (snd (set_slave_hwaddr sys n a s))"
  by (metis setters_framed(3-5) prod.collapse)+

lemma rollback_framed: "framed_hw s (rollback sys m n l s)"
proof -
  have "framed_hw s (snd (set_slave_mtu sys n k t))" if "framed_hw s t" for k t
    using that snd_framed(1) framed_hwI framed_hw_trans by blast
  then show ?thesis by (cases l) (simp_all add: rollback_def Let_def framed_hwI snd_framed)
qed

lemma enslave_framed:
  assumes "enslave sys m n s = (x, t)"
  shows "framed_hw s t"
proof (cases "is_slave s")
  case True
  then show ?thesis using assms by (auto simp: enslave_def)
next
  case False
  obtain r1 s1 where p: "prepare_slave sys m n s = (r1, s1)" by fastforce
  obtain r2 l s2 where h: "set_hwaddrs sys m n s1 = (r2, l, s2)" by (metis prod_cases3)
  obtain f s3 where b: "both_fail sys SIOCBONDENSLAVE BOND_ENSLAVE_OLD (bond_req m n) s2 = (f, s3)" by fastforce
  have f: "framed_hw s s1" "framed_hw s s2" "framed_hw s s3"
    using framed_hwI [OF prepare_slave_framed [OF p]] set_hwaddrs_framed [OF h] framed_hwI [OF both_fail_framed [OF b]]
    by (meson framed_hw_trans)+
  then show ?thesis
    using assms False p h b framed_hw_trans [OF _ rollback_framed] by (auto simp: enslave_def split: if_splits)
qed

section \<open>A request that is accepted, and one that is refused\<close>

definition accepted :: "'k sys \<Rightarrow> ioctl_code \<Rightarrow> ifreq \<Rightarrow> bool" where
  "accepted sys rq r \<longleftrightarrow> (\<forall>k. \<exists>k' r'. ioctl sys k rq r = (k', Inr r'))"

definition refused :: "'k sys \<Rightarrow> ioctl_code \<Rightarrow> ifreq \<Rightarrow> bool" where
  "refused sys rq r \<longleftrightarrow> (\<forall>k. \<exists>k' e. ioctl sys k rq r = (k', Inl e))"

text \<open>From \<open>s\<close> to \<open>t\<close> only the calls \<open>qs\<close> are made and no setting that was read is touched.\<close>

definition does :: "'k prog \<Rightarrow> (ioctl_code \<times> ifreq) list \<Rightarrow> 'k prog \<Rightarrow> bool" where
  "does s qs t \<longleftrightarrow> framed s t \<and> calls t = calls s @ qs"

lemma does_nil [simp]: "does s [] s"
  by (simp add: does_def)

lemma does_trans: "does s qs t \<Longrightarrow> does t ps u \<Longrightarrow> does s (qs @ ps) u"
  by (auto simp: does_def intro: framed_trans)

lemma does_say [simp]: "does s qs (say m t) = does s qs t"
  by (simp add: does_def say_def framed_def keeps_def keeps_slave_def)

lemma request_accepted:
  assumes "accepted sys rq r"
  obtains t where "request sys rq r s = (0, t)" "does s [(rq, r)] t"
proof -
  obtain k' r' where "ioctl sys (kern s) rq r = (k', Inr r')"
    using assms by (metis accepted_def)
  then show thesis
    by (intro that [of "s\<lparr>kern := k', calls := calls s @ [(rq, r)]\<rparr>"])
      (cases s, simp_all add: request_def call_def does_def framed_def keeps_def keeps_slave_def)
qed

lemma request_refused:
  assumes "refused sys rq r"
  obtains t where "request sys rq r s = (-1, t)" "does s [(rq, r)] t"
proof -
  obtain k' e where "ioctl sys (kern s) rq r = (k', Inl e)"
    using assms by (metis refused_def)
  then show thesis
    by (intro that [of "s\<lparr>kern := k', calls := calls s @ [(rq, r)]\<rparr>"])
      (cases s, simp_all add: request_def call_def does_def framed_def keeps_def keeps_slave_def)
qed

lemma bond_accepted:
  assumes "accepted sys a r"
  obtains t where "both_fail sys a b r s = (False, t)" "does s [(a, r)] t"
  by (rule request_accepted [OF assms, of s]) (simp add: both_fail_def that)

lemma bond_refused:
  assumes "refused sys a r" "refused sys b r"
  obtains t where "both_fail sys a b r s = (True, t)" "does s [(a, r), (b, r)] t"
proof -
  obtain t where t: "request sys a r s = (-1, t)" "does s [(a, r)] t"
    by (rule request_refused [OF assms(1)])
  obtain u where "request sys b r t = (-1, u)" "does t [(b, r)] u"
    by (rule request_refused [OF assms(2)])
  then show thesis using t does_trans [OF t(2)] by (intro that) (auto simp: both_fail_def)
qed

section \<open>Attaching a slave\<close>

text \<open>What \<open>enslave\<close> asks of a slave with the newer interfaces before the bond is touched.\<close>

definition prepare_requests :: "string \<Rightarrow> 'k prog \<Rightarrow> (ioctl_code \<times> ifreq) list" where
  "prepare_requests n s =
     [(SIOCSIFFLAGS, named n (no_ifreq\<lparr>ifr_flags := ifr_flags (slave_flags s) AND NOT IFF_UP\<rparr>)),
      (SIOCSIFADDR, named n (no_ifreq\<lparr>ifr_addr := inet_zero\<rparr>))] @
     (if ifr_mtu (master_mtu s) \<noteq> ifr_mtu (slave_mtu s)
      then [(SIOCSIFMTU, named n (no_ifreq\<lparr>ifr_mtu := ifr_mtu (master_mtu s)\<rparr>))] else [])"

definition master_requests :: "string \<Rightarrow> 'k prog \<Rightarrow> (ioctl_code \<times> ifreq) list" where
  "master_requests m s =
     (if hwaddr_set s then []
      else [(SIOCSIFHWADDR, named m (no_ifreq\<lparr>ifr_addr := ifr_addr (slave_hwaddr s)\<rparr>))])"

lemma does_fields:
  assumes "does s qs t"
  shows "abi_ver t = abi_ver s" "master_mtu t = master_mtu s" "slave_mtu t = slave_mtu s" "hwaddr_set t = hwaddr_set s"
    "slave_hwaddr t = slave_hwaddr s" "slave_flags t = slave_flags s" "master_hwaddr t = master_hwaddr s"
    "master_flags t = master_flags s"
  using assms by (auto simp: does_def framed_def keeps_def keeps_slave_def)

lemma prepare_accepted:
  assumes "list_all (\<lambda>(rq, r). accepted sys rq r) (prepare_requests n s)" and "2 \<le> abi_ver s"
  obtains t where "prepare_slave sys m n s = (0, t)" "does s (prepare_requests n s) t"
proof -
  let ?r = "named n (no_ifreq\<lparr>ifr_flags := ifr_flags (slave_flags s) AND NOT IFF_UP\<rparr>)"
  let ?a = "named n (no_ifreq\<lparr>ifr_addr := inet_zero\<rparr>)"
  let ?u = "named n (no_ifreq\<lparr>ifr_mtu := ifr_mtu (master_mtu s)\<rparr>)"
  have acc: "accepted sys SIOCSIFFLAGS ?r" "accepted sys SIOCSIFADDR ?a"
    using assms(1) by (simp_all add: prepare_requests_def)
  obtain t1 where t1: "request sys SIOCSIFFLAGS ?r s = (0, t1)" "does s [(SIOCSIFFLAGS, ?r)] t1"
    by (rule request_accepted [OF acc(1)])
  obtain t2 where t2: "request sys SIOCSIFADDR ?a t1 = (0, t2)" "does t1 [(SIOCSIFADDR, ?a)] t2"
    by (rule request_accepted [OF acc(2)])
  note d2 = does_trans [OF t1(2) t2(2), simplified]
  have step: "prepare_slave sys m n s =
      (if ifr_mtu (master_mtu s) \<noteq> ifr_mtu (slave_mtu s) then
         (case request sys SIOCSIFMTU ?u t2 of (r3, s3) \<Rightarrow> (r3, if r3 \<noteq> 0 then say (Mtu_failed n) s3 else s3))
       else (0, t2))"
    using t1 t2 assms(2) does_fields [OF d2] does_fields [OF t1(2)]
    by (simp add: prepare_slave_def set_if_down_def set_if_flags_def clear_if_addr_def set_slave_mtu_def)
  show thesis
  proof (cases "ifr_mtu (master_mtu s) = ifr_mtu (slave_mtu s)")
    case True
    then show thesis using d2 step by (intro that [of t2]) (simp_all add: prepare_requests_def)
  next
    case False
    then have acc3: "accepted sys SIOCSIFMTU ?u"
      using assms(1) by (simp add: prepare_requests_def)
    obtain t3 where t3: "request sys SIOCSIFMTU ?u t2 = (0, t3)" "does t2 [(SIOCSIFMTU, ?u)] t3"
      by (rule request_accepted [OF acc3])
    then show thesis using does_trans [OF d2 t3(2)] step False by (intro that [of t3]) (simp_all add: prepare_requests_def)
  qed
qed

lemma set_hwaddrs_accepted:
  assumes "list_all (\<lambda>(rq, r). accepted sys rq r) (master_requests m s)" and "1 \<le> abi_ver s"
  obtains t where "set_hwaddrs sys m n s = (0, Go_on, t)" "calls t = calls s @ master_requests m s"
    "framed_hw s t" "hwaddr_set t"
proof (cases "hwaddr_set s")
  case True
  then show thesis using assms(2) by (intro that [of s]) (simp_all add: set_hwaddrs_def master_requests_def)
next
  case False
  let ?r = "named m (no_ifreq\<lparr>ifr_addr := ifr_addr (slave_hwaddr s)\<rparr>)"
  have acc: "accepted sys SIOCSIFHWADDR ?r"
    using assms(1) False by (simp add: master_requests_def)
  obtain t where t: "request sys SIOCSIFHWADDR ?r s = (0, t)" "does s [(SIOCSIFHWADDR, ?r)] t"
    by (rule request_accepted [OF acc])
  show thesis
    by (rule that [of "t\<lparr>hwaddr_set := True\<rparr>"])
      (use False assms(2) t does_fields(1) [OF t(2)] in \<open>simp_all add: set_hwaddrs_def new_master_addr_def
        set_master_hwaddr_def master_requests_def does_def framed_hwI\<close>)
qed

definition enslave_requests :: "string \<Rightarrow> string \<Rightarrow> 'k prog \<Rightarrow> (ioctl_code \<times> ifreq) list" where
  "enslave_requests m n s = prepare_requests n s @ master_requests m s @ [(SIOCBONDENSLAVE, bond_req m n)]"

lemma prepared_master:
  assumes "framed s t"
  shows "master_requests m t = master_requests m s"
  using assms by (simp add: master_requests_def framed_def keeps_slave_def)

lemma enslave_steps:
  assumes "\<not> is_slave s" "2 \<le> abi_ver s"
    and "list_all (\<lambda>(rq, r). accepted sys rq r) (prepare_requests n s @ master_requests m s)"
  obtains t where "calls t = calls s @ prepare_requests n s @ master_requests m s" "framed_hw s t" "hwaddr_set t"
    "enslave sys m n s =
       (case both_fail sys SIOCBONDENSLAVE BOND_ENSLAVE_OLD (bond_req m n) t of
          (f, s3) \<Rightarrow> if f then (1, rollback sys m n Undo_master_mac s3) else (0, s3))"
proof -
  have l: "list_all (\<lambda>(rq, r). accepted sys rq r) (prepare_requests n s)"
    "list_all (\<lambda>(rq, r). accepted sys rq r) (master_requests m s)"
    using assms(3) by simp_all
  obtain t where t: "prepare_slave sys m n s = (0, t)" "does s (prepare_requests n s) t"
    by (rule prepare_accepted [OF l(1) assms(2)])
  have f: "framed s t" and c: "calls t = calls s @ prepare_requests n s"
    using t(2) by (simp_all add: does_def)
  have l2: "list_all (\<lambda>(rq, r). accepted sys rq r) (master_requests m t)"
    using l(2) prepared_master [OF f] by simp
  have abi: "1 \<le> abi_ver t" using assms(2) does_fields(1) [OF t(2)] by simp
  obtain u where u: "set_hwaddrs sys m n t = (0, Go_on, u)" "calls u = calls t @ master_requests m t"
    "framed_hw t u" "hwaddr_set u"
    by (rule set_hwaddrs_accepted [OF l2 abi])
  show thesis
    by (rule that [of u])
      (use u t c prepared_master [OF f] framed_hw_trans [OF framed_hwI [OF f] u(3)] assms(1) in \<open>simp_all add: enslave_def\<close>)
qed

lemma enslave_accepted:
  assumes "\<not> is_slave s" "2 \<le> abi_ver s" "list_all (\<lambda>(rq, r). accepted sys rq r) (enslave_requests m n s)"
  shows "\<exists>t. enslave sys m n s = (0, t) \<and> calls t = calls s @ enslave_requests m n s \<and> hwaddr_set t"
proof -
  have l: "list_all (\<lambda>(rq, r). accepted sys rq r) (prepare_requests n s @ master_requests m s)"
    and b: "accepted sys SIOCBONDENSLAVE (bond_req m n)"
    using assms(3) by (simp_all add: enslave_requests_def)
  obtain t where t: "calls t = calls s @ prepare_requests n s @ master_requests m s" "framed_hw s t" "hwaddr_set t"
    "enslave sys m n s =
       (case both_fail sys SIOCBONDENSLAVE BOND_ENSLAVE_OLD (bond_req m n) t of
          (f, s3) \<Rightarrow> if f then (1, rollback sys m n Undo_master_mac s3) else (0, s3))"
    by (rule enslave_steps [OF assms(1,2) l])
  obtain u where u: "both_fail sys SIOCBONDENSLAVE BOND_ENSLAVE_OLD (bond_req m n) t = (False, u)"
    "does t [(SIOCBONDENSLAVE, bond_req m n)] u"
    by (rule bond_accepted [OF b])
  show ?thesis
    using t u does_fields(4) [OF u(2)] by (simp add: does_def enslave_requests_def)
qed

lemma rollback_forgets: "\<not> hwaddr_set (rollback sys m n Undo_master_mac s)"
proof -
  obtain r t where h: "set_master_hwaddr sys m (ifr_addr (master_hwaddr s)) s = (r, t)" by fastforce
  have "hwaddr_set (snd (set_slave_mtu sys n k u)) = hwaddr_set u" for k and u :: "'a prog"
    using snd_framed(1) [of u sys n k] by (simp add: framed_def)
  then show ?thesis by (simp add: rollback_def Let_def h)
qed

lemma enslave_refused:
  assumes "\<not> is_slave s" "2 \<le> abi_ver s"
    and "list_all (\<lambda>(rq, r). accepted sys rq r) (prepare_requests n s @ master_requests m s)"
    and "refused sys SIOCBONDENSLAVE (bond_req m n)" "refused sys BOND_ENSLAVE_OLD (bond_req m n)"
  shows "\<exists>t. enslave sys m n s = (1, t) \<and> framed_hw s t \<and> \<not> hwaddr_set t"
proof -
  obtain t where t: "calls t = calls s @ prepare_requests n s @ master_requests m s" "framed_hw s t" "hwaddr_set t"
    "enslave sys m n s =
       (case both_fail sys SIOCBONDENSLAVE BOND_ENSLAVE_OLD (bond_req m n) t of
          (f, s3) \<Rightarrow> if f then (1, rollback sys m n Undo_master_mac s3) else (0, s3))"
    by (rule enslave_steps [OF assms(1-3)])
  obtain u where u: "both_fail sys SIOCBONDENSLAVE BOND_ENSLAVE_OLD (bond_req m n) t = (True, u)"
    "does t [(SIOCBONDENSLAVE, bond_req m n), (BOND_ENSLAVE_OLD, bond_req m n)] u"
    by (rule bond_refused [OF assms(4,5)])
  have "framed_hw t u" using u(2) by (simp add: does_def framed_hwI)
  then have f: "framed_hw s (rollback sys m n Undo_master_mac u)"
    by (rule framed_hw_trans [OF framed_hw_trans [OF t(2)] rollback_framed])
  have e: "enslave sys m n s = (1, rollback sys m n Undo_master_mac u)"
    by (simp add: t(4) u(1))
  show ?thesis
    by (intro exI [of _ "rollback sys m n Undo_master_mac u"] conjI e f rollback_forgets)
qed

section \<open>A failed attempt is undone\<close>

text \<open>
  What the kernel promises: the settings \<open>mtu\<close> and \<open>mac\<close> of an interface change only by the request
  that sets them, and only when it succeeds; a bond request that is refused changes neither.
\<close>

definition kernel_laws :: "'k sys \<Rightarrow> ('k \<Rightarrow> string \<Rightarrow> int) \<Rightarrow> ('k \<Rightarrow> string \<Rightarrow> sockaddr) \<Rightarrow> bool" where
  "kernel_laws sys mtu mac \<longleftrightarrow>
     (\<forall>k rq r k' x. ioctl sys k rq r = (k', x) \<longrightarrow>
        (case x of
           Inl e \<Rightarrow> mtu k' = mtu k \<and> mac k' = mac k
         | Inr r' \<Rightarrow>
             rq \<in> {SIOCBONDENSLAVE, BOND_ENSLAVE_OLD} \<or>
             mtu k' = (if rq = SIOCSIFMTU then (mtu k)(ifr_name r := ifr_mtu r) else mtu k) \<and>
             mac k' = (if rq = SIOCSIFHWADDR then (mac k)(ifr_name r := ifr_addr r) else mac k)))"

lemma request_laws:
  assumes "kernel_laws sys mtu mac" "request sys rq r s = (x, t)"
  shows "x = 0 \<and>
           (rq \<in> {SIOCBONDENSLAVE, BOND_ENSLAVE_OLD} \<or>
            mtu (kern t) = (if rq = SIOCSIFMTU then (mtu (kern s))(ifr_name r := ifr_mtu r) else mtu (kern s)) \<and>
            mac (kern t) = (if rq = SIOCSIFHWADDR then (mac (kern s))(ifr_name r := ifr_addr r) else mac (kern s))) \<or>
         x = -1 \<and> mtu (kern t) = mtu (kern s) \<and> mac (kern t) = mac (kern s)"
proof -
  obtain k' y where io: "ioctl sys (kern s) rq r = (k', y)" by fastforce
  then have l: "case y of
           Inl e \<Rightarrow> mtu k' = mtu (kern s) \<and> mac k' = mac (kern s)
         | Inr r' \<Rightarrow>
             rq \<in> {SIOCBONDENSLAVE, BOND_ENSLAVE_OLD} \<or>
             mtu k' = (if rq = SIOCSIFMTU then (mtu (kern s))(ifr_name r := ifr_mtu r) else mtu (kern s)) \<and>
             mac k' = (if rq = SIOCSIFHWADDR then (mac (kern s))(ifr_name r := ifr_addr r) else mac (kern s))"
    using assms(1) unfolding kernel_laws_def by blast
  have "kern t = k'" "x = (case y of Inl e \<Rightarrow> -1 | Inr r' \<Rightarrow> 0)"
    using assms(2) io by (cases s, auto simp: request_def call_def split: sum.splits)+
  then show ?thesis using l by (cases y) (simp_all split del: if_split)
qed

text \<open>\<open>f\<close> and \<open>g\<close> agree except on the names in \<open>A\<close>.\<close>

definition agree :: "string set \<Rightarrow> (string \<Rightarrow> 'a) \<Rightarrow> (string \<Rightarrow> 'a) \<Rightarrow> bool" where
  "agree A f g \<longleftrightarrow> (\<forall>j. j \<notin> A \<longrightarrow> g j = f j)"

lemma agree_refl [simp]: "agree A f f"
  by (simp add: agree_def)

lemma agree_empty [simp]: "agree {} f g \<longleftrightarrow> g = f"
  by (auto simp: agree_def)

lemma agree_trans: "agree A f g \<Longrightarrow> agree B g h \<Longrightarrow> A \<subseteq> C \<Longrightarrow> B \<subseteq> C \<Longrightarrow> agree C f h"
  unfolding agree_def by (metis subsetD)

text \<open>From \<open>s\<close> to \<open>t\<close> the MTU changes at most on \<open>A\<close> and the hardware address at most on \<open>B\<close>.\<close>

definition touches :: "('k \<Rightarrow> string \<Rightarrow> int) \<Rightarrow> ('k \<Rightarrow> string \<Rightarrow> sockaddr) \<Rightarrow> string set \<Rightarrow> string set
    \<Rightarrow> 'k prog \<Rightarrow> 'k prog \<Rightarrow> bool" where
  "touches mtu mac A B s t \<longleftrightarrow>
     agree A (mtu (kern s)) (mtu (kern t)) \<and> agree B (mac (kern s)) (mac (kern t))"

lemma touches_refl [simp]: "touches mtu mac A B s s"
  by (simp add: touches_def)

lemma touches_trans:
  "touches mtu mac A B s t \<Longrightarrow> touches mtu mac C D t u \<Longrightarrow> touches mtu mac (A \<union> C) (B \<union> D) s u"
  by (auto simp: touches_def intro: agree_trans)

lemma touches_say [simp]: "touches mtu mac A B s (say m t) = touches mtu mac A B s t"
  by (cases t) (simp add: touches_def say_def)

lemma touches_hwaddr_set [simp]: "touches mtu mac A B s (t\<lparr>hwaddr_set := h\<rparr>) = touches mtu mac A B s t"
  by (cases t) (simp add: touches_def)

lemma request_touches:
  assumes "kernel_laws sys mtu mac" "request sys rq r s = (x, t)" "rq \<notin> {SIOCBONDENSLAVE, BOND_ENSLAVE_OLD} \<or> x \<noteq> 0"
  shows "touches mtu mac (if rq = SIOCSIFMTU \<and> x = 0 then {ifr_name r} else {})
           (if rq = SIOCSIFHWADDR \<and> x = 0 then {ifr_name r} else {}) s t"
  using request_laws [OF assms(1,2)] assms(3) by (auto simp: touches_def agree_def)

lemma call_touches:
  assumes "kernel_laws sys mtu mac" "call sys rq r s = (x, t)"
    "rq \<notin> {SIOCBONDENSLAVE, BOND_ENSLAVE_OLD, SIOCSIFMTU, SIOCSIFHWADDR}"
  shows "touches mtu mac {} {} s t"
proof -
  have "request sys rq r s = (case x of Inl e \<Rightarrow> -1 | Inr r' \<Rightarrow> 0, t)"
    using assms(2) by (auto simp: request_def split: sum.splits)
  then show ?thesis using request_touches [OF assms(1)] assms(3) by force
qed

lemma copy_addrs_touches:
  assumes "kernel_laws sys mtu mac" "copy_addrs sys m n rs r s = (x, t)"
    "\<forall>(g, st) \<in> set rs. {g, st} \<inter> {SIOCBONDENSLAVE, BOND_ENSLAVE_OLD, SIOCSIFMTU, SIOCSIFHWADDR} = {}"
  shows "touches mtu mac {} {} s t"
  using assms(2,3)
proof (induction rs arbitrary: r s)
  case Nil
  then show ?case by simp
next
  case (Cons q rs)
  obtain g st where q: "q = (g, st)" by fastforce
  obtain y s1 where c: "call sys g (named m r) s = (y, s1)" by fastforce
  define r2 where "r2 = named n (case y of Inl e \<Rightarrow> (named m r)\<lparr>ifr_addr := inet_zero\<rparr> | Inr r' \<Rightarrow> r')"
  obtain z s2 where d: "call sys st r2 s1 = (z, s2)" by fastforce
  have "touches mtu mac {} {} s s1" "touches mtu mac {} {} s1 s2"
    using call_touches [OF assms(1) c] call_touches [OF assms(1) d] Cons.prems(2) q by auto
  then have t: "touches mtu mac {} {} s s2" using touches_trans by fastforce
  show ?case
  proof (cases z)
    case (Inl e)
    then show ?thesis using Cons.prems(1) q c d t r2_def by (simp add: Let_def)
  next
    case (Inr r3)
    then have "copy_addrs sys m n rs r3 s2 = (x, t)" using Cons.prems(1) q c d r2_def by (simp add: Let_def)
    then have "touches mtu mac {} {} s2 t" using Cons.IH Cons.prems(2) by auto
    then show ?thesis using touches_trans [OF t] by fastforce
  qed
qed

lemma quiet_request:
  assumes "kernel_laws sys mtu mac" "request sys rq r s = (x, t)"
    "rq \<notin> {SIOCBONDENSLAVE, BOND_ENSLAVE_OLD, SIOCSIFMTU, SIOCSIFHWADDR}"
  shows "touches mtu mac {} {} s t"
  using request_touches [OF assms(1,2)] assms(3) by simp

lemma quiet_touches:
  assumes "kernel_laws sys mtu mac"
  shows "set_if_up sys n f s = (x, t) \<Longrightarrow> touches mtu mac {} {} s t"
    "set_if_down sys n f s = (x, t) \<Longrightarrow> touches mtu mac {} {} s t"
    "clear_if_addr sys n s = (x, t) \<Longrightarrow> touches mtu mac {} {} s t"
    "set_if_addr sys m n s = (x, t) \<Longrightarrow> touches mtu mac {} {} s t"
  unfolding set_if_up_def set_if_down_def set_if_flags_def clear_if_addr_def set_if_addr_def
  by (erule quiet_request [OF assms] copy_addrs_touches [OF assms], simp add: addr_requests_def)+

lemma named_name [simp]: "ifr_name (named n r) = take 16 n"
  by (simp add: named_def)

lemma setter_touches:
  assumes "kernel_laws sys mtu mac"
  shows "set_slave_mtu sys n k s = (x, t) \<Longrightarrow> touches mtu mac (if x = 0 then {take 16 n} else {}) {} s t"
    "set_master_hwaddr sys n a s = (x, t) \<Longrightarrow> touches mtu mac {} (if x = 0 then {take 16 n} else {}) s t"
    "set_slave_hwaddr sys n a s = (x, t) \<Longrightarrow> touches mtu mac {} (if x = 0 then {take 16 n} else {}) s t"
  unfolding set_slave_mtu_def set_master_hwaddr_def set_slave_hwaddr_def
  by (drule request_touches [OF assms], simp, auto split: if_splits)+

lemma prepare_touches:
  assumes "kernel_laws sys mtu mac" "prepare_slave sys m n s = (x, t)"
  shows "touches mtu mac (if x = 0 then {take 16 n} else {}) {} s t"
proof -
  obtain r s1 where d: "set_if_down sys n (ifr_flags (slave_flags s)) s = (r, s1)" by fastforce
  obtain r2 s2 where a: "(if abi_ver s1 < 2 then set_if_addr sys m n s1 else clear_if_addr sys n s1) = (r2, s2)" by fastforce
  obtain r3 s3 where u: "set_slave_mtu sys n (ifr_mtu (master_mtu s2)) s2 = (r3, s3)" by fastforce
  note t1 = quiet_touches(2) [OF assms(1) d]
  have "touches mtu mac {} {} s1 s2" using a quiet_touches(3,4) [OF assms(1)] by (metis (no_types))
  note t2 = touches_trans [OF t1 this, simplified]
  note t3 = touches_trans [OF t2 setter_touches(1) [OF assms(1) u]]
  have "touches mtu mac A B s s2" for A B using t2 by (auto simp: touches_def)
  then show ?thesis using assms(2) d a u t1 t3 by (auto simp: prepare_slave_def split: if_splits)
qed

lemma touches_mono: "touches mtu mac A B s t \<Longrightarrow> A \<subseteq> C \<Longrightarrow> B \<subseteq> D \<Longrightarrow> touches mtu mac C D s t"
  by (auto simp: touches_def agree_def)

lemma old_slave_addr_touches:
  assumes "kernel_laws sys mtu mac" "old_slave_addr sys n s = (x, l, t)"
  shows "touches mtu mac {} {take 16 n} s t \<and> l \<noteq> Undo_master_mac"
proof -
  obtain r s1 where h: "set_slave_hwaddr sys n (ifr_addr (master_hwaddr s)) s = (r, s1)" by fastforce
  obtain r2 s2 where u: "set_if_up sys n (ifr_flags (slave_flags s1)) s1 = (r2, s2)" by fastforce
  have 1: "touches mtu mac {} {take 16 n} s s1"
    by (rule touches_mono [OF setter_touches(3) [OF assms(1) h]]) auto
  have 2: "touches mtu mac {} {take 16 n} s s2"
    using touches_trans [OF 1 quiet_touches(1) [OF assms(1) u]] by simp
  show ?thesis using assms(2) h u 1 2 by (auto simp: old_slave_addr_def split: if_splits)
qed

lemma new_master_addr_touches:
  assumes "kernel_laws sys mtu mac" "new_master_addr sys m s = (x, l, t)"
  shows "touches mtu mac {} (if l = Undo_mtu then {} else {take 16 m}) s t \<and> l \<noteq> Undo_slave_mac"
proof -
  obtain r0 s0 where d: "(if abi_ver s < 1 then set_if_down sys m (ifr_flags (master_flags s)) s else (0, s)) = (r0, s0)"
    by fastforce
  obtain r1 s1 where h: "set_master_hwaddr sys m (ifr_addr (slave_hwaddr s0)) s0 = (r1, s1)" by fastforce
  obtain r2 s2 where u: "(if abi_ver s1 < 1 then set_if_up sys m (ifr_flags (master_flags s1)) s1 else (0, s1)) = (r2, s2)"
    by fastforce
  have 0: "touches mtu mac {} {} s s0"
    using d quiet_touches(2) [OF assms(1)] by (metis prod.inject touches_refl)
  have 1: "touches mtu mac {} (if r1 = 0 then {take 16 m} else {}) s s1"
    using touches_trans [OF 0 setter_touches(2) [OF assms(1) h]] by simp
  have "touches mtu mac {} {} s1 s2"
    using u quiet_touches(1) [OF assms(1)] by (metis prod.inject touches_refl)
  note 2 = touches_trans [OF 1 this, simplified]
  consider "r0 \<noteq> 0" "l = Undo_mtu" "t = say (Down_failed m) s0"
    | "r0 = 0" "r1 \<noteq> 0" "l = Undo_mtu" "t = say (Hwaddr_failed m) s1"
    | "r1 = 0" "l = Undo_master_mac" "t = say (Up_failed m) s2"
    | "r1 = 0" "l = Go_on" "t = s2\<lparr>hwaddr_set := True\<rparr>"
    using assms(2) d h u by (auto simp: new_master_addr_def split: if_splits)
  then show ?thesis using 0 1 2 by cases simp_all
qed

lemma set_hwaddrs_touches:
  assumes "kernel_laws sys mtu mac" "set_hwaddrs sys m n s = (x, l, t)"
  shows "touches mtu mac {} (if l = Undo_mtu \<or> l = Undo_slave_mac then {take 16 n} else {take 16 n, take 16 m}) s t"
proof (cases "hwaddr_set s")
  case True
  then show ?thesis using assms(2) old_slave_addr_touches [OF assms(1), of n s x l t]
    by (auto simp: set_hwaddrs_def split: if_splits elim: touches_mono)
next
  case False
  then have "new_master_addr sys m s = (x, l, t)" using assms(2) by (simp add: set_hwaddrs_def)
  then show ?thesis using new_master_addr_touches [OF assms(1), of m s x l t]
    by (auto elim: touches_mono)
qed

lemma accepted_ok: "accepted sys rq r \<Longrightarrow> request sys rq r s = (x, t) \<Longrightarrow> x = 0"
  by (elim request_accepted [where s = s]) simp

lemma rollback_mtu:
  assumes "kernel_laws sys mtu mac" "accepted sys SIOCSIFMTU (named n (no_ifreq\<lparr>ifr_mtu := k\<rparr>))"
  shows "mtu (kern (snd (set_slave_mtu sys n k s))) = (mtu (kern s))(take 16 n := k)"
    "mac (kern (snd (set_slave_mtu sys n k s))) = mac (kern s)"
proof -
  obtain x t where r: "request sys SIOCSIFMTU (named n (no_ifreq\<lparr>ifr_mtu := k\<rparr>)) s = (x, t)" by fastforce
  have "ifr_mtu (named n (no_ifreq\<lparr>ifr_mtu := k\<rparr>)) = k" by (simp add: named_def)
  then show "mtu (kern (snd (set_slave_mtu sys n k s))) = (mtu (kern s))(take 16 n := k)"
    "mac (kern (snd (set_slave_mtu sys n k s))) = mac (kern s)"
    using request_laws [OF assms(1) r] accepted_ok [OF assms(2) r] r by (simp_all add: set_slave_mtu_def)
qed

lemma rollback_mac:
  assumes "kernel_laws sys mtu mac" "accepted sys SIOCSIFHWADDR (named m (no_ifreq\<lparr>ifr_addr := a\<rparr>))"
  shows "mac (kern (snd (set_master_hwaddr sys m a s))) = (mac (kern s))(take 16 m := a)"
    "mtu (kern (snd (set_master_hwaddr sys m a s))) = mtu (kern s)"
proof -
  obtain x t where r: "request sys SIOCSIFHWADDR (named m (no_ifreq\<lparr>ifr_addr := a\<rparr>)) s = (x, t)" by fastforce
  have "ifr_addr (named m (no_ifreq\<lparr>ifr_addr := a\<rparr>)) = a" by (simp add: named_def)
  then show "mac (kern (snd (set_master_hwaddr sys m a s))) = (mac (kern s))(take 16 m := a)"
    "mtu (kern (snd (set_master_hwaddr sys m a s))) = mtu (kern s)"
    using request_laws [OF assms(1) r] accepted_ok [OF assms(2) r] r by (simp_all add: set_master_hwaddr_def)
qed

lemma kern_hwaddr_set [simp]: "kern (s\<lparr>hwaddr_set := h\<rparr>) = kern s"
  by (cases s) simp

lemma rollback_restores:
  assumes laws: "kernel_laws sys mtu mac"
    and mtu_ok: "accepted sys SIOCSIFMTU (named n (no_ifreq\<lparr>ifr_mtu := ifr_mtu (slave_mtu s)\<rparr>))"
    and mac_ok: "accepted sys SIOCSIFHWADDR (named m (no_ifreq\<lparr>ifr_addr := ifr_addr (master_hwaddr s)\<rparr>))"
  shows "mtu (kern (rollback sys m n l s)) = (mtu (kern s))(take 16 n := ifr_mtu (slave_mtu s))"
    "l = Undo_master_mac \<Longrightarrow> mac (kern (rollback sys m n l s)) = (mac (kern s))(take 16 m := ifr_addr (master_hwaddr s))"
    "l \<noteq> Undo_master_mac \<Longrightarrow> agree {take 16 n} (mac (kern s)) (mac (kern (rollback sys m n l s)))"
proof -
  let ?b = "snd (set_slave_hwaddr sys n (ifr_addr (slave_hwaddr s)) s)"
  let ?a = "snd (set_master_hwaddr sys m (ifr_addr (master_hwaddr s)) s)"
  have m: "slave_mtu ?a = slave_mtu s" "slave_mtu ?b = slave_mtu s"
    using snd_framed(2) [of s sys m "ifr_addr (master_hwaddr s)"] snd_framed(3) [of s sys n "ifr_addr (slave_hwaddr s)"]
    by (simp_all add: framed_def keeps_slave_def)
  have m': "slave_mtu (?a\<lparr>hwaddr_set := False\<rparr>) = slave_mtu s" using m(1) by (cases ?a) simp
  obtain x u where hb: "set_slave_hwaddr sys n (ifr_addr (slave_hwaddr s)) s = (x, u)" by fastforce
  have "touches mtu mac {} {take 16 n} s ?b"
    using touches_mono [OF setter_touches(3) [OF laws hb], of "{}" "{take 16 n}"] hb by auto
  then have b: "mtu (kern ?b) = mtu (kern s)" "agree {take 16 n} (mac (kern s)) (mac (kern ?b))"
    by (simp_all add: touches_def)
  show "mtu (kern (rollback sys m n l s)) = (mtu (kern s))(take 16 n := ifr_mtu (slave_mtu s))"
    using m m' b rollback_mtu(1) [OF laws mtu_ok] rollback_mac(2) [OF laws mac_ok]
    by (cases l) (simp_all add: rollback_def Let_def)
  show "mac (kern (rollback sys m n l s)) = (mac (kern s))(take 16 m := ifr_addr (master_hwaddr s))"
    if "l = Undo_master_mac"
    using that m' rollback_mtu(2) [OF laws mtu_ok] rollback_mac(1) [OF laws mac_ok] by (simp add: rollback_def Let_def)
  show "agree {take 16 n} (mac (kern s)) (mac (kern (rollback sys m n l s)))" if "l \<noteq> Undo_master_mac"
    using that m b rollback_mtu(2) [OF laws mtu_ok] by (cases l) (simp_all add: rollback_def Let_def)
qed

lemma both_fail_touches:
  assumes "kernel_laws sys mtu mac" "both_fail sys SIOCBONDENSLAVE BOND_ENSLAVE_OLD r s = (True, t)"
  shows "touches mtu mac {} {} s t"
proof -
  obtain x s1 where a: "request sys SIOCBONDENSLAVE r s = (x, s1)" by fastforce
  obtain y s2 where b: "request sys BOND_ENSLAVE_OLD r s1 = (y, s2)" by fastforce
  have xy: "x < 0" "y < 0" "s2 = t" using assms(2) a b by (auto simp: both_fail_def split: if_splits)
  have "touches mtu mac {} {} s s1" "touches mtu mac {} {} s1 t"
    using request_touches [OF assms(1) a] request_touches [OF assms(1) b] xy by auto
  then show ?thesis using touches_trans by fastforce
qed

text \<open>
  The MTU that was read from the slave is the one it has, and the kernel accepts the values that were read of
  slave and master.  Nothing is said of the address the master has now: it was read when the program started,
  and an earlier slave may have given the master its own since.
\<close>

definition restorable :: "'k sys \<Rightarrow> ('k \<Rightarrow> string \<Rightarrow> int) \<Rightarrow> string \<Rightarrow> string \<Rightarrow> 'k prog \<Rightarrow> bool" where
  "restorable sys mtu m n s \<longleftrightarrow>
     mtu (kern s) (take 16 n) = ifr_mtu (slave_mtu s) \<and>
     accepted sys SIOCSIFMTU (named n (no_ifreq\<lparr>ifr_mtu := ifr_mtu (slave_mtu s)\<rparr>)) \<and>
     accepted sys SIOCSIFHWADDR (named m (no_ifreq\<lparr>ifr_addr := ifr_addr (master_hwaddr s)\<rparr>))"

text \<open>Addresses but that of the slave are as before; that of the master may be the one read at the start.\<close>

definition macs_back :: "string \<Rightarrow> string \<Rightarrow> sockaddr \<Rightarrow> (string \<Rightarrow> sockaddr) \<Rightarrow> (string \<Rightarrow> sockaddr) \<Rightarrow> bool" where
  "macs_back m n a f g \<longleftrightarrow> (\<forall>j. j \<noteq> take 16 n \<longrightarrow> g j = f j \<or> j = take 16 m \<and> g j = a)"

lemma rolled_back:
  assumes laws: "kernel_laws sys mtu mac" and r: "restorable sys mtu m n s"
    and t: "framed_hw s t" "touches mtu mac {take 16 n} (if l = Undo_master_mac then {take 16 n, take 16 m} else {take 16 n}) s t"
  shows "mtu (kern (rollback sys m n l t)) = mtu (kern s) \<and>
    macs_back m n (ifr_addr (master_hwaddr s)) (mac (kern s)) (mac (kern (rollback sys m n l t)))"
proof -
  have e: "slave_mtu t = slave_mtu s" "master_hwaddr t = master_hwaddr s"
    using t(1) by (simp_all add: framed_hw_def keeps_def keeps_slave_def)
  have ok: "accepted sys SIOCSIFMTU (named n (no_ifreq\<lparr>ifr_mtu := ifr_mtu (slave_mtu t)\<rparr>))"
    "accepted sys SIOCSIFHWADDR (named m (no_ifreq\<lparr>ifr_addr := ifr_addr (master_hwaddr t)\<rparr>))"
    using r by (simp_all add: restorable_def e)
  note rb = rollback_restores [OF laws ok]
  have v: "ifr_mtu (slave_mtu t) = mtu (kern s) (take 16 n)" using r by (simp add: restorable_def e)
  have "mtu (kern (rollback sys m n l t)) = mtu (kern s)"
    using rb(1) [of l] t(2) v by (auto simp: touches_def agree_def fun_eq_iff)
  moreover have "macs_back m n (ifr_addr (master_hwaddr s)) (mac (kern s)) (mac (kern (rollback sys m n l t)))"
  proof (cases "l = Undo_master_mac")
    case True
    then show ?thesis using rb(2) t(2) e by (auto simp: touches_def agree_def macs_back_def)
  next
    case False
    then have "agree {take 16 n} (mac (kern s)) (mac (kern (rollback sys m n l t)))"
      using rb(3) [OF False] t(2) agree_trans [of "{take 16 n}" _ _ "{take 16 n}"] by (auto simp: touches_def)
    then show ?thesis by (simp add: agree_def macs_back_def)
  qed
  ultimately show ?thesis by simp
qed

lemma enslave_failed:
  assumes laws: "kernel_laws sys mtu mac" and r: "restorable sys mtu m n s"
    and e: "enslave sys m n s = (x, t)" and x: "x \<noteq> 0"
  shows "mtu (kern t) = mtu (kern s) \<and> macs_back m n (ifr_addr (master_hwaddr s)) (mac (kern s)) (mac (kern t))"
proof (cases "is_slave s")
  case True
  then have "kern t = kern s" using e by (cases s) (auto simp: enslave_def say_def)
  then show ?thesis by (simp add: macs_back_def)
next
  case False
  obtain r1 s1 where p: "prepare_slave sys m n s = (r1, s1)" by fastforce
  obtain r2 l s2 where h: "set_hwaddrs sys m n s1 = (r2, l, s2)" by (metis prod_cases3)
  obtain f s3 where b: "both_fail sys SIOCBONDENSLAVE BOND_ENSLAVE_OLD (bond_req m n) s2 = (f, s3)" by fastforce
  note pt = prepare_touches [OF laws p]
  note ht = set_hwaddrs_touches [OF laws h]
  have fr: "framed_hw s s2" "framed_hw s s3"
    using framed_hwI [OF prepare_slave_framed [OF p]] set_hwaddrs_framed [OF h] framed_hwI [OF both_fail_framed [OF b]]
    by (meson framed_hw_trans)+
  have t2: "touches mtu mac {take 16 n} (if l = Undo_mtu \<or> l = Undo_slave_mac then {take 16 n} else {take 16 n, take 16 m}) s s2"
    by (rule touches_mono [OF touches_trans [OF pt ht]]) auto
  consider "r1 \<noteq> 0" "t = s1" | "l \<noteq> Go_on" "t = rollback sys m n l s2"
    | "l = Go_on" "f" "t = rollback sys m n Undo_master_mac s3"
    using e x p h b False by (auto simp: enslave_def split: if_splits)
  then show ?thesis
  proof cases
    case 1
    then show ?thesis using pt by (auto simp: touches_def agree_def macs_back_def fun_eq_iff)
  next
    case 2
    have "touches mtu mac {take 16 n} (if l = Undo_master_mac then {take 16 n, take 16 m} else {take 16 n}) s s2"
      using t2 2(1) by (cases l) simp_all
    then show ?thesis using rolled_back [OF laws r fr(1)] 2 by simp
  next
    case 3
    have "touches mtu mac {} {} s2 s3" using both_fail_touches [OF laws] b 3(2) by simp
    then have "touches mtu mac {take 16 n} {take 16 n, take 16 m} s s3"
      using touches_trans [OF t2] 3(1) by fastforce
    then show ?thesis using rolled_back [OF laws r fr(2), of Undo_master_mac] 3 by simp
  qed
qed

section \<open>Only a master that is up is changed\<close>

definition changing :: "ioctl_code \<Rightarrow> bool" where
  "changing rq \<longleftrightarrow> rq \<in> {SIOCBONDCHANGEACTIVE, BOND_CHANGE_ACTIVE_OLD, SIOCBONDENSLAVE, BOND_ENSLAVE_OLD,
     SIOCBONDRELEASE, BOND_RELEASE_OLD, SIOCSIFFLAGS, SIOCSIFMTU, SIOCSIFHWADDR, SIOCSIFADDR, SIOCSIFDSTADDR,
     SIOCSIFBRDADDR, SIOCSIFNETMASK}"

definition reading :: "ioctl_code \<Rightarrow> bool" where
  "reading rq \<longleftrightarrow> \<not> changing rq"

text \<open>No request so far has changed anything.\<close>

definition untouched :: "'k prog \<Rightarrow> bool" where
  "untouched s \<longleftrightarrow> (\<forall>q \<in> set (calls s). reading (fst q))"

lemma untouched_say [simp]: "untouched (say m s) = untouched s"
  by (cases s) (simp add: untouched_def say_def)

lemma untouched_upd [simp]:
  "untouched (s\<lparr>abi_ver := a\<rparr>) = untouched s" "untouched (s\<lparr>kern := k\<rparr>) = untouched s"
  by (cases s, simp add: untouched_def)+

lemma set_var_calls [simp]: "calls (set_var b v r s) = calls s"
  by (cases b; cases v; cases s) simp_all

lemma untouched_set_var [simp]: "untouched (set_var b v r s) = untouched s"
  by (simp add: untouched_def)

lemma call_untouched: "call sys rq r s = (x, t) \<Longrightarrow> reading rq \<Longrightarrow> untouched s \<Longrightarrow> untouched t"
  by (cases s) (auto simp: call_def untouched_def split: prod.splits)

lemma settings_untouched:
  "settings_loop sys b n vs s = (x, t) \<Longrightarrow> \<forall>v \<in> set vs. reading (snd v) \<Longrightarrow> untouched s \<Longrightarrow> untouched t"
  by (induction sys b n vs s rule: settings_loop.induct)
    (auto simp: Let_def dest: call_untouched split: prod.splits sum.splits)

lemma get_all_untouched:
  "\<forall>rq \<in> set rqs. reading rq \<Longrightarrow> untouched s \<Longrightarrow> untouched (get_all sys n rqs r s)"
proof (induction rqs arbitrary: r s)
  case Nil
  then show ?case by simp
next
  case (Cons rq rqs)
  obtain y s1 where c: "call sys rq (named n r) s = (y, s1)" by fastforce
  have "untouched s1" using call_untouched [OF c] Cons.prems by simp
  then show ?case using Cons c by (cases y) simp_all
qed

lemma reading_gets [simp]:
  "reading SIOCGIFFLAGS" "reading SIOCGIFADDR" "reading SIOCGIFHWADDR" "reading SIOCGIFMETRIC"
  "reading SIOCGIFMTU" "reading SIOCGIFDSTADDR" "reading SIOCGIFBRDADDR" "reading SIOCGIFNETMASK"
  "reading SIOCETHTOOL"
  by (simp_all add: changing_def reading_def)

lemma getconfig_untouched:
  assumes "if_getconfig sys n s = Some (x, t)" "untouched s"
  shows "untouched t"
proof -
  obtain y1 s1 where 1: "call sys SIOCGIFFLAGS (named n no_ifreq) s = (y1, s1)" by fastforce
  note u1 = call_untouched [OF 1 reading_gets(1) assms(2)]
  show ?thesis
  proof (cases y1)
    case (Inl e)
    then show ?thesis using assms(1) 1 u1 by (simp add: if_getconfig_def split: if_splits)
  next
    case (Inr r1)
    obtain y2 s2 where 2: "call sys SIOCGIFADDR (named n r1) (say (Flags_are n (ifr_flags r1)) s1) = (y2, s2)" by fastforce
    have u2: "untouched s2" using call_untouched [OF 2] u1 by simp
    show ?thesis
    proof (cases y2)
      case Inl
      then show ?thesis using assms(1) 1 2 Inr u2 by (simp add: if_getconfig_def split: if_splits)
    next
      case r2: (Inr r2)
      obtain y3 s3 where 3: "call sys SIOCGIFHWADDR (named n r2) (say (Address_is (take 4 (sa_data (ifr_addr r2)))) s2) = (y3, s3)"
        by fastforce
      have u3: "untouched s3" using call_untouched [OF 3] u2 by simp
      show ?thesis using assms(1) 1 2 3 Inr r2 u3
        by (auto simp: if_getconfig_def get_all_untouched simp del: get_all.simps split: if_splits sum.splits)
    qed
  qed
qed

lemma print_all_untouched: "print_all sys ns s = Some t \<Longrightarrow> untouched s \<Longrightarrow> untouched t"
  by (induction sys ns s rule: print_all.induct)
    (auto dest: getconfig_untouched split: option.splits prod.splits if_splits)

lemma print_untouched: "if_print sys name s = Some t \<Longrightarrow> untouched s \<Longrightarrow> untouched t"
  by (cases name) (auto simp: if_print_def simp del: print_all.simps dest: print_all_untouched split: prod.splits sum.splits)

lemma drv_info_untouched: "get_drv_info sys m s = (x, t) \<Longrightarrow> untouched s \<Longrightarrow> untouched t"
  by (auto simp: get_drv_info_def dest: call_untouched split: prod.splits sum.splits)

lemma start_untouched [simp]: "untouched (start k)"
  by (simp add: start_def untouched_def)

section \<open>The loop over the slaves keeps the settings of the master\<close>

lemma slave_var_keeps: "keeps s (set_var False v r t) = keeps s t"
  by (cases v; cases t) (simp_all add: keeps_def)

lemma set_var_hwaddr_set [simp]: "hwaddr_set (set_var b v r s) = hwaddr_set s"
  by (cases b; cases v; cases s) simp_all

lemma slave_settings_keeps: "settings_loop sys False n vs s = (x, t) \<Longrightarrow> keeps s t \<and> hwaddr_set t = hwaddr_set s"
proof (induction vs arbitrary: s)
  case Nil
  then show ?case by simp
next
  case (Cons p vs)
  obtain v rq where v: "p = (v, rq)" by fastforce
  define s0 where "s0 = set_var False v (named n (get_var False v s)) s"
  obtain y s1 where c: "call sys rq (get_var False v s0) s0 = (y, s1)" by fastforce
  have k: "keeps s s0" "hwaddr_set s0 = hwaddr_set s"
    by (simp_all add: s0_def slave_var_keeps)
  have k1: "keeps s s1 \<and> hwaddr_set s1 = hwaddr_set s"
    using call_framed [OF c] k keeps_trans by (auto simp: framed_def)
  show ?case
  proof (cases y)
    case (Inl e)
    then show ?thesis using Cons.prems v c k1 s0_def by (simp add: Let_def)
  next
    case (Inr r)
    then have "settings_loop sys False n vs (set_var False v r s1) = (x, t)"
      using Cons.prems v c s0_def by (simp add: Let_def)
    note ih = Cons.IH [OF this]
    have "keeps s (set_var False v r s1)" using k1 by (simp add: slave_var_keeps)
    then show ?thesis using ih k1 keeps_trans by (metis set_var_hwaddr_set)
  qed
qed

lemma flags_keeps: "get_slave_flags sys n s = (x, t) \<Longrightarrow> keeps s t"
  by (cases s) (auto simp: get_slave_flags_def Let_def call_def keeps_def split: prod.splits sum.splits)

lemma framed_keeps: "framed s t \<Longrightarrow> keeps s t"
  by (simp add: framed_def)

lemmas both_keeps = framed_keeps [OF both_fail_framed]

lemmas down_keeps = framed_keeps [OF setters_framed(1)] framed_keeps [OF snd_framed(1)]

lemma change_active_keeps: "change_active sys m n s = (x, t) \<Longrightarrow> keeps s t"
  by (auto simp: change_active_def dest: both_keeps split: if_splits prod.splits)

lemma release_keeps:
  assumes "release sys m n s = (x, t)"
  shows "keeps s t"
proof -
  obtain f s1 where b: "both_fail sys SIOCBONDRELEASE BOND_RELEASE_OLD (bond_req m n) s = (f, s1)" by fastforce
  obtain r s2 where d: "(if abi_ver s1 < 1 then set_if_down sys n (ifr_flags (slave_flags s1)) s1 else (0, s1)) = (r, s2)"
    by fastforce
  have k: "keeps s s1" "keeps s1 s2"
    using both_keeps [OF b] d down_keeps(1) by (auto split: if_splits)
  have "keeps s (snd (set_slave_mtu sys n 1500 (if r \<noteq> 0 then say (Down_failed n) s2 else s2)))"
    by (rule keeps_trans [OF _ down_keeps(2)]) (use keeps_trans [OF k] in simp)
  then show ?thesis using assms b d k by (auto simp: release_def split: if_splits)
qed

lemma enslave_keeps: "enslave sys m n s = (x, t) \<Longrightarrow> keeps s t"
  by (drule enslave_framed) (simp add: framed_hw_def)

lemma detach_keeps: "detach_one sys m n s = (x, t) \<Longrightarrow> keeps s t"
  by (auto simp: detach_one_def dest!: flags_keeps release_keeps intro: keeps_trans split: if_splits prod.splits)

lemma attach_keeps: "attach_one sys m n s = (x, t) \<Longrightarrow> keeps s t"
  by (auto simp: attach_one_def get_if_settings_def dest!: slave_settings_keeps enslave_keeps intro: keeps_trans
      split: if_splits prod.splits)

lemma slaves_keeps: "slaves_loop sys d m ns res s = (x, t) \<Longrightarrow> keeps s t"
  by (induction sys d m ns res s rule: slaves_loop.induct)
    (auto dest!: detach_keeps attach_keeps intro: keeps_trans split: prod.splits if_splits)

lemma keeps_hwaddr_set' [simp]: "keeps (s\<lparr>hwaddr_set := h\<rparr>) t = keeps s t"
  by (simp add: keeps_def)

lemma work_keeps: "work sys c d f m ns s = (x, t) \<Longrightarrow> keeps s t"
  by (auto simp: work_def check_hwaddr_def dest!: slaves_keeps flags_keeps change_active_keeps intro: keeps_trans
      split: prod.splits if_splits)

section \<open>After a refused slave\<close>

text \<open>Every request but the bonding of \<open>n\<close> is accepted, and no interface is a slave already.\<close>

definition only_refuses :: "'k sys \<Rightarrow> string \<Rightarrow> bool" where
  "only_refuses sys n \<longleftrightarrow>
     (\<forall>rq r. if rq \<in> {SIOCBONDENSLAVE, BOND_ENSLAVE_OLD} \<and> ifr_slave r = take 16 n
             then refused sys rq r else accepted sys rq r) \<and>
     (\<forall>k r k' r'. ioctl sys k SIOCGIFFLAGS r = (k', Inr r') \<longrightarrow> ifr_flags r' AND IFF_SLAVE = 0)"

lemma call_answer:
  assumes "only_refuses sys n" "rq \<notin> {SIOCBONDENSLAVE, BOND_ENSLAVE_OLD}" "call sys rq r s = (x, t)"
  obtains r' where "x = Inr r'" "rq = SIOCGIFFLAGS \<longrightarrow> ifr_flags r' AND IFF_SLAVE = 0"
proof -
  have "accepted sys rq r" using assms(1,2) unfolding only_refuses_def by metis
  then obtain k' r' where i: "ioctl sys (kern s) rq r = (k', Inr r')" unfolding accepted_def by blast
  show thesis
  proof (rule that [of r'])
    show "x = Inr r'" using assms(3) i by (simp add: call_def)
    show "rq = SIOCGIFFLAGS \<longrightarrow> ifr_flags r' AND IFF_SLAVE = 0"
      using assms(1) i unfolding only_refuses_def by blast
  qed
qed

lemma call_slave_flags: "call sys rq r s = (x, t) \<Longrightarrow> slave_flags t = slave_flags s"
  by (drule call_framed) (simp add: framed_def keeps_slave_def)

lemma settings_answered:
  assumes "only_refuses sys n1"
  obtains t where "get_if_settings sys False n s = (0, t)" "keeps s t" "hwaddr_set t = hwaddr_set s" "\<not> is_slave t"
proof -
  obtain x t where g: "get_if_settings sys False n s = (x, t)" by fastforce
  define s0 where "s0 = s\<lparr>slave_mtu := named n (slave_mtu s)\<rparr>"
  obtain y1 s1 where 1: "call sys SIOCGIFMTU (slave_mtu s0) s0 = (y1, s1)" by fastforce
  obtain r1 where r1: "y1 = Inr r1" by (rule call_answer [OF assms _ 1]) auto
  define s2 where "s2 = s1\<lparr>slave_mtu := r1, slave_flags := named n (slave_flags s1)\<rparr>"
  obtain y2 s3 where 2: "call sys SIOCGIFFLAGS (slave_flags s2) s2 = (y2, s3)" by fastforce
  obtain r2 where r2: "y2 = Inr r2" "ifr_flags r2 AND IFF_SLAVE = 0" by (rule call_answer [OF assms _ 2]) auto
  define s4 where "s4 = s3\<lparr>slave_flags := r2, slave_hwaddr := named n (slave_hwaddr s3)\<rparr>"
  obtain y3 s5 where 3: "call sys SIOCGIFHWADDR (slave_hwaddr s4) s4 = (y3, s5)" by fastforce
  obtain r3 where r3: "y3 = Inr r3" by (rule call_answer [OF assms _ 3]) auto
  have e: "get_if_settings sys False n s = (0, s5\<lparr>slave_hwaddr := r3\<rparr>)"
    using 1 2 3 r1 r2 r3 by (simp add: get_if_settings_def ifra_def Let_def s0_def s2_def s4_def)
  have "slave_flags s4 = r2" by (cases s3) (simp add: s4_def)
  then have "slave_flags (s5\<lparr>slave_hwaddr := r3\<rparr>) = r2"
    using call_slave_flags [OF 3] by (cases s5) simp
  then have "\<not> is_slave (s5\<lparr>slave_hwaddr := r3\<rparr>)" using r2(2) by (simp add: is_slave_def)
  then show thesis
    using that [OF e] slave_settings_keeps [OF e [unfolded get_if_settings_def]] by blast
qed

lemma only_refuses_accepts:
  assumes "only_refuses sys n1"
  shows "list_all (\<lambda>(rq, r). accepted sys rq r) (prepare_requests n s @ master_requests m s)"
proof -
  have a: "accepted sys rq r" if "rq \<notin> {SIOCBONDENSLAVE, BOND_ENSLAVE_OLD}" for rq r
    using assms that unfolding only_refuses_def by metis
  show ?thesis by (simp add: prepare_requests_def master_requests_def a)
qed

lemma attach_refused:
  assumes "only_refuses sys n" "2 \<le> abi_ver s"
  obtains t where "attach_one sys m n s = (1, t)" "keeps s t" "\<not> hwaddr_set t"
proof -
  obtain s1 where s1: "get_if_settings sys False n s = (0, s1)" "keeps s s1" "\<not> is_slave s1"
    by (rule settings_answered [OF assms(1)])
  have b: "ifr_slave (bond_req m n) = take 16 n" by (simp add: bond_req_def named_def)
  then have r: "refused sys SIOCBONDENSLAVE (bond_req m n)" "refused sys BOND_ENSLAVE_OLD (bond_req m n)"
    using assms(1) unfolding only_refuses_def by (metis insertCI)+
  have abi: "2 \<le> abi_ver s1" using s1(2) assms(2) by (simp add: keeps_def)
  obtain t where t: "enslave sys m n s1 = (1, t)" "framed_hw s1 t" "\<not> hwaddr_set t"
    using enslave_refused [OF s1(3) abi only_refuses_accepts [OF assms(1)] r] by blast
  show thesis
  proof (rule that [of "say (Enslave_failed m n) t"])
    show "attach_one sys m n s = (1, say (Enslave_failed m n) t)" using s1(1) t(1) by (simp add: attach_one_def)
    show "keeps s (say (Enslave_failed m n) t)" using s1(2) t(2) keeps_trans by (auto simp: framed_hw_def)
    show "\<not> hwaddr_set (say (Enslave_failed m n) t)" using t(3) by (cases t) (simp add: say_def)
  qed
qed

lemma attach_sets_master:
  assumes "only_refuses sys n1" "take 16 n \<noteq> take 16 n1" "2 \<le> abi_ver s" "\<not> hwaddr_set s"
  obtains t where "attach_one sys m n s = (0, t)" "keeps s t"
    "(SIOCSIFHWADDR, named m (no_ifreq\<lparr>ifr_addr := ifr_addr (slave_hwaddr t)\<rparr>)) \<in> set (calls t)"
proof -
  obtain s1 where s1: "get_if_settings sys False n s = (0, s1)" "keeps s s1" "hwaddr_set s1 = hwaddr_set s" "\<not> is_slave s1"
    by (rule settings_answered [OF assms(1)])
  have b: "ifr_slave (bond_req m n) \<noteq> take 16 n1" using assms(2) by (simp add: bond_req_def named_def)
  then have "accepted sys SIOCBONDENSLAVE (bond_req m n)"
    using assms(1) unfolding only_refuses_def by metis
  then have a: "list_all (\<lambda>(rq, r). accepted sys rq r) (enslave_requests m n s1)"
    using only_refuses_accepts [OF assms(1), of n s1 m] by (simp add: enslave_requests_def)
  have abi: "2 \<le> abi_ver s1" using s1(2) assms(3) by (simp add: keeps_def)
  obtain t where t: "enslave sys m n s1 = (0, t)" "calls t = calls s1 @ enslave_requests m n s1"
    using enslave_accepted [OF s1(4) abi a] by blast
  have f: "framed_hw s1 t" by (rule enslave_framed [OF t(1)])
  show thesis
    by (rule that [of t])
      (use s1 t f assms(4) keeps_trans in \<open>auto simp: attach_one_def framed_hw_def keeps_slave_def enslave_requests_def
        master_requests_def\<close>)
qed

section \<open>From the command line to the master\<close>

lemma main_master:
  assumes "ifenslave sys argv k = Some (r, s)"
  shows "untouched s \<or> (\<exists>c d f m ns u. untouched u \<and> with_master sys c d f m ns u = Some (r, s))"
proof -
  obtain os ns where o: "getopt_long (tl argv) = (os, ns)" by fastforce
  define u where "u = (if 0 < count CHR ''v'' os \<or> 0 < count CHR ''V'' os then say Version_msg (start k) else start k)"
  have u: "untouched u" by (simp add: u_def)
  have e: "ifenslave sys argv k =
      (if CHR ''?'' \<in> set os \<or> length (filter (\<lambda>c. c \<noteq> CHR ''v'') os) > 1 then Some (2, say Usage_msg (start k))
       else if 0 < count CHR ''V'' os then Some (0, u)
       else if 0 < count CHR ''u'' os then Some (0, say Usage_msg u)
       else if 0 < count CHR ''h'' os then Some (0, say Help_msg (say Usage_msg u))
       else if \<not> socket_ok sys then Some (1, say Socket_failed u)
       else if 0 < count CHR ''a'' os then
         (if ns = [] then map_option (\<lambda>s1. (0, s1)) (if_print sys None u) else Some (2, say Usage_msg u))
       else
         (case ns of
            [] \<Rightarrow> Some (2, say Usage_msg u)
          | m # ns' \<Rightarrow> with_master sys (0 < count CHR ''c'' os) (0 < count CHR ''d'' os) (0 < count CHR ''f'' os) m ns' u))"
    unfolding ifenslave_def Let_def o u_def by simp
  consider "untouched s" | m ns' where
      "with_master sys (0 < count CHR ''c'' os) (0 < count CHR ''d'' os) (0 < count CHR ''f'' os) m ns' u = Some (r, s)"
    using assms [unfolded e] u print_untouched [OF _ u] by (auto split: if_splits list.splits)
  then show ?thesis using u by cases blast+
qed

section \<open>Properties\<close>

text \<open>
  C16: with a driver of interface version 2 or later, and an interface that is not a slave yet, when the kernel accepts
  each of the requests: attaching it returns 0 and makes exactly these, in this order: the interface is taken down; its
  address is cleared; its MTU is set to the master's, if it differs; the master is given the interface's hardware
  address, if the master has none; the interface is bonded.
\<close>

lemma enslave_sequence:
  assumes "\<not> is_slave s" "2 \<le> abi_ver s" "list_all (\<lambda>(rq, r). accepted sys rq r) (enslave_requests m n s)"
  shows "\<exists>t. enslave sys m n s = (0, t) \<and> hwaddr_set t \<and>
    calls t = calls s @
      [(SIOCSIFFLAGS, named n (no_ifreq\<lparr>ifr_flags := ifr_flags (slave_flags s) AND NOT IFF_UP\<rparr>)),
       (SIOCSIFADDR, named n (no_ifreq\<lparr>ifr_addr := inet_zero\<rparr>))] @
      (if ifr_mtu (master_mtu s) = ifr_mtu (slave_mtu s) then []
       else [(SIOCSIFMTU, named n (no_ifreq\<lparr>ifr_mtu := ifr_mtu (master_mtu s)\<rparr>))]) @
      (if hwaddr_set s then []
       else [(SIOCSIFHWADDR, named m (no_ifreq\<lparr>ifr_addr := ifr_addr (slave_hwaddr s)\<rparr>))]) @
      [(SIOCBONDENSLAVE, named m (no_ifreq\<lparr>ifr_slave := take 16 n\<rparr>))]"
proof -
  obtain t where "enslave sys m n s = (0, t)" "calls t = calls s @ enslave_requests m n s" "hwaddr_set t"
    using enslave_accepted [OF assms] by blast
  then show ?thesis
    by (intro exI [of _ t]) (simp add: enslave_requests_def prepare_requests_def master_requests_def bond_req_def)
qed

text \<open>
  C10: the rollback of a failed attachment: when \<^verbatim>\<open>enslave\<close> reports an error, every MTU is what it was, and so is
  every hardware address but two.  That of the slave may have changed; that of the master is what it was or the
  address read from the master when the program started (for a slave that comes after one whose address the
  master was given, this is the empty address read before).  Required: the slave's MTU that was read is the one it
  has, the kernel accepts this MTU for the slave and the address read for the master, and requests change only the
  MTU and the hardware address they are made for.
\<close>

lemma enslave_undone:
  assumes "kernel_laws sys mtu mac" "restorable sys mtu m n s" "enslave sys m n s = (x, t)" "x \<noteq> 0"
  shows "mtu (kern t) = mtu (kern s) \<and>
    (\<forall>j. j \<noteq> take 16 n \<longrightarrow> mac (kern t) j = mac (kern s) j \<or>
      j = take 16 m \<and> mac (kern t) j = ifr_addr (master_hwaddr s))"
  using enslave_failed [OF assms] by (simp add: macs_back_def)

text \<open>
  A slave that is refused changes what happens to the next one: although the master had a hardware
  address, it is given that of the second interface, because the rollback marks it as missing.
\<close>

lemma failed_slave_taints_master:
  assumes "only_refuses sys n1" "take 16 n2 \<noteq> take 16 n1" "2 \<le> abi_ver s" "hwaddr_set s"
  shows "\<exists>t. slaves_loop sys False m [n1, n2] 0 s = (1, t) \<and> master_hwaddr t = master_hwaddr s \<and>
    (SIOCSIFHWADDR, named m (no_ifreq\<lparr>ifr_addr := ifr_addr (slave_hwaddr t)\<rparr>)) \<in> set (calls t)"
proof -
  obtain s1 where s1: "attach_one sys m n1 s = (1, s1)" "keeps s s1" "\<not> hwaddr_set s1"
    by (rule attach_refused [OF assms(1,3)])
  have abi: "2 \<le> abi_ver s1" using s1(2) assms(3) by (simp add: keeps_def)
  obtain t where "attach_one sys m n2 s1 = (0, t)" "keeps s1 t"
    "(SIOCSIFHWADDR, named m (no_ifreq\<lparr>ifr_addr := ifr_addr (slave_hwaddr t)\<rparr>)) \<in> set (calls t)"
    by (rule attach_sets_master [OF assms(1,2) abi s1(3)])
  then show ?thesis using s1 by (intro exI [of _ t]) (simp add: keeps_def)
qed

text \<open>
  C17: Whatever the arguments and however the kernel answers: a request that changes an interface or a bond is
  only made when the flags read from the master say that it is a bonding master and that it is up.
\<close>

lemma only_masters_changed:
  assumes "ifenslave sys argv k = Some (r, s)" "list_ex (\<lambda>(rq, q). changing rq) (calls s)"
  shows "ifr_flags (master_flags s) AND IFF_MASTER \<noteq> 0 \<and> ifr_flags (master_flags s) AND IFF_UP \<noteq> 0"
proof -
  have nu: "\<not> untouched s" using assms(2) by (fastforce simp: untouched_def reading_def list_ex_iff)
  obtain c d f m ns' u where u: "untouched u" and w: "with_master sys c d f m ns' u = Some (r, s)"
    using main_master [OF assms(1)] nu by blast
  obtain x1 s1 where g: "get_drv_info sys m u = (x1, s1)" by fastforce
  have u1: "untouched s1" by (rule drv_info_untouched [OF g u])
  obtain x2 s2 where i: "get_if_settings sys True m s1 = (x2, s2)" by fastforce
  have u2: "untouched s2"
    using settings_untouched [OF i [unfolded get_if_settings_def] _ u1] by (simp add: ifra_def)
  have "work sys c d f m ns' s2 = (r, s) \<and> ifr_flags (master_flags s2) AND IFF_MASTER \<noteq> 0 \<and>
      ifr_flags (master_flags s2) AND IFF_UP \<noteq> 0"
    using w g i nu u1 u2 print_untouched [OF _ u1] by (auto simp: with_master_def split: if_splits)
  then show ?thesis using work_keeps [of sys c d f m ns' s2 r s] by (simp add: keeps_def)
qed

section \<open>Sample kernels\<close>

text \<open>The MTUs and hardware addresses of the interfaces; the bonding of the interfaces in \<open>bad\<close> is refused.\<close>

type_synonym ifaces = "(string \<Rightarrow> int) \<times> (string \<Rightarrow> sockaddr)"

fun sample_ioctl :: "string list \<Rightarrow> ifaces \<Rightarrow> ioctl_code \<Rightarrow> ifreq \<Rightarrow> ifaces \<times> (int + ifreq)" where
  "sample_ioctl bad (u, h) rq r =
     (if rq = SIOCBONDENSLAVE \<or> rq = BOND_ENSLAVE_OLD
      then ((u, h), if ifr_slave r \<in> set bad then Inl 1 else Inr r)
      else if rq = SIOCSIFMTU then ((u(ifr_name r := ifr_mtu r), h), Inr r)
      else if rq = SIOCSIFHWADDR then ((u, h(ifr_name r := ifr_addr r)), Inr r)
      else if rq = SIOCGIFMTU then ((u, h), Inr (r\<lparr>ifr_mtu := u (ifr_name r)\<rparr>))
      else if rq = SIOCGIFHWADDR then ((u, h), Inr (r\<lparr>ifr_addr := h (ifr_name r)\<rparr>))
      else if rq = SIOCGIFFLAGS then
        ((u, h), Inr (r\<lparr>ifr_flags := if ifr_name r = ''bond0'' then 0x401 else 1\<rparr>))
      else if rq = SIOCETHTOOL then ((u, h), Inr (r\<lparr>ifr_info := ''2''\<rparr>))
      else ((u, h), Inr r))"

definition sample_kernel :: "string list \<Rightarrow> ifaces sys" where
  "sample_kernel bad = \<lparr>ioctl = sample_ioctl bad, ifconf = (\<lambda>k. (k, Inr [])), socket_ok = True, bond_abi_version = 2\<rparr>"

definition ether :: "int \<Rightarrow> sockaddr" where
  "ether b = \<lparr>family = 1, sa_data = b # replicate 13 0\<rparr>"

definition sample_state :: ifaces where
  "sample_state = ((\<lambda>n. if n = ''bond0'' then 9000 else 1500), (\<lambda>n. if n = ''bond0'' then ether 0 else ether 2))"

definition sample_prog :: "ifaces prog" where
  "sample_prog = (start sample_state)\<lparr>abi_ver := 2, master_mtu := no_ifreq\<lparr>ifr_mtu := 9000\<rparr>,
     slave_mtu := no_ifreq\<lparr>ifr_mtu := 1500\<rparr>, slave_hwaddr := no_ifreq\<lparr>ifr_addr := ether 2\<rparr>,
     master_hwaddr := no_ifreq\<lparr>ifr_addr := ether 0\<rparr>\<rparr>"

lemma sample_fields [simp]:
  "kern sample_prog = sample_state" "abi_ver sample_prog = 2" "hwaddr_set sample_prog = False" "calls sample_prog = []"
  "ifr_mtu (master_mtu sample_prog) = 9000" "ifr_mtu (slave_mtu sample_prog) = 1500"
  "ifr_addr (slave_hwaddr sample_prog) = ether 2" "ifr_addr (master_hwaddr sample_prog) = ether 0"
  "ifr_flags (slave_flags sample_prog) = 0" "is_slave sample_prog = False"
  by (simp_all add: sample_prog_def start_def no_ifreq_def is_slave_def)

lemma sample_accepts:
  "rq \<noteq> SIOCBONDENSLAVE \<and> rq \<noteq> BOND_ENSLAVE_OLD \<or> ifr_slave r \<notin> set bad \<Longrightarrow> accepted (sample_kernel bad) rq r"
  by (auto simp: accepted_def sample_kernel_def)

lemma sample_refuses:
  "rq = SIOCBONDENSLAVE \<or> rq = BOND_ENSLAVE_OLD \<Longrightarrow> ifr_slave r \<in> set bad \<Longrightarrow> refused (sample_kernel bad) rq r"
  by (auto simp: refused_def sample_kernel_def)

lemma sample_laws: "kernel_laws (sample_kernel bad) fst snd"
  by (auto simp: kernel_laws_def sample_kernel_def split: sum.splits if_splits)

lemma sample_restorable: "restorable (sample_kernel bad) fst ''bond0'' ''eth0'' sample_prog"
  by (simp add: restorable_def sample_accepts sample_state_def)

lemma sample_only_refuses: "only_refuses (sample_kernel [take 16 n]) n"
  unfolding only_refuses_def
  by (auto simp: sample_accepts sample_refuses) (auto simp: sample_kernel_def IFF_SLAVE_def)

lemma enslave_sequence_witness:
  "\<exists>t. enslave (sample_kernel []) ''bond0'' ''eth0'' sample_prog = (0, t) \<and> length (calls t) = 5"
proof -
  have "list_all (\<lambda>(rq, r). accepted (sample_kernel []) rq r) (enslave_requests ''bond0'' ''eth0'' sample_prog)"
    by (simp add: list_all_iff sample_accepts case_prod_beta)
  from enslave_sequence [OF _ _ this] show ?thesis by fastforce
qed

lemma enslave_undone_witness:
  "\<exists>t. enslave (sample_kernel [''eth0'']) ''bond0'' ''eth0'' sample_prog = (1, t) \<and>
     fst (kern t) ''eth0'' = 1500 \<and> snd (kern t) ''bond0'' = ether 0"
proof -
  let ?k = "sample_kernel [''eth0'']"
  have a: "list_all (\<lambda>(rq, r). accepted ?k rq r) (prepare_requests ''eth0'' sample_prog @ master_requests ''bond0'' sample_prog)"
    by (simp add: prepare_requests_def master_requests_def sample_accepts)
  have b: "ifr_slave (bond_req ''bond0'' ''eth0'') = ''eth0''"
    by (simp add: bond_req_def named_def)
  obtain t where t: "enslave ?k ''bond0'' ''eth0'' sample_prog = (1, t)"
    using enslave_refused [OF _ _ a] by (auto simp: sample_refuses b)
  show ?thesis
    using enslave_undone [OF sample_laws sample_restorable t] t by (auto simp: sample_state_def dest: spec [of _ "''bond0''"])
qed

lemma failed_slave_taints_master_witness:
  "\<exists>t. slaves_loop (sample_kernel [''eth0'']) False ''bond0'' [''eth0'', ''eth1''] 0 (sample_prog\<lparr>hwaddr_set := True\<rparr>) = (1, t)"
proof -
  have r: "only_refuses (sample_kernel [''eth0'']) ''eth0''" using sample_only_refuses [of "''eth0''"] by simp
  have "2 \<le> abi_ver (sample_prog\<lparr>hwaddr_set := True\<rparr>)" "hwaddr_set (sample_prog\<lparr>hwaddr_set := True\<rparr>)"
    "take 16 ''eth1'' \<noteq> take 16 ''eth0''"
    by (simp_all add: sample_prog_def)
  from failed_slave_taints_master [OF r this(3,1,2)] show ?thesis by blast
qed

lemma sample_run:
  "map_option (\<lambda>(r, s). (r, map fst (calls s))) (ifenslave (sample_kernel []) [''ifenslave'', ''bond0'', ''eth0''] sample_state) =
     Some (0, [SIOCETHTOOL, SIOCGIFMTU, SIOCGIFFLAGS, SIOCGIFHWADDR, SIOCGIFMTU, SIOCGIFFLAGS, SIOCGIFHWADDR,
       SIOCSIFFLAGS, SIOCSIFADDR, SIOCSIFMTU, SIOCSIFHWADDR, SIOCBONDENSLAVE])"
  by code_simp

lemma only_masters_changed_witness:
  "\<exists>s. ifenslave (sample_kernel []) [''ifenslave'', ''bond0'', ''eth0''] sample_state = Some (0, s) \<and>
     ifr_flags (master_flags s) AND IFF_MASTER \<noteq> 0"
proof -
  obtain s where s: "ifenslave (sample_kernel []) [''ifenslave'', ''bond0'', ''eth0''] sample_state = Some (0, s)"
    and c: "map fst (calls s) = [SIOCETHTOOL, SIOCGIFMTU, SIOCGIFFLAGS, SIOCGIFHWADDR, SIOCGIFMTU, SIOCGIFFLAGS, SIOCGIFHWADDR,
       SIOCSIFFLAGS, SIOCSIFADDR, SIOCSIFMTU, SIOCSIFHWADDR, SIOCBONDENSLAVE]"
    using sample_run by auto
  have "SIOCSIFMTU \<in> set (map fst (calls s))" unfolding c by simp
  then have "list_ex (\<lambda>(rq, q). changing rq) (calls s)" by (auto simp: list_ex_iff changing_def)
  from only_masters_changed [OF s this] s show ?thesis by blast
qed

end
