(* ===== verification/BTee.thy ===== *)
theory BTee
  imports CLib
begin

text \<open>
  \<^verbatim>\<open>package/base/sysfiles/btee.c\<close>: copy the standard input to the standard output and to a log file
  that may not be writable yet; what cannot be written is kept in a buffer.

  An event is what happens while a \<^verbatim>\<open>read\<close> waits: a chunk of bytes in the pipe (of which it takes as much as there
  is room for), the end of the input, a \<open>Second\<close> that passes, or a \<open>Sigalrm\<close> that somebody else sends.  \<^verbatim>\<open>alarm(3)\<close> sets
  \<open>timer\<close>; when it runs out the signal comes, and \<^verbatim>\<open>exit_handler\<close> ends the program, as for any other \<^verbatim>\<open>SIGALRM\<close>.  \<open>opens k m\<close> says whether the \<open>k\<close>-th attempt to open the log
  file in mode \<open>m\<close> succeeds.  Storing behind the array is a \<open>Fault\<close>.
\<close>

definition BUFFER_SIZE :: nat where "BUFFER_SIZE = 8191"

definition EOT :: char where "EOT = CHR 0x04"
definition NUL :: char where "NUL = CHR 0x00"
definition CR :: char where "CR = CHR 0x0D"
definition NL :: char where "NL = CHR 0x0A"

datatype open_mode = Create_append | Create_truncate | Append_only

record btee =
  buffer :: string
  pos :: nat
  killme :: int
  timer :: "nat option"
  mode :: open_mode
  tries :: nat
  logged :: string
  printed :: string
  drops :: nat

datatype event = Bytes string | End_of_input | Second | Sigalrm

text \<open>The start of the loop: arm the alarm, drop the data of a full buffer.\<close>

definition loop_top :: "btee \<Rightarrow> btee" where
  "loop_top s =
     (let s1 = (if killme s = 1 then s\<lparr>killme := -1, timer := Some 3\<rparr> else s)
      in if pos s1 \<ge> BUFFER_SIZE then s1\<lparr>pos := 0, drops := drops s1 + 1\<rparr> else s1)"

definition store :: "nat \<Rightarrow> string \<Rightarrow> string \<Rightarrow> string" where
  "store p bs buf = take p buf @ bs @ drop (p + length bs) buf"

text \<open>From \<open>y\<close> back to the previous end of line everything is deleted.\<close>

fun wipe :: "nat \<Rightarrow> string \<Rightarrow> string" where
  "wipe 0 buf = (if buf ! 0 = NL then buf else buf[0 := NUL])"
| "wipe (Suc y) buf = (if buf ! Suc y = NL then buf else wipe y (buf[Suc y := NUL]))"

text \<open>The buffer, \<^verbatim>\<open>killme\<close> and \<^verbatim>\<open>remove_zeros\<close> after the character at \<open>i\<close> and after \<open>n\<close> of them.\<close>

definition mark_char :: "nat \<Rightarrow> string \<times> int \<times> bool \<Rightarrow> string \<times> int \<times> bool" where
  "mark_char i = (\<lambda>(buf, k, rz).
     let (buf1, k1, rz1) = (if buf ! i = EOT then (buf[i := NUL], if k = 0 then 1 else k, True) else (buf, k, rz))
     in if buf1 ! i = CR \<and> buf1 ! (i + 1) \<noteq> NL then (wipe i buf1, k1, True) else (buf1, k1, rz1))"

fun mark_loop :: "nat \<Rightarrow> nat \<Rightarrow> string \<times> int \<times> bool \<Rightarrow> string \<times> int \<times> bool" where
  "mark_loop i 0 st = st"
| "mark_loop i (Suc n) st = mark_loop (i + 1) n (mark_char i st)"

text \<open>The loop that removes the zeros in place: from \<open>x\<close>, \<open>n\<close> characters, to \<open>y\<close>.\<close>

fun compact :: "nat \<Rightarrow> nat \<Rightarrow> nat \<Rightarrow> string \<Rightarrow> nat \<times> string" where
  "compact x 0 y buf = (y, buf)"
| "compact x (Suc n) y buf =
     (if buf ! x \<noteq> NUL then compact (x + 1) n (y + 1) (buf[y := buf ! x]) else compact (x + 1) n y buf)"

definition write_log :: "(nat \<Rightarrow> open_mode \<Rightarrow> bool) \<Rightarrow> btee \<Rightarrow> btee" where
  "write_log opens s =
     (if opens (tries s) (mode s)
      then s\<lparr>logged := (if mode s = Create_truncate then [] else logged s) @ take (pos s) (buffer s),
             pos := 0, mode := Append_only, tries := tries s + 1\<rparr>
      else s\<lparr>tries := tries s + 1\<rparr>)"

definition got :: "(nat \<Rightarrow> open_mode \<Rightarrow> bool) \<Rightarrow> string \<Rightarrow> btee \<Rightarrow> (btee, int \<times> btee) outcome" where
  "got opens bs s =
     (let p = pos s; rc = length bs in
      if p + rc + 1 \<ge> BUFFER_SIZE + 1 then Fault
      else
        (let b0 = (store p bs (buffer s))[p + rc + 1 := NUL];
             (b1, k, rz) = mark_loop p rc (b0, killme s, False);
             (q, b2) = (if rz then compact 0 (p + rc) 0 b1 else (p + rc, b1))
         in Continue (write_log opens
              (s\<lparr>buffer := b2, pos := q, killme := k, printed := printed s @ filter (\<lambda>c. c \<noteq> EOT) bs\<rparr>))))"

definition bt_step :: "(nat \<Rightarrow> open_mode \<Rightarrow> bool) \<Rightarrow> btee \<Rightarrow> event \<Rightarrow> (btee, int \<times> btee) outcome" where
  "bt_step opens s e =
     (let s1 = loop_top s in
      case e of
        Bytes bs \<Rightarrow> (if bs = [] then Finish (0, s1) else got opens (take (BUFFER_SIZE - pos s1) bs) s1)
      | End_of_input \<Rightarrow> Finish (0, s1)
      | Second \<Rightarrow>
          (case timer s1 of
             None \<Rightarrow> Continue s1
           | Some n \<Rightarrow> if n \<le> 1 then Finish (1, s1) else Continue (s1\<lparr>timer := Some (n - 1)\<rparr>))
      | Sigalrm \<Rightarrow> Finish (1, s1))"

definition bt_start :: "open_mode \<Rightarrow> string \<Rightarrow> btee" where
  "bt_start m old = \<lparr>buffer = replicate (BUFFER_SIZE + 1) NUL, pos = 0, killme = 0, timer = None, mode = m, tries = 0,
     logged = old, printed = [], drops = 0\<rparr>"

definition btee_main :: "(nat \<Rightarrow> open_mode \<Rightarrow> bool) \<Rightarrow> string list \<Rightarrow> string \<Rightarrow> event list \<Rightarrow> (btee, int \<times> btee) outcome" where
  "btee_main opens argv old es =
     (case argv of
        [name, how, file] \<Rightarrow>
          (if how \<noteq> [] \<and> (hd how = CHR ''a'' \<or> hd how = CHR ''t'')
           then run_machine (bt_step opens)
                  (bt_start (if hd how = CHR ''a'' then Create_append else Create_truncate) old) es
           else Finish (1, bt_start Create_truncate old))
      | _ \<Rightarrow> Finish (1, bt_start Create_truncate old))"

section \<open>Deleting in place\<close>

lemma chars_differ [simp]: "NL \<noteq> NUL" "NUL \<noteq> NL" "CR \<noteq> NL" "NL \<noteq> CR" "CR \<noteq> NUL" "NUL \<noteq> CR"
  "EOT \<noteq> CR" "CR \<noteq> EOT" "EOT \<noteq> NUL" "NUL \<noteq> EOT" "EOT \<noteq> NL" "NL \<noteq> EOT"
  by (simp_all add: NL_def NUL_def CR_def EOT_def)

definition drop_line :: "string \<Rightarrow> string" where
  "drop_line s = rev (dropWhile (\<lambda>c. c \<noteq> NL) (rev s))"

definition nz :: "string \<Rightarrow> string" where
  "nz s = filter (\<lambda>c. c \<noteq> NUL) s"

lemma nz_simps [simp]: "nz [] = []" "nz (xs @ ys) = nz xs @ nz ys" "nz (c # cs) = (if c = NUL then nz cs else c # nz cs)"
  by (simp_all add: nz_def)

lemma nz_id: "NUL \<notin> set s \<Longrightarrow> nz s = s"
  by (induction s) auto

lemma drop_line_snoc [simp]: "drop_line (s @ [c]) = (if c = NL then s @ [c] else drop_line s)"
  by (simp add: drop_line_def)

lemma drop_line_Nil [simp]: "drop_line [] = []"
  by (simp add: drop_line_def)

lemma length_wipe [simp]: "length (wipe y buf) = length buf"
  by (induction y buf rule: wipe.induct) auto

lemma wipe_behind: "y < i \<Longrightarrow> wipe y buf ! i = buf ! i"
  by (induction y buf rule: wipe.induct) auto

lemma nz_wipe: "y < length buf \<Longrightarrow> nz (take (Suc y) (wipe y buf)) = drop_line (nz (take (Suc y) buf))"
proof (induction y buf rule: wipe.induct)
  case (1 buf)
  then show ?case by (cases buf) (auto simp: drop_line_def)
next
  case (2 y buf)
  have t: "take (Suc (Suc y)) b = take (Suc y) b @ [b ! Suc y]" if "Suc y < length b" for b :: string
    using that by (rule take_Suc_nth)
  show ?case
  proof (cases "buf ! Suc y = NL")
    case True
    then show ?thesis using t [of buf] 2(2) by simp
  next
    case False
    let ?b = "buf[Suc y := NUL]"
    have l: "Suc y < length (wipe y ?b)" using 2(2) by simp
    have "wipe y ?b ! Suc y = NUL" using wipe_behind [of y "Suc y" ?b] 2(2) by simp
    then have "nz (take (Suc (Suc y)) (wipe y ?b)) = nz (take (Suc y) (wipe y ?b))"
      using t [OF l] by simp
    also have "\<dots> = drop_line (nz (take (Suc y) buf))" using 2 False by simp
    also have "\<dots> = drop_line (nz (take (Suc (Suc y)) buf))" using t [of buf] 2(2) False by simp
    finally show ?thesis using False by simp
  qed
qed

lemma compact_spec:
  "x + n \<le> length buf \<Longrightarrow> y \<le> x \<Longrightarrow> compact x n y buf = (q, b) \<Longrightarrow>
     take q b = take y buf @ nz (take n (drop x buf)) \<and> length b = length buf \<and> q \<le> y + n"
proof (induction x n y buf arbitrary: q b rule: compact.induct)
  case (1 x y buf)
  then show ?case by simp
next
  case (2 x n y buf)
  have d: "take (Suc n) (drop x buf) = buf ! x # take n (drop (Suc x) buf)"
    using 2(3) by (simp add: Cons_nth_drop_Suc [symmetric])
  show ?case
  proof (cases "buf ! x = NUL")
    case True
    then have "compact (x + 1) n y buf = (q, b)" using 2(5) by simp
    from 2(2) [OF _ _ _ this] have "take q b = take y buf @ nz (take n (drop (x + 1) buf)) \<and> length b = length buf \<and> q \<le> y + n"
      using True 2(3,4) by simp
    then show ?thesis using True d by simp
  next
    case False
    let ?b = "buf[y := buf ! x]"
    have "compact (x + 1) n (y + 1) ?b = (q, b)" using 2(5) False by simp
    then have "take q b = take (y + 1) ?b @ nz (take n (drop (x + 1) ?b)) \<and> length b = length ?b \<and> q \<le> y + 1 + n"
      using 2(1) [OF False, of q b] 2(3,4) by simp
    moreover have "take (y + 1) ?b = take y buf @ [buf ! x]"
      using 2(3,4) take_Suc_nth [of y ?b] by simp
    moreover have "drop (x + 1) ?b = drop (Suc x) buf" using 2(4) by simp
    ultimately show ?thesis using d False by simp
  qed
qed

lemma drop_wipe: "drop (Suc y) (wipe y buf) = drop (Suc y) buf"
  by (rule nth_equalityI) (auto simp: wipe_behind)

section \<open>One chunk\<close>

text \<open>
  What becomes of the text kept so far: the mark at the end of a message is left out, and a carriage return
  that is not part of an end of line (\<open>z\<close> comes behind the chunk) deletes the line it is on.
\<close>

fun settle :: "char \<Rightarrow> string \<Rightarrow> string \<Rightarrow> string" where
  "settle z acc [] = acc"
| "settle z acc (c # cs) =
     settle z
       (if c = EOT then acc
        else if c = CR \<and> (case cs of [] \<Rightarrow> z | d # _ \<Rightarrow> d) \<noteq> NL then drop_line acc else acc @ [c]) cs"

lemma settle_next: "bs = [] \<or> last bs \<noteq> CR \<Longrightarrow> settle z acc bs = settle z' acc bs"
proof (induction bs arbitrary: acc)
  case Nil
  then show ?case by simp
next
  case (Cons c cs)
  show ?case
  proof (cases cs)
    case Nil
    then show ?thesis using Cons.prems by simp
  next
    case (Cons d ds)
    then have "cs = [] \<or> last cs \<noteq> CR" using Cons.prems by simp
    then show ?thesis using Cons.IH Cons by simp
  qed
qed

lemma settle_plain: "CR \<notin> set bs \<Longrightarrow> settle z acc bs = acc @ filter (\<lambda>c. c \<noteq> EOT) bs"
  by (induction bs arbitrary: acc) auto

lemma set_drop_line: "set (drop_line s) \<subseteq> set s"
  using set_dropWhileD by (fastforce simp: drop_line_def)

lemma length_drop_line: "length (drop_line s) \<le> length s"
  using length_dropWhile_le [of "\<lambda>c. c \<noteq> NL" "rev s"] by (simp add: drop_line_def)

lemma set_settle: "set (settle z acc bs) \<subseteq> set acc \<union> set bs"
proof (induction z acc bs rule: settle.induct)
  case (2 z acc c cs)
  then show ?case using set_drop_line [of acc] by (auto split: if_splits)
qed simp

lemma length_settle: "length (settle z acc bs) \<le> length acc + length bs"
proof (induction z acc bs rule: settle.induct)
  case (2 z acc c cs)
  then show ?case using length_drop_line [of acc] by (auto split: if_splits)
qed simp

lemma mark_char_spec:
  assumes "i + 1 < length buf" "buf ! i \<noteq> NUL" "mark_char i (buf, k, rz) = (b, k', rz')"
  shows "nz (take (Suc i) b) =
      (if buf ! i = EOT then nz (take i buf)
       else if buf ! i = CR \<and> buf ! Suc i \<noteq> NL then drop_line (nz (take i buf)) else nz (take i buf) @ [buf ! i])"
    "drop (Suc i) b = drop (Suc i) buf" "length b = length buf" "\<not> rz' \<Longrightarrow> \<not> rz \<and> b = buf"
    "k' = (if buf ! i = EOT \<and> k = 0 then 1 else k)"
proof -
  have t: "take (Suc i) buf = take i buf @ [buf ! i]" using assms(1) by (intro take_Suc_nth) simp
  have t': "take (Suc i) (buf[i := NUL]) = take i buf @ [NUL]"
    using assms(1) take_Suc_nth [of i "buf[i := NUL]"] by simp
  have w: "nz (take (Suc i) (wipe i buf)) = drop_line (nz (take (Suc i) buf))" using assms(1) by (intro nz_wipe) simp
  consider "buf ! i = EOT" "b = buf[i := NUL]" "rz'" "k' = (if k = 0 then 1 else k)"
    | "buf ! i = CR" "buf ! Suc i \<noteq> NL" "b = wipe i buf" "rz'" "k' = k"
    | "buf ! i \<noteq> EOT" "\<not> (buf ! i = CR \<and> buf ! Suc i \<noteq> NL)" "b = buf" "rz' = rz" "k' = k"
  proof (cases "buf ! i = EOT")
    case True
    then have "buf[i := NUL] ! i = NUL" using assms(1) by simp
    then have "mark_char i (buf, k, rz) = (buf[i := NUL], if k = 0 then 1 else k, True)"
      using True by (simp add: mark_char_def Let_def)
    then show ?thesis using that(1) True assms(3) by simp
  next
    case False
    then have "mark_char i (buf, k, rz) =
        (if buf ! i = CR \<and> buf ! Suc i \<noteq> NL then (wipe i buf, k, True) else (buf, k, rz))"
      by (simp add: mark_char_def)
    then show ?thesis using that(2,3) False assms(3) by (auto split: if_splits)
  qed
  then have "nz (take (Suc i) b) =
      (if buf ! i = EOT then nz (take i buf)
       else if buf ! i = CR \<and> buf ! Suc i \<noteq> NL then drop_line (nz (take i buf)) else nz (take i buf) @ [buf ! i]) \<and>
    drop (Suc i) b = drop (Suc i) buf \<and> length b = length buf \<and> (\<not> rz' \<longrightarrow> \<not> rz \<and> b = buf) \<and>
    k' = (if buf ! i = EOT \<and> k = 0 then 1 else k)"
  proof cases
    case 1
    then show ?thesis using t' by simp
  next
    case 2
    then show ?thesis using t w by (simp add: drop_wipe)
  next
    case 3
    then show ?thesis using t assms(2) by auto
  qed
  then show "nz (take (Suc i) b) =
      (if buf ! i = EOT then nz (take i buf)
       else if buf ! i = CR \<and> buf ! Suc i \<noteq> NL then drop_line (nz (take i buf)) else nz (take i buf) @ [buf ! i])"
    "drop (Suc i) b = drop (Suc i) buf" "length b = length buf" "\<not> rz' \<Longrightarrow> \<not> rz \<and> b = buf"
    "k' = (if buf ! i = EOT \<and> k = 0 then 1 else k)"
    by blast+
qed

lemma mark_loop_spec:
  assumes "i + n < length buf" "NUL \<notin> set (take n (drop i buf))" "mark_loop i n (buf, k, rz) = (b, k', rz')"
  shows "nz (take (i + n) b) = settle (buf ! (i + n)) (nz (take i buf)) (take n (drop i buf)) \<and>
    length b = length buf \<and> (\<not> rz' \<longrightarrow> \<not> rz \<and> b = buf)"
  using assms
proof (induction n arbitrary: i buf k rz)
  case 0
  then show ?case by simp
next
  case (Suc n)
  obtain b1 k1 rz1 where m: "mark_char i (buf, k, rz) = (b1, k1, rz1)" by (metis prod_cases3)
  have d: "take (Suc n) (drop i buf) = buf ! i # take n (drop (Suc i) buf)"
    using Suc.prems(1) by (simp add: Cons_nth_drop_Suc [symmetric])
  have c: "i + 1 < length buf" "buf ! i \<noteq> NUL" using Suc.prems(1,2) d by auto
  note mc = mark_char_spec [OF c m]
  have e: "mark_loop (Suc i) n (b1, k1, rz1) = (b, k', rz')" using Suc.prems(3) m by simp
  have same: "b1 ! j = buf ! j" if "Suc i \<le> j" "j < length buf" for j
    using mc(2,3) that nth_drop [of "Suc i" b1 "j - Suc i"] nth_drop [of "Suc i" buf "j - Suc i"] by simp
  have "nz (take (Suc i + n) b) = settle (b1 ! (Suc i + n)) (nz (take (Suc i) b1)) (take n (drop (Suc i) b1)) \<and>
      length b = length b1 \<and> (\<not> rz' \<longrightarrow> \<not> rz1 \<and> b = b1)"
    by (rule Suc.IH [OF _ _ e]) (use Suc.prems(1,2) d mc(2,3) in simp_all)
  moreover have "(case take n (drop (Suc i) buf) of [] \<Rightarrow> buf ! Suc (i + n) | d # _ \<Rightarrow> d) = buf ! Suc i"
    using Suc.prems(1) by (cases n) (simp_all add: Cons_nth_drop_Suc [symmetric])
  moreover have "b1 ! (Suc i + n) = buf ! (Suc i + n)" using same Suc.prems(1) by simp
  ultimately show ?case using d mc(1,2,3,4) by auto
qed

section \<open>The abstract tee\<close>

text \<open>The log file, how it is opened next, the text still to be written, and the attempts made so far.\<close>

type_synonym tee = "string \<times> open_mode \<times> string \<times> nat"

fun tee_step :: "(nat \<Rightarrow> open_mode \<Rightarrow> bool) \<Rightarrow> string \<Rightarrow> tee \<Rightarrow> tee" where
  "tee_step opens bs (l, m, p, k) =
     (let p' = settle NL p bs
      in if opens k m then ((if m = Create_truncate then [] else l) @ p', Append_only, [], k + 1)
         else (l, m, p', k + 1))"

definition rep :: "btee \<Rightarrow> tee \<Rightarrow> bool" where
  "rep s t \<longleftrightarrow> t = (logged s, mode s, take (pos s) (buffer s), tries s) \<and>
     length (buffer s) = BUFFER_SIZE + 1 \<and> pos s < BUFFER_SIZE \<and> NUL \<notin> set (take (pos s) (buffer s))"

text \<open>A chunk of text, as it comes from programs that send whole lines or at least no bare return at the end.\<close>

definition text_chunk :: "string \<Rightarrow> bool" where
  "text_chunk bs \<longleftrightarrow> bs \<noteq> [] \<and> NUL \<notin> set bs \<and> last bs \<noteq> CR"

lemma store_facts:
  assumes "p + length bs < length buf"
  shows "length (store p bs buf) = length buf" "take p (store p bs buf) = take p buf"
    "take (length bs) (drop p (store p bs buf)) = bs"
  using assms by (auto simp: store_def min_def)

lemma loop_top_small:
  assumes "pos s < BUFFER_SIZE"
  shows "pos (loop_top s) = pos s" "buffer (loop_top s) = buffer s" "mode (loop_top s) = mode s"
    "tries (loop_top s) = tries s" "logged (loop_top s) = logged s" "printed (loop_top s) = printed s"
  using assms by (simp_all add: loop_top_def)

lemma buffered:
  assumes l: "length buf = BUFFER_SIZE + 1" and r: "p + length bs < BUFFER_SIZE"
    and nul: "NUL \<notin> set (take p buf)" and c: "text_chunk bs"
    and m: "mark_loop p (length bs) ((store p bs buf)[p + length bs + 1 := NUL], k, False) = (b1, k', rz)"
    and q: "(if rz then compact 0 (p + length bs) 0 b1 else (p + length bs, b1)) = (q, b2)"
  shows "take q b2 = settle NL (take p buf) bs \<and> length b2 = length buf \<and> q \<le> p + length bs"
proof -
  let ?b0 = "(store p bs buf)[p + length bs + 1 := NUL]"
  have s: "length ?b0 = length buf" "take p ?b0 = take p buf" "take (length bs) (drop p ?b0) = bs"
    using store_facts [of p bs buf] l r by (simp_all add: drop_update_swap)
  have c': "NUL \<notin> set bs" "last bs \<noteq> CR" using c by (simp_all add: text_chunk_def)
  have "nz (take (p + length bs) b1) = settle (?b0 ! (p + length bs)) (nz (take p ?b0)) (take (length bs) (drop p ?b0)) \<and>
      length b1 = length ?b0 \<and> (\<not> rz \<longrightarrow> \<not> False \<and> b1 = ?b0)"
    by (rule mark_loop_spec [OF _ _ m]) (use s c' l r in simp_all)
  then have b1: "nz (take (p + length bs) b1) = settle NL (take p buf) bs" "length b1 = length buf" "\<not> rz \<Longrightarrow> b1 = ?b0"
    using s c' settle_next [of bs _ _ NL] nz_id [OF nul] by auto
  show ?thesis
  proof (cases rz)
    case True
    then have "compact 0 (p + length bs) 0 b1 = (q, b2)" using q by simp
    from compact_spec [OF _ _ this] show ?thesis using b1 l r by simp
  next
    case False
    then have e: "b2 = ?b0" "q = p + length bs" using q b1(3) by auto
    have "take (p + length bs) ?b0 = take p buf @ bs" using s by (simp add: take_add)
    then have "NUL \<notin> set (take (p + length bs) b1)" using nul c' b1(3) False by simp
    then have "take (p + length bs) b1 = settle NL (take p buf) bs" using b1(1) nz_id by simp
    then show ?thesis using e b1(2,3) False by simp
  qed
qed

lemma bt_step_text:
  assumes r: "rep s t" and c: "text_chunk bs" and f: "pos s + length bs < BUFFER_SIZE"
  obtains s' where "bt_step opens s (Bytes bs) = Continue s'" "rep s' (tee_step opens bs t)"
    "printed s' = printed s @ filter (\<lambda>c. c \<noteq> EOT) bs" "pos s' \<le> pos s + length bs"
proof -
  let ?s = "loop_top s"
  have p: "pos s < BUFFER_SIZE" and l: "length (buffer s) = BUFFER_SIZE + 1" and nul: "NUL \<notin> set (take (pos s) (buffer s))"
    and t: "t = (logged s, mode s, take (pos s) (buffer s), tries s)"
    using r by (simp_all add: rep_def)
  note lt = loop_top_small [OF p]
  obtain b1 k' rz where m: "mark_loop (pos s) (length bs)
      ((store (pos s) bs (buffer s))[pos s + length bs + 1 := NUL], killme ?s, False) = (b1, k', rz)" by (metis prod_cases3)
  obtain q b2 where q: "(if rz then compact 0 (pos s + length bs) 0 b1 else (pos s + length bs, b1)) = (q, b2)" by fastforce
  have b: "take q b2 = settle NL (take (pos s) (buffer s)) bs" "length b2 = BUFFER_SIZE + 1" "q \<le> pos s + length bs"
    using buffered [OF l f nul c m q] l by simp_all
  define u where "u = ?s\<lparr>buffer := b2, pos := q, killme := k', printed := printed s @ filter (\<lambda>c. c \<noteq> EOT) bs\<rparr>"
  have "bs \<noteq> []" "take (BUFFER_SIZE - pos s) bs = bs"
    using c f by (simp_all add: text_chunk_def)
  moreover have "length bs \<le> BUFFER_SIZE - pos s" using f by simp
  ultimately have e: "bt_step opens s (Bytes bs) = Continue (write_log opens u)"
    using f m q by (cases rz) (simp_all add: bt_step_def got_def Let_def lt u_def min_def)
  have u: "logged u = logged s" "mode u = mode s" "tries u = tries s" "pos u = q" "buffer u = b2"
    "printed u = printed s @ filter (\<lambda>c. c \<noteq> EOT) bs"
    by (simp_all add: u_def lt)
  have "NUL \<notin> set bs" using c by (simp add: text_chunk_def)
  then have "NUL \<notin> set (take q b2)" using set_settle [of NL "take (pos s) (buffer s)" bs] nul b(1) by auto
  then have "rep (write_log opens u) (tee_step opens bs t)"
    using f b u by (simp add: t rep_def write_log_def Let_def)
  moreover have "printed (write_log opens u) = printed u" "pos (write_log opens u) \<le> q"
    using u(4) by (simp_all add: write_log_def)
  ultimately show thesis using that e u(6) b(3) by auto
qed

lemma bt_run_text:
  assumes "rep s t" "list_all text_chunk cs" "pos s + length (concat cs) < BUFFER_SIZE"
  shows "\<exists>s'. run_machine (bt_step opens) s (map Bytes cs) = Continue s' \<and> rep s' (fold (tee_step opens) cs t) \<and>
    printed s' = printed s @ filter (\<lambda>c. c \<noteq> EOT) (concat cs)"
  using assms
proof (induction cs arbitrary: s t)
  case Nil
  then show ?case by simp
next
  case (Cons bs cs)
  obtain s1 where s1: "bt_step opens s (Bytes bs) = Continue s1" "rep s1 (tee_step opens bs t)"
    "printed s1 = printed s @ filter (\<lambda>c. c \<noteq> EOT) bs" "pos s1 \<le> pos s + length bs"
    using bt_step_text [OF Cons.prems(1), of bs opens] Cons.prems(2,3) by auto
  have "\<exists>s'. run_machine (bt_step opens) s1 (map Bytes cs) = Continue s' \<and>
      rep s' (fold (tee_step opens) cs (tee_step opens bs t)) \<and>
      printed s' = printed s1 @ filter (\<lambda>c. c \<noteq> EOT) (concat cs)"
    by (rule Cons.IH [OF s1(2)]) (use Cons.prems(2,3) s1(4) in simp_all)
  then show ?case using s1(1,3) by auto
qed

lemma rep_start: "rep (bt_start m old) (old, m, [], 0)"
  by (simp add: rep_def bt_start_def BUFFER_SIZE_def)

lemma tee_append_only: "fold (tee_step opens) cs (l, Append_only, p, k) = (l', m', p', k') \<Longrightarrow> m' = Append_only"
  by (induction cs arbitrary: l p k) (auto simp: Let_def split: if_splits)

text \<open>Text without carriage returns is never changed: log and pending text together are what was printed.\<close>

lemma tee_plain:
  assumes "\<forall>bs \<in> set cs. CR \<notin> set bs" "fold (tee_step opens) cs (l, m, p, k) = (l', m', p', k')"
  shows "\<exists>w. p @ filter (\<lambda>c. c \<noteq> EOT) (concat cs) = w @ p' \<and>
    l' = (if m = Create_truncate \<and> m' = Append_only then [] else l) @ w"
  using assms
proof (induction cs arbitrary: l m p k)
  case Nil
  then show ?case by auto
next
  case (Cons bs cs)
  have st: "settle NL p bs = p @ filter (\<lambda>c. c \<noteq> EOT) bs" using Cons.prems(1) by (simp add: settle_plain)
  show ?case
  proof (cases "opens k m")
    case True
    let ?l = "(if m = Create_truncate then [] else l) @ p @ filter (\<lambda>c. c \<noteq> EOT) bs"
    have f: "fold (tee_step opens) cs (?l, Append_only, [], k + 1) = (l', m', p', k')"
      using Cons.prems(2) True st by (simp add: Let_def)
    obtain w where w: "filter (\<lambda>c. c \<noteq> EOT) (concat cs) = w @ p'" "l' = ?l @ w"
      using Cons.IH [OF _ f] Cons.prems(1) by auto
    have m': "m' = Append_only" using tee_append_only [OF f] .
    then show ?thesis using w by (intro exI [of _ "p @ filter (\<lambda>c. c \<noteq> EOT) bs @ w"]) auto
  next
    case False
    have f: "fold (tee_step opens) cs (l, m, p @ filter (\<lambda>c. c \<noteq> EOT) bs, k + 1) = (l', m', p', k')"
      using Cons.prems(2) False st by (simp add: Let_def)
    from Cons.IH [OF _ f] Cons.prems(1) show ?thesis by simp
  qed
qed

section \<open>Properties\<close>



text \<open>
  Text without carriage returns is neither lost, nor doubled, nor reordered while the log file cannot be opened: after
  any chunks, what the log was given and what is still in the buffer is what was printed, behind the old contents
  of the log unless that has been truncated.
\<close>

lemma btee_keeps_text:
  assumes "list_all text_chunk cs" "\<forall>bs \<in> set cs. CR \<notin> set bs" "length (concat cs) < BUFFER_SIZE"
  shows "\<exists>s. btee_main opens [name, if app then ''a'' else ''t'', file] old (map Bytes cs) = Continue s \<and>
    logged s @ take (pos s) (buffer s) = (if app \<or> mode s \<noteq> Append_only then old else []) @ printed s"
proof -
  let ?m = "if app then Create_append else Create_truncate"
  have "\<exists>s. run_machine (bt_step opens) (bt_start ?m old) (map Bytes cs) = Continue s \<and>
      rep s (fold (tee_step opens) cs (old, ?m, [], 0)) \<and>
      printed s = printed (bt_start ?m old) @ filter (\<lambda>c. c \<noteq> EOT) (concat cs)"
    by (rule bt_run_text [OF rep_start assms(1)]) (use assms(3) in \<open>simp add: bt_start_def\<close>)
  then obtain s where s: "run_machine (bt_step opens) (bt_start ?m old) (map Bytes cs) = Continue s"
    "rep s (fold (tee_step opens) cs (old, ?m, [], 0))" "printed s = filter (\<lambda>c. c \<noteq> EOT) (concat cs)"
    by (auto simp: bt_start_def)
  then have f: "fold (tee_step opens) cs (old, ?m, [], 0) = (logged s, mode s, take (pos s) (buffer s), tries s)"
    by (simp add: rep_def)
  have "btee_main opens [name, if app then ''a'' else ''t'', file] old (map Bytes cs) = Continue s"
    using s(1) by (cases app) (simp_all add: btee_main_def)
  moreover obtain w where "[] @ filter (\<lambda>c. c \<noteq> EOT) (concat cs) = w @ take (pos s) (buffer s)"
    "logged s = (if ?m = Create_truncate \<and> mode s = Append_only then [] else old) @ w"
    using tee_plain [OF assms(2) f] by blast
  ultimately show ?thesis using s(3) by (intro exI [of _ s]) simp
qed

lemma btee_keeps_text_witness:
  "\<exists>s. btee_main (\<lambda>k m. False) [''btee'', ''t'', ''log''] ''x'' (map Bytes [''ab'', ''c'']) = Continue s \<and>
     logged s @ take (pos s) (buffer s) = (if mode s \<noteq> Append_only then ''x'' else []) @ printed s"
proof -
  have "list_all text_chunk [''ab'', ''c'']" "\<forall>bs \<in> set [''ab'', ''c'']. CR \<notin> set bs"
    "length (concat [''ab'', ''c'']) < BUFFER_SIZE"
    by (simp_all add: text_chunk_def NUL_def CR_def BUFFER_SIZE_def)
  from btee_keeps_text [OF this, of "\<lambda>k m. False" "''btee''" False "''log''" "''x''"]
  show ?thesis unfolding if_False simp_thms .
qed

text \<open>
  Memory is left exactly when one read fills the buffer: the zero behind the chunk is then stored
  one byte behind the array.
\<close>

lemma btee_overrun:
  assumes "pos s < BUFFER_SIZE" "bs \<noteq> []"
  shows "bt_step opens s (Bytes bs) = Fault \<longleftrightarrow> BUFFER_SIZE \<le> pos s + length bs"
proof -
  have "pos (loop_top s) = pos s" using assms(1) by (rule loop_top_small)
  then show ?thesis using assms
    by (auto simp: bt_step_def got_def Let_def min_def split: prod.splits)
qed

lemma btee_overrun_witness:
  "bt_step (\<lambda>k m. True) (bt_start Create_append []) (Bytes (replicate 8191 CHR ''x'')) = Fault"
  by (subst btee_overrun) (simp_all add: bt_start_def BUFFER_SIZE_def)

section \<open>The end of the program\<close>

lemma mark_loop_killme:
  assumes "i + n < length buf" "NUL \<notin> set (take n (drop i buf))" "mark_loop i n (buf, k, rz) = (b, k', rz')"
  shows "k' = (if EOT \<in> set (take n (drop i buf)) \<and> k = 0 then 1 else k)"
  using assms
proof (induction n arbitrary: i buf k rz)
  case (Suc n)
  obtain b1 k1 rz1 where m: "mark_char i (buf, k, rz) = (b1, k1, rz1)" by (metis prod_cases3)
  have d: "take (Suc n) (drop i buf) = buf ! i # take n (drop (Suc i) buf)"
    using Suc.prems(1) by (simp add: Cons_nth_drop_Suc [symmetric])
  have c: "i + 1 < length buf" "buf ! i \<noteq> NUL" using Suc.prems(1,2) d by auto
  note mc = mark_char_spec [OF c m]
  have e: "mark_loop (Suc i) n (b1, k1, rz1) = (b, k', rz')" using Suc.prems(3) m by simp
  have "k' = (if EOT \<in> set (take n (drop (Suc i) b1)) \<and> k1 = 0 then 1 else k1)"
    by (rule Suc.IH [OF _ _ e]) (use Suc.prems(1,2) d mc(2,3) in simp_all)
  then show ?case using d mc(2,5) by auto
qed simp

text \<open>
  How far the end is: no mark has been read; a mark has been read, and the alarm will be set before the next
  \<^verbatim>\<open>read\<close>; the alarm has been set \<open>n\<close> seconds ago.
\<close>

definition clock_ok :: "btee \<Rightarrow> bool \<Rightarrow> nat \<Rightarrow> bool" where
  "clock_ok s mark n \<longleftrightarrow>
     (if \<not> mark then killme s = 0 \<and> timer s = None \<and> n = 0
      else n = 0 \<and> killme s = 1 \<and> timer s = None \<or> n \<le> 2 \<and> killme s = -1 \<and> timer s = Some (3 - n))"

lemma bt_step_clock:
  assumes r: "rep s t" and c: "text_chunk bs" and f: "pos s + length bs < BUFFER_SIZE"
    and e: "bt_step opens s (Bytes bs) = Continue s'" and k: "clock_ok s mark n"
  shows "clock_ok s' (mark \<or> EOT \<in> set bs) n"
proof -
  let ?s = "loop_top s"
  have p: "pos s < BUFFER_SIZE" and l: "length (buffer s) = BUFFER_SIZE + 1"
    using r by (simp_all add: rep_def)
  note lt = loop_top_small [OF p]
  have kt: "killme ?s = (if killme s = 1 then -1 else killme s)" "timer ?s = (if killme s = 1 then Some 3 else timer s)"
    using p by (simp_all add: loop_top_def)
  let ?b0 = "(store (pos s) bs (buffer s))[pos s + length bs + 1 := NUL]"
  obtain b1 k' rz where m: "mark_loop (pos s) (length bs) (?b0, killme ?s, False) = (b1, k', rz)" by (metis prod_cases3)
  obtain q b2 where q: "(if rz then compact 0 (pos s + length bs) 0 b1 else (pos s + length bs, b1)) = (q, b2)" by fastforce
  have st: "length ?b0 = length (buffer s)" "take (length bs) (drop (pos s) ?b0) = bs"
    using store_facts [of "pos s" bs "buffer s"] l f by (simp_all add: drop_update_swap)
  have "k' = (if EOT \<in> set (take (length bs) (drop (pos s) ?b0)) \<and> killme ?s = 0 then 1 else killme ?s)"
    by (rule mark_loop_killme [OF _ _ m]) (use st c l f in \<open>simp_all add: text_chunk_def\<close>)
  then have k': "k' = (if EOT \<in> set bs \<and> killme ?s = 0 then 1 else killme ?s)" using st by simp
  have "bs \<noteq> []" "take (BUFFER_SIZE - pos s) bs = bs" "length bs \<le> BUFFER_SIZE - pos s"
    using c f by (simp_all add: text_chunk_def)
  then have "killme s' = k'" "timer s' = timer ?s"
    using e f m q by (cases rz; auto simp: bt_step_def got_def Let_def lt min_def write_log_def)+
  then show ?thesis using k' kt k by (auto simp: clock_ok_def split: if_splits)
qed

lemma bt_step_second:
  assumes r: "rep s t" and k: "clock_ok s mark n"
  shows "if mark \<and> n = 2 then bt_step opens s Second = Finish (1, loop_top s)
    else \<exists>s'. bt_step opens s Second = Continue s' \<and> rep s' t \<and> clock_ok s' mark (if mark then n + 1 else 0) \<and>
      printed s' = printed s \<and> pos s' = pos s"
proof -
  have p: "pos s < BUFFER_SIZE" using r by (simp add: rep_def)
  note lt = loop_top_small [OF p]
  have kt: "killme (loop_top s) = (if killme s = 1 then -1 else killme s)" "timer (loop_top s) = (if killme s = 1 then Some 3 else timer s)"
    using p by (simp_all add: loop_top_def)
  have "rep (loop_top s) t" "rep (loop_top s\<lparr>timer := x\<rparr>) t" for x
    using r lt by (simp_all add: rep_def)
  then show ?thesis using k kt lt by (auto simp: clock_ok_def bt_step_def Let_def split: if_splits)
qed

text \<open>What is typed into the pipe while no signal comes, and the seconds that pass after the first end mark.\<close>

fun quiet :: "event \<Rightarrow> bool" where
  "quiet (Bytes bs) \<longleftrightarrow> text_chunk bs"
| "quiet Second \<longleftrightarrow> True"
| "quiet _ \<longleftrightarrow> False"

fun event_text :: "event \<Rightarrow> string" where
  "event_text (Bytes bs) = bs"
| "event_text _ = []"

fun seconds_after_mark :: "event list \<Rightarrow> nat" where
  "seconds_after_mark [] = 0"
| "seconds_after_mark (e # es) =
     (if EOT \<in> set (event_text e) then length (filter (\<lambda>e. e = Second) es) else seconds_after_mark es)"

fun seconds_from :: "bool \<Rightarrow> event list \<Rightarrow> nat" where
  "seconds_from mark es = (if mark then length (filter (\<lambda>e. e = Second) es) else seconds_after_mark es)"

lemma bt_run_events:
  assumes "rep s t" "list_all quiet es" "pos s + length (concat (map event_text es)) < BUFFER_SIZE" "clock_ok s mark n"
    and "n + seconds_from mark es \<le> 2"
  shows "\<exists>s' t'. run_machine (bt_step opens) s es = Continue s' \<and> rep s' t' \<and>
    printed s' = printed s @ filter (\<lambda>c. c \<noteq> EOT) (concat (map event_text es)) \<and>
    clock_ok s' (mark \<or> EOT \<in> set (concat (map event_text es))) (n + seconds_from mark es)"
  using assms
proof (induction es arbitrary: s t mark n)
  case Nil
  then show ?case by (intro exI [of _ s] exI [of _ t]) auto
next
  case (Cons e es)
  show ?case
  proof (cases e)
    case (Bytes bs)
    obtain s1 where s1: "bt_step opens s (Bytes bs) = Continue s1" "rep s1 (tee_step opens bs t)"
      "printed s1 = printed s @ filter (\<lambda>c. c \<noteq> EOT) bs" "pos s1 \<le> pos s + length bs"
      using bt_step_text [OF Cons.prems(1), of bs opens] Cons.prems(2,3) Bytes by auto
    have k1: "clock_ok s1 (mark \<or> EOT \<in> set bs) n"
      using bt_step_clock [OF Cons.prems(1) _ _ s1(1) Cons.prems(4)] Cons.prems(2,3) Bytes by auto
    have n: "n + seconds_from (mark \<or> EOT \<in> set bs) es = n + seconds_from mark (e # es)" using Bytes by simp
    have "\<exists>s' t'. run_machine (bt_step opens) s1 es = Continue s' \<and> rep s' t' \<and>
        printed s' = printed s1 @ filter (\<lambda>c. c \<noteq> EOT) (concat (map event_text es)) \<and>
        clock_ok s' ((mark \<or> EOT \<in> set bs) \<or> EOT \<in> set (concat (map event_text es))) (n + seconds_from (mark \<or> EOT \<in> set bs) es)"
      by (rule Cons.IH [OF s1(2) _ _ k1]) (use Cons.prems(2,3,5) s1(4) Bytes in \<open>simp_all add: n del: seconds_from.simps\<close>)
    then show ?thesis unfolding n using s1(1,3) Bytes by (auto simp del: seconds_from.simps)
  next
    case Second
    have n: "\<not> (mark \<and> n = 2)" "(if mark then n + 1 else 0) + seconds_from mark es = n + seconds_from mark (e # es)"
      using Cons.prems(4,5) Second by (auto simp: clock_ok_def)
    obtain s1 where s1: "bt_step opens s Second = Continue s1" "rep s1 t" "clock_ok s1 mark (if mark then n + 1 else 0)"
      "printed s1 = printed s" "pos s1 = pos s"
      using bt_step_second [OF Cons.prems(1,4), of opens] n(1) by auto
    have "\<exists>s' t'. run_machine (bt_step opens) s1 es = Continue s' \<and> rep s' t' \<and>
        printed s' = printed s1 @ filter (\<lambda>c. c \<noteq> EOT) (concat (map event_text es)) \<and>
        clock_ok s' (mark \<or> EOT \<in> set (concat (map event_text es))) ((if mark then n + 1 else 0) + seconds_from mark es)"
      by (rule Cons.IH [OF s1(2) _ _ s1(3)]) (use Cons.prems(2,3,5) s1(5) Second n(2) in \<open>simp_all del: seconds_from.simps\<close>)
    then show ?thesis unfolding n(2) using s1(1,4) Second by (auto simp del: seconds_from.simps)
  qed (use Cons.prems(2) in auto)
qed

lemma seconds_marked: "EOT \<notin> set (concat (map event_text es)) \<Longrightarrow> seconds_after_mark es = 0"
  by (induction es) auto

lemma seconds_snoc: "seconds_after_mark (es @ [Second]) = seconds_after_mark es + (if EOT \<in> set (concat (map event_text es)) then 1 else 0)"
  by (induction es) auto

lemma loop_top_stays: "pos s < BUFFER_SIZE \<Longrightarrow> printed (loop_top s) = printed s"
  by (rule loop_top_small)

lemma btee_end:
  fixes opens :: "nat \<Rightarrow> open_mode \<Rightarrow> bool" and name logfile old :: string and app :: bool
  assumes "list_all quiet es" "length (concat (map event_text es)) < BUFFER_SIZE" "seconds_after_mark es \<le> 2"
  defines "run \<equiv> \<lambda>es. btee_main opens [name, if app then ''a'' else ''t'', logfile] old es"
    and "out \<equiv> filter (\<lambda>c. c \<noteq> EOT) (concat (map event_text es))"
  shows "(\<exists>s. run es = Continue s \<and> printed s = out) \<and>
    (if seconds_after_mark (es @ [Second]) = 3 then \<exists>s. run (es @ [Second]) = Finish (1, s) \<and> printed s = out
     else \<exists>s. run (es @ [Second]) = Continue s \<and> printed s = out) \<and>
    (\<exists>s. run (es @ [End_of_input]) = Finish (0, s) \<and> printed s = out) \<and>
    (\<exists>s. run (es @ [Sigalrm]) = Finish (1, s) \<and> printed s = out)"
proof -
  let ?m = "if app then Create_append else Create_truncate"
  let ?s0 = "bt_start ?m old"
  have "clock_ok ?s0 False 0" by (simp add: clock_ok_def bt_start_def)
  moreover have "pos ?s0 + length (concat (map event_text es)) < BUFFER_SIZE" using assms(2) by (simp add: bt_start_def)
  ultimately obtain s t where s: "run_machine (bt_step opens) ?s0 es = Continue s" "rep s t" "printed s = out"
    "clock_ok s (EOT \<in> set (concat (map event_text es))) (seconds_after_mark es)"
    using bt_run_events [OF rep_start assms(1), of ?m old False 0 opens] assms(3) unfolding out_def
    by (auto simp: bt_start_def)
  have p: "pos s < BUFFER_SIZE" using s(2) by (simp add: rep_def)
  have main: "run (es @ fs) = run_machine (bt_step opens) s fs" for fs
    using s(1) by (cases app) (simp_all add: run_def btee_main_def run_machine_append)
  have e: "seconds_after_mark (es @ [Second]) = 3 \<longleftrightarrow> EOT \<in> set (concat (map event_text es)) \<and> seconds_after_mark es = 2"
    using assms(3) unfolding seconds_snoc by auto
  show ?thesis
  proof (intro conjI)
    show "\<exists>s. run es = Continue s \<and> printed s = out" using main [of "[]"] s(3) by simp
    show "if seconds_after_mark (es @ [Second]) = 3 then \<exists>s. run (es @ [Second]) = Finish (1, s) \<and> printed s = out
        else \<exists>s. run (es @ [Second]) = Continue s \<and> printed s = out"
      unfolding main e using bt_step_second [OF s(2,4), of opens] s(3) loop_top_stays [OF p] by (auto split: if_splits)
    show "\<exists>s. run (es @ [End_of_input]) = Finish (0, s) \<and> printed s = out"
      "\<exists>s. run (es @ [Sigalrm]) = Finish (1, s) \<and> printed s = out"
      unfolding main using s(3) loop_top_stays [OF p] by (simp_all add: bt_step_def)
  qed
qed

text \<open>
  C23: when the program ends.  Let any chunks of text come through the pipe with seconds passing between them, where the
  text fits the buffer, holds no NUL, and no chunk is empty or ends in a carriage return.  As long as at most two seconds have passed
  since the chunk with the first end mark, the program runs and has printed the whole text but the end marks; the third
  second after it ends the program with status 1; without an end mark no second does.  The end of the input
  ends it with status 0 and a \<^verbatim>\<open>SIGALRM\<close> from outside with status 1, at any moment, with the whole text printed.
\<close>

theorem btee_ends:
  fixes opens :: "nat \<Rightarrow> open_mode \<Rightarrow> bool" and name logfile old :: string and app :: bool
  assumes "list_all quiet es" and "length (concat (map event_text es)) < BUFFER_SIZE" and "seconds_after_mark es \<le> 2"
  defines "run \<equiv> \<lambda>es. btee_main opens [name, if app then ''a'' else ''t'', logfile] old es"
    and "out \<equiv> filter (\<lambda>c. c \<noteq> EOT) (concat (map event_text es))"
  shows "(\<exists>s. run es = Continue s \<and> printed s = out) \<and>
    (if seconds_after_mark (es @ [Second]) = 3 then \<exists>s. run (es @ [Second]) = Finish (1, s) \<and> printed s = out
     else \<exists>s. run (es @ [Second]) = Continue s \<and> printed s = out) \<and>
    (\<exists>s. run (es @ [End_of_input]) = Finish (0, s) \<and> printed s = out) \<and>
    (\<exists>s. run (es @ [Sigalrm]) = Finish (1, s) \<and> printed s = out)"
  unfolding run_def out_def using assms(1-3) by (rule btee_end)

theorem btee_ends_witness:
  "\<exists>s. btee_main (\<lambda>k m. True) [''btee'', ''a'', ''log''] [] [Bytes [CHR ''x'', EOT], Second, Bytes ''y'', Second, Second] = Finish (1, s) \<and>
     printed s = ''xy''"
proof -
  let ?es = "[Bytes [CHR ''x'', EOT], Second, Bytes ''y'', Second]"
  have "list_all quiet ?es" "length (concat (map event_text ?es)) < BUFFER_SIZE" "seconds_after_mark ?es \<le> 2"
    by (simp_all add: text_chunk_def NUL_def CR_def EOT_def BUFFER_SIZE_def)
  from btee_ends [OF this, of "\<lambda>k m. True" "''btee''" True "''log''" "[]"] show ?thesis
    by (simp add: EOT_def)
qed

end
