(* ===== verification/InitRc.thy ===== *)
theory InitRc
  imports CLib
begin

text \<open>
  \<^verbatim>\<open>package/init/sysvinit/rc.c\<close>: run an init script in a clean environment.

  The calls of the kernel are recorded in order; the parameter \<open>world\<close> says which of them succeed,
  the ends of the pipe and what \<^verbatim>\<open>fork\<close> gives (0 in the child).  The signals are those of Linux.
  The texts of the messages are left out.  Storing behind the array of the command is the end \<open>Overrun\<close>.
\<close>

datatype limit = Infinity | Limit nat

datatype resource = R_CPU | R_FSIZE | R_DATA | R_STACK | R_CORE | R_RSS | R_NOFILE | R_AS | R_NPROC | R_MEMLOCK | R_LOCKS

datatype rcall =
    C_system string | C_pipe | C_fork | C_dup2 int int | C_close int | C_exec string "string list" "string list option"
  | C_umask nat | C_setpgid int int | C_setpriority int int | C_chdir string | C_setrlimit resource limit limit
  | C_signal_default nat | C_setgroups "int list" | C_setresuid int int int | C_setresgid int int int
  | C_setscheduler int int | C_write int string

record world =
  succeeds :: "rcall \<Rightarrow> bool"
  pipe_ends :: "int \<times> int"
  fork_result :: int

datatype ending = Executes string "string list" "string list option" | Returns int | Overrun

section \<open>Environment and limits\<close>

text \<open>\<^verbatim>\<open>sprintf (env_X, "X=%.<k>s", getenv ("X"))\<close> if it is set, else the initial value.\<close>

definition env_entry :: "(string \<times> string) list \<Rightarrow> string \<Rightarrow> nat \<Rightarrow> string \<Rightarrow> string" where
  "env_entry env name k initial =
     (case map_of env name of None \<Rightarrow> initial | Some v \<Rightarrow> name @ ''='' @ take k v)"

definition clean_env :: "(string \<times> string) list \<Rightarrow> string list" where
  "clean_env env =
     [''PATH=/sbin:/bin:/usr/sbin:/usr/bin'',
      env_entry env ''PREVLEVEL'' 50 ''PREVLEVEL=N'',
      env_entry env ''RUNLEVEL'' 50 ''RUNLEVEL=N'',
      env_entry env ''TERM'' 50 ''TERM=linux'',
      env_entry env ''INIT_HALT'' 16 '''']"

definition limits :: "(resource \<times> limit) list" where
  "limits =
     [(R_CPU, Infinity), (R_FSIZE, Infinity), (R_DATA, Infinity), (R_STACK, Infinity), (R_CORE, Infinity),
      (R_RSS, Infinity), (R_NOFILE, Limit 1024), (R_AS, Infinity), (R_NPROC, Limit 2048), (R_MEMLOCK, Infinity),
      (R_LOCKS, Infinity)]"

section \<open>Calls whose failure ends the program\<close>

fun checked :: "world \<Rightarrow> rcall list \<Rightarrow> rcall list \<times> bool" where
  "checked w [] = ([], True)"
| "checked w (c # cs) = (if succeeds w c then (case checked w cs of (tr, ok) \<Rightarrow> (c # tr, ok)) else ([c], False))"

definition process_calls :: "rcall list" where
  "process_calls =
     [C_umask 18, C_setpgid 0 0, C_setpriority 0 0, C_chdir ''/''] @ map (\<lambda>(r, l). C_setrlimit r l l) limits"

definition user_calls :: "rcall list" where
  "user_calls = [C_setgroups [0], C_setresuid 0 0 0, C_setresgid 0 0 0, C_setscheduler 0 0]"

text \<open>The signals from 1 to the first real-time signal, without \<^verbatim>\<open>SIGKILL\<close> and \<^verbatim>\<open>SIGSTOP\<close>.\<close>

definition signal_calls :: "rcall list" where
  "signal_calls = map C_signal_default (filter (\<lambda>i. i \<noteq> 9 \<and> i \<noteq> 19 \<and> i < 32) [1..<65])"

definition close_calls :: "rcall list" where
  "close_calls = map (\<lambda>i. C_close (int i)) [3..<1025]"

section \<open>The command\<close>

text \<open>
  \<^verbatim>\<open>i += snprintf (command + i, sizeof (command) - i, ...)\<close>: the size is unsigned, so it is huge
  when \<open>i\<close> is behind the end of the array.
\<close>

definition add_piece :: "string \<Rightarrow> nat \<times> string \<Rightarrow> (nat \<times> string) option" where
  "add_piece p = (\<lambda>(i, t).
     if i > 1024 then None
     else Some (i + length p, if i < 1024 then take i t @ take (1023 - i) p else t))"

fun add_pieces :: "string list \<Rightarrow> nat \<times> string \<Rightarrow> (nat \<times> string) option" where
  "add_pieces [] st = Some st"
| "add_pieces (p # ps) st = (case add_piece p st of None \<Rightarrow> None | Some st' \<Rightarrow> add_pieces ps st')"

definition script_path :: "string \<Rightarrow> string" where
  "script_path s = (if CHR ''/'' \<in> set s then [] else ''/etc/rc.d/init.d/'') @ s"

definition redirection :: "bool \<Rightarrow> string" where
  "redirection use_btee = '' </dev/null 2>&1'' @ (if use_btee then ''; /bin/echo -ne '' @ [CHR 0x27, CHR 0x04, CHR 0x27] else [])"

definition pieces_of :: "bool \<Rightarrow> string list \<Rightarrow> string list" where
  "pieces_of use_btee args =
     script_path (hd args) # map (\<lambda>a. CHR '' '' # a) (tl args) @ [redirection use_btee]"

definition command :: "bool \<Rightarrow> string list \<Rightarrow> string option" where
  "command use_btee args = map_option snd (add_pieces (pieces_of use_btee args) (0, []))"

section \<open>The program\<close>

definition spawn :: "world \<Rightarrow> bool \<Rightarrow> string list \<Rightarrow> string list \<Rightarrow> rcall list \<times> ending" where
  "spawn w use_btee env args =
     (case checked w process_calls of
        (t1, ok1) \<Rightarrow>
          (if \<not> ok1 then (t1, Returns 1)
           else
             (case checked w user_calls of
                (t2, ok2) \<Rightarrow>
                  (let tr = t1 @ signal_calls @ close_calls @ t2 in
                   if \<not> ok2 then (tr, Returns 1)
                   else
                     (case command use_btee args of
                        None \<Rightarrow> (tr, Overrun)
                      | Some c \<Rightarrow>
                          (let shell = [''-bash'', ''-l'', ''-c'', c] in
                           if succeeds w (C_exec ''/bin/bash'' shell (Some env))
                           then (tr, Executes ''/bin/bash'' shell (Some env))
                           else (tr @ [C_exec ''/bin/bash'' shell (Some env)] @
                                   (if use_btee then [C_write 1 [CHR 0x04]] else []), Returns 1)))))))"

definition child :: "world \<Rightarrow> rcall list \<times> ending" where
  "child w =
     (let (r, s) = pipe_ends w; args = [''btee'', ''a'', ''/var/log/init.msg''];
          tr = [C_dup2 r 0, C_close r, C_close s]
      in if succeeds w (C_exec ''/sbin/btee'' args None) then (tr, Executes ''/sbin/btee'' args None)
         else (tr @ [C_exec ''/sbin/btee'' args None], Returns 1))"

definition rc_after :: "rcall list \<Rightarrow> rcall list \<times> ending \<Rightarrow> rcall list \<times> ending" where
  "rc_after tr x = (case x of (t, e) \<Rightarrow> (tr @ t, e))"

definition rc :: "world \<Rightarrow> (string \<times> string) list \<Rightarrow> string list \<Rightarrow> rcall list \<times> ending" where
  "rc w env argv =
     (let args0 = drop 1 argv;
          nobtee = (args0 \<noteq> [] \<and> hd args0 = ''--nobtee'');
          args = (if nobtee then tl args0 else args0)
      in if length args < 2
         then (if args = [] \<and> argv \<noteq> [] then [C_system ''ls /etc/rc.d/init.d >&2''] else [], Returns 1)
         else
           (let use_btee = (\<not> nobtee \<and> args ! 1 \<noteq> ''help'') in
            if \<not> use_btee then spawn w False (clean_env env) args
            else if \<not> succeeds w C_pipe then ([C_pipe], Returns 1)
            else if fork_result w = 0 then rc_after [C_pipe, C_fork] (child w)
            else
              (case pipe_ends w of
                 (r, s) \<Rightarrow>
                   rc_after [C_pipe, C_fork, C_dup2 s 1, C_close r, C_close s]
                     (spawn w True (clean_env env) args))))"

section \<open>Lemmas\<close>

lemma checked_result: "snd (checked w cs) = list_all (succeeds w) cs \<and> (list_all (succeeds w) cs \<longrightarrow> fst (checked w cs) = cs)"
  by (induction cs) (auto simp: case_prod_beta)

lemma checked_ok: "checked w cs = (tr, True) \<longleftrightarrow> tr = cs \<and> list_all (succeeds w) cs"
  using checked_result [of w cs] by (cases "checked w cs") auto

text \<open>The state after the text \<open>q\<close>: the position and the string in the array.\<close>

definition after_text :: "string \<Rightarrow> nat \<times> string" where
  "after_text q = (length q, take 1023 q)"

lemma add_piece_fits: "length q \<le> 1024 \<Longrightarrow> add_piece p (after_text q) = Some (after_text (q @ p))"
proof (cases "length q = 1024")
  case True
  then show ?thesis by (simp add: add_piece_def after_text_def)
next
  case False
  assume "length q \<le> 1024"
  with False have q: "length q \<le> 1023" by simp
  then have "take (length q) (take 1023 q) @ take (1023 - length q) p = take 1023 (q @ p)" by simp
  with q show ?thesis by (simp add: add_piece_def after_text_def)
qed

lemma add_pieces_fit:
  "length q + length (concat (butlast ps)) \<le> 1024 \<Longrightarrow> ps \<noteq> [] \<Longrightarrow>
     add_pieces ps (after_text q) = Some (after_text (q @ concat ps))"
proof (induction ps arbitrary: q)
  case Nil
  then show ?case by simp
next
  case (Cons p ps)
  have p: "add_piece p (after_text q) = Some (after_text (q @ p))"
    using Cons.prems(1) by (intro add_piece_fits) simp
  show ?case
  proof (cases "ps = []")
    case True
    then show ?thesis using p by simp
  next
    case False
    then have "add_pieces ps (after_text (q @ p)) = Some (after_text ((q @ p) @ concat ps))"
      using Cons.prems(1) by (intro Cons.IH) simp_all
    then show ?thesis using p by simp
  qed
qed

lemma add_pieces_overrun:
  "1024 < length q + length (concat (butlast ps)) \<Longrightarrow> ps \<noteq> [] \<Longrightarrow> add_pieces ps (after_text q) = None"
proof (induction ps arbitrary: q)
  case Nil
  then show ?case by simp
next
  case (Cons p ps)
  show ?case
  proof (cases "length q \<le> 1024")
    case True
    then have "ps \<noteq> []" using Cons.prems(1) by auto
    then have "add_pieces ps (after_text (q @ p)) = None"
      using Cons.prems(1) by (intro Cons.IH) simp_all
    then show ?thesis using add_piece_fits [OF True] by simp
  next
    case False
    then show ?thesis by (simp add: add_piece_def after_text_def)
  qed
qed

text \<open>The service and its arguments, separated by blanks.\<close>

definition service_text :: "string list \<Rightarrow> string" where
  "service_text args = script_path (hd args) @ concat (map (\<lambda>a. CHR '' '' # a) (tl args))"

lemma command_cases:
  "command use_btee args =
     (if length (service_text args) \<le> 1024 then Some (take 1023 (service_text args @ redirection use_btee)) else None)"
proof -
  have b: "concat (butlast (pieces_of use_btee args)) = service_text args"
    "concat (pieces_of use_btee args) = service_text args @ redirection use_btee" "pieces_of use_btee args \<noteq> []"
    by (simp_all add: pieces_of_def service_text_def butlast_append)
  have s: "after_text [] = (0, [])" by (simp add: after_text_def)
  show ?thesis
  proof (cases "length (service_text args) \<le> 1024")
    case True
    then have "add_pieces (pieces_of use_btee args) (0, []) = Some (after_text (service_text args @ redirection use_btee))"
      using add_pieces_fit [of "[]" "pieces_of use_btee args"] b s by simp
    then show ?thesis using True by (simp add: command_def after_text_def)
  next
    case False
    then have "add_pieces (pieces_of use_btee args) (0, []) = None"
      using add_pieces_overrun [of "[]" "pieces_of use_btee args"] b s by simp
    then show ?thesis using False by (simp add: command_def)
  qed
qed

text \<open>The command as a whole: the service and its arguments separated by blanks, and the redirection.\<close>

definition rc_command :: "bool \<Rightarrow> string list \<Rightarrow> string" where
  "rc_command use_btee args =
     (if CHR ''/'' \<in> set (hd args) then [] else ''/etc/rc.d/init.d/'') @ join CHR '' '' args @ '' </dev/null 2>&1'' @
     (if use_btee then ''; /bin/echo -ne '' @ [CHR 0x27, CHR 0x04, CHR 0x27] else [])"

lemma join_blanks: "join c (x # xs) = x @ concat (map ((#) c) xs)"
  by (induction xs arbitrary: x) auto

lemma rc_command_pieces: "args \<noteq> [] \<Longrightarrow> rc_command use_btee args = service_text args @ redirection use_btee"
  by (cases args) (auto simp: rc_command_def service_text_def script_path_def redirection_def join_blanks)

definition shell_call :: "string \<Rightarrow> string list \<Rightarrow> rcall" where
  "shell_call c env = C_exec ''/bin/bash'' [''-bash'', ''-l'', ''-c'', c] (Some env)"

text \<open>The calls before the shell is started.\<close>

definition setup_calls :: "rcall list" where
  "setup_calls = process_calls @ signal_calls @ close_calls @ user_calls"

lemma spawn_runs:
  assumes "list_all (succeeds w) (process_calls @ user_calls)" "command b args = Some c"
    "succeeds w (C_exec ''/bin/bash'' [''-bash'', ''-l'', ''-c'', c] (Some env))"
  shows "spawn w b env args = (setup_calls, Executes ''/bin/bash'' [''-bash'', ''-l'', ''-c'', c] (Some env))"
proof -
  have "checked w process_calls = (process_calls, True)" "checked w user_calls = (user_calls, True)"
    using assms(1) by (simp_all add: checked_ok)
  then show ?thesis using assms(2,3) by (simp add: spawn_def setup_calls_def)
qed


section \<open>Properties\<close>

lemma rc_runs:
  assumes "service \<noteq> ''--nobtee''" "length (rc_command True (service # action # rest)) < 1024"
    and "list_all (succeeds w) (C_pipe # process_calls @ user_calls)" "fork_result w \<noteq> 0"
    and "\<forall>b. succeeds w (shell_call (rc_command b (service # action # rest)) (clean_env env))"
  shows "rc w env (name # service # action # rest) =
    (if action = ''help''
     then (setup_calls,
           Executes ''/bin/bash'' [''-bash'', ''-l'', ''-c'', rc_command False (service # action # rest)] (Some (clean_env env)))
     else ([C_pipe, C_fork, C_dup2 (snd (pipe_ends w)) 1, C_close (fst (pipe_ends w)), C_close (snd (pipe_ends w))]
             @ setup_calls,
           Executes ''/bin/bash'' [''-bash'', ''-l'', ''-c'', rc_command True (service # action # rest)] (Some (clean_env env))))"
proof -
  let ?a = "service # action # rest"
  have "length (redirection False) \<le> length (redirection True)" by (simp add: redirection_def)
  then have "command b ?a = Some (rc_command b ?a)" for b
    using assms(2) by (cases b) (simp_all add: command_cases rc_command_pieces)
  then have s: "spawn w b (clean_env env) ?a =
      (setup_calls, Executes ''/bin/bash'' [''-bash'', ''-l'', ''-c'', rc_command b ?a] (Some (clean_env env)))" for b
    using assms(3,5) by (intro spawn_runs) (simp_all add: shell_call_def)
  show ?thesis
    using assms(1,3,4) s by (cases "action = ''help''") (simp_all add: rc_def rc_after_def split: prod.split)
qed

text \<open>
  C24: When the calls succeed and the command fits, the shell is executed with exactly the script, its arguments
  and the redirection as command and an environment of five entries, after exactly the calls that
  set up the process; with the end mark for \<^verbatim>\<open>btee\<close> unless help is asked for.
\<close>

lemma rc_runs_script:
  assumes "service \<noteq> ''--nobtee''" "length (rc_command True (service # action # rest)) < 1024"
    and "list_all (succeeds w) (C_pipe # process_calls @ user_calls)" "fork_result w \<noteq> 0"
    and "\<forall>b. succeeds w (shell_call (rc_command b (service # action # rest)) (clean_env env))"
  shows "rc w env (name # service # action # rest) =
    (if action = ''help''
     then (setup_calls,
           Executes ''/bin/bash'' [''-bash'', ''-l'', ''-c'', rc_command False (service # action # rest)] (Some (clean_env env)))
     else ([C_pipe, C_fork, C_dup2 (snd (pipe_ends w)) 1, C_close (fst (pipe_ends w)), C_close (snd (pipe_ends w))]
             @ setup_calls,
           Executes ''/bin/bash'' [''-bash'', ''-l'', ''-c'', rc_command True (service # action # rest)] (Some (clean_env env))))"
  using assms by (rule rc_runs)

definition sample_world :: world where
  "sample_world = \<lparr>succeeds = (\<lambda>c. True), pipe_ends = (3, 4), fork_result = 7\<rparr>"

lemma rc_runs_script_witness:
  "snd (rc sample_world [(''TERM'', ''xterm'')] [''rc'', ''net'', ''start'']) =
     Executes ''/bin/bash''
       [''-bash'', ''-l'', ''-c'', ''/etc/rc.d/init.d/net start </dev/null 2>&1; /bin/echo -ne '' @ [CHR 0x27, CHR 0x04, CHR 0x27]]
       (Some [''PATH=/sbin:/bin:/usr/sbin:/usr/bin'', ''PREVLEVEL=N'', ''RUNLEVEL=N'', ''TERM=xterm'', []])"
proof -
  have c: "rc_command True [''net'', ''start''] =
      ''/etc/rc.d/init.d/net start </dev/null 2>&1; /bin/echo -ne '' @ [CHR 0x27, CHR 0x04, CHR 0x27]"
    by (simp add: rc_command_def)
  have e: "clean_env [(''TERM'', ''xterm'')] =
      [''PATH=/sbin:/bin:/usr/sbin:/usr/bin'', ''PREVLEVEL=N'', ''RUNLEVEL=N'', ''TERM=xterm'', []]"
    by (simp add: clean_env_def env_entry_def)
  have s: "succeeds sample_world x" "fork_result sample_world \<noteq> 0" for x by (simp_all add: sample_world_def)
  have "snd (rc sample_world [(''TERM'', ''xterm'')] (''rc'' # ''net'' # ''start'' # [])) =
      Executes ''/bin/bash'' [''-bash'', ''-l'', ''-c'', rc_command True [''net'', ''start'']] (Some (clean_env [(''TERM'', ''xterm'')]))"
    by (subst rc_runs_script) (simp_all add: s c list_all_iff)
  then show ?thesis by (simp only: c e)
qed

text \<open>
  A long command line is not refused: if the service with its arguments leaves no room, the redirection and
  the end mark are cut off, and if it is longer than the array the program stores behind it.
\<close>

lemma rc_long_command:
  "command use_btee args =
     (let t = service_text args in
      if length t > 1024 then None
      else if length t + length (redirection use_btee) < 1024 then Some (t @ redirection use_btee)
      else Some (take 1023 (t @ redirection use_btee)))"
  by (simp add: command_cases Let_def)








end
