(* ===== verification/SerPnp.thy ===== *)
theory SerPnp
  imports CLib "HOL-Library.Monad_Syntax"
begin

unbundle bit_operations_syntax

text \<open>
  \<^verbatim>\<open>package/base/serpnp/serpnp.c\<close>: identify a mouse on a serial line.

  The bytes the device sends until it falls silent are the input; the settings of the line are left out.
  A character is a signed byte.  An optional field of the identification is its start in the buffer and its length.
  \<open>None\<close> is an access outside the buffer of 256 characters.
\<close>

definition schar :: "int \<Rightarrow> int" where
  "schar k = (k + 128) mod 256 - 128"

definition rd :: "int list \<Rightarrow> nat \<Rightarrow> int option" where
  "rd buf i = (if i < length buf then Some (buf ! i) else None)"

definition wr :: "int list \<Rightarrow> nat \<Rightarrow> int \<Rightarrow> int list option" where
  "wr buf i c = (if i < length buf then Some (buf[i := schar c]) else None)"

section \<open>Known devices\<close>

definition pnpsymtab :: "(string \<times> string) list" where
  "pnpsymtab =
     [(''MSH0001'', ''-ms3''), (''MSH0004'', ''-ms3''), (''KYEEZ00'', ''-ms''), (''KYE0001'', ''-ms''),
      (''KYE0002'', ''-ms''), (''KYE0003'', ''-ms3''), (''LGI800'', ''-ms''), (''LGI800C'', ''-ms3''),
      (''LGI8033'', ''-ms3''), (''LGI8050'', ''-ms3''), (''LGI8051'', ''-ms3''), (''LGI8001'', ''-ms''),
      (''A4W0005'', ''-ms3''), (''PEC9802'', ''-ms3''), (''PNP0F01'', ''-ms''), (''PNP0F04'', ''-msc''),
      (''PNP0F05'', ''-msc''), (''PNP0F08'', ''-mman''), (''PNP0F09'', ''-ms''), (''PNP0F0A'', ''-ms''),
      (''PNP0F0B'', ''-ms''), (''PNP0F0C'', ''-ms''), (''PNP0F0F'', ''-ms''), (''PNP0F17'', ''-mman'')]"

text \<open>\<^verbatim>\<open>strncmp (name, id, n) == 0\<close>; a string ends with a zero.\<close>

fun same_start :: "nat \<Rightarrow> int list \<Rightarrow> int list \<Rightarrow> bool" where
  "same_start 0 xs ys = True"
| "same_start (Suc n) (x # xs) (y # ys) = (x = y \<and> (x = 0 \<or> same_start n xs ys))"
| "same_start (Suc n) xs ys = False"

definition c_bytes :: "string \<Rightarrow> int list" where
  "c_bytes s = map code s @ [0]"

section \<open>The identification\<close>

record pnpid =
  revision :: int
  eisaid :: "nat \<times> nat"
  serial :: "(nat \<times> nat) option"
  devclass :: "(nat \<times> nat) option"
  compat :: "(nat \<times> nat) option"
  description :: "(nat \<times> nat) option"

text \<open>\<^verbatim>\<open>for (; i < len; ++i) if (buf[i] == c) break;\<close> and the step back over the checksum.\<close>

definition scan :: "int \<Rightarrow> int list \<Rightarrow> nat \<Rightarrow> nat \<Rightarrow> nat" where
  "scan c buf len i = i + length (takeWhile (\<lambda>x. x \<noteq> c) (drop i (take len buf)))"

definition step_back :: "nat \<Rightarrow> nat \<Rightarrow> nat" where
  "step_back len i = (if i \<ge> len then i - 3 else i)"

definition backslash :: int where "backslash = 92"

definition serial_field :: "int list \<Rightarrow> nat \<Rightarrow> nat \<Rightarrow> (nat \<times> (nat \<times> nat) option) option" where
  "serial_field buf len i = do {
     c \<leftarrow> rd buf i;
     (if c = backslash then
        (let j = i + 1; k = step_back len (scan backslash buf len j)
         in Some (k, if int k - int j = 8 then Some (j, 8) else None))
      else Some (i, None)) }"

definition class_field :: "int list \<Rightarrow> nat \<Rightarrow> nat \<Rightarrow> (nat \<times> (nat \<times> nat) option) option" where
  "class_field buf len i = do {
     c \<leftarrow> rd buf i;
     (if c = backslash then
        (let j = i + 1; k = step_back len (scan backslash buf len j)
         in Some (k, if k > j + 1 then Some (j, k - j) else None))
      else Some (i, None)) }"

definition compat_field :: "int list \<Rightarrow> nat \<Rightarrow> nat \<Rightarrow> (nat \<times> (nat \<times> nat) option) option" where
  "compat_field buf len i = do {
     c \<leftarrow> rd buf i;
     (if c = backslash then do {
        d \<leftarrow> rd buf (i + 1);
        (let j = (if d = 42 then i + 2 else i + 1); k = step_back len (scan backslash buf len (i + 1))
         in Some (k, if k > j + 1 then Some (j, k - j) else None)) }
      else Some (i, None)) }"

definition description_field :: "int list \<Rightarrow> nat \<Rightarrow> nat \<Rightarrow> (nat \<times> (nat \<times> nat) option) option" where
  "description_field buf len i = do {
     c \<leftarrow> rd buf i;
     (if c = backslash then
        (let j = i + 1; k = step_back len (scan 59 buf len j)
         in Some (k, if k > j + 1 then Some (j, k - j) else None))
      else Some (i, None)) }"

definition decode :: "int list \<Rightarrow> nat \<Rightarrow> int \<Rightarrow> int list" where
  "decode buf len off = map (\<lambda>c. schar (c + off)) (take len buf) @ drop len buf"

definition checksum :: "int list \<Rightarrow> nat \<Rightarrow> int" where
  "checksum buf len = sum_list (take (len - 3) buf) + buf ! (len - 1)"

text \<open>The two upper case hexadecimal digits of \<^verbatim>\<open>sprintf (s, "%02X", sum & 0xff)\<close>.\<close>

definition hex_digit :: "int \<Rightarrow> int" where
  "hex_digit d = (if d < 10 then 48 + d else 55 + d)"

definition hex2 :: "int \<Rightarrow> int list" where
  "hex2 k = [hex_digit (k mod 256 div 16), hex_digit (k mod 16), 0]"

text \<open>The buffer with all characters moved to the normal range but the two of the revision.\<close>

definition restore :: "int list \<Rightarrow> nat \<Rightarrow> int list option" where
  "restore buf0 len = do {
     c \<leftarrow> rd buf0 0;
     _ \<leftarrow> rd buf0 (len - 1);
     (let off = 0x28 - c; b1 = decode buf0 len off in do {
       r1 \<leftarrow> rd b1 1;
       b2 \<leftarrow> wr b1 1 (r1 - off);
       r2 \<leftarrow> rd b2 2;
       wr b2 2 (r2 - off) }) }"

text \<open>The identification, and the checksum with whether it is right if it is looked at.\<close>

definition pnpfields :: "int list \<Rightarrow> nat \<Rightarrow> int \<Rightarrow> (pnpid \<times> (int \<times> bool) option) option" where
  "pnpfields buf len amount = do {
     v1 \<leftarrow> rd buf 1;
     v2 \<leftarrow> rd buf 2;
     e \<leftarrow> rd buf 9;
     (i1, ser) \<leftarrow> serial_field buf len 10;
     (i2, cls) \<leftarrow> class_field buf len i1;
     (i3, com) \<leftarrow> compat_field buf len i2;
     (i4, des) \<leftarrow> description_field buf len i3;
     (let pid = \<lparr>revision = push_bit 6 (v1 AND 0x3f) OR (v2 AND 0x3f), eisaid = (3, if e = 41 then 6 else 7),
                 serial = ser, devclass = cls, compat = com, description = des\<rparr>
      in if ser \<noteq> None \<or> cls \<noteq> None \<or> com \<noteq> None \<or> des \<noteq> None
         then (if len < 3 then None else Some (pid, Some (amount, same_start 2 (hex2 amount) (drop (len - 3) buf))))
         else Some (pid, None)) }"

definition pnpparse :: "int list \<Rightarrow> nat \<Rightarrow> (pnpid \<times> int list \<times> (int \<times> bool) option) option" where
  "pnpparse buf0 len = do {
     buf \<leftarrow> restore buf0 len;
     (pid, chk) \<leftarrow> pnpfields buf len (checksum buf0 len);
     Some (pid, buf, chk) }"

section \<open>The program\<close>

text \<open>Skip to \<open>Begin ID\<close>; then read up to \<open>End ID\<close>: \<open>None\<close> outside the buffer, \<open>Some None\<close> when it is full.\<close>

fun begin_id :: "int list \<Rightarrow> (int \<times> int list) option" where
  "begin_id [] = None"
| "begin_id (c # cs) = (if c = 0x08 \<or> c = 0x28 then Some (c, cs) else begin_id cs)"

fun read_id :: "int \<Rightarrow> int list \<Rightarrow> nat \<Rightarrow> int list \<Rightarrow> (nat \<times> int list) option option" where
  "read_id e [] i buf = Some (Some (i, buf))"
| "read_id e (c # cs) i buf =
     (case wr buf i c of
        None \<Rightarrow> None
      | Some buf' \<Rightarrow>
          (if schar c = e then Some (Some (i + 1, buf'))
           else if i + 1 \<ge> 256 then Some None
           else read_id e cs (i + 1) buf'))"

datatype line =
    Usage | No_device | Fields nat | Byte int | Checksum int | Checksum_error
  | Id "int list" | Class "int list" | Mouse string | Description "int list"

text \<open>What \<^verbatim>\<open>printf ("%.*s", n, p)\<close> shows.\<close>

definition shown :: "int list \<Rightarrow> nat \<times> nat \<Rightarrow> int list" where
  "shown buf f = takeWhile (\<lambda>c. c \<noteq> 0) (take (snd f) (drop (fst f) buf))"

definition class_lines :: "int list \<Rightarrow> pnpid \<Rightarrow> line list" where
  "class_lines buf p =
     (case devclass p of
        Some f \<Rightarrow> [Class (shown buf f)]
      | None \<Rightarrow>
          (case find (\<lambda>(n, d). same_start (snd (eisaid p)) (c_bytes n) (drop (fst (eisaid p)) buf)) pnpsymtab of
             None \<Rightarrow> []
           | Some (n, d) \<Rightarrow> [Mouse d]))"

definition report :: "pnpid \<Rightarrow> int list \<Rightarrow> (int \<times> bool) option \<Rightarrow> line list" where
  "report p buf chk =
     (case chk of None \<Rightarrow> [] | Some (k, ok) \<Rightarrow> Checksum k # (if ok then [] else [Checksum_error])) @
     [Id (shown buf (eisaid p))] @ class_lines buf p @
     (case description p of Some (i, n) \<Rightarrow> if n > 9 then [Description (shown buf (i, n))] else [] | None \<Rightarrow> [])"

text \<open>\<open>old\<close> are the characters the array happens to hold.\<close>

definition serpnp :: "string list \<Rightarrow> bool \<Rightarrow> int list \<Rightarrow> int list \<Rightarrow> (int \<times> line list) option" where
  "serpnp argv opened old bytes =
     (if length argv \<le> 1 then Some (-1, [Usage])
      else if \<not> opened then Some (0, [No_device])
      else
        (case begin_id bytes of
           None \<Rightarrow> Some (0, [])
         | Some (c, cs) \<Rightarrow> do {
             buf0 \<leftarrow> wr old 0 c;
             r \<leftarrow> read_id (c + 1) cs 1 buf0;
             (case r of
                None \<Rightarrow> Some (1, [])
              | Some (len, buf1) \<Rightarrow> do {
                  (p, buf, chk) \<leftarrow> pnpparse buf1 len;
                  Some (0, Fields len # map Byte (take len buf1) @ report p buf chk) }) }))"

section \<open>Memory\<close>

lemma rd_some: "i < length buf \<Longrightarrow> rd buf i = Some (buf ! i)"
  by (simp add: rd_def)

lemma wr_some: "i < length buf \<Longrightarrow> wr buf i c = Some (buf[i := schar c])"
  by (simp add: wr_def)

lemma length_decode [simp]: "length (decode buf len off) = length buf"
  by (simp add: decode_def)

lemma scan_bounds:
  "i \<le> scan c buf len i" "i \<le> len \<Longrightarrow> len \<le> length buf \<Longrightarrow> scan c buf len i \<le> len"
proof -
  show "i \<le> scan c buf len i" by (simp add: scan_def)
  assume "i \<le> len" "len \<le> length buf"
  moreover have "length (takeWhile (\<lambda>x. x \<noteq> c) (drop i (take len buf))) \<le> length (drop i (take len buf))"
    by (rule length_takeWhile_le)
  ultimately show "scan c buf len i \<le> len" by (simp add: scan_def min_def split: if_splits)
qed

lemma scan_beyond: "len \<le> i \<Longrightarrow> scan c buf len i = i"
  by (simp add: scan_def)

text \<open>
  The position after a field is at least \<open>n\<close> and not behind the identification (or the fixed part);
  a field can only be found when the identification has a checksum.
\<close>

definition field_ok :: "nat \<Rightarrow> nat \<Rightarrow> (nat \<times> (nat \<times> nat) option) option \<Rightarrow> bool" where
  "field_ok n len x \<longleftrightarrow>
     (case x of None \<Rightarrow> False | Some (i, f) \<Rightarrow> n \<le> i \<and> i < max len 11 \<and> (f \<noteq> None \<longrightarrow> 3 \<le> len))"

lemma step_back_bounds:
  assumes "n + 2 \<le> i" "i < max len 11" "len \<le> length buf" and k: "k = step_back len (scan c buf len (i + 1))"
  shows "n \<le> k" "k < max len 11" "i + 1 < k \<Longrightarrow> 3 \<le> len"
proof -
  let ?s = "scan c buf len (i + 1)"
  have s: "i + 1 \<le> ?s" by (rule scan_bounds)
  have s2: "i + 1 \<le> len \<Longrightarrow> ?s \<le> len" by (rule scan_bounds(2) [OF _ assms(3)])
  have s3: "len \<le> i + 1 \<Longrightarrow> ?s = i + 1" by (rule scan_beyond)
  show "n \<le> k" using s assms(1) by (auto simp: k step_back_def)
  show "k < max len 11" using s2 s3 assms(2) by (cases "i + 1 \<le> len") (auto simp: k step_back_def)
  show "i + 1 < k \<Longrightarrow> 3 \<le> len" using s3 assms(1) by (cases "len \<le> i + 1") (auto simp: k step_back_def split: if_splits)
qed

lemma field_keep: "n + 2 \<le> i \<Longrightarrow> i < max len 11 \<Longrightarrow> field_ok n len (Some (i, None))"
  by (simp add: field_ok_def)

lemma fields_ok:
  assumes "n + 2 \<le> i" "i < max len 11" "len \<le> length buf" "length buf = 256"
  shows "field_ok n len (serial_field buf len i)" "field_ok n len (class_field buf len i)"
    "field_ok n len (description_field buf len i)"
    "len < 256 \<or> buf ! (len - 1) \<noteq> backslash \<Longrightarrow> field_ok n len (compat_field buf len i)"
proof -
  have i: "i < length buf" using assms(2-4) by simp
  note b = step_back_bounds [OF assms(1-3) refl]
  show "field_ok n len (serial_field buf len i)"
    using b [of backslash] field_keep [OF assms(1,2)] by (auto simp: serial_field_def rd_some [OF i] field_ok_def Let_def)
  show "field_ok n len (class_field buf len i)"
    using b [of backslash] field_keep [OF assms(1,2)] by (auto simp: class_field_def rd_some [OF i] field_ok_def Let_def)
  show "field_ok n len (description_field buf len i)"
    using b [of 59] field_keep [OF assms(1,2)] by (auto simp: description_field_def rd_some [OF i] field_ok_def Let_def)
  show "field_ok n len (compat_field buf len i)" if "len < 256 \<or> buf ! (len - 1) \<noteq> backslash"
  proof (cases "buf ! i = backslash")
    case True
    then have "i + 1 < length buf" using that assms(2-4) i by (cases "i = len - 1") auto
    from rd_some [OF this] show ?thesis
      using b [of backslash] True by (auto simp: compat_field_def rd_some [OF i] field_ok_def Let_def)
  next
    case False
    then show ?thesis using field_keep [OF assms(1,2)] by (simp add: compat_field_def rd_some [OF i])
  qed
qed

lemma field_okE:
  assumes "field_ok n len x"
  obtains i f where "x = Some (i, f)" "n \<le> i" "i < max len 11" "f \<noteq> None \<longrightarrow> 3 \<le> len"
  using assms by (auto simp: field_ok_def split: option.splits)

lemma schar_id: "- 128 \<le> k \<Longrightarrow> k < 128 \<Longrightarrow> schar k = k"
  by (simp add: schar_def)

lemma read_id_ok:
  assumes "length buf = 256" "0 < i" "i < 256"
  shows "\<exists>r. read_id e cs i buf = Some r \<and>
    (case r of None \<Rightarrow> True
     | Some (len, b) \<Rightarrow> length b = 256 \<and> i \<le> len \<and> len \<le> 256 \<and> b ! 0 = buf ! 0 \<and> (len = 256 \<longrightarrow> b ! 255 = e))"
  using assms
proof (induction e cs i buf rule: read_id.induct)
  case (1 e i buf)
  then show ?case by simp
next
  case (2 e c cs i buf)
  let ?b = "buf[i := schar c]"
  have w: "wr buf i c = Some ?b" using 2(2,4) by (simp add: wr_some)
  consider "schar c = e" | "schar c \<noteq> e" "i + 1 \<ge> 256" | "schar c \<noteq> e" "i + 1 < 256" by linarith
  then show ?case
  proof cases
    case 1
    then show ?thesis using w 2(2-4) by (auto simp: nth_list_update)
  next
    case 2
    then show ?thesis using w by simp
  next
    case 3
    then obtain r where r: "read_id e cs (i + 1) ?b = Some r"
      "(case r of None \<Rightarrow> True
         | Some (len, b) \<Rightarrow> length b = 256 \<and> i + 1 \<le> len \<and> len \<le> 256 \<and> b ! 0 = ?b ! 0 \<and> (len = 256 \<longrightarrow> b ! 255 = e))"
      using "2.IH" [OF w] 2(2,3) by auto
    show ?thesis by (rule exI [of _ r]) (use r w 3 2(3) in \<open>auto split: option.splits\<close>)
  qed
qed

text \<open>The buffer after the two revision characters have been put back.\<close>

definition parsed :: "int list \<Rightarrow> nat \<Rightarrow> int list" where
  "parsed buf0 len =
     (let off = 0x28 - buf0 ! 0; b1 = decode buf0 len off; b2 = b1[1 := schar (b1 ! 1 - off)]
      in b2[2 := schar (b2 ! 2 - off)])"

lemma length_parsed [simp]: "length (parsed buf0 len) = length buf0"
  by (simp add: parsed_def Let_def)

lemma restore_parsed:
  assumes "length buf0 = 256" "0 < len" "len \<le> 256"
  shows "restore buf0 len = Some (parsed buf0 len)"
  using assms by (simp add: restore_def rd_some wr_some parsed_def Let_def)

lemma parsed_end:
  assumes "length buf0 = 256" "buf0 ! 0 = 8 \<or> buf0 ! 0 = 40" "buf0 ! 255 = buf0 ! 0 + 1"
  shows "parsed buf0 256 ! 255 = 41"
proof -
  have "decode buf0 256 (40 - buf0 ! 0) ! 255 = schar (buf0 ! 255 + (40 - buf0 ! 0))"
    using assms(1) by (simp add: decode_def)
  also have "\<dots> = 41" using assms(2,3) by (auto simp: schar_def)
  finally show ?thesis using assms(1) by (simp add: parsed_def Let_def)
qed

lemma pnpparse_safe:
  assumes "length buf0 = 256" "0 < len" "len \<le> 256" "buf0 ! 0 = 8 \<or> buf0 ! 0 = 40" "len = 256 \<longrightarrow> buf0 ! 255 = buf0 ! 0 + 1"
  shows "pnpparse buf0 len \<noteq> None"
proof -
  let ?b = "parsed buf0 len"
  have l: "len \<le> length ?b" "length ?b = 256" using assms by simp_all
  have e: "len < 256 \<or> ?b ! (len - 1) \<noteq> backslash"
    using assms parsed_end [OF assms(1,4)] by (cases "len = 256") (auto simp: backslash_def)
  have "field_ok 8 len (serial_field ?b len 10)" by (rule fields_ok [OF _ _ l]) auto
  then obtain i1 f1 where 1: "serial_field ?b len 10 = Some (i1, f1)" "8 \<le> i1" "i1 < max len 11" "f1 \<noteq> None \<longrightarrow> 3 \<le> len"
    by (rule field_okE)
  have "field_ok 6 len (class_field ?b len i1)" by (rule fields_ok [OF _ 1(3) l]) (use 1 in auto)
  then obtain i2 f2 where 2: "class_field ?b len i1 = Some (i2, f2)" "6 \<le> i2" "i2 < max len 11" "f2 \<noteq> None \<longrightarrow> 3 \<le> len"
    by (rule field_okE)
  have "field_ok 4 len (compat_field ?b len i2)" by (rule fields_ok(4) [OF _ 2(3) l e]) (use 2 in auto)
  then obtain i3 f3 where 3: "compat_field ?b len i2 = Some (i3, f3)" "4 \<le> i3" "i3 < max len 11" "f3 \<noteq> None \<longrightarrow> 3 \<le> len"
    by (rule field_okE)
  have "field_ok 2 len (description_field ?b len i3)" by (rule fields_ok [OF _ 3(3) l]) (use 3 in auto)
  then obtain i4 f4 where 4: "description_field ?b len i3 = Some (i4, f4)" "f4 \<noteq> None \<longrightarrow> 3 \<le> len"
    by (rule field_okE)
  have "f1 \<noteq> None \<or> f2 \<noteq> None \<or> f3 \<noteq> None \<or> f4 \<noteq> None \<Longrightarrow> \<not> len < 3"
    using 1(4) 2(4) 3(4) 4(2) by auto
  then show ?thesis
    using assms(1) by (simp add: pnpparse_def restore_parsed [OF assms(1-3)] pnpfields_def rd_some 1(1) 2(1) 3(1) 4(1) Let_def)
qed

lemma begin_id_char: "begin_id cs = Some (c, rest) \<Longrightarrow> c = 8 \<or> c = 40"
  by (induction cs) (auto split: if_splits)

lemma serpnp_ok:
  assumes "length old = 256"
  shows "serpnp argv opened old bytes \<noteq> None"
proof (cases "length argv \<le> 1 \<or> \<not> opened \<or> begin_id bytes = None")
  case True
  then show ?thesis by (auto simp: serpnp_def)
next
  case False
  then obtain c cs where b: "begin_id bytes = Some (c, cs)" by auto
  have c: "c = 8 \<or> c = 40" by (rule begin_id_char [OF b])
  let ?b0 = "old[0 := schar c]"
  have w: "wr old 0 c = Some ?b0" using assms by (simp add: wr_some)
  have b0: "?b0 ! 0 = c" using assms c by (auto simp: schar_def)
  obtain r where r: "read_id (c + 1) cs 1 ?b0 = Some r"
    "case r of None \<Rightarrow> True
     | Some (len, b) \<Rightarrow> length b = 256 \<and> 1 \<le> len \<and> len \<le> 256 \<and> b ! 0 = ?b0 ! 0 \<and> (len = 256 \<longrightarrow> b ! 255 = c + 1)"
    using read_id_ok [of ?b0 1 "c + 1" cs] assms by auto
  show ?thesis
  proof (cases r)
    case None
    then show ?thesis using False b w r(1) by (simp add: serpnp_def)
  next
    case (Some x)
    obtain len bf where x: "x = (len, bf)" by fastforce
    have "pnpparse bf len \<noteq> None"
      using r(2) Some x b0 c by (intro pnpparse_safe) auto
    then show ?thesis using False b w r(1) Some x by (auto simp: serpnp_def)
  qed
qed

section \<open>What a device sends\<close>

text \<open>
  The text of an identification and its bytes on the line: devices may send all characters but those of the
  revision lowered by 32, so that six bits are enough.
\<close>

definition pnp_text :: "int \<Rightarrow> int \<Rightarrow> int list \<Rightarrow> int list \<Rightarrow> int list \<Rightarrow> int list \<Rightarrow> int list \<Rightarrow> int list \<Rightarrow> int list" where
  "pnp_text r1 r2 eisa ser cls com des hex =
     40 # r1 # r2 # eisa @ backslash # ser @ backslash # cls @ backslash # com @ backslash # des @ hex @ [41]"

definition lowered :: "bool \<Rightarrow> int" where
  "lowered six = (if six then 32 else 0)"

fun encode :: "bool \<Rightarrow> int list \<Rightarrow> int list" where
  "encode six (a # r1 # r2 # xs) = (a - lowered six) # r1 # r2 # map (\<lambda>c. c - lowered six) xs"
| "encode six xs = xs"

lemma length_encode [simp]: "length (encode six xs) = length xs"
  by (cases "(six, xs)" rule: encode.cases) auto

lemma read_id_found:
  assumes "length buf = 256" "\<forall>x \<in> set xs. schar x \<noteq> e" "schar z = e" "i + length xs < 256"
  shows "read_id e (xs @ z # tail) i buf =
    Some (Some (i + length xs + 1, take i buf @ map schar xs @ [e] @ drop (i + length xs + 1) buf))"
  using assms
proof (induction xs arbitrary: i buf)
  case Nil
  then show ?case by (simp add: wr_some upd_conv_take_nth_drop)
next
  case (Cons x xs)
  let ?b = "buf[i := schar x]"
  have "read_id e (xs @ z # tail) (i + 1) ?b =
      Some (Some (i + 1 + length xs + 1, take (i + 1) ?b @ map schar xs @ [e] @ drop (i + 1 + length xs + 1) ?b))"
    by (rule Cons.IH) (use Cons.prems in simp_all)
  moreover have "take (i + 1) ?b = take i buf @ [schar x]"
    using Cons.prems(1,4) take_Suc_nth [of i ?b] by simp
  ultimately show ?case using Cons.prems by (simp add: wr_some)
qed

lemma split3: "take (n + 3) (a # b # c # xs) = a # b # c # take n xs" "drop (n + 3) (a # b # c # xs) = drop n xs"
  by (simp_all add: eval_nat_numeral)

lemma decode_encode:
  assumes "0 \<le> r1" "r1 < 64" "0 \<le> r2" "r2 < 64" "\<forall>c \<in> set xs. 0 \<le> c \<and> c < 128"
  shows "parsed (encode six (40 # r1 # r2 # xs) @ rest) (length xs + 3) = 40 # r1 # r2 # xs @ rest"
proof -
  have m: "map (\<lambda>c. schar c) xs = xs"
    by (rule map_idI) (use assms(5) in \<open>auto intro!: schar_id\<close>)
  have "decode (encode six (40 # r1 # r2 # xs) @ rest) (length xs + 3) (lowered six) =
      40 # (r1 + lowered six) # (r2 + lowered six) # xs @ rest"
    using assms(1-4) m by (simp add: decode_def split3 comp_def lowered_def schar_id)
  moreover have "0x28 - (encode six (40 # r1 # r2 # xs) @ rest) ! 0 = lowered six" by simp
  ultimately show ?thesis
    using assms(1-4) by (simp add: parsed_def Let_def schar_id)
qed

lemma scan_found:
  assumes "take len buf = pre @ f @ c # post" "c \<notin> set f" "i = length pre"
  shows "scan c buf len i = length pre + length f"
proof -
  have "takeWhile (\<lambda>x. x \<noteq> c) (f @ c # post) = f"
    using assms(2) by (subst takeWhile_append2) auto
  then show ?thesis using assms(1,3) by (simp add: scan_def)
qed

lemma scan_missing:
  assumes "take len buf = pre @ f" "c \<notin> set f" "i = length pre"
  shows "scan c buf len i = length pre + length f"
proof -
  have w: "takeWhile (\<lambda>x. x \<noteq> c) f = f" using assms(2) by (intro takeWhile_no) auto
  have d: "drop i (take len buf) = f" using assms(1,3) by simp
  show ?thesis unfolding scan_def d w by (simp add: assms(3))
qed

lemma hex2_digits: "c \<in> set (take 2 (hex2 k)) \<Longrightarrow> 48 \<le> c \<and> c \<le> 70 \<and> c \<noteq> 59 \<and> c \<noteq> 92 \<and> c \<noteq> 41"
proof -
  have d: "48 \<le> hex_digit d \<and> hex_digit d \<le> 70 \<and> hex_digit d \<noteq> 59" if "0 \<le> d" "d < 16" for d
    using that by (auto simp: hex_digit_def)
  have "0 \<le> k mod 256 div 16" "k mod 256 div 16 < 16" "0 \<le> k mod 16" "k mod 16 < 16" by auto
  then show "c \<in> set (take 2 (hex2 k)) \<Longrightarrow> ?thesis"
    using d [of "k mod 256 div 16"] d [of "k mod 16"] by (auto simp: hex2_def)
qed

lemma rd_prefix:
  assumes "take len buf = pre @ c # post"
  shows "rd buf (length pre) = Some c"
proof -
  have "length pre < length (take len buf)" using assms by simp
  moreover have "take len buf ! length pre = c" using assms by simp
  ultimately show ?thesis by (simp add: rd_def)
qed

lemma length_of_take: "take len buf = xs \<Longrightarrow> len \<le> length buf \<Longrightarrow> len = length xs"
  by auto

text \<open>A field that ends at a backslash, and the last one, which ends before the checksum.\<close>

lemma field_between:
  assumes "take len buf = pre @ backslash # f @ backslash # post" "backslash \<notin> set f" "i = length pre" "len \<le> length buf"
  shows "rd buf i = Some backslash" "step_back len (scan backslash buf len (i + 1)) = i + 1 + length f"
proof -
  have l: "len = length pre + 1 + length f + 1 + length post" using length_of_take [OF assms(1,4)] by simp
  show "rd buf i = Some backslash" unfolding assms(3) by (rule rd_prefix [OF assms(1)])
  have "scan backslash buf len (i + 1) = length (pre @ [backslash]) + length f"
    by (rule scan_found [where post = post]) (use assms in simp_all)
  then show "step_back len (scan backslash buf len (i + 1)) = i + 1 + length f"
    using l assms(3) by (simp add: step_back_def)
qed

lemma field_last:
  assumes "take len buf = pre @ backslash # f @ [a, b, c]" "59 \<notin> set f \<union> {a, b, c}" "i = length pre" "len \<le> length buf"
  shows "rd buf i = Some backslash" "step_back len (scan 59 buf len (i + 1)) = i + 1 + length f"
proof -
  have l: "len = length pre + 1 + length f + 3" using length_of_take [OF assms(1,4)] by simp
  show "rd buf i = Some backslash" unfolding assms(3) by (rule rd_prefix [OF assms(1)])
  have "scan 59 buf len (i + 1) = length (pre @ [backslash]) + length (f @ [a, b, c])"
    by (rule scan_missing) (use assms in simp_all)
  then show "step_back len (scan 59 buf len (i + 1)) = i + 1 + length f"
    using l assms(3) by (simp add: step_back_def)
qed

text \<open>The positions of the fields of a text.\<close>

definition parts_ok :: "int list \<Rightarrow> int list \<Rightarrow> int list \<Rightarrow> int list \<Rightarrow> int list \<Rightarrow> bool" where
  "parts_ok eisa ser cls com des \<longleftrightarrow>
     length eisa = 7 \<and> 2 \<le> length cls \<and> 59 \<notin> set des \<and>
     (\<forall>c \<in> set (eisa @ ser @ cls @ com @ des). 32 \<le> c \<and> c < 128 \<and> c \<noteq> 41 \<and> c \<noteq> backslash)"

lemma fields_of_text:
  assumes ok: "parts_ok eisa ser cls com des" and h: "length hex = 2" "59 \<notin> set hex"
    and t: "t = pnp_text r1 r2 eisa ser cls com des hex" and b: "buf = t @ rest" and b256: "length buf = 256"
  shows "\<exists>com_f. pnpfields buf (length t) amount =
    Some (\<lparr>revision = push_bit 6 (r1 AND 0x3f) OR (r2 AND 0x3f), eisaid = (3, 7),
           serial = (if length ser = 8 then Some (11, 8) else None),
           devclass = Some (12 + length ser, length cls), compat = com_f,
           description = (if 1 < length des then Some (14 + length (ser @ cls @ com), length des) else None)\<rparr>,
          Some (amount, same_start 2 (hex2 amount) (hex @ 41 # rest)))"
proof -
  define n where n: "n = length t"
  obtain h1 h2 where hx: "hex = [h1, h2]" using h(1) by (auto simp: numeral_2_eq_2 length_Suc_conv)
  have e7: "length eisa = 7" and bs: "backslash \<notin> set ser" "backslash \<notin> set cls" "backslash \<notin> set com" "59 \<notin> set des"
    and c2: "2 \<le> length cls"
    using ok by (auto simp: parts_ok_def)
  have tk: "take n buf = t" using b n by simp
  have len: "n \<le> length buf" using b n by simp
  let ?p1 = "40 # r1 # r2 # eisa"
  let ?p2 = "?p1 @ backslash # ser"
  let ?p3 = "?p2 @ backslash # cls"
  let ?p4 = "?p3 @ backslash # com"
  have l: "length ?p1 = 10" "length ?p2 = 11 + length ser" "length ?p3 = 12 + length ser + length cls"
    "length ?p4 = 13 + length ser + length cls + length com" "n = length ?p4 + 1 + length des + 3"
    using e7 by (simp_all add: n t pnp_text_def hx)
  have t1: "take n buf = ?p1 @ backslash # ser @ backslash # (cls @ backslash # com @ backslash # des @ hex @ [41])"
    and t2: "take n buf = ?p2 @ backslash # cls @ backslash # (com @ backslash # des @ hex @ [41])"
    and t3: "take n buf = ?p3 @ backslash # com @ backslash # (des @ hex @ [41])"
    and t4: "take n buf = ?p4 @ backslash # des @ [h1, h2, 41]"
    unfolding tk by (simp_all add: t pnp_text_def hx)
  note f1 = field_between [OF t1 bs(1) l(1) [symmetric] len]
  note f2 = field_between [OF t2 bs(2) l(2) [symmetric] len]
  note f3 = field_between [OF t3 bs(3) l(3) [symmetric] len]
  have d: "59 \<notin> set des \<union> {h1, h2, 41}" using bs(4) h(2) hx by auto
  note f4 = field_last [OF t4 d l(4) [symmetric] len]
  have s1: "serial_field buf n 10 = Some (11 + length ser, if length ser = 8 then Some (11, 8) else None)"
    using f1 by (simp add: serial_field_def Let_def)
  have s2: "class_field buf n (11 + length ser) = Some (12 + length ser + length cls, Some (12 + length ser, length cls))"
    using f2 c2 by (simp add: class_field_def Let_def)
  have "12 + length ser + length cls + 1 < length buf" using l(4,5) len by simp
  from rd_some [OF this] obtain com_f where
    s3: "compat_field buf n (12 + length ser + length cls) = Some (13 + length ser + length cls + length com, com_f)"
    using f3 by (simp add: compat_field_def Let_def)
  have s4: "description_field buf n (13 + length ser + length cls + length com) =
      Some (14 + length (ser @ cls @ com) + length des,
        if 1 < length des then Some (14 + length (ser @ cls @ com), length des) else None)"
    using f4 by (simp add: description_field_def Let_def)
  have v: "rd buf 1 = Some r1" "rd buf 2 = Some r2"
    using rd_prefix [of n buf "[40]" r1] rd_prefix [of n buf "[40, r1]" r2] tk
    by (simp_all add: t pnp_text_def numeral_2_eq_2)
  have "take n buf = (40 # r1 # r2 # butlast eisa) @ last eisa # (backslash # ser @ backslash # cls @ backslash # com @ backslash # des @ hex @ [41])"
    unfolding tk using e7 by (cases eisa rule: rev_cases) (simp_all add: t pnp_text_def)
  from rd_prefix [OF this] have e: "rd buf 9 = Some (last eisa)" using e7 by simp
  have "last eisa \<in> set eisa" using e7 by (intro last_in_set) auto
  then have le: "last eisa \<noteq> 41" using ok by (simp add: parts_ok_def)
  have "buf = (?p4 @ backslash # des) @ hex @ 41 # rest" "n - 3 = length (?p4 @ backslash # des)"
    using l(4,5) by (simp_all add: b t pnp_text_def hx)
  then have "drop (n - 3) buf = hex @ 41 # rest" by (metis append_eq_conv_conj)
  moreover have "\<not> n < 3" "rd buf (Suc 0) = Some r1" using l(5) v(1) by simp_all
  ultimately show ?thesis
    unfolding n [symmetric] pnpfields_def by (simp add: v(2) e le s1 s2 s3 s4 Let_def)
qed

lemma begin_id_noise: "\<forall>c \<in> set noise. c \<noteq> 8 \<and> c \<noteq> 40 \<Longrightarrow> begin_id (noise @ cs) = begin_id cs"
  by (induction noise) auto

lemma shown_part:
  assumes "buf = pre @ f @ post" "i = length pre" "\<forall>c \<in> set f. c \<noteq> 0"
  shows "shown buf (i, length f) = f"
proof -
  have "takeWhile (\<lambda>c. c \<noteq> 0) f = f" using assms(3) by (intro takeWhile_no) auto
  moreover have "take (length f) (drop i buf) = f" using assms(1,2) by simp
  ultimately show ?thesis by (simp only: shown_def fst_conv snd_conv)
qed

definition text_body :: "int list \<Rightarrow> int list \<Rightarrow> int list \<Rightarrow> int list \<Rightarrow> int list \<Rightarrow> int list" where
  "text_body eisa ser cls com des = eisa @ backslash # ser @ backslash # cls @ backslash # com @ backslash # des"

text \<open>The checksum a device computes over the bytes it sends.\<close>

definition device_sum :: "bool \<Rightarrow> int \<Rightarrow> int \<Rightarrow> int list \<Rightarrow> int" where
  "device_sum six r1 r2 body = sum_list (encode six (40 # r1 # r2 # body)) + (41 - lowered six)"

definition sent :: "bool \<Rightarrow> int \<Rightarrow> int \<Rightarrow> int list \<Rightarrow> int list" where
  "sent six r1 r2 body = encode six (40 # r1 # r2 # body @ take 2 (hex2 (device_sum six r1 r2 body)) @ [41])"

lemma sent_split:
  "sent six r1 r2 body = (40 - lowered six) #
     (r1 # r2 # map (\<lambda>c. c - lowered six) (body @ take 2 (hex2 (device_sum six r1 r2 body)))) @ [41 - lowered six]"
  by (simp add: sent_def)

lemma pnp_text_body: "40 # r1 # r2 # text_body eisa ser cls com des @ hex @ [41] = pnp_text r1 r2 eisa ser cls com des hex"
  by (simp add: text_body_def pnp_text_def)

lemma sent_received:
  assumes "length old = 256" "length (sent six r1 r2 body) \<le> 256"
    and r: "0 \<le> r1" "r1 < 64" "r1 \<noteq> 41 - lowered six" "0 \<le> r2" "r2 < 64" "r2 \<noteq> 41 - lowered six"
    and c: "\<forall>c \<in> set body. 32 \<le> c \<and> c < 128 \<and> c \<noteq> 41"
  shows "read_id (41 - lowered six) (tl (sent six r1 r2 body) @ tail) 1 (old[0 := 40 - lowered six]) =
    Some (Some (length (sent six r1 r2 body), sent six r1 r2 body @ drop (length (sent six r1 r2 body)) old))"
proof -
  let ?h = "take 2 (hex2 (device_sum six r1 r2 body))"
  let ?xs = "r1 # r2 # map (\<lambda>c. c - lowered six) (body @ ?h)"
  let ?b = "old[0 := 40 - lowered six]"
  have lw: "lowered six = 0 \<or> lowered six = 32" by (simp add: lowered_def)
  have e: "schar (41 - lowered six) = 41 - lowered six" using lw by (auto simp: schar_id)
  have all: "\<forall>x \<in> set ?xs. schar x = x \<and> x \<noteq> 41 - lowered six"
  proof
    fix x assume "x \<in> set ?xs"
    then consider "x = r1" | "x = r2" | c where "c \<in> set body" "x = c - lowered six" | c where "c \<in> set ?h" "x = c - lowered six"
      by auto
    then show "schar x = x \<and> x \<noteq> 41 - lowered six"
    proof cases
      case 3
      then show ?thesis using c lw by (auto intro!: schar_id)
    next
      case 4
      then show ?thesis using hex2_digits [of c "device_sum six r1 r2 body"] lw by (auto intro!: schar_id)
    qed (use r in \<open>simp_all add: schar_id\<close>)
  qed
  have n: "length (sent six r1 r2 body) = length ?xs + 2" by (simp add: sent_split)
  have "read_id (41 - lowered six) (?xs @ (41 - lowered six) # tail) 1 ?b =
      Some (Some (1 + length ?xs + 1, take 1 ?b @ map schar ?xs @ [41 - lowered six] @ drop (1 + length ?xs + 1) ?b))"
    by (rule read_id_found) (use assms(1,2) all e n in auto)
  moreover have "map schar ?xs = ?xs" by (rule map_idI) (use all in auto)
  moreover have "take 1 ?b = [40 - lowered six]" using assms(1) by (cases old) simp_all
  moreover have "tl (sent six r1 r2 body) @ tail = ?xs @ (41 - lowered six) # tail" by (simp add: sent_split)
  moreover have "sent six r1 r2 body = [40 - lowered six] @ ?xs @ [41 - lowered six]" by (simp add: sent_split)
  ultimately show ?thesis using n by simp
qed

lemma sum_encode:
  "sum_list (take (length body + 3) (sent six r1 r2 body)) = sum_list (encode six (40 # r1 # r2 # body))"
  by (simp add: sent_def split3)

lemma checksum_sent:
  "checksum (sent six r1 r2 body @ rest) (length (sent six r1 r2 body)) = device_sum six r1 r2 body"
proof -
  define s where "s = sent six r1 r2 body"
  have n: "length s = length body + 6" by (simp add: s_def sent_def hex2_def)
  have "s \<noteq> []" "last s = 41 - lowered six" by (simp_all add: s_def sent_split)
  then have "(s @ rest) ! (length s - 1) = 41 - lowered six" by (simp add: nth_append last_conv_nth)
  moreover have "take (length s - 3) (s @ rest) = take (length body + 3) s" using n by (simp add: add.commute)
  ultimately show ?thesis
    using sum_encode [of body six r1 r2] by (simp add: checksum_def device_sum_def s_def)
qed

lemma hex_same: "same_start 2 (hex2 k) (take 2 (hex2 k) @ xs)"
  by (simp add: hex2_def numeral_2_eq_2)

lemma sent_parsed:
  assumes "0 \<le> r1" "r1 < 64" "0 \<le> r2" "r2 < 64" "\<forall>c \<in> set body. 32 \<le> c \<and> c < 128 \<and> c \<noteq> 41"
  shows "parsed (sent six r1 r2 body @ rest) (length (sent six r1 r2 body)) =
    40 # r1 # r2 # body @ take 2 (hex2 (device_sum six r1 r2 body)) @ [41] @ rest"
proof -
  let ?ys = "body @ take 2 (hex2 (device_sum six r1 r2 body)) @ [41]"
  have "\<forall>c \<in> set ?ys. 0 \<le> c \<and> c < 128"
    using assms(5) hex2_digits [of _ "device_sum six r1 r2 body"] by fastforce
  from decode_encode [OF assms(1-4) this, of six rest] show ?thesis
    by (simp add: sent_def hex2_def eval_nat_numeral)
qed

lemma serpnp_text:
  assumes ok: "parts_ok eisa ser cls com des" and "length old = 256"
    and r: "0 \<le> r1" "r1 < 64" "r1 \<noteq> 41 - lowered six" "0 \<le> r2" "r2 < 64" "r2 \<noteq> 41 - lowered six"
    and noise: "\<forall>c \<in> set noise. c \<noteq> 8 \<and> c \<noteq> 40" and s: "s = sent six r1 r2 (text_body eisa ser cls com des)"
    and n: "length s \<le> 256"
  shows "serpnp [name, device] True old (noise @ s @ tail) =
    Some (0, Fields (length s) # map Byte s @
      [Checksum (device_sum six r1 r2 (text_body eisa ser cls com des)), Id eisa, Class cls] @
      (if 9 < length des then [Description des] else []))"
proof -
  let ?body = "text_body eisa ser cls com des"
  let ?k = "device_sum six r1 r2 ?body"
  let ?rest = "drop (length s) old"
  let ?t = "pnp_text r1 r2 eisa ser cls com des (take 2 (hex2 ?k))"
  have c: "\<forall>c \<in> set ?body. 32 \<le> c \<and> c < 128 \<and> c \<noteq> 41"
    using ok by (auto simp: parts_ok_def text_body_def backslash_def)
  have hd_s: "s = (40 - lowered six) # tl s" by (simp add: s sent_split)
  have lw: "40 - lowered six = 8 \<or> 40 - lowered six = 40" by (simp add: lowered_def)
  have b: "begin_id (noise @ s @ tail) = Some (40 - lowered six, tl s @ tail)"
    using lw by (subst hd_s) (auto simp: begin_id_noise [OF noise])
  have w: "wr old 0 (40 - lowered six) = Some (old[0 := 40 - lowered six])"
    using assms(2) lw by (auto simp: wr_some schar_id)
  have rd: "read_id (41 - lowered six) (tl s @ tail) 1 (old[0 := 40 - lowered six]) = Some (Some (length s, s @ ?rest))"
    unfolding s by (rule sent_received [OF assms(2) n [unfolded s] r c])
  have p: "parsed (s @ ?rest) (length s) = ?t @ ?rest"
    using sent_parsed [OF r(1,2,4,5) c, of six ?rest] pnp_text_body [of r1 r2 eisa ser cls com des] by (simp add: s)
  have l: "length (s @ ?rest) = 256" "0 < length s" using assms(2) n hd_s by auto
  have lt: "length ?t = length s"
    by (simp add: s sent_def flip: pnp_text_body)
  have h: "length (take 2 (hex2 ?k)) = 2" "59 \<notin> set (take 2 (hex2 ?k))"
    using hex2_digits [of 59 ?k] by (auto simp: hex2_def)
  obtain com_f where f: "pnpfields (?t @ ?rest) (length ?t) ?k =
    Some (\<lparr>revision = push_bit 6 (r1 AND 0x3f) OR (r2 AND 0x3f), eisaid = (3, 7),
           serial = (if length ser = 8 then Some (11, 8) else None),
           devclass = Some (12 + length ser, length cls), compat = com_f,
           description = (if 1 < length des then Some (14 + length (ser @ cls @ com), length des) else None)\<rparr>,
          Some (?k, same_start 2 (hex2 ?k) (take 2 (hex2 ?k) @ 41 # ?rest)))"
    using fields_of_text [OF ok h refl refl, of r1 r2 ?rest ?k] l(1) lt by auto
  let ?p = "\<lparr>revision = push_bit 6 (r1 AND 0x3f) OR (r2 AND 0x3f), eisaid = (3, 7),
           serial = (if length ser = 8 then Some (11, 8) else None),
           devclass = Some (12 + length ser, length cls), compat = com_f,
           description = (if 1 < length des then Some (14 + length (ser @ cls @ com), length des) else None)\<rparr>"
  have pp: "pnpparse (s @ ?rest) (length s) = Some (?p, ?t @ ?rest, Some (?k, True))"
    using restore_parsed [OF l(1,2) n] p checksum_sent [of six r1 r2 ?body ?rest] f
    by (simp add: pnpparse_def lt hex_same s)
  have e7: "length eisa = 7" and big: "\<forall>c \<in> set (eisa @ ser @ cls @ com @ des). 32 \<le> c"
    using ok unfolding parts_ok_def by blast+
  then have "0 \<notin> set (eisa @ ser @ cls @ com @ des)" by fastforce
  then have nz: "\<forall>c \<in> set eisa. c \<noteq> 0" "\<forall>c \<in> set cls. c \<noteq> 0" "\<forall>c \<in> set des. c \<noteq> 0"
    by auto
  let ?h = "take 2 (hex2 ?k) @ [41] @ ?rest"
  have t: "?t @ ?rest = 40 # r1 # r2 # eisa @ backslash # ser @ backslash # cls @ backslash # com @ backslash # des @ ?h"
    by (simp add: pnp_text_def)
  have sh: "shown (?t @ ?rest) (3, 7) = eisa" "shown (?t @ ?rest) (12 + length ser, length cls) = cls"
    "shown (?t @ ?rest) (14 + length (ser @ cls @ com), length des) = des"
    using shown_part [of "?t @ ?rest" "[40, r1, r2]" eisa _ 3, OF _ _ nz(1)]
      shown_part [of "?t @ ?rest" "40 # r1 # r2 # eisa @ backslash # ser @ [backslash]" cls _ "12 + length ser", OF _ _ nz(2)]
      shown_part [of "?t @ ?rest" "40 # r1 # r2 # eisa @ backslash # ser @ backslash # cls @ backslash # com @ [backslash]" des _
        "14 + length (ser @ cls @ com)", OF _ _ nz(3)]
    unfolding t by (simp_all add: e7)
  have rp: "report ?p (?t @ ?rest) (Some (?k, True)) =
      [Checksum ?k, Id eisa, Class cls] @ (if 9 < length des then [Description des] else [])"
    using sh by (simp add: report_def class_lines_def)
  obtain pid where pid: "pnpparse (s @ ?rest) (length s) = Some (pid, ?t @ ?rest, Some (?k, True))"
    "report pid (?t @ ?rest) (Some (?k, True)) = [Checksum ?k, Id eisa, Class cls] @ (if 9 < length des then [Description des] else [])"
    by (rule that [OF pp rp])
  have tk: "take (length s) (s @ ?rest) = s" by simp
  show ?thesis
    by (simp add: serpnp_def b w rd [unfolded One_nat_def] pid tk del: take_append)
qed


section \<open>Properties\<close>

text \<open>
  C34: Whatever a device sends, however it is cut off and whatever the array held before, the program
  never leaves the array, neither when it reads nor when it looks for the fields.
\<close>

lemma serpnp_safe:
  assumes "length old = 256"
  shows "serpnp argv opened old bytes \<noteq> None"
  by (rule serpnp_ok [OF assms])

lemma serpnp_safe_witness:
  "serpnp [''serpnp'', ''/dev/ttyS0''] True (replicate 256 92) (0x28 # replicate 300 92) \<noteq> None"
  by (rule serpnp_safe) simp

text \<open>
  C19: the round trip of a whole identification: a device sends an open parenthesis, two bytes of the revision, the seven
  characters of vendor and product, serial number, class, compatible numbers and description, each behind a backslash, the checksum of
  all of it, and a close parenthesis; either as they are or (the old way) all but the revision lowered by 32.  The program then
  shows, without an error, the length, all the bytes, the checksum, vendor and product, the class, and the description if it has more
  than nine characters.  Conditions: the characters are printable 7-bit ones other than backslash and close parenthesis, the
  class has at least two, the description no semicolon; the bytes of the revision are below 64 and not the
  end mark; all of it fits 256 bytes; and what is received before holds neither byte 8 nor byte 40, which begin an
  identification.  What follows does not matter.  What becomes of revision, serial number and compatible numbers is not stated.
\<close>

lemma serpnp_roundtrip:
  assumes "parts_ok eisa ser cls com des" "length old = 256"
    and "0 \<le> r1" "r1 < 64" "r1 \<noteq> 41 - lowered six" "0 \<le> r2" "r2 < 64" "r2 \<noteq> 41 - lowered six"
    and "\<forall>c \<in> set noise. c \<noteq> 8 \<and> c \<noteq> 40" and "length (sent six r1 r2 (text_body eisa ser cls com des)) \<le> 256"
  shows "serpnp [name, device] True old (noise @ sent six r1 r2 (text_body eisa ser cls com des) @ tail) =
    Some (0, Fields (length (sent six r1 r2 (text_body eisa ser cls com des))) #
      map Byte (sent six r1 r2 (text_body eisa ser cls com des)) @
      [Checksum (device_sum six r1 r2 (text_body eisa ser cls com des)), Id eisa, Class cls] @
      (if 9 < length des then [Description des] else []))"
  by (rule serpnp_text [OF assms(1-9) refl assms(10)])

lemma serpnp_roundtrip_witness:
  "\<exists>out. serpnp [''serpnp'', ''tty''] True (replicate 256 0)
      ([77] @ sent True 1 36 (text_body (map code ''MSH0001'') [] (map code ''MOUSE'') (map code ''PNP0F01'') (map code ''Microsoft Mouse'')) @ [1]) =
    Some (0, out @ [Id (map code ''MSH0001''), Class (map code ''MOUSE''), Description (map code ''Microsoft Mouse'')])"
proof -
  have p: "parts_ok (map code ''MSH0001'') [] (map code ''MOUSE'') (map code ''PNP0F01'') (map code ''Microsoft Mouse'')"
    by (simp add: parts_ok_def code_def backslash_def)
  have n: "length (sent True 1 36 (text_body (map code ''MSH0001'') [] (map code ''MOUSE'') (map code ''PNP0F01'') (map code ''Microsoft Mouse''))) \<le> 256"
    by (simp add: sent_def text_body_def hex2_def)
  have o: "length (replicate 256 (0::int)) = 256" by simp
  have r: "(0::int) \<le> 1" "(1::int) < 64" "(1::int) \<noteq> 41 - lowered True" "(0::int) \<le> 36" "(36::int) < 64" "36 \<noteq> 41 - lowered True"
    "\<forall>c \<in> set [77::int]. c \<noteq> 8 \<and> c \<noteq> 40"
    by (simp_all add: lowered_def)
  have d: "9 < length (map code ''Microsoft Mouse'')" by simp
  let ?b = "text_body (map code ''MSH0001'') [] (map code ''MOUSE'') (map code ''PNP0F01'') (map code ''Microsoft Mouse'')"
  let ?s = "sent True 1 36 ?b"
  let ?k = "device_sum True 1 36 ?b"
  show ?thesis
    unfolding serpnp_roundtrip [OF p o r n] if_P [OF d]
    by (rule exI [of _ "Fields (length ?s) # map Byte ?s @ [Checksum ?k]"]) simp
qed

end
