(* ===== verification/LPosix.thy ===== *)
theory LPosix
  imports ModeMuncher
begin

text \<open>
  \<^verbatim>\<open>misc/luabash/posix/lposix.c\<close>: the POSIX functions of Lua.

  A function gets its arguments as a list of Lua values and gives back values, or raises an error
  (\<open>Bad_argument\<close>, \<open>Failure\<close>); \<open>Replaced\<close> is a successful \<^verbatim>\<open>exec\<close>, \<open>Overread\<close> a mode string that is
  read behind its end.  Numbers are integers; \<open>LQuot\<close> is a number of clock ticks divided by the
  ticks in a second.  The system is the parameter \<open>'k os\<close>: calls that give -1 on failure go through
  \<open>perform\<close>, which gives an error number or a value, queries are functions of the kernel state.
  How Lua converts numbers to text and back is a parameter as well, and memory does not run out.
  Strings given to the system end at the first NUL.  \<open>LFiles\<close> is the iterator of \<^verbatim>\<open>files\<close>, \<open>LHandle\<close> and \<open>LLines\<close> are a compressed file and
  its iterator (theory \<open>LZlib\<close>).
\<close>

section \<open>Values and system\<close>

datatype lua = LNil | LBool bool | LNum int | LQuot int int | LStr string | LTable "(lua \<times> lua) list" | LFiles "string list"
  | LHandle nat | LLines nat

datatype lresult = Values "lua list" | Bad_argument nat | Failure string | Replaced | Overread

record passwd =
  pw_name :: string
  pw_uid :: int
  pw_gid :: int
  pw_dir :: string
  pw_shell :: string
  pw_gecos :: string
  pw_passwd :: string

record group_entry =
  gr_name :: string
  gr_gid :: int
  gr_mem :: "string list"

record stat_buf =
  st_mode :: mode
  st_ino :: int
  st_dev :: int
  st_nlink :: int
  st_uid :: int
  st_gid :: int
  st_size :: int
  st_atime :: int
  st_mtime :: int
  st_ctime :: int

record utsname =
  sysname :: string
  nodename :: string
  release_name :: string
  version_name :: string
  machine :: string

record process_ids =
  egid :: int
  euid :: int
  gid :: int
  uid :: int
  pgrp :: int
  pid :: int
  ppid :: int

record process_times =
  tms_utime :: int
  tms_stime :: int
  tms_cutime :: int
  tms_cstime :: int
  elapsed :: int

datatype syscall =
    K_mkdir string int | K_chdir string | K_rmdir string | K_unlink string | K_link string string
  | K_symlink string string | K_access string int | K_mkfifo string int | K_execvp string "string list" | K_fork
  | K_waitpid int | K_kill int int | K_sleep int | K_putenv string | K_setenv string string bool | K_unsetenv string
  | K_chmod string mode | K_chown string int int | K_utime string int int | K_setuid int | K_setgid int | K_umask mode

record 'k os =
  perform :: "'k \<Rightarrow> syscall \<Rightarrow> 'k \<times> (int + int)"
  strerror :: "int \<Rightarrow> string"
  directory :: "'k \<Rightarrow> string \<Rightarrow> int + string list"
  matches :: "'k \<Rightarrow> string \<Rightarrow> string list option"
  working_dir :: "'k \<Rightarrow> int + string"
  link_target :: "'k \<Rightarrow> string \<Rightarrow> int + string"
  status_of :: "'k \<Rightarrow> string \<Rightarrow> int + stat_buf"
  link_status :: "'k \<Rightarrow> string \<Rightarrow> int + stat_buf"
  user_named :: "'k \<Rightarrow> string \<Rightarrow> passwd option"
  user_with :: "'k \<Rightarrow> int \<Rightarrow> passwd option"
  group_named :: "'k \<Rightarrow> string \<Rightarrow> group_entry option"
  group_with :: "'k \<Rightarrow> int \<Rightarrow> group_entry option"
  environment :: "'k \<Rightarrow> string list"
  identity :: "'k \<Rightarrow> process_ids"
  host :: "'k \<Rightarrow> int + utsname"
  clock :: "'k \<Rightarrow> process_times"
  clk_tck :: int
  now :: "'k \<Rightarrow> int"
  tty_name :: "'k \<Rightarrow> int \<Rightarrow> string option"
  terminal :: "'k \<Rightarrow> string"
  login_name :: "'k \<Rightarrow> string option"
  path_limit :: "'k \<Rightarrow> string \<Rightarrow> nat \<Rightarrow> int"
  system_limit :: "'k \<Rightarrow> nat \<Rightarrow> int"
  number_text :: "int \<Rightarrow> string"
  quotient_text :: "int \<Rightarrow> int \<Rightarrow> string"
  text_number :: "string \<Rightarrow> int option"

record 'k ps =
  kernel :: 'k
  errno :: int
  performed :: "syscall list"

type_synonym 'k lua_function = "'k os \<Rightarrow> lua list \<Rightarrow> 'k ps \<Rightarrow> 'k ps \<times> lresult"

section \<open>Arguments\<close>

definition arg :: "lua list \<Rightarrow> nat \<Rightarrow> lua option" where
  "arg args i = (if 0 < i \<and> i \<le> length args then Some (args ! (i - 1)) else None)"

definition isnone :: "lua list \<Rightarrow> nat \<Rightarrow> bool" where
  "isnone args i \<longleftrightarrow> arg args i = None"

definition isnoneornil :: "lua list \<Rightarrow> nat \<Rightarrow> bool" where
  "isnoneornil args i \<longleftrightarrow> arg args i \<in> {None, Some LNil}"

fun lua_tonumber :: "'k os \<Rightarrow> lua \<Rightarrow> int option" where
  "lua_tonumber os (LNum n) = Some n"
| "lua_tonumber os (LQuot n d) = Some (n div d)"
| "lua_tonumber os (LStr s) = text_number os s"
| "lua_tonumber os v = None"

fun lua_tostring :: "'k os \<Rightarrow> lua \<Rightarrow> string option" where
  "lua_tostring os (LStr s) = Some s"
| "lua_tostring os (LNum n) = Some (number_text os n)"
| "lua_tostring os (LQuot n d) = Some (quotient_text os n d)"
| "lua_tostring os v = None"

fun lua_toboolean :: "lua \<Rightarrow> bool" where
  "lua_toboolean LNil = False"
| "lua_toboolean (LBool b) = b"
| "lua_toboolean v = True"

definition checkstring :: "'k os \<Rightarrow> lua list \<Rightarrow> nat \<Rightarrow> (string \<Rightarrow> 'k ps \<Rightarrow> 'k ps \<times> lresult) \<Rightarrow> 'k ps \<Rightarrow> 'k ps \<times> lresult" where
  "checkstring os args i f s =
     (case Option.bind (arg args i) (lua_tostring os) of None \<Rightarrow> (s, Bad_argument i) | Some t \<Rightarrow> f (cstr t) s)"

definition optstring ::
  "'k os \<Rightarrow> lua list \<Rightarrow> nat \<Rightarrow> string \<Rightarrow> (string \<Rightarrow> 'k ps \<Rightarrow> 'k ps \<times> lresult) \<Rightarrow> 'k ps \<Rightarrow> 'k ps \<times> lresult" where
  "optstring os args i d f s = (if isnoneornil args i then f d s else checkstring os args i f s)"

definition checkint :: "'k os \<Rightarrow> lua list \<Rightarrow> nat \<Rightarrow> (int \<Rightarrow> 'k ps \<Rightarrow> 'k ps \<times> lresult) \<Rightarrow> 'k ps \<Rightarrow> 'k ps \<times> lresult" where
  "checkint os args i f s =
     (case Option.bind (arg args i) (lua_tonumber os) of None \<Rightarrow> (s, Bad_argument i) | Some n \<Rightarrow> f (to_int32 n) s)"

definition optint ::
  "'k os \<Rightarrow> lua list \<Rightarrow> nat \<Rightarrow> int \<Rightarrow> (int \<Rightarrow> 'k ps \<Rightarrow> 'k ps \<times> lresult) \<Rightarrow> 'k ps \<Rightarrow> 'k ps \<times> lresult" where
  "optint os args i d f s = (if isnoneornil args i then f d s else checkint os args i f s)"

section \<open>Results\<close>

definition pusherror :: "'k os \<Rightarrow> string option \<Rightarrow> 'k ps \<Rightarrow> 'k ps \<times> lresult" where
  "pusherror os info s =
     (s, Values [LNil,
           LStr (case info of None \<Rightarrow> strerror os (errno s) | Some t \<Rightarrow> t @ '': '' @ strerror os (errno s)),
           LNum (errno s)])"

definition perform_call :: "'k os \<Rightarrow> syscall \<Rightarrow> 'k ps \<Rightarrow> int \<times> 'k ps" where
  "perform_call os c s =
     (case perform os (kernel s) c of
        (k, Inl e) \<Rightarrow> (-1, s\<lparr>kernel := k, errno := e, performed := performed s @ [c]\<rparr>)
      | (k, Inr v) \<Rightarrow> (v, s\<lparr>kernel := k, performed := performed s @ [c]\<rparr>))"

definition pushresult :: "'k os \<Rightarrow> syscall \<Rightarrow> string option \<Rightarrow> 'k ps \<Rightarrow> 'k ps \<times> lresult" where
  "pushresult os c info s =
     (case perform_call os c s of (i, s1) \<Rightarrow> if i \<noteq> -1 then (s1, Values [LNum i]) else pusherror os info s1)"

definition return :: "lua list \<Rightarrow> 'k ps \<Rightarrow> 'k ps \<times> lresult" where
  "return vs s = (s, Values vs)"

text \<open>A query that fails with an error number.\<close>

definition query :: "'k os \<Rightarrow> string option \<Rightarrow> int + 'a \<Rightarrow> ('a \<Rightarrow> 'k ps \<Rightarrow> 'k ps \<times> lresult) \<Rightarrow> 'k ps \<Rightarrow> 'k ps \<times> lresult" where
  "query os info q f s = (case q of Inl e \<Rightarrow> pusherror os info (s\<lparr>errno := e\<rparr>) | Inr x \<Rightarrow> f x s)"

definition optional :: "string option \<Rightarrow> lua" where
  "optional x = (case x of None \<Rightarrow> LNil | Some t \<Rightarrow> LStr t)"

text \<open>\<^verbatim>\<open>lua_settable\<close>, and the tables with the indices from 1.\<close>

definition settable :: "lua \<Rightarrow> lua \<Rightarrow> (lua \<times> lua) list \<Rightarrow> (lua \<times> lua) list" where
  "settable k v t = filter (\<lambda>p. fst p \<noteq> k) t @ (if v = LNil then [] else [(k, v)])"

definition indexed :: "string list \<Rightarrow> (lua \<times> lua) list" where
  "indexed xs = map (\<lambda>i. (LNum (int i + 1), LStr (xs ! i))) [0..<length xs]"

definition doselection :: "'k os \<Rightarrow> lua list \<Rightarrow> nat \<Rightarrow> string list \<Rightarrow> (nat \<Rightarrow> lua) \<Rightarrow> 'k ps \<Rightarrow> 'k ps \<times> lresult" where
  "doselection os args i S F s =
     (if isnone args i
      then return [LTable (fold (\<lambda>j. settable (LStr (S ! j)) (F j)) [0..<length S] [])] s
      else
        checkstring os args i
          (\<lambda>t s. case find (\<lambda>j. S ! j = t) [0..<length S] of
             None \<Rightarrow> (s, Bad_argument i)
           | Some j \<Rightarrow> return [F j] s) s)"

definition uid_t :: "int \<Rightarrow> int" where
  "uid_t n = n mod 2 ^ 32"

text \<open>\<^verbatim>\<open>mygetuid\<close> and \<^verbatim>\<open>mygetgid\<close>: \<open>find_id\<close> looks a name up.\<close>

definition getid ::
  "'k os \<Rightarrow> (string \<Rightarrow> int option) \<Rightarrow> lua list \<Rightarrow> nat \<Rightarrow> (int \<Rightarrow> 'k ps \<Rightarrow> 'k ps \<times> lresult) \<Rightarrow> 'k ps \<Rightarrow> 'k ps \<times> lresult" where
  "getid os find_id args i f s =
     (case arg args i of
        None \<Rightarrow> f (uid_t (-1)) s
      | Some v \<Rightarrow>
          (case lua_tonumber os v of
             Some n \<Rightarrow> f (uid_t n) s
           | None \<Rightarrow>
               (case lua_tostring os v of
                  Some t \<Rightarrow> f (case find_id (cstr t) of None \<Rightarrow> uid_t (-1) | Some n \<Rightarrow> n) s
                | None \<Rightarrow> (s, Bad_argument i))))"

definition mygetuid :: "'k os \<Rightarrow> lua list \<Rightarrow> nat \<Rightarrow> (int \<Rightarrow> 'k ps \<Rightarrow> 'k ps \<times> lresult) \<Rightarrow> 'k ps \<Rightarrow> 'k ps \<times> lresult" where
  "mygetuid os args i f s = getid os (\<lambda>t. map_option pw_uid (user_named os (kernel s) t)) args i f s"

definition mygetgid :: "'k os \<Rightarrow> lua list \<Rightarrow> nat \<Rightarrow> (int \<Rightarrow> 'k ps \<Rightarrow> 'k ps \<times> lresult) \<Rightarrow> 'k ps \<Rightarrow> 'k ps \<times> lresult" where
  "mygetgid os args i f s = getid os (\<lambda>t. map_option gr_gid (group_named os (kernel s) t)) args i f s"

section \<open>Files and directories\<close>

definition filetype :: "mode \<Rightarrow> string" where
  "filetype m =
     (let t = m AND 61440 in
      if t = 32768 then ''regular''
      else if t = 40960 then ''link''
      else if t = 16384 then ''directory''
      else if t = 8192 then ''character device''
      else if t = 24576 then ''block device''
      else if t = 4096 then ''fifo''
      else if t = 49152 then ''socket''
      else ''?'')"

definition Perrno :: "'k lua_function" where
  "Perrno os args s = return [LStr (strerror os (errno s)), LNum (errno s)] s"

definition Pdir :: "'k lua_function" where
  "Pdir os args =
     optstring os args 1 ''.'' (\<lambda>path s. query os (Some path) (directory os (kernel s) path)
       (\<lambda>names. return [LTable (indexed names)]) s)"

text \<open>A failing \<^verbatim>\<open>glob\<close> says so by its value, not in \<^verbatim>\<open>errno\<close>.\<close>

definition Pglob :: "'k lua_function" where
  "Pglob os args =
     optstring os args 1 ''.'' (\<lambda>pattern s.
       case matches os (kernel s) pattern of
         None \<Rightarrow> pusherror os (Some pattern) s
       | Some names \<Rightarrow> return [LTable (indexed names)] s)"

text \<open>The closure of \<^verbatim>\<open>files\<close> holds the directory, nil once it is closed.\<close>

fun aux_files :: "string list option \<Rightarrow> string list option \<times> lresult" where
  "aux_files None = (None, Failure ''attempt to use closed dir'')"
| "aux_files (Some []) = (None, Values [LNil])"
| "aux_files (Some (entry # d)) = (Some d, Values [LStr entry])"

definition Pfiles :: "'k lua_function" where
  "Pfiles os args =
     optstring os args 1 ''.'' (\<lambda>path s. query os (Some path) (directory os (kernel s) path)
       (\<lambda>names. return [LFiles names]) s)"

definition MYBUFSIZ :: nat where
  "MYBUFSIZ = 512"

definition Pgetcwd :: "'k lua_function" where
  "Pgetcwd os args s =
     query os (Some ''.'')
       (case working_dir os (kernel s) of Inl e \<Rightarrow> Inl e | Inr d \<Rightarrow> if length d < MYBUFSIZ then Inr d else Inl 34)
       (\<lambda>d. return [LStr d]) s"

definition Pmkdir :: "'k lua_function" where
  "Pmkdir os args = checkstring os args 1 (\<lambda>path. pushresult os (K_mkdir path 511) (Some path))"

definition Pchdir :: "'k lua_function" where
  "Pchdir os args = checkstring os args 1 (\<lambda>path. pushresult os (K_chdir path) (Some path))"

definition Prmdir :: "'k lua_function" where
  "Prmdir os args = checkstring os args 1 (\<lambda>path. pushresult os (K_rmdir path) (Some path))"

definition Punlink :: "'k lua_function" where
  "Punlink os args = checkstring os args 1 (\<lambda>path. pushresult os (K_unlink path) (Some path))"

definition Plink :: "'k lua_function" where
  "Plink os args =
     checkstring os args 1 (\<lambda>oldpath. checkstring os args 2 (\<lambda>newpath. pushresult os (K_link oldpath newpath) None))"

definition Psymlink :: "'k lua_function" where
  "Psymlink os args =
     checkstring os args 1 (\<lambda>oldpath. checkstring os args 2 (\<lambda>newpath. pushresult os (K_symlink oldpath newpath) None))"

definition Preadlink :: "'k lua_function" where
  "Preadlink os args =
     checkstring os args 1 (\<lambda>path s. query os (Some path) (link_target os (kernel s) path)
       (\<lambda>t. return [LStr (take MYBUFSIZ t)]) s)"

fun access_mode :: "string \<Rightarrow> int \<Rightarrow> int option" where
  "access_mode [] mode = Some mode"
| "access_mode (c # cs) mode =
     (if c = CHR '' '' then access_mode cs mode
      else if c = CHR ''r'' then access_mode cs (mode OR 4)
      else if c = CHR ''w'' then access_mode cs (mode OR 2)
      else if c = CHR ''x'' then access_mode cs (mode OR 1)
      else if c = CHR ''f'' then access_mode cs (mode OR 0)
      else None)"

definition Paccess :: "'k lua_function" where
  "Paccess os args =
     checkstring os args 1 (\<lambda>path. optstring os args 2 ''f'' (\<lambda>t s.
       case access_mode t 0 of
         None \<Rightarrow> (s, Bad_argument 2)
       | Some mode \<Rightarrow> pushresult os (K_access path mode) (Some path) s))"

definition Pmkfifo :: "'k lua_function" where
  "Pmkfifo os args = checkstring os args 1 (\<lambda>path. pushresult os (K_mkfifo path 511) (Some path))"

section \<open>Processes and environment\<close>

fun checkstrings ::
  "'k os \<Rightarrow> lua list \<Rightarrow> nat list \<Rightarrow> (string list \<Rightarrow> 'k ps \<Rightarrow> 'k ps \<times> lresult) \<Rightarrow> 'k ps \<Rightarrow> 'k ps \<times> lresult" where
  "checkstrings os args [] f = f []"
| "checkstrings os args (i # is) f =
     checkstring os args i (\<lambda>t. checkstrings os args is (\<lambda>ts. f (t # ts)))"

definition Pexec :: "'k lua_function" where
  "Pexec os args =
     checkstring os args 1 (\<lambda>path. checkstrings os args [2..<length args + 1] (\<lambda>argv s.
       case perform_call os (K_execvp path (path # argv)) s of
         (i, s1) \<Rightarrow> if i = -1 then pusherror os (Some path) s1 else (s1, Replaced)))"

definition Pfork :: "'k lua_function" where
  "Pfork os args = pushresult os K_fork None"

definition Pwait :: "'k lua_function" where
  "Pwait os args = optint os args 1 (-1) (\<lambda>pid. pushresult os (K_waitpid pid) None)"

definition Pkill :: "'k lua_function" where
  "Pkill os args = checkint os args 1 (\<lambda>pid. optint os args 2 15 (\<lambda>sig. pushresult os (K_kill pid sig) None))"

definition Psleep :: "'k lua_function" where
  "Psleep os args =
     checkint os args 1 (\<lambda>seconds s.
       case perform_call os (K_sleep (seconds mod 2 ^ 32)) s of (i, s1) \<Rightarrow> return [LNum i] s1)"

definition Pputenv :: "'k lua_function" where
  "Pputenv os args = checkstring os args 1 (\<lambda>t. pushresult os (K_putenv t) (Some t))"

definition Psetenv :: "'k lua_function" where
  "Psetenv os args =
     checkstring os args 1 (\<lambda>name. checkstring os args 2 (\<lambda>val.
       pushresult os (K_setenv name val (isnoneornil args 3 \<or> lua_toboolean (the (arg args 3)))) (Some name)))"

definition Punsetenv :: "'k lua_function" where
  "Punsetenv os args =
     checkstring os args 1 (\<lambda>name s. case perform_call os (K_unsetenv name) s of (i, s1) \<Rightarrow> return [] s1)"

definition add_variable :: "string \<Rightarrow> (lua \<times> lua) list \<Rightarrow> (lua \<times> lua) list" where
  "add_variable e t =
     (if CHR ''='' \<notin> set e then settable (LStr e) (LBool False) t
      else settable (LStr (takeWhile (\<lambda>c. c \<noteq> CHR ''='') e)) (LStr (tl (dropWhile (\<lambda>c. c \<noteq> CHR ''='') e))) t)"

definition getenv :: "string list \<Rightarrow> string \<Rightarrow> string option" where
  "getenv env name =
     (if name = [] then None
      else map_option (drop (length name + 1)) (find (\<lambda>e. prefix (name @ ''='') e) env))"

definition Pgetenv :: "'k lua_function" where
  "Pgetenv os args s =
     (if isnone args 1
      then return [if environment os (kernel s) = [] then LNil
                   else LTable (fold add_variable (environment os (kernel s)) [])] s
      else checkstring os args 1 (\<lambda>name s. return [optional (getenv (environment os (kernel s)) name)] s) s)"

section \<open>Modes, owners and times of files\<close>

definition umask_call :: "'k os \<Rightarrow> mode \<Rightarrow> 'k ps \<Rightarrow> mode \<times> 'k ps" where
  "umask_call os m s = (case perform_call os (K_umask m) s of (i, s1) \<Rightarrow> (word_of_int i, s1))"

definition Pumask :: "'k lua_function" where
  "Pumask os args s =
     (let (mask, s1) = umask_call os 0 s;
          (_, s2) = umask_call os mask s1;
          mode = NOT mask AND 511
      in if isnone args 1 then return [LStr (modechopper mode)] s2
         else
           checkstring os args 1 (\<lambda>t s.
             case mode_munch mode t of
               None \<Rightarrow> (s, Overread)
             | Some (failed, m) \<Rightarrow>
                 if failed \<noteq> 0 then return [LNil] s
                 else
                   (case umask_call os (NOT (m AND 511)) s of
                      (_, s3) \<Rightarrow> return [LStr (modechopper (m AND 511))] s3)) s2)"

definition Pchmod :: "'k lua_function" where
  "Pchmod os args =
     checkstring os args 1 (\<lambda>path. checkstring os args 2 (\<lambda>modestr s.
       query os (Some path) (status_of os (kernel s) path) (\<lambda>st s.
         case mode_munch (st_mode st) modestr of
           None \<Rightarrow> (s, Overread)
         | Some (failed, mode) \<Rightarrow>
             if failed \<noteq> 0 then (s, Bad_argument 2)
             else pushresult os (K_chmod path mode) (Some path) s) s))"

definition Pchown :: "'k lua_function" where
  "Pchown os args =
     checkstring os args 1 (\<lambda>path. mygetuid os args 2 (\<lambda>u. mygetgid os args 3 (\<lambda>g.
       pushresult os (K_chown path u g) (Some path))))"

text \<open>\<^verbatim>\<open>luaL_optnumber\<close>, converted to a time.\<close>

definition opttime :: "'k os \<Rightarrow> lua list \<Rightarrow> nat \<Rightarrow> int \<Rightarrow> (int \<Rightarrow> 'k ps \<Rightarrow> 'k ps \<times> lresult) \<Rightarrow> 'k ps \<Rightarrow> 'k ps \<times> lresult" where
  "opttime os args i d f s =
     (if isnoneornil args i then f d s
      else case Option.bind (arg args i) (lua_tonumber os) of None \<Rightarrow> (s, Bad_argument i) | Some n \<Rightarrow> f n s)"

definition Putime :: "'k lua_function" where
  "Putime os args s =
     (let currtime = now os (kernel s)
      in checkstring os args 1 (\<lambda>path. opttime os args 2 currtime (\<lambda>mtime. opttime os args 3 currtime (\<lambda>atime.
           pushresult os (K_utime path mtime atime) (Some path)))) s)"

section \<open>Questions about the process and the system\<close>

definition FgetID :: "process_ids \<Rightarrow> nat \<Rightarrow> lua" where
  "FgetID p i = LNum ([egid p, euid p, gid p, uid p, pgrp p, pid p, ppid p] ! i)"

definition SgetID :: "string list" where
  "SgetID = [''egid'', ''euid'', ''gid'', ''uid'', ''pgrp'', ''pid'', ''ppid'']"

definition Pgetprocessid :: "'k lua_function" where
  "Pgetprocessid os args s = doselection os args 1 SgetID (FgetID (identity os (kernel s))) s"

definition Pttyname :: "'k lua_function" where
  "Pttyname os args = optint os args 1 0 (\<lambda>fd s. return [optional (tty_name os (kernel s) fd)] s)"

definition Pctermid :: "'k lua_function" where
  "Pctermid os args s = return [LStr (terminal os (kernel s))] s"

definition Pgetlogin :: "'k lua_function" where
  "Pgetlogin os args s = return [optional (login_name os (kernel s))] s"

definition Fgetpasswd :: "passwd \<Rightarrow> nat \<Rightarrow> lua" where
  "Fgetpasswd p i =
     [LStr (pw_name p), LNum (pw_uid p), LNum (pw_gid p), LStr (pw_dir p), LStr (pw_shell p), LStr (pw_gecos p),
      LStr (pw_passwd p)] ! i"

definition Sgetpasswd :: "string list" where
  "Sgetpasswd = [''name'', ''uid'', ''gid'', ''dir'', ''shell'', ''gecos'', ''passwd'']"

text \<open>The argument of \<^verbatim>\<open>getpasswd\<close> and \<^verbatim>\<open>getgroup\<close>: an id, a name, or neither.\<close>

definition by_id_or_name ::
  "'k os \<Rightarrow> lua list \<Rightarrow> (int \<Rightarrow> 'a option) \<Rightarrow> (string \<Rightarrow> 'a option) \<Rightarrow> ('a option \<Rightarrow> 'k ps \<Rightarrow> 'k ps \<times> lresult) \<Rightarrow> 'k ps \<Rightarrow> 'k ps \<times> lresult" where
  "by_id_or_name os args with_id named f s =
     (case Option.bind (arg args 1) (lua_tonumber os) of
        Some n \<Rightarrow> f (with_id (uid_t n)) s
      | None \<Rightarrow>
          (case Option.bind (arg args 1) (lua_tostring os) of
             Some t \<Rightarrow> f (named (cstr t)) s
           | None \<Rightarrow> (s, Bad_argument 1)))"

definition Pgetpasswd :: "'k lua_function" where
  "Pgetpasswd os args s =
     (let found = (\<lambda>p. case p of None \<Rightarrow> return [LNil] | Some p \<Rightarrow> doselection os args 2 Sgetpasswd (Fgetpasswd p))
      in if isnoneornil args 1 then found (user_with os (kernel s) (euid (identity os (kernel s)))) s
         else by_id_or_name os args (user_with os (kernel s)) (user_named os (kernel s)) found s)"

definition Pgetgroup :: "'k lua_function" where
  "Pgetgroup os args s =
     by_id_or_name os args (group_with os (kernel s)) (group_named os (kernel s))
       (\<lambda>g. case g of
          None \<Rightarrow> return [LNil]
        | Some g \<Rightarrow> return [LTable ([(LStr ''name'', LStr (gr_name g)), (LStr ''gid'', LNum (gr_gid g))] @ indexed (gr_mem g))]) s"

definition Psetuid :: "'k lua_function" where
  "Psetuid os args = mygetuid os args 1 (\<lambda>u. pushresult os (K_setuid u) None)"

definition Psetgid :: "'k lua_function" where
  "Psetgid os args = mygetgid os args 1 (\<lambda>g. pushresult os (K_setgid g) None)"

definition Ftimes :: "int \<Rightarrow> process_times \<Rightarrow> nat \<Rightarrow> lua" where
  "Ftimes tck t i = LQuot ([tms_utime t, tms_stime t, tms_cutime t, tms_cstime t, elapsed t] ! i) tck"

definition Stimes :: "string list" where
  "Stimes = [''utime'', ''stime'', ''cutime'', ''cstime'', ''elapsed'']"

definition Ptimes :: "'k lua_function" where
  "Ptimes os args s = doselection os args 1 Stimes (Ftimes (clk_tck os) (clock os (kernel s))) s"

definition Fstat :: "stat_buf \<Rightarrow> nat \<Rightarrow> lua" where
  "Fstat st i =
     [LStr (modechopper (st_mode st)), LNum (st_ino st), LNum (st_dev st), LNum (st_nlink st), LNum (st_uid st),
      LNum (st_gid st), LNum (st_size st), LNum (st_atime st), LNum (st_mtime st), LNum (st_ctime st),
      LStr (filetype (st_mode st)), LNum (uint (st_mode st))] ! i"

definition Sstat :: "string list" where
  "Sstat = [''mode'', ''ino'', ''dev'', ''nlink'', ''uid'', ''gid'', ''size'', ''atime'', ''mtime'', ''ctime'', ''type'', ''_mode'']"

definition Pstat :: "'k lua_function" where
  "Pstat os args =
     checkstring os args 1 (\<lambda>path s. query os (Some path) (link_status os (kernel s) path)
       (\<lambda>st. doselection os args 2 Sstat (Fstat st)) s)"

fun uname_format :: "utsname \<Rightarrow> string \<Rightarrow> string option" where
  "uname_format u [] = Some []"
| "uname_format u [c] = (if c \<noteq> CHR ''%'' then Some [c] else None)"
| "uname_format u (c # d # cs) =
     (if c \<noteq> CHR ''%'' then map_option (Cons c) (uname_format u (d # cs))
      else if d = CHR ''%'' then map_option (Cons d) (uname_format u cs)
      else if d = CHR ''m'' then map_option (append (machine u)) (uname_format u cs)
      else if d = CHR ''n'' then map_option (append (nodename u)) (uname_format u cs)
      else if d = CHR ''r'' then map_option (append (release_name u)) (uname_format u cs)
      else if d = CHR ''s'' then map_option (append (sysname u)) (uname_format u cs)
      else if d = CHR ''v'' then map_option (append (version_name u)) (uname_format u cs)
      else None)"

definition Puname :: "'k lua_function" where
  "Puname os args s =
     query os None (host os (kernel s)) (\<lambda>u. optstring os args 1 ''%s %n %r %v %m'' (\<lambda>t s.
       case uname_format u t of None \<Rightarrow> (s, Bad_argument 2) | Some r \<Rightarrow> return [LStr r] s)) s"

definition Kpathconf :: "nat list" where
  "Kpathconf = [0, 1, 2, 3, 4, 5, 6, 7, 8]"

definition Spathconf :: "string list" where
  "Spathconf = [''link_max'', ''max_canon'', ''max_input'', ''name_max'', ''path_max'', ''pipe_buf'', ''chown_restricted'', ''no_trunc'', ''vdisable'']"

definition Fpathconf :: "(nat \<Rightarrow> int) \<Rightarrow> nat \<Rightarrow> lua" where
  "Fpathconf pathconf i = LNum (pathconf (Kpathconf ! i))"

definition Ppathconf :: "'k lua_function" where
  "Ppathconf os args =
     checkstring os args 1 (\<lambda>path s. doselection os args 2 Spathconf (Fpathconf (path_limit os (kernel s) path)) s)"

definition Ksysconf :: "nat list" where
  "Ksysconf = [0, 1, 2, 3, 5, 6, 4, 7, 8, 29]"

definition Ssysconf :: "string list" where
  "Ssysconf = [''arg_max'', ''child_max'', ''clk_tck'', ''ngroups_max'', ''stream_max'', ''tzname_max'', ''open_max'', ''job_control'', ''saved_ids'', ''version'']"

definition Fsysconf :: "(nat \<Rightarrow> int) \<Rightarrow> nat \<Rightarrow> lua" where
  "Fsysconf sysconf i = LNum (sysconf (Ksysconf ! i))"

definition Psysconf :: "'k lua_function" where
  "Psysconf os args s = doselection os args 1 Ssysconf (Fsysconf (system_limit os (kernel s))) s"

section \<open>The library\<close>

definition R :: "(string \<times> 'k lua_function) list" where
  "R =
     [(''access'', Paccess), (''chdir'', Pchdir), (''chmod'', Pchmod), (''chown'', Pchown), (''ctermid'', Pctermid),
      (''dir'', Pdir), (''errno'', Perrno), (''exec'', Pexec), (''files'', Pfiles), (''fork'', Pfork),
      (''getcwd'', Pgetcwd), (''getenv'', Pgetenv), (''getgroup'', Pgetgroup), (''getlogin'', Pgetlogin),
      (''getpasswd'', Pgetpasswd), (''getprocessid'', Pgetprocessid), (''glob'', Pglob), (''kill'', Pkill),
      (''link'', Plink), (''mkdir'', Pmkdir), (''mkfifo'', Pmkfifo), (''pathconf'', Ppathconf), (''putenv'', Pputenv),
      (''readlink'', Preadlink), (''rmdir'', Prmdir), (''setgid'', Psetgid), (''setuid'', Psetuid), (''sleep'', Psleep),
      (''stat'', Pstat), (''symlink'', Psymlink), (''sysconf'', Psysconf), (''times'', Ptimes), (''ttyname'', Pttyname),
      (''umask'', Pumask), (''uname'', Puname), (''unlink'', Punlink), (''utime'', Putime), (''wait'', Pwait),
      (''setenv'', Psetenv), (''unsetenv'', Punsetenv)]"

datatype 'k member = Function "'k lua_function" | Text string

definition luaopen_lposix :: "(string \<times> 'k member) list" where
  "luaopen_lposix = map (map_prod id Function) R @ [(''version'', Text ''posix library for Lua 5.1 / Nov 2003'')]"

definition posix :: "string \<Rightarrow> 'k lua_function option" where
  "posix name = (case map_of luaopen_lposix name of Some (Function f) \<Rightarrow> Some f | _ \<Rightarrow> None)"

section \<open>Functions that check arguments\<close>

text \<open>What holds when an argument is wrong and of the function applied to the arguments holds of the whole.\<close>

locale argument_contract =
  fixes Q :: "'k ps \<Rightarrow> 'k ps \<times> lresult \<Rightarrow> bool"
  assumes bad_argument: "Q s (s, Bad_argument i)"
begin

lemma checkstring: "(\<And>t. Q s (f t s)) \<Longrightarrow> Q s (checkstring os args i f s)"
  by (simp add: checkstring_def bad_argument split: option.split)

lemma optstring: "(\<And>t. Q s (f t s)) \<Longrightarrow> Q s (optstring os args i d f s)"
  by (simp add: optstring_def checkstring)

lemma checkint: "(\<And>n. Q s (f n s)) \<Longrightarrow> Q s (checkint os args i f s)"
  by (simp add: checkint_def bad_argument split: option.split)

lemma optint: "(\<And>n. Q s (f n s)) \<Longrightarrow> Q s (optint os args i d f s)"
  by (simp add: optint_def checkint)

lemma opttime: "(\<And>n. Q s (f n s)) \<Longrightarrow> Q s (opttime os args i d f s)"
  by (simp add: opttime_def bad_argument split: option.split)

lemma getid: "(\<And>n. Q s (f n s)) \<Longrightarrow> Q s (getid os find_id args i f s)"
  by (simp add: getid_def bad_argument split: option.split)

lemma mygetuid: "(\<And>n. Q s (f n s)) \<Longrightarrow> Q s (mygetuid os args i f s)"
  by (simp add: mygetuid_def getid)

lemma mygetgid: "(\<And>n. Q s (f n s)) \<Longrightarrow> Q s (mygetgid os args i f s)"
  by (simp add: mygetgid_def getid)

lemma checkstrings: "(\<And>ts. Q s (f ts s)) \<Longrightarrow> Q s (checkstrings os args is f s)"
  by (induction "is" arbitrary: f) (simp_all add: checkstring)

lemma by_id_or_name: "(\<And>x. Q s (f x s)) \<Longrightarrow> Q s (by_id_or_name os args w n f s)"
  by (simp add: by_id_or_name_def bad_argument split: option.split)

lemmas arguments = checkstring optstring checkint optint opttime mygetuid mygetgid checkstrings by_id_or_name

end

section \<open>Functions that report the status of a call\<close>

text \<open>
  What such a function may do: nothing at all when it refuses its arguments, or one call.  Its
  result is the value of the call, or nil, a message that ends with the text of the error, and the
  number of the error.
\<close>

definition error_values :: "'k os \<Rightarrow> int \<Rightarrow> lua list \<Rightarrow> bool" where
  "error_values os e vs \<longleftrightarrow> (\<exists>m. vs = [LNil, LStr (m @ strerror os e), LNum e])"

definition one_call :: "'k os \<Rightarrow> syscall \<Rightarrow> 'k ps \<Rightarrow> 'k ps \<Rightarrow> lua list \<Rightarrow> bool" where
  "one_call os c s s' vs \<longleftrightarrow>
     performed s' = performed s @ [c] \<and>
     (case perform os (kernel s) c of
        (k, Inr v) \<Rightarrow> kernel s' = k \<and> errno s' = errno s \<and> vs = [LNum v]
      | (k, Inl e) \<Rightarrow> kernel s' = k \<and> errno s' = e \<and> error_values os e vs)"

definition status_outcome :: "'k os \<Rightarrow> 'k ps \<Rightarrow> 'k ps \<times> lresult \<Rightarrow> bool" where
  "status_outcome os s m \<longleftrightarrow>
     (case m of (s', r) \<Rightarrow>
        (case r of
           Bad_argument i \<Rightarrow> s' = s
         | Overread \<Rightarrow> s' = s
         | Values vs \<Rightarrow>
             (\<exists>c. one_call os c s s' vs) \<or>
             (\<exists>e path. status_of os (kernel s) path = Inl e \<and> s' = s\<lparr>errno := e\<rparr> \<and> error_values os e vs)
         | _ \<Rightarrow> False))"

text \<open>Calls of the system that succeed give no negative value.\<close>

definition answers :: "'k os \<Rightarrow> bool" where
  "answers os \<longleftrightarrow> (\<forall>k c k' v. perform os k c = (k', Inr v) \<longrightarrow> 0 \<le> v)"

interpretation status: argument_contract "status_outcome os" for os
  by unfold_locales (simp add: status_outcome_def)

lemma error_values_pusherror: "pusherror os info s = (s', Values vs) \<Longrightarrow> s' = s \<and> error_values os (errno s) vs"
  by (auto simp: pusherror_def error_values_def split: option.splits)

lemma pusherror_Values: "\<exists>vs. pusherror os info s = (s, Values vs) \<and> error_values os (errno s) vs"
  by (auto simp: pusherror_def error_values_def split: option.splits)

lemma status_pushresult:
  assumes "answers os"
  shows "status_outcome os s (pushresult os c info s)"
proof (cases "perform os (kernel s) c")
  case (Pair k a)
  show ?thesis
  proof (cases a)
    case (Inl e)
    let ?s = "s\<lparr>kernel := k, errno := e, performed := performed s @ [c]\<rparr>"
    obtain vs where "pusherror os info ?s = (?s, Values vs)" "error_values os (errno ?s) vs"
      using pusherror_Values by blast
    with Pair Inl show ?thesis
      by (auto simp: pushresult_def perform_call_def status_outcome_def one_call_def intro!: exI [of _ c])
  next
    case (Inr v)
    with assms Pair have "0 \<le> v" by (auto simp: answers_def)
    with Pair Inr show ?thesis
      by (auto simp: pushresult_def perform_call_def status_outcome_def one_call_def intro!: exI [of _ c])
  qed
qed

lemma status_query:
  assumes "\<And>x. status_outcome os s (f x s)"
  shows "status_outcome os s (query os info (status_of os (kernel s) path) f s)"
proof (cases "status_of os (kernel s) path")
  case (Inl e)
  let ?s = "s\<lparr>errno := e\<rparr>"
  obtain vs where "pusherror os info ?s = (?s, Values vs)" "error_values os (errno ?s) vs"
    using pusherror_Values by blast
  with Inl show ?thesis by (auto simp: query_def status_outcome_def)
next
  case (Inr x)
  with assms show ?thesis by (simp add: query_def)
qed

lemma status_other: "status_outcome os s (s, Bad_argument i)" "status_outcome os s (s, Overread)"
  by (simp_all add: status_outcome_def)

definition status_functions :: "(string \<times> 'k lua_function) list" where
  "status_functions =
     [(''access'', Paccess), (''chdir'', Pchdir), (''chmod'', Pchmod), (''chown'', Pchown), (''fork'', Pfork),
      (''kill'', Pkill), (''link'', Plink), (''mkdir'', Pmkdir), (''mkfifo'', Pmkfifo), (''putenv'', Pputenv),
      (''rmdir'', Prmdir), (''setgid'', Psetgid), (''setuid'', Psetuid), (''symlink'', Psymlink),
      (''unlink'', Punlink), (''utime'', Putime), (''wait'', Pwait), (''setenv'', Psetenv)]"

lemma status_chmod: "answers os \<Longrightarrow> status_outcome os s (Pchmod os args s)"
  unfolding Pchmod_def
  by (intro status.arguments status_query)
    (auto simp: status_other intro: status_pushresult split: option.split)

lemma status_access: "answers os \<Longrightarrow> status_outcome os s (Paccess os args s)"
  unfolding Paccess_def
  by (intro status.arguments) (auto simp: status_other intro: status_pushresult split: option.split)

lemma status_functions_outcome:
  "answers os \<Longrightarrow> f \<in> snd ` set status_functions \<Longrightarrow> status_outcome os s (f os args s)"
  unfolding status_functions_def
  by (auto simp: status_chmod status_access Pchdir_def Pchown_def Pfork_def Pkill_def Plink_def Pmkdir_def Pmkfifo_def
      Pputenv_def Prmdir_def Psetgid_def Psetuid_def Psymlink_def Punlink_def Putime_def Let_def Pwait_def Psetenv_def
      intro!: status.arguments status_pushresult)

lemma posix_R: "posix name = map_of R name"
proof -
  have "map_of (map (map_prod id Function) xs) name = map_option Function (map_of xs name)" for xs :: "(string \<times> 'a lua_function) list"
    by (induction xs) auto
  then show ?thesis
    by (simp add: posix_def luaopen_lposix_def map_add_def split: option.split)
qed

text \<open>
  C21: a status function does nothing when it refuses its arguments; otherwise it makes one call of
  the system and gives back the value of the call, or nil, the text of the error and the number of the error
  (for \<^verbatim>\<open>chmod\<close> also the error with which \<^verbatim>\<open>stat\<close> failed, before any call).
\<close>

theorem status_functions_report:
  fixes f :: "'k lua_function"
  assumes "answers os" and "name \<in> fst ` set (status_functions :: (string \<times> 'k lua_function) list)"
    and "posix name = Some f"
  shows "status_outcome os s (f os args s)"
proof -
  have "\<forall>p \<in> set (status_functions :: (string \<times> 'k lua_function) list). posix (fst p) = Some (snd p)"
    unfolding posix_R status_functions_def R_def by simp
  with assms(2,3) have "f \<in> snd ` set status_functions" by force
  with assms(1) show ?thesis by (rule status_functions_outcome)
qed

text \<open>A system with one file, on which removing directories fails.\<close>

definition one_file :: "stat_buf" where
  "one_file = \<lparr>st_mode = 33261, st_ino = 7, st_dev = 1, st_nlink = 1, st_uid = 0, st_gid = 0, st_size = 10,
     st_atime = 5, st_mtime = 6, st_ctime = 7\<rparr>"

definition root_user :: passwd where
  "root_user = \<lparr>pw_name = ''root'', pw_uid = 0, pw_gid = 0, pw_dir = ''/root'', pw_shell = ''/bin/sh'', pw_gecos = [], pw_passwd = ''x''\<rparr>"

fun small_perform :: "mode \<Rightarrow> syscall \<Rightarrow> mode \<times> (int + int)" where
  "small_perform k (K_umask m) = (m AND 511, Inr (uint (k AND 511)))"
| "small_perform k (K_rmdir path) = (k, Inl 20)"
| "small_perform k c = (k, Inr 0)"

definition small_os :: "mode os" where
  "small_os =
     \<lparr>perform = small_perform, strerror = (\<lambda>e. ''failed''), directory = (\<lambda>k path. Inr [''.'', ''..'', ''f'']),
      matches = (\<lambda>k p. None), working_dir = (\<lambda>k. Inr ''/''), link_target = (\<lambda>k p. Inl 22),
      status_of = (\<lambda>k p. Inr one_file), link_status = (\<lambda>k p. Inr one_file),
      user_named = (\<lambda>k n. if n = ''root'' then Some root_user else None),
      user_with = (\<lambda>k n. if n = 0 then Some root_user else None), group_named = (\<lambda>k n. None), group_with = (\<lambda>k n. None),
      environment = (\<lambda>k. [''HOME=/root'']),
      identity = (\<lambda>k. \<lparr>egid = 0, euid = 0, gid = 0, uid = 0, pgrp = 9, pid = 9, ppid = 1\<rparr>),
      host = (\<lambda>k. Inr \<lparr>sysname = ''Linux'', nodename = ''t2'', release_name = ''6'', version_name = ''1'', machine = ''x86_64''\<rparr>),
      clock = (\<lambda>k. \<lparr>tms_utime = 1, tms_stime = 2, tms_cutime = 3, tms_cstime = 4, elapsed = 100\<rparr>), clk_tck = 100, now = (\<lambda>k. 8),
      tty_name = (\<lambda>k fd. None), terminal = (\<lambda>k. ''/dev/tty''), login_name = (\<lambda>k. None),
      path_limit = (\<lambda>k p i. 255), system_limit = (\<lambda>k i. -1), number_text = show_int, quotient_text = (\<lambda>n d. []), text_number = (\<lambda>t. None)\<rparr>"

definition fresh :: "mode ps" where
  "fresh = \<lparr>kernel = 18, errno = 0, performed = []\<rparr>"

lemma small_answers: "answers small_os"
proof -
  have "small_perform k c = (k', Inr v) \<Longrightarrow> 0 \<le> v" for k c k' v
    by (cases c) auto
  then show ?thesis by (simp add: answers_def small_os_def)
qed

theorem status_functions_report_witness:
  "status_outcome small_os fresh (Prmdir small_os [LStr ''f''] fresh) \<and>
   snd (Prmdir small_os [LStr ''f''] fresh) = Values [LNil, LStr ''f: failed'', LNum 20]"
proof -
  have "''rmdir'' \<in> fst ` set (status_functions :: (string \<times> mode lua_function) list)"
    by (simp add: status_functions_def)
  moreover have "posix ''rmdir'' = Some (Prmdir :: mode lua_function)"
    by (simp add: posix_R R_def)
  ultimately have "status_outcome small_os fresh (Prmdir small_os [LStr ''f''] fresh)"
    by (intro status_functions_report [OF small_answers, of "''rmdir''"])
  then show ?thesis
    by (simp add: Prmdir_def checkstring_def arg_def cstr_def pushresult_def perform_call_def small_os_def fresh_def pusherror_def)
qed

section \<open>Selections\<close>

lemma settable_fresh: "k \<notin> fst ` set t \<Longrightarrow> v \<noteq> LNil \<Longrightarrow> settable k v t = t @ [(k, v)]"
  by (auto simp: settable_def filter_id_conv)

lemma selection_table_upto:
  assumes "distinct S" "\<And>j. j < length S \<Longrightarrow> F j \<noteq> LNil" "n \<le> length S"
  shows "fold (\<lambda>j. settable (LStr (S ! j)) (F j)) [0..<n] [] = map (\<lambda>j. (LStr (S ! j), F j)) [0..<n]"
  using assms(3)
proof (induction n)
  case (Suc n)
  have "LStr (S ! n) \<notin> fst ` set (map (\<lambda>j. (LStr (S ! j), F j)) [0..<n])"
    using assms(1) Suc.prems by (auto simp: nth_eq_iff_index_eq)
  then show ?case using Suc assms(2) [of n] by (simp add: settable_fresh)
qed simp

definition fields :: "string list \<Rightarrow> (nat \<Rightarrow> lua) \<Rightarrow> (lua \<times> lua) list" where
  "fields S F = map (\<lambda>j. (LStr (S ! j), F j)) [0..<length S]"

lemma doselection_all:
  assumes "distinct S" "\<And>j. j < length S \<Longrightarrow> F j \<noteq> LNil" "isnone args i"
  shows "doselection os args i S F s = (s, Values [LTable (fields S F)])"
  using assms by (simp add: doselection_def return_def fields_def selection_table_upto)

lemma map_of_fields:
  "map_of (map (\<lambda>j. (LStr (S ! j), F j)) js) (LStr t) = map_option F (find (\<lambda>j. S ! j = t) js)"
  by (induction js) auto

lemma doselection_one:
  assumes "arg args i = Some (LStr t)"
  shows "doselection os args i S F s =
    (s, case map_of (fields S F) (LStr (cstr t)) of None \<Rightarrow> Bad_argument i | Some v \<Rightarrow> Values [v])"
  using assms
  by (simp add: doselection_def isnone_def checkstring_def fields_def map_of_fields return_def split: option.split)

definition selective :: "nat \<Rightarrow> 'k lua_function \<Rightarrow> bool" where
  "selective n f \<longleftrightarrow>
     (\<forall>os xs s s' table sel. length xs = n \<longrightarrow> f os xs s = (s', Values [LTable table]) \<longrightarrow>
        f os (xs @ [LStr sel]) s =
          (s', case map_of table (LStr (cstr sel)) of None \<Rightarrow> Bad_argument (n + 1) | Some v \<Rightarrow> Values [v]))"

definition selectors_ok :: "string list \<Rightarrow> (nat \<Rightarrow> lua) \<Rightarrow> bool" where
  "selectors_ok S F \<longleftrightarrow> distinct S \<and> (\<forall>j < length S. F j \<noteq> LNil)"

lemma doselection_selective:
  assumes "selectors_ok S F" "length xs = n" and "doselection os xs (n + 1) S F s = (s', Values [LTable table])"
  shows "doselection os (xs @ [LStr sel]) (n + 1) S F s =
    (s', case map_of table (LStr (cstr sel)) of None \<Rightarrow> Bad_argument (n + 1) | Some v \<Rightarrow> Values [v])"
proof -
  have "isnone xs (n + 1)" "arg (xs @ [LStr sel]) (n + 1) = Some (LStr sel)"
    using assms(2) by (auto simp: isnone_def arg_def)
  with assms(1,3) show ?thesis
    by (auto simp: doselection_all doselection_one selectors_ok_def split: option.split)
qed

lemma nth_not_nil: "LNil \<notin> set xs \<Longrightarrow> j < length xs \<Longrightarrow> xs ! j \<noteq> LNil"
  by (metis nth_mem)

lemma selectors_distinct: "distinct SgetID" "distinct Sgetpasswd" "distinct Stimes" "distinct Sstat" "distinct Spathconf" "distinct Ssysconf"
  by (simp_all add: SgetID_def Sgetpasswd_def Stimes_def Sstat_def Spathconf_def Ssysconf_def)

lemma selectors_ok [simp]:
  "selectors_ok SgetID (FgetID p)" "selectors_ok Stimes (Ftimes n t)"
  "selectors_ok Spathconf (Fpathconf pc)" "selectors_ok Ssysconf (Fsysconf sc)"
  by (simp_all add: selectors_ok_def selectors_distinct FgetID_def Ftimes_def Fpathconf_def Fsysconf_def)

lemma selectors_ok_passwd [simp]: "selectors_ok Sgetpasswd (Fgetpasswd u)"
  unfolding selectors_ok_def Fgetpasswd_def
  by (intro conjI allI impI nth_not_nil selectors_distinct) (simp_all add: Sgetpasswd_def)

lemma selectors_ok_stat [simp]: "selectors_ok Sstat (Fstat st)"
  unfolding selectors_ok_def Fstat_def
  by (intro conjI allI impI nth_not_nil selectors_distinct) (simp_all add: Sstat_def)

lemma arg_append [simp]: "arg (a # xs) (Suc 0) = Some a" "isnoneornil [] i" "isnone [] i"
  by (auto simp: arg_def isnoneornil_def isnone_def)

lemma selective_0: "(\<And>os args s. f os args s = doselection os args 1 S (F os s) s) \<Longrightarrow> (\<And>os s. selectors_ok S (F os s)) \<Longrightarrow> selective 0 f"
  using doselection_selective [of S _ "[]" 0] by (fastforce simp: selective_def split: option.split)

lemma selective_processid: "selective 0 Pgetprocessid"
  by (rule selective_0) (auto simp: Pgetprocessid_def)

lemma selective_times: "selective 0 Ptimes"
  by (rule selective_0) (auto simp: Ptimes_def)

lemma selective_sysconf: "selective 0 Psysconf"
  by (rule selective_0) (auto simp: Psysconf_def)

lemma one_argument: "length xs = Suc 0 \<Longrightarrow> \<exists>a. xs = [a]"
  by (cases xs) auto

lemma checkstring_append: "checkstring os [a, b] 1 f s = checkstring os [a] 1 f s"
  by (simp add: checkstring_def)

lemma doselection_second:
  assumes "selectors_ok S F" "doselection os [a] 2 S F s = (s', Values [LTable table])"
  shows "doselection os [a, LStr sel] 2 S F s =
    (s', case map_of table (LStr (cstr sel)) of None \<Rightarrow> Bad_argument 2 | Some v \<Rightarrow> Values [v])"
  using doselection_selective [of S F "[a]" 1 os s s' table sel] assms
  by (simp add: numeral_2_eq_2 split: option.splits)

lemma two: "(case x of None \<Rightarrow> Bad_argument (1 + 1) | Some v \<Rightarrow> Values [v]) = (case x of None \<Rightarrow> Bad_argument 2 | Some v \<Rightarrow> Values [v])"
  by (simp split: option.split)

lemma selective_pathconf: "selective 1 Ppathconf"
  unfolding selective_def
proof (intro allI impI)
  fix os :: "'a os" and xs s s' table sel
  assume "length xs = 1" and t: "Ppathconf os xs s = (s', Values [LTable table])"
  then obtain a where a: "xs = [a]" using one_argument by auto
  with t obtain path where "lua_tostring os a = Some path"
    by (auto simp: Ppathconf_def checkstring_def split: option.splits)
  with t a show "Ppathconf os (xs @ [LStr sel]) s =
      (s', case map_of table (LStr (cstr sel)) of None \<Rightarrow> Bad_argument (1 + 1) | Some v \<Rightarrow> Values [v])"
    unfolding two by (auto simp: Ppathconf_def checkstring_def intro!: doselection_second)
qed

lemma selective_stat: "selective 1 Pstat"
  unfolding selective_def
proof (intro allI impI)
  fix os :: "'a os" and xs s s' table sel
  assume "length xs = 1" and t: "Pstat os xs s = (s', Values [LTable table])"
  then obtain a where a: "xs = [a]" using one_argument by auto
  with t obtain path st where "lua_tostring os a = Some path" "link_status os (kernel s) (cstr path) = Inr st"
    by (auto simp: Pstat_def checkstring_def query_def pusherror_def split: option.splits sum.splits)
  with t a show "Pstat os (xs @ [LStr sel]) s =
      (s', case map_of table (LStr (cstr sel)) of None \<Rightarrow> Bad_argument (1 + 1) | Some v \<Rightarrow> Values [v])"
    unfolding two by (auto simp: Pstat_def checkstring_def query_def intro!: doselection_second)
qed

lemma selective_passwd: "selective 1 Pgetpasswd"
  unfolding selective_def
proof (intro allI impI)
  fix os :: "'a os" and xs s s' table sel
  assume "length xs = 1" and t: "Pgetpasswd os xs s = (s', Values [LTable table])"
  then obtain a where a: "xs = [a]" using one_argument by auto
  have arg: "arg [a] 1 = Some a" "arg [a, LStr sel] 1 = Some a" "isnoneornil [a, LStr sel] 1 = isnoneornil [a] 1"
    by (simp_all add: isnoneornil_def)
  let ?found = "\<lambda>args p. case p of None \<Rightarrow> return [LNil] | Some p \<Rightarrow> doselection os args 2 Sgetpasswd (Fgetpasswd p)"
  have found: "?found [a, LStr sel] p s =
      (s', case map_of table (LStr (cstr sel)) of None \<Rightarrow> Bad_argument 2 | Some v \<Rightarrow> Values [v])"
    if "?found [a] p s = (s', Values [LTable table])" for p
    using that doselection_second [OF selectors_ok_passwd]
    by (cases p) (auto simp: return_def)
  note append = isnoneornil_def arg
  have "Pgetpasswd os [a, LStr sel] s =
      (s', case map_of table (LStr (cstr sel)) of None \<Rightarrow> Bad_argument 2 | Some v \<Rightarrow> Values [v])"
  proof (cases "isnoneornil [a] 1")
    case True
    with t show ?thesis
      unfolding a Pgetpasswd_def Let_def arg by (simp only: if_True found)
  next
    case False
    with t obtain p where "?found [a] p s = (s', Values [LTable table])"
      "\<And>f. by_id_or_name os [a, LStr sel] (user_with os (kernel s)) (user_named os (kernel s)) f s = f p s"
      unfolding a Pgetpasswd_def Let_def by_id_or_name_def arg
      by (cases "lua_tonumber os a"; cases "lua_tostring os a") auto
    with False found show ?thesis
      unfolding Pgetpasswd_def Let_def arg by (simp only: if_False)
  qed
  then show "Pgetpasswd os (xs @ [LStr sel]) s =
      (s', case map_of table (LStr (cstr sel)) of None \<Rightarrow> Bad_argument (1 + 1) | Some v \<Rightarrow> Values [v])"
    unfolding two a by simp
qed

definition selecting :: "(string \<times> nat) list" where
  "selecting = [(''getprocessid'', 0), (''times'', 0), (''sysconf'', 0), (''pathconf'', 1), (''stat'', 1), (''getpasswd'', 1)]"

text \<open>
  C26: with a selector, a function that gives a table gives the entry of the table it gives without,
  and refuses a selector that is no key of the table.
\<close>

theorem selector_of_table:
  fixes f :: "'k lua_function"
  assumes "(name, n) \<in> set selecting" "posix name = Some f" "length xs = n"
    and "f os xs s = (s', Values [LTable table])"
  shows "f os (xs @ [LStr sel]) s =
    (s', case map_of table (LStr (cstr sel)) of None \<Rightarrow> Bad_argument (n + 1) | Some v \<Rightarrow> Values [v])"
proof -
  have "selective n f"
    using assms(1,2) selective_processid selective_times selective_sysconf selective_pathconf selective_stat selective_passwd
    unfolding selecting_def posix_R R_def by auto
  with assms(3,4) show ?thesis unfolding selective_def by blast
qed

theorem selector_of_table_witness:
  "Pgetprocessid small_os [LStr ''pgrp''] fresh = (fresh, Values [LNum 9]) \<and>
   Pgetprocessid small_os [LStr ''group''] fresh = (fresh, Bad_argument 1)"
proof -
  let ?t = "fields SgetID (FgetID (identity small_os 18))"
  have "Pgetprocessid small_os [] fresh = (fresh, Values [LTable ?t])"
    using doselection_all [of SgetID "FgetID (identity small_os 18)" "[]" 1 small_os fresh] selectors_ok(1)
    by (simp add: Pgetprocessid_def selectors_ok_def fresh_def)
  moreover have "map_of ?t (LStr ''pgrp'') = Some (LNum 9)" "map_of ?t (LStr ''group'') = None"
    by (simp_all add: fields_def SgetID_def FgetID_def small_os_def numeral_nat)
  ultimately show ?thesis
    using selector_of_table [of "''getprocessid''" 0 Pgetprocessid "[]" small_os fresh fresh ?t]
    by (simp add: selecting_def posix_R R_def cstr_def)
qed

section \<open>Mode strings between functions\<close>

lemma modechopper_no_nul: "cstr (modechopper m) = modechopper m"
proof (rule cstr_id)
  have "set (xs[i := c]) \<subseteq> insert c (set xs)" for xs :: string and i c by (rule set_update_subset_insert)
  then show "CHR 0x00 \<notin> set (modechopper m)"
    by (auto simp: modechopper_def Let_def modesel_def list_update_code split: if_splits)
qed

text \<open>
  C31: the text \<^verbatim>\<open>stat\<close> gives for the mode of one file, passed to \<^verbatim>\<open>chmod\<close> for another, makes \<^verbatim>\<open>chmod\<close> ask the system
  for the permissions and set-id bits of the first file with all other bits of the second; but a set-id bit of the
  first file without its execute bit is cleared, and the execute bit is left as the second file has it.
\<close>

theorem stat_chmod_roundtrip:
  assumes "link_status os (kernel s) (cstr from_path) = Inr st"
    and "status_of os (kernel s) (cstr to_path) = Inr st2"
  shows "\<exists>t. Pstat os [LStr from_path, LStr ''mode''] s = (s, Values [LStr t]) \<and>
    Pchmod os [LStr to_path, LStr t] s =
      pushresult os (K_chmod (cstr to_path)
        ((st_mode st2 AND NOT (3583 AND NOT (kept_exec (st_mode st)))) OR
         (st_mode st AND (3583 AND NOT (lost_ids (st_mode st)))))) (Some (cstr to_path)) s"
proof -
  have "map_of (fields Sstat (Fstat st)) (LStr ''mode'') = Some (LStr (modechopper (st_mode st)))"
    by (simp add: fields_def Sstat_def Fstat_def upt_rec)
  then have "Pstat os [LStr from_path, LStr ''mode''] s = (s, Values [LStr (modechopper (st_mode st))])"
    using assms(1) doselection_one [of "[LStr from_path, LStr ''mode'']" 2 "''mode''" os Sstat "Fstat st" s]
    by (simp add: Pstat_def checkstring_def query_def arg_def cstr_def)
  moreover have "Pchmod os [LStr to_path, LStr (modechopper (st_mode st))] s =
      pushresult os (K_chmod (cstr to_path)
        ((st_mode st2 AND NOT (3583 AND NOT (kept_exec (st_mode st)))) OR
         (st_mode st AND (3583 AND NOT (lost_ids (st_mode st)))))) (Some (cstr to_path)) s"
    using assms(2)
    by (simp add: Pchmod_def checkstring_def query_def arg_def modechopper_no_nul chop_munch_all)
  ultimately show ?thesis by blast
qed

theorem stat_chmod_roundtrip_witness:
  "Pchmod small_os [LStr ''g'', LStr ''rwxr-xr-x''] fresh =
     (fresh\<lparr>performed := [K_chmod ''g'' 33261]\<rparr>, Values [LNum 0])"
proof -
  have "modechopper 33261 = ''rwxr-xr-x''"
    by (simp add: modechopper_def modesel_def mode_bits Let_def)
  then have t: "Pstat small_os [LStr ''f'', LStr ''mode''] fresh = (fresh, Values [LStr t]) \<Longrightarrow> t = ''rwxr-xr-x''" for t
    using doselection_one [of "[LStr ''f'', LStr ''mode'']" 2 "''mode''" small_os Sstat "Fstat one_file" fresh]
    by (simp add: Pstat_def checkstring_def query_def arg_def cstr_def small_os_def one_file_def fields_def Sstat_def Fstat_def upt_rec)
  have ids: "kept_exec (st_mode one_file) = 0" "lost_ids (st_mode one_file) = 0"
    by (simp_all add: kept_exec_def lost_ids_def one_file_def mode_bits)
  obtain t where "Pstat small_os [LStr ''f'', LStr ''mode''] fresh = (fresh, Values [LStr t])"
    "Pchmod small_os [LStr ''g'', LStr t] fresh =
      pushresult small_os (K_chmod (cstr ''g'') ((st_mode one_file AND NOT 3583) OR (st_mode one_file AND 3583))) (Some (cstr ''g'')) fresh"
    using stat_chmod_roundtrip [of small_os fresh "''f''" one_file "''g''" one_file] ids by (auto simp: small_os_def)
  with t show ?thesis
    by (simp add: pushresult_def perform_call_def small_os_def one_file_def cstr_def fresh_def)
qed

text \<open>The laws of the mask: setting it gives the old one, and only the permission bits count.\<close>

definition keeps_mask :: "'k os \<Rightarrow> ('k \<Rightarrow> mode) \<Rightarrow> bool" where
  "keeps_mask os mask_of \<longleftrightarrow>
     (\<forall>k m. \<exists>k'. perform os k (K_umask m) = (k', Inr (uint (mask_of k))) \<and> mask_of k' = m AND 511) \<and>
     (\<forall>k. mask_of k AND 511 = mask_of k)"

lemma umask_call:
  assumes "keeps_mask os mask_of" "umask_call os m s = (old, s')"
  shows "old = mask_of (kernel s)" "mask_of (kernel s') = m AND 511" "errno s' = errno s"
    "performed s' = performed s @ [K_umask m]"
proof -
  obtain k' where "perform os (kernel s) (K_umask m) = (k', Inr (uint (mask_of (kernel s))))" "mask_of k' = m AND 511"
    using assms(1) unfolding keeps_mask_def by blast
  with assms(2) show "old = mask_of (kernel s)" "mask_of (kernel s') = m AND 511" "errno s' = errno s"
    "performed s' = performed s @ [K_umask m]"
    by (auto simp: umask_call_def perform_call_def)
qed

lemma word_not_twice: "(NOT (NOT m AND (511::mode))) AND 511 = m AND 511"
  by (rule bit_eqI) (auto simp: bit_simps)

text \<open>
  \<^verbatim>\<open>umask\<close> without argument leaves the mask as it is, and the text it gives sets that mask again
  whatever the mask has become meanwhile.
\<close>

theorem umask_roundtrip:
  assumes "keeps_mask os mask_of"
  shows "\<exists>t s'. Pumask os [] s = (s', Values [LStr t]) \<and> mask_of (kernel s') = mask_of (kernel s) \<and>
    (\<forall>s2. \<exists>s3. Pumask os [LStr t] s2 = (s3, Values [LStr t]) \<and> mask_of (kernel s3) = mask_of (kernel s))"
proof -
  let ?m = "mask_of (kernel s)"
  let ?mode = "NOT ?m AND 511"
  have m: "?m AND 511 = ?m" using assms by (auto simp: keeps_mask_def)
  obtain s1 where s1: "umask_call os 0 s = (?m, s1)"
    using umask_call(1) [OF assms, of 0 s] by (cases "umask_call os 0 s") auto
  obtain o2 s2 where s2: "umask_call os ?m s1 = (o2, s2)" by (cases "umask_call os ?m s1")
  have a: "Pumask os [] s = (s2, Values [LStr (modechopper ?mode)])"
    by (simp add: Pumask_def s1 s2 return_def)
  have k: "mask_of (kernel s2) = ?m" using umask_call(2) [OF assms s2] m by simp
  have ids: "readable_ids ?mode" by (simp add: readable_ids_def mode_bits and.assoc)
  have read: "mode_munch (NOT n AND 511) (modechopper ?mode) = Some (0, ?mode)" for n
  proof -
    have "((NOT n AND 511) AND NOT 3583) OR (?mode AND 3583) = ?mode"
      by (simp add: and.assoc)
    then show ?thesis using chop_munch [OF ids] by simp
  qed
  have "\<exists>s3. Pumask os [LStr (modechopper ?mode)] z = (s3, Values [LStr (modechopper ?mode)]) \<and> mask_of (kernel s3) = ?m" for z
  proof -
    obtain o1 z1 where z1: "umask_call os 0 z = (o1, z1)" by (cases "umask_call os 0 z")
    obtain o2 z2 where z2: "umask_call os o1 z1 = (o2, z2)" by (cases "umask_call os o1 z1")
    obtain o3 z3 where z3: "umask_call os (NOT ?mode) z2 = (o3, z3)" by (cases "umask_call os (NOT ?mode) z2")
    have "mask_of (kernel z3) = ?m"
      using umask_call(2) [OF assms z3] m word_not_twice [of ?m] by simp
    moreover have "Pumask os [LStr (modechopper ?mode)] z = (z3, Values [LStr (modechopper ?mode)])"
      using z1 z2 z3 read [of o1] modechopper_no_nul [of ?mode]
      by (simp add: Pumask_def return_def isnone_def checkstring_def and.assoc)
    ultimately show ?thesis by blast
  qed
  with a k show ?thesis by blast
qed

theorem umask_roundtrip_witness:
  "\<exists>t s'. Pumask small_os [] fresh = (s', Values [LStr t]) \<and> kernel s' AND 511 = 18"
proof -
  have "keeps_mask small_os (\<lambda>k. k AND 511)"
    by (auto simp: keeps_mask_def small_os_def and.assoc)
  from umask_roundtrip [OF this, of fresh] show ?thesis by (auto simp: fresh_def)
qed

section \<open>The types of the results\<close>

type_synonym ltype = "lua \<Rightarrow> bool"

definition nil_t :: ltype where "nil_t v \<longleftrightarrow> v = LNil"
definition num_t :: ltype where "num_t v \<longleftrightarrow> (case v of LNum n \<Rightarrow> True | LQuot n d \<Rightarrow> True | _ \<Rightarrow> False)"
definition str_t :: ltype where "str_t v \<longleftrightarrow> (case v of LStr t \<Rightarrow> True | _ \<Rightarrow> False)"
definition files_t :: ltype where "files_t v \<longleftrightarrow> (case v of LFiles d \<Rightarrow> True | _ \<Rightarrow> False)"

definition array_t :: ltype where
  "array_t v \<longleftrightarrow>
     (case v of LTable t \<Rightarrow> map fst t = map (\<lambda>i. LNum (int i + 1)) [0..<length t] \<and> list_all (str_t \<circ> snd) t | _ \<Rightarrow> False)"

definition record_t :: "(string \<times> ltype) list \<Rightarrow> ltype" where
  "record_t fs v \<longleftrightarrow>
     (case v of LTable t \<Rightarrow> map fst t = map (LStr \<circ> fst) fs \<and> list_all2 (\<lambda>f e. snd f (snd e)) fs t | _ \<Rightarrow> False)"

definition strings_t :: ltype where
  "strings_t v \<longleftrightarrow>
     (case v of LTable t \<Rightarrow> distinct (map fst t) \<and> list_all (\<lambda>e. str_t (fst e) \<and> (str_t (snd e) \<or> snd e = LBool False)) t | _ \<Rightarrow> False)"

definition group_t :: ltype where
  "group_t v \<longleftrightarrow>
     (case v of LTable (a # b # t) \<Rightarrow> record_t [(''name'', str_t), (''gid'', num_t)] (LTable [a, b]) \<and> array_t (LTable t) | _ \<Rightarrow> False)"

lemmas type_defs = nil_t_def num_t_def str_t_def files_t_def array_t_def record_t_def strings_t_def group_t_def

definition failure_t :: "ltype list" where
  "failure_t = [nil_t, str_t, num_t]"

definition selection_t :: "(string \<times> ltype) list \<Rightarrow> ltype list list" where
  "selection_t fs = [record_t fs] # map (\<lambda>f. [snd f]) fs"

definition id_fields :: "(string \<times> ltype) list" where
  "id_fields = map (\<lambda>k. (k, num_t)) SgetID"

definition passwd_fields :: "(string \<times> ltype) list" where
  "passwd_fields = [(''name'', str_t), (''uid'', num_t), (''gid'', num_t), (''dir'', str_t), (''shell'', str_t), (''gecos'', str_t), (''passwd'', str_t)]"

definition stat_fields :: "(string \<times> ltype) list" where
  "stat_fields =
     [(''mode'', str_t), (''ino'', num_t), (''dev'', num_t), (''nlink'', num_t), (''uid'', num_t), (''gid'', num_t), (''size'', num_t),
      (''atime'', num_t), (''mtime'', num_t), (''ctime'', num_t), (''type'', str_t), (''_mode'', num_t)]"

text \<open>The results a function may have: for each way to return, the types of the values.\<close>

definition status_t :: "ltype list list" where
  "status_t = [[num_t], failure_t]"

definition result_types :: "(string \<times> ltype list list) list" where
  "result_types =
     [(''access'', status_t), (''chdir'', status_t), (''chmod'', status_t), (''chown'', status_t),
      (''ctermid'', [[str_t]]), (''dir'', [[array_t], failure_t]), (''errno'', [[str_t, num_t]]),
      (''exec'', [failure_t]), (''files'', [[files_t], failure_t]), (''fork'', status_t),
      (''getcwd'', [[str_t], failure_t]), (''getenv'', [[strings_t], [str_t], [nil_t]]),
      (''getgroup'', [[group_t], [nil_t]]), (''getlogin'', [[str_t], [nil_t]]),
      (''getpasswd'', [nil_t] # selection_t passwd_fields), (''getprocessid'', selection_t id_fields),
      (''glob'', [[array_t], failure_t]), (''kill'', status_t), (''link'', status_t), (''mkdir'', status_t),
      (''mkfifo'', status_t), (''pathconf'', selection_t (map (\<lambda>k. (k, num_t)) Spathconf)),
      (''putenv'', status_t), (''readlink'', [[str_t], failure_t]), (''rmdir'', status_t), (''setgid'', status_t),
      (''setuid'', status_t), (''sleep'', [[num_t]]), (''stat'', failure_t # selection_t stat_fields),
      (''symlink'', status_t), (''sysconf'', selection_t (map (\<lambda>k. (k, num_t)) Ssysconf)),
      (''times'', selection_t (map (\<lambda>k. (k, num_t)) Stimes)), (''ttyname'', [[str_t], [nil_t]]),
      (''umask'', [[str_t], [nil_t]]), (''uname'', [[str_t], failure_t]), (''unlink'', status_t),
      (''utime'', status_t), (''wait'', status_t), (''setenv'', status_t), (''unsetenv'', [[]])]"

definition of_types :: "ltype list list \<Rightarrow> lua list \<Rightarrow> bool" where
  "of_types tss vs \<longleftrightarrow> list_ex (\<lambda>ts. list_all2 (\<lambda>t v. t v) ts vs) tss"

definition typed :: "ltype list list \<Rightarrow> 'k ps \<times> lresult \<Rightarrow> bool" where
  "typed tss m \<longleftrightarrow> (case snd m of Values vs \<Rightarrow> of_types tss vs | _ \<Rightarrow> True)"

interpretation typed: argument_contract "\<lambda>s. typed tss" for tss
  by unfold_locales (simp add: typed_def)

lemma typed_other [simp]: "typed tss (s, Bad_argument i)" "typed tss (s, Overread)" "typed tss (s, Replaced)"
  "typed tss (return vs s) = of_types tss vs"
  by (simp_all add: typed_def return_def)

lemma of_types_simps [simp]:
  "of_types [] vs = False"
  "of_types (ts # tss) vs = (list_all2 (\<lambda>t v. t v) ts vs \<or> of_types tss vs)"
  by (simp_all add: of_types_def)

lemma basic_types [simp]:
  "nil_t LNil" "num_t (LNum n)" "num_t (LQuot n d)" "str_t (LStr t)" "files_t (LFiles es)"
  "\<not> str_t LNil" "\<not> nil_t (LStr t)"
  by (simp_all add: type_defs)

lemma typed_pusherror: "failure_t \<in> set tss \<Longrightarrow> typed tss (pusherror os info s)"
  by (auto simp: typed_def pusherror_def of_types_def list_ex_iff failure_t_def intro!: bexI [of _ failure_t])

lemma typed_pushresult: "typed [[num_t], failure_t] (pushresult os c info s)"
  by (auto simp: pushresult_def typed_def pusherror_def failure_t_def split: prod.split)

lemma typed_query:
  "failure_t \<in> set tss \<Longrightarrow> (\<And>x. typed tss (f x s)) \<Longrightarrow> typed tss (query os info q f s)"
  by (simp add: query_def typed_pusherror split: sum.split)

lemma array_indexed [simp]: "array_t (LTable (indexed xs))"
  by (auto simp: array_t_def indexed_def list_all_iff)

lemma typed_doselection:
  assumes "selectors_ok S F" "map fst fs = S" "\<forall>j < length S. snd (fs ! j) (F j)" "set (selection_t fs) \<subseteq> set tss"
  shows "typed tss (doselection os args i S F s)"
proof -
  have len: "length fs = length S" using assms(2) by auto
  have ex: "of_types tss [v]" if "[t] \<in> set (selection_t fs)" "t v" for t v
    using that assms(4) by (auto simp: of_types_def list_ex_iff intro!: bexI [of _ "[t]"])
  show ?thesis
  proof (cases "isnone args i")
    case True
    have "map fst (fields S F) = map LStr S"
      by (rule nth_equalityI) (simp_all add: fields_def)
    moreover have "map (LStr \<circ> fst) fs = map LStr S" using assms(2) by auto
    moreover have "list_all2 (\<lambda>f e. snd f (snd e)) fs (fields S F)"
      using assms(3) len by (simp add: list_all2_conv_all_nth fields_def)
    ultimately have "record_t fs (LTable (fields S F))" by (simp add: record_t_def)
    then have "of_types tss [LTable (fields S F)]" by (intro ex [of "record_t fs"]) (simp_all add: selection_t_def)
    with True assms(1) show ?thesis by (simp add: doselection_all selectors_ok_def typed_def)
  next
    case False
    have "typed tss (case find (\<lambda>j. S ! j = t) [0..<length S] of None \<Rightarrow> (s, Bad_argument i) | Some j \<Rightarrow> return [F j] s)" for t
    proof (cases "find (\<lambda>j. S ! j = t) [0..<length S]")
      case (Some j)
      then have j: "j < length S" by (auto simp: find_Some_iff)
      with len have "[snd (fs ! j)] \<in> set (selection_t fs)" by (auto simp: selection_t_def)
      with j assms(3) Some show ?thesis by (auto intro: ex)
    qed simp
    with False show ?thesis by (simp add: doselection_def typed.checkstring)
  qed
qed

lemma typed_numbers:
  assumes "selectors_ok S F" "\<And>j. num_t (F j)"
  shows "typed (selection_t (map (\<lambda>k. (k, num_t)) S)) (doselection os args i S F s)"
  using assms by (intro typed_doselection [where fs = "map (\<lambda>k. (k, num_t)) S"]) (simp_all add: comp_def)

lemma typed_selections:
  "typed (selection_t id_fields) (doselection os args i SgetID (FgetID p) s)"
  "typed (selection_t (map (\<lambda>k. (k, num_t)) Stimes)) (doselection os args i Stimes (Ftimes n t) s)"
  "typed (selection_t (map (\<lambda>k. (k, num_t)) Spathconf)) (doselection os args i Spathconf (Fpathconf pc) s)"
  "typed (selection_t (map (\<lambda>k. (k, num_t)) Ssysconf)) (doselection os args i Ssysconf (Fsysconf sc) s)"
  unfolding id_fields_def
  by (intro typed_numbers; simp add: FgetID_def Ftimes_def Fpathconf_def Fsysconf_def)+

lemma all_less_length_Cons: "(\<forall>j < Suc n. P j) \<longleftrightarrow> P 0 \<and> (\<forall>j < n. P (Suc j))"
  by (metis less_Suc_eq_0_disj)

lemma typed_passwd:
  assumes "set (selection_t passwd_fields) \<subseteq> set tss"
  shows "typed tss (doselection os args i Sgetpasswd (Fgetpasswd u) s)"
  using selectors_ok_passwd _ _ assms
proof (rule typed_doselection)
  show "map fst passwd_fields = Sgetpasswd" by (simp add: passwd_fields_def Sgetpasswd_def)
  show "\<forall>j < length Sgetpasswd. snd (passwd_fields ! j) (Fgetpasswd u j)"
    by (simp add: Sgetpasswd_def all_less_length_Cons passwd_fields_def Fgetpasswd_def)
qed

lemma typed_stat:
  assumes "set (selection_t stat_fields) \<subseteq> set tss"
  shows "typed tss (doselection os args i Sstat (Fstat st) s)"
  using selectors_ok_stat _ _ assms
proof (rule typed_doselection)
  show "map fst stat_fields = Sstat" by (simp add: stat_fields_def Sstat_def)
  show "\<forall>j < length Sstat. snd (stat_fields ! j) (Fstat st j)"
    by (simp add: Sstat_def all_less_length_Cons stat_fields_def Fstat_def)
qed

lemma settable_strings:
  assumes "strings_t (LTable t)" "str_t k" "str_t v \<or> v = LBool False"
  shows "strings_t (LTable (settable k v t))"
  using assms by (auto simp: strings_t_def settable_def list_all_iff distinct_map inj_on_def)

lemma environment_strings: "strings_t (LTable t) \<Longrightarrow> strings_t (LTable (fold add_variable env t))"
  by (induction env arbitrary: t) (simp_all add: add_variable_def settable_strings)

lemma typed_status:
  "typed status_t (Paccess os args s)"
  "typed status_t (Pchdir os args s)"
  "typed status_t (Pchmod os args s)"
  "typed status_t (Pchown os args s)"
  "typed status_t (Pfork os args s)"
  "typed status_t (Pkill os args s)"
  "typed status_t (Plink os args s)"
  "typed status_t (Pmkdir os args s)"
  "typed status_t (Pmkfifo os args s)"
  "typed status_t (Pputenv os args s)"
  "typed status_t (Prmdir os args s)"
  "typed status_t (Psetgid os args s)"
  "typed status_t (Psetuid os args s)"
  "typed status_t (Psymlink os args s)"
  "typed status_t (Punlink os args s)"
  "typed status_t (Putime os args s)"
  "typed status_t (Pwait os args s)"
  "typed status_t (Psetenv os args s)"
  unfolding status_t_def
  by (auto simp: Pchdir_def Pchown_def Pfork_def Pkill_def Plink_def Pmkdir_def Pmkfifo_def Paccess_def Pchmod_def
      Pputenv_def Prmdir_def Psetgid_def Psetuid_def Psymlink_def Punlink_def Putime_def Let_def Pwait_def Psetenv_def
      simp del: of_types_simps split: option.split intro!: typed.arguments typed_pushresult typed_query)

lemma typed_optional [simp]: "str_t (optional x) \<or> nil_t (optional x)"
  by (cases x) (simp_all add: optional_def)

lemma group_table: "group_t (LTable ([(LStr ''name'', LStr n), (LStr ''gid'', LNum g)] @ indexed xs))"
  by (simp add: group_t_def record_t_def)

lemma typed_plain:
  "typed [[str_t]] (Pctermid os args s)"
  "typed [[array_t], failure_t] (Pdir os args s)"
  "typed [[str_t, num_t]] (Perrno os args s)"
  "typed [failure_t] (Pexec os args s)"
  "typed [[files_t], failure_t] (Pfiles os args s)"
  "typed [[str_t], failure_t] (Pgetcwd os args s)"
  "typed [[str_t], [nil_t]] (Pgetlogin os args s)"
  "typed [[array_t], failure_t] (Pglob os args s)"
  "typed [[str_t], failure_t] (Preadlink os args s)"
  "typed [[num_t]] (Psleep os args s)"
  "typed [[str_t], [nil_t]] (Pttyname os args s)"
  "typed [[str_t], failure_t] (Puname os args s)"
  "typed [[]] (Punsetenv os args s)"
  unfolding Pctermid_def Pdir_def Perrno_def Pexec_def Pfiles_def Pgetcwd_def Pgetlogin_def Pglob_def Preadlink_def
    Psleep_def Pttyname_def Puname_def Punsetenv_def
  by (auto intro!: typed.arguments typed_query typed_pusherror split: option.split prod.split)

lemma typed_getenv: "typed [[strings_t], [str_t], [nil_t]] (Pgetenv os args s)"
proof -
  have "strings_t (LTable [])" by (simp add: strings_t_def)
  then show ?thesis
    by (auto simp: Pgetenv_def environment_strings intro!: typed.arguments)
qed

lemma typed_getgroup: "typed [[group_t], [nil_t]] (Pgetgroup os args s)"
  using group_table by (auto simp: Pgetgroup_def intro!: typed.arguments split: option.split)

lemma typed_getpasswd: "typed ([nil_t] # selection_t passwd_fields) (Pgetpasswd os args s)"
  unfolding Pgetpasswd_def Let_def
  by (auto intro!: typed.arguments typed_passwd split: option.split)

lemma typed_umask: "typed [[str_t], [nil_t]] (Pumask os args s)"
  by (auto simp: Pumask_def Let_def split: prod.split option.split intro!: typed.arguments)

lemma typed_Pstat: "typed (failure_t # selection_t stat_fields) (Pstat os args s)"
  unfolding Pstat_def by (auto intro!: typed.arguments typed_query typed_stat)

lemma typed_system:
  "typed (selection_t id_fields) (Pgetprocessid os args s)"
  "typed (selection_t (map (\<lambda>k. (k, num_t)) Spathconf)) (Ppathconf os args s)"
  "typed (selection_t (map (\<lambda>k. (k, num_t)) Ssysconf)) (Psysconf os args s)"
  "typed (selection_t (map (\<lambda>k. (k, num_t)) Stimes)) (Ptimes os args s)"
  unfolding Pgetprocessid_def Ppathconf_def Psysconf_def Ptimes_def
  by (auto intro: typed_selections typed.arguments)

lemma map_of_list_all2:
  "list_all2 (\<lambda>p q. fst p = fst q \<and> P (snd p) (snd q)) xs ys \<Longrightarrow> map_of xs k = Some v \<Longrightarrow>
   \<exists>w. map_of ys k = Some w \<and> P v w"
  by (induction xs ys rule: list_all2_induct) (auto split: if_splits)

lemma R_typed:
  "list_all2 (\<lambda>p q. fst p = fst q \<and> (\<forall>os args s. typed (snd q) (snd p os args s))) R result_types"
  unfolding R_def result_types_def
  by (simp add: typed_status typed_plain typed_getenv typed_getgroup typed_getpasswd typed_umask typed_Pstat typed_system)

text \<open>
  C25: every function of the library gives back values of its types: for each of its ways to return,
  the right number of values, with the fields of a table and their types.
\<close>

theorem results_have_types:
  assumes "posix name = Some f" and "f os args s = (s', Values vs)"
  shows "\<exists>tss. map_of result_types name = Some tss \<and> of_types tss vs"
proof -
  from assms(1) obtain tss where "map_of result_types name = Some tss" "\<forall>os args s. typed tss (f os args s)"
    using map_of_list_all2 [of "\<lambda>f tss. \<forall>os args s. typed tss (f os args s)", OF R_typed] unfolding posix_R by blast
  moreover from this(2) assms(2) have "typed tss (s', Values vs)" by metis
  ultimately show ?thesis by (simp add: typed_def)
qed

theorem results_have_types_witness:
  "of_types ([nil_t] # selection_t passwd_fields) [LStr ''/root'']"
proof -
  have "Pgetpasswd small_os [LNil, LStr ''dir''] fresh = (fresh, Values [LStr ''/root''])"
    by (simp add: Pgetpasswd_def Let_def isnoneornil_def arg_def small_os_def doselection_def isnone_def checkstring_def cstr_def
        Sgetpasswd_def upt_rec return_def Fgetpasswd_def root_user_def)
  then show ?thesis
    using results_have_types [of "''getpasswd''" Pgetpasswd small_os "[LNil, LStr ''dir'']" fresh fresh "[LStr ''/root'']"]
    by (simp add: posix_R R_def result_types_def del: of_types_simps)
qed

section \<open>Further facts\<close>

text \<open>A user whose name is not known is not refused: the id -1 tells \<^verbatim>\<open>chown\<close> to leave the owner as it is.\<close>

lemma unknown_user_passed:
  assumes "user_named os (kernel s) (cstr user) = None" "text_number os user = None"
  shows "Pchown os [LStr path, LStr user, LNum n] s =
    pushresult os (K_chown (cstr path) (2 ^ 32 - 1) (uid_t n)) (Some (cstr path)) s"
  using assms
  by (simp add: Pchown_def checkstring_def mygetuid_def mygetgid_def getid_def arg_def uid_t_def)

text \<open>The iterator of \<^verbatim>\<open>files\<close> gives the entries that \<^verbatim>\<open>dir\<close> puts in a table, then nil, then an error.\<close>

fun iterate :: "nat \<Rightarrow> string list option \<Rightarrow> lresult list" where
  "iterate 0 d = []"
| "iterate (Suc n) d = (case aux_files d of (d', r) \<Rightarrow> r # iterate n d')"

lemma files_iterates_dir:
  "iterate (length names + 2) (Some names) =
     map (\<lambda>n. Values [LStr n]) names @ [Values [LNil], Failure ''attempt to use closed dir'']"
  by (induction names) simp_all

lemma indexed_entries: "map_of (indexed names) (LNum (int i + 1)) = (if i < length names then Some (LStr (names ! i)) else None)"
proof -
  have "map_of (map (\<lambda>i. (LNum (int i + 1), f i)) js) (LNum (int i + 1)) = (if i \<in> set js then Some (f i) else None)" for f js
    by (induction js) auto
  from this [of "\<lambda>i. LStr (names ! i)" "[0..<length names]"] show ?thesis by (simp add: indexed_def)
qed

end
