(* ===== verification/LuaBash.thy ===== *)
theory LuaBash
  imports LPosix
begin

text \<open>
  \<^verbatim>\<open>misc/luabash/bash/luabash.c\<close>: the builtin \<^verbatim>\<open>luabash\<close> of the shell, which runs Lua code that can
  call back into the shell.

  Shell and Lua are the parameter \<open>host\<close>, over a state \<open>'b\<close> of the shell and \<open>'l\<close> of Lua.  Running Lua
  code gives a tree of what it asks of the library \<^verbatim>\<open>bash\<close> (\<open>run\<close>): it returns a value, raises an
  error, or calls a function and goes on with the reply and the Lua state it finds then, for a
  command it runs may use the builtin again.  \<open>stack\<close> are the values the builtin has left on the stack
  of Lua, \<open>commands\<close> the commands made for the shell, \<open>said\<close> the lines printed.  A command that
  could not be made (\<^verbatim>\<open>newSimpleCom\<close> gives a null pointer, which \<^verbatim>\<open>make_command\<close> follows) sets \<open>null_command\<close>.
\<close>

section \<open>Commands\<close>

datatype bash_flavor = bash_version_v2 | bash_version_v3 | bash_version_unknown

text \<open>
  The layouts of a simple command, field by field, in version 2 of the shell (flags, words, redirections, line) and
  from version 3 on (flags, line, words, redirections).
\<close>

datatype simple_com = Simple_v2 int "string list" "string list" int | Simple_v3 int int "string list" "string list"

definition newSimpleCom :: "bash_flavor \<Rightarrow> string list \<Rightarrow> simple_com option" where
  "newSimpleCom flavor ws =
     (case flavor of
        bash_version_v2 \<Rightarrow> Some (Simple_v2 0 ws [] 0)
      | bash_version_v3 \<Rightarrow> Some (Simple_v3 0 0 ws [])
      | bash_version_unknown \<Rightarrow> None)"

section \<open>Shell and Lua\<close>

datatype 'l run = Returns 'l lua | Raises 'l string | Calls string "lua list" 'l "lresult \<Rightarrow> 'l \<Rightarrow> 'l run"

record ('b, 'l) host =
  find_variable :: "'b \<Rightarrow> string \<Rightarrow> string option option"
  bind_variable :: "string \<Rightarrow> string \<Rightarrow> 'b \<Rightarrow> 'b"
  bind_function :: "string \<Rightarrow> simple_com \<Rightarrow> 'b \<Rightarrow> 'b"
  execute_command :: "simple_com \<Rightarrow> 'b \<times> 'l \<Rightarrow> ('b \<times> 'l) \<times> int"
  all_shell_variables :: "'b \<Rightarrow> (string \<times> string option) list"
  newstate :: "'l option"
  loadfile :: "string \<Rightarrow> 'l \<Rightarrow> string + 'l run"
  call_global :: "string \<Rightarrow> lua list \<Rightarrow> 'l \<Rightarrow> 'l run"
  text_of :: "lua \<Rightarrow> string option"
  type_name :: "lua \<Rightarrow> string"

record ('b, 'l) lb =
  current_flavor :: bash_flavor
  initialized :: bool
  lua_state :: "'l option"
  shell :: 'b
  stack :: "lua list"
  commands :: "simple_com list"
  null_command :: bool
  said :: "string list"

definition say :: "string \<Rightarrow> ('b, 'l) lb \<Rightarrow> ('b, 'l) lb" where
  "say t s = s\<lparr>said := said s @ [t]\<rparr>"

definition getvar :: "('b, 'l) host \<Rightarrow> string \<Rightarrow> ('b, 'l) lb \<Rightarrow> string option" where
  "getvar h name s = Option.bind (find_variable h (shell s) name) (\<lambda>v. v)"

definition make_simple :: "string list \<Rightarrow> (simple_com \<Rightarrow> ('b, 'l) lb \<Rightarrow> ('b, 'l) lb \<times> lresult) \<Rightarrow> ('b, 'l) lb \<Rightarrow> ('b, 'l) lb \<times> lresult" where
  "make_simple ws f s =
     (case newSimpleCom (current_flavor s) ws of
        None \<Rightarrow> (s\<lparr>null_command := True\<rparr>, Values [])
      | Some c \<Rightarrow> f c (s\<lparr>commands := commands s @ [c]\<rparr>))"

section \<open>The library \<^verbatim>\<open>bash\<close>\<close>

type_synonym ('b, 'l) bash_function = "('b, 'l) host \<Rightarrow> lua list \<Rightarrow> ('b, 'l) lb \<Rightarrow> ('b, 'l) lb \<times> lresult"

definition string_arg ::
  "('b, 'l) host \<Rightarrow> lua list \<Rightarrow> nat \<Rightarrow> (string \<Rightarrow> ('b, 'l) lb \<Rightarrow> ('b, 'l) lb \<times> lresult) \<Rightarrow> ('b, 'l) lb \<Rightarrow> ('b, 'l) lb \<times> lresult" where
  "string_arg h args i f s =
     (case Option.bind (arg args i) (text_of h) of None \<Rightarrow> (s, Bad_argument i) | Some t \<Rightarrow> f (cstr t) s)"

definition body_of :: "string \<Rightarrow> string list" where
  "body_of fnname = [''luabash'', ''call'', fnname, ''$@'']"

definition register_function :: "('b, 'l) bash_function" where
  "register_function h args =
     string_arg h args 1 (\<lambda>fnname. make_simple (body_of fnname) (\<lambda>c s.
       (s\<lparr>shell := bind_function h fnname c (shell s)\<rparr>, Values [])))"

definition get_variable :: "('b, 'l) bash_function" where
  "get_variable h args = string_arg h args 1 (\<lambda>vname s. (s, Values [optional (getvar h vname s)]))"

definition set_variable :: "('b, 'l) bash_function" where
  "set_variable h args =
     string_arg h args 1 (\<lambda>vname. string_arg h args 2 (\<lambda>vvalue s.
       (s\<lparr>shell := bind_variable h vname vvalue (shell s)\<rparr>, Values [])))"

fun string_args ::
  "('b, 'l) host \<Rightarrow> lua list \<Rightarrow> nat list \<Rightarrow> (string list \<Rightarrow> ('b, 'l) lb \<Rightarrow> ('b, 'l) lb \<times> lresult) \<Rightarrow> ('b, 'l) lb \<Rightarrow> ('b, 'l) lb \<times> lresult" where
  "string_args h args [] f = f []"
| "string_args h args (i # is) f = string_arg h args i (\<lambda>t. string_args h args is (\<lambda>ts. f (t # ts)))"

definition call_bashfunction :: "('b, 'l) bash_function" where
  "call_bashfunction h args =
     string_args h args [1..<length args + 1] (\<lambda>ws s.
       if ws = [] then (s, Values [LNum 127])
       else
         make_simple ws (\<lambda>c s.
           case execute_command h c (shell s, the (lua_state s)) of
             ((b, l), retval) \<Rightarrow> (s\<lparr>shell := b, lua_state := Some l\<rparr>, Values [LNum retval])) s)"

definition get_environment :: "('b, 'l) bash_function" where
  "get_environment h args s =
     (s, Values [LTable (fold (\<lambda>(key, val). settable (LStr key) (optional val)) (all_shell_variables h (shell s)) [])])"

definition bashlib :: "(string \<times> ('b, 'l) bash_function) list" where
  "bashlib =
     [(''register'', register_function), (''getVariable'', get_variable), (''setVariable'', set_variable),
      (''getEnvironment'', get_environment), (''call'', call_bashfunction)]"

text \<open>A call of a function that the library does not have is an error of Lua, seen by the code as a failure.\<close>

definition call_library :: "('b, 'l) host \<Rightarrow> string \<Rightarrow> lua list \<Rightarrow> ('b, 'l) lb \<Rightarrow> ('b, 'l) lb \<times> lresult" where
  "call_library h name args s =
     (case map_of bashlib name of None \<Rightarrow> (s, Failure name) | Some f \<Rightarrow> f h args s)"

primrec pcall :: "('b, 'l) host \<Rightarrow> 'l run \<Rightarrow> ('b, 'l) lb \<Rightarrow> ('b, 'l) lb \<times> (string + lua)" where
  "pcall h (Returns l v) s = (s\<lparr>lua_state := Some l\<rparr>, Inr v)"
| "pcall h (Raises l e) s = (s\<lparr>lua_state := Some l\<rparr>, Inl e)"
| "pcall h (Calls name args l k) s =
     (let r = call_library h name args (s\<lparr>lua_state := Some l\<rparr>)
      in pcall h (k (snd r) (the (lua_state (fst r)))) (fst r))"

section \<open>The builtin\<close>

definition EXECUTION_SUCCESS :: int where "EXECUTION_SUCCESS = 0"
definition EXECUTION_FAILURE :: int where "EXECUTION_FAILURE = 1"

definition luabash_doc :: "string list" where
  "luabash_doc =
     [''lua bash wrapper 0.0.3 (C) 2006 - 2019 Valentin Ziegler & Rene Rebe'', ''usage:'', CHR 0x09 # ''init'',
      CHR 0x09 # ''load <lua chunk>'', CHR 0x09 # ''call <lua function> [arguments]'']"

definition print_usage :: "('b, 'l) lb \<Rightarrow> ('b, 'l) lb" where
  "print_usage s = fold say luabash_doc s"

definition lua_errmsg_fail :: "string \<Rightarrow> ('b, 'l) lb \<Rightarrow> ('b, 'l) lb \<times> int" where
  "lua_errmsg_fail e s = (say (''lua bash error: '' @ e) (s\<lparr>stack := stack s @ [LStr e]\<rparr>), EXECUTION_FAILURE)"

definition flavor_of :: "string \<Rightarrow> bash_flavor \<Rightarrow> bash_flavor" where
  "flavor_of version old =
     (if version \<noteq> [] \<and> hd version = CHR ''2'' then bash_version_v2
      else if version \<noteq> [] \<and> (hd version = CHR ''3'' \<or> hd version = CHR ''4'' \<or> hd version = CHR ''5'') then bash_version_v3
      else old)"

definition init_luabash :: "('b, 'l) host \<Rightarrow> ('b, 'l) lb \<Rightarrow> ('b, 'l) lb \<times> int" where
  "init_luabash h s =
     (if initialized s then (s, EXECUTION_SUCCESS)
      else
        (case getvar h ''BASH_VERSION'' s of
           None \<Rightarrow> (s, EXECUTION_FAILURE)
         | Some version \<Rightarrow>
             (let s1 = s\<lparr>current_flavor := flavor_of version (current_flavor s)\<rparr>
              in if current_flavor s1 = bash_version_unknown
                 then (say ''lua bash error: NYI bash version'' s1, EXECUTION_FAILURE)
                 else
                   (case newstate h of
                      None \<Rightarrow> (say ''lua bash error: failed to initialize lua state'' s1, EXECUTION_FAILURE)
                    | Some l \<Rightarrow> (s1\<lparr>lua_state := Some l, stack := [], initialized := True\<rparr>, EXECUTION_SUCCESS)))))"

definition load_chunk :: "('b, 'l) host \<Rightarrow> string \<Rightarrow> ('b, 'l) lb \<Rightarrow> ('b, 'l) lb \<times> int" where
  "load_chunk h filename s =
     (case init_luabash h s of
        (s1, result) \<Rightarrow>
          if result \<noteq> EXECUTION_SUCCESS then (s1, result)
          else
            (case loadfile h filename (the (lua_state s1)) of
               Inl e \<Rightarrow> lua_errmsg_fail e s1
             | Inr chunk \<Rightarrow>
                 (case pcall h chunk s1 of
                    (s2, Inl e) \<Rightarrow> lua_errmsg_fail e s2
                  | (s2, Inr v) \<Rightarrow> (s2, EXECUTION_SUCCESS))))"

definition status_of_value :: "('b, 'l) host \<Rightarrow> lua \<Rightarrow> ('b, 'l) lb \<Rightarrow> ('b, 'l) lb \<times> int" where
  "status_of_value h v s =
     (case v of
        LNum n \<Rightarrow> (s, to_int32 n)
      | LQuot n d \<Rightarrow> (s, to_int32 (n div d))
      | LBool b \<Rightarrow> (s, if b then EXECUTION_SUCCESS else EXECUTION_FAILURE)
      | LNil \<Rightarrow> (s, EXECUTION_SUCCESS)
      | _ \<Rightarrow> (say (''lua bash: unexpected type '' @ [CHR 0x27] @ type_name h v @ [CHR 0x27] @ '' returned'') s, EXECUTION_SUCCESS))"

definition call_function :: "('b, 'l) host \<Rightarrow> string \<Rightarrow> string option list \<Rightarrow> ('b, 'l) lb \<Rightarrow> ('b, 'l) lb \<times> int" where
  "call_function h func argv s =
     (if \<not> initialized s then (say ''lua bash error: not initialized yet!'' s, EXECUTION_FAILURE)
      else
        (case pcall h (call_global h func (map LStr (List.map_filter (\<lambda>w. w) argv)) (the (lua_state s))) s of
           (s1, Inl e) \<Rightarrow> lua_errmsg_fail e s1
         | (s1, Inr v) \<Rightarrow> status_of_value h v (s1\<lparr>stack := stack s1 @ [v]\<rparr>)))"

definition usage_failure :: "('b, 'l) lb \<Rightarrow> ('b, 'l) lb \<times> int" where
  "usage_failure s = (print_usage s, EXECUTION_FAILURE)"

text \<open>A word of the list may have no text.\<close>

definition luabash_builtin :: "('b, 'l) host \<Rightarrow> string option list \<Rightarrow> ('b, 'l) lb \<Rightarrow> ('b, 'l) lb \<times> int" where
  "luabash_builtin h list s =
     (case list of
        Some com # rest \<Rightarrow>
          if com = ''init'' then init_luabash h s
          else if com = ''load'' then
            (case rest of Some filename # _ \<Rightarrow> load_chunk h filename s | _ \<Rightarrow> usage_failure s)
          else if com = ''call'' then
            (case rest of Some func # argv \<Rightarrow> call_function h func argv s | _ \<Rightarrow> usage_failure s)
          else usage_failure s
      | _ \<Rightarrow> usage_failure s)"

section \<open>The life of the builtin\<close>

primrec layout :: "simple_com \<Rightarrow> bash_flavor" where
  "layout (Simple_v2 fl ws rs n) = bash_version_v2"
| "layout (Simple_v3 fl n ws rs) = bash_version_v3"

primrec words_of :: "simple_com \<Rightarrow> string list" where
  "words_of (Simple_v2 fl ws rs n) = ws"
| "words_of (Simple_v3 fl n ws rs) = ws"

lemma newSimpleCom_Some:
  "flavor \<noteq> bash_version_unknown \<Longrightarrow> \<exists>c. newSimpleCom flavor ws = Some c \<and> layout c = flavor \<and> words_of c = ws"
  by (cases flavor) (simp_all add: newSimpleCom_def)

definition start :: "'b \<Rightarrow> ('b, 'l) lb" where
  "start b =
     \<lparr>current_flavor = bash_version_unknown, initialized = False, lua_state = None, shell = b, stack = [],
      commands = [], null_command = False, said = []\<rparr>"

text \<open>The shell uses the builtin and does other things in between.\<close>

inductive reachable :: "('b, 'l) host \<Rightarrow> ('b, 'l) lb \<Rightarrow> bool" for h where
  loaded: "reachable h (start b)"
| builtin: "reachable h s \<Longrightarrow> luabash_builtin h list s = (s', result) \<Longrightarrow> reachable h s'"
| meanwhile: "reachable h s \<Longrightarrow> reachable h (s\<lparr>shell := b\<rparr>)"

definition commands_ok :: "('b, 'l) lb \<Rightarrow> bool" where
  "commands_ok s \<longleftrightarrow>
     \<not> null_command s \<and> (\<forall>c \<in> set (commands s). layout c = current_flavor s) \<and>
     (if initialized s then current_flavor s \<noteq> bash_version_unknown else commands s = [])"

text \<open>What Lua code keeps: being initialised, the flavor and the values the builtin left on the stack.\<close>

definition running :: "('b, 'l) lb \<Rightarrow> ('b, 'l) lb \<Rightarrow> bool" where
  "running s s' \<longleftrightarrow>
     commands_ok s' \<and> initialized s' \<and> current_flavor s' = current_flavor s \<and> stack s' = stack s \<and> said s' = said s"

locale library_contract =
  fixes Q :: "('b, 'l) lb \<Rightarrow> ('b, 'l) lb \<times> lresult \<Rightarrow> bool"
  assumes refused: "Q s (s, Bad_argument i)"
begin

lemma string_arg: "(\<And>t. Q s (f t s)) \<Longrightarrow> Q s (string_arg h args i f s)"
  by (simp add: string_arg_def refused split: option.split)

lemma string_args: "(\<And>ts. Q s (f ts s)) \<Longrightarrow> Q s (string_args h args is f s)"
  by (induction "is" arbitrary: f) (simp_all add: string_arg)

end

definition keeps_running :: "('b, 'l) lb \<Rightarrow> ('b, 'l) lb \<times> lresult \<Rightarrow> bool" where
  "keeps_running s m \<longleftrightarrow> (commands_ok s \<longrightarrow> initialized s \<longrightarrow> running s (fst m))"

interpretation keeps: library_contract keeps_running
  by unfold_locales (simp add: keeps_running_def running_def)

lemma keeps_other:
  "keeps_running s (s, r)" "keeps_running s (s\<lparr>shell := b\<rparr>, r)" "keeps_running s (s\<lparr>lua_state := l\<rparr>, r)"
  by (auto simp: keeps_running_def running_def commands_ok_def)

lemma keeps_make_simple:
  assumes "\<And>c. \<exists>b l r. f c (s\<lparr>commands := commands s @ [c]\<rparr>) = (s\<lparr>commands := commands s @ [c], shell := b, lua_state := l\<rparr>, r)"
  shows "keeps_running s (make_simple ws f s)"
  unfolding keeps_running_def
proof (intro impI)
  assume ok: "commands_ok s" "initialized s"
  then obtain c where c: "newSimpleCom (current_flavor s) ws = Some c" "layout c = current_flavor s"
    using newSimpleCom_Some [of "current_flavor s" ws] by (auto simp: commands_ok_def)
  obtain b l r where "f c (s\<lparr>commands := commands s @ [c]\<rparr>) = (s\<lparr>commands := commands s @ [c], shell := b, lua_state := l\<rparr>, r)"
    using assms by blast
  with ok c show "running s (fst (make_simple ws f s))"
    by (auto simp: make_simple_def running_def commands_ok_def)
qed

lemma keeps_register: "keeps_running s (register_function h args s)"
  unfolding register_function_def
proof (intro keeps.string_arg keeps_make_simple)
  show "\<exists>b l r. (s\<lparr>commands := commands s @ [c], shell := bind_function h t c (shell (s\<lparr>commands := commands s @ [c]\<rparr>))\<rparr>, Values []) =
      (s\<lparr>commands := commands s @ [c], shell := b, lua_state := l\<rparr>, r)" for t c
    by (intro exI [of _ "bind_function h t c (shell s)"] exI [of _ "lua_state s"] exI [of _ "Values []"])
      (cases s, simp)
qed

lemma keeps_call: "keeps_running s (call_bashfunction h args s)"
  unfolding call_bashfunction_def
proof (rule keeps.string_args)
  fix ws
  have "\<exists>b l r. (case execute_command h c (shell (s\<lparr>commands := commands s @ [c]\<rparr>), the (lua_state (s\<lparr>commands := commands s @ [c]\<rparr>))) of
        ((b, l), retval) \<Rightarrow> (s\<lparr>commands := commands s @ [c], shell := b, lua_state := Some l\<rparr>, Values [LNum retval])) =
      (s\<lparr>commands := commands s @ [c], shell := b, lua_state := l\<rparr>, r)" for c
    by (auto split: prod.split)
  then show "keeps_running s (if ws = [] then (s, Values [LNum 127])
      else make_simple ws (\<lambda>c s. case execute_command h c (shell s, the (lua_state s)) of
        ((b, l), retval) \<Rightarrow> (s\<lparr>shell := b, lua_state := Some l\<rparr>, Values [LNum retval])) s)"
    by (auto simp: keeps_other intro!: keeps_make_simple)
qed

lemma keeps_library: "keeps_running s (call_library h name args s)"
proof -
  have "keeps_running s (f h args s)" if "(name, f) \<in> set bashlib" for f
    using that by (auto simp: bashlib_def keeps_register keeps_call keeps_other get_variable_def set_variable_def
        get_environment_def intro!: keeps.string_arg)
  then show ?thesis
    by (auto simp: call_library_def keeps_other dest: map_of_SomeD split: option.split)
qed

lemma running_trans: "running s s1 \<Longrightarrow> running s1 s2 \<Longrightarrow> running s s2"
  by (simp add: running_def)

lemma running_lua_state: "running s s1 \<Longrightarrow> running s (s1\<lparr>lua_state := l\<rparr>)"
  by (auto simp: running_def commands_ok_def)

lemma running_refl: "commands_ok s \<Longrightarrow> initialized s \<Longrightarrow> running s s"
  by (simp add: running_def)

lemma pcall_running: "commands_ok s \<Longrightarrow> initialized s \<Longrightarrow> running s (fst (pcall h r s))"
proof (induction r arbitrary: s)
  case (Calls name args l k)
  let ?s = "s\<lparr>lua_state := Some l\<rparr>"
  let ?r = "call_library h name args ?s"
  have s: "running s ?s" using Calls.prems by (intro running_lua_state running_refl)
  then have "running ?s (fst ?r)"
    using keeps_library [of ?s h name args] by (simp add: keeps_running_def running_def)
  with s have r: "running s (fst ?r)" by (rule running_trans)
  then have "commands_ok (fst ?r)" "initialized (fst ?r)" by (simp_all add: running_def)
  then have "running (fst ?r) (fst (pcall h (k (snd ?r) (the (lua_state (fst ?r)))) (fst ?r)))"
    using Calls.IH [of "k (snd ?r)" "k (snd ?r) (the (lua_state (fst ?r)))" "fst ?r"] by blast
  with r have "running s (fst (pcall h (k (snd ?r) (the (lua_state (fst ?r)))) (fst ?r)))" by (rule running_trans)
  then show ?case by (simp add: Let_def)
qed (simp_all add: running_lua_state running_refl)

lemma say_simps [simp]:
  "initialized (say t s) = initialized s" "current_flavor (say t s) = current_flavor s" "stack (say t s) = stack s"
  "commands_ok (say t s) = commands_ok s" "shell (say t s) = shell s" "lua_state (say t s) = lua_state s"
  "commands (say t s) = commands s" "null_command (say t s) = null_command s"
  by (simp_all add: say_def commands_ok_def)

lemma print_usage_simps [simp]:
  "initialized (print_usage s) = initialized s" "current_flavor (print_usage s) = current_flavor s"
  "stack (print_usage s) = stack s" "commands_ok (print_usage s) = commands_ok s"
proof -
  have "initialized (fold say ts s) = initialized s \<and> current_flavor (fold say ts s) = current_flavor s \<and>
      stack (fold say ts s) = stack s \<and> commands_ok (fold say ts s) = commands_ok s" for ts
    by (induction ts arbitrary: s) simp_all
  then show "initialized (print_usage s) = initialized s" "current_flavor (print_usage s) = current_flavor s"
    "stack (print_usage s) = stack s" "commands_ok (print_usage s) = commands_ok s"
    by (simp_all add: print_usage_def)
qed

lemma stack_frame [simp]:
  "commands_ok (s\<lparr>stack := x\<rparr>) = commands_ok s" "commands_ok (s\<lparr>shell := b\<rparr>) = commands_ok s"
  by (simp_all add: commands_ok_def)

lemma flavor_of_known: "flavor_of v old = old \<or> flavor_of v old \<noteq> bash_version_unknown"
  by (simp add: flavor_of_def)

lemma init_luabash:
  assumes "init_luabash h s = (s', result)" "commands_ok s"
  shows "commands_ok s'" "result = EXECUTION_SUCCESS \<longleftrightarrow> initialized s'" "initialized s \<Longrightarrow> s' = s"
  using assms
  by (auto simp: init_luabash_def commands_ok_def EXECUTION_SUCCESS_def EXECUTION_FAILURE_def Let_def
      split: if_splits option.splits)

lemma status_of_value_frame:
  assumes "status_of_value h v s = (s', result)"
  shows "initialized s' = initialized s" "current_flavor s' = current_flavor s" "stack s' = stack s"
    "commands_ok s' = commands_ok s"
  using assms by (auto simp: status_of_value_def split: lua.splits)

lemma call_function_running:
  assumes "call_function h func argv s = (s', result)" "commands_ok s" "initialized s"
  shows "commands_ok s'" "initialized s'" "current_flavor s' = current_flavor s"
    "\<exists>v. stack s' = stack s @ [v]"
proof -
  let ?p = "pcall h (call_global h func (map LStr (List.map_filter (\<lambda>w. w) argv)) (the (lua_state s))) s"
  have r: "running s (fst ?p)" using assms(2,3) by (rule pcall_running)
  obtain s1 v where p: "?p = (s1, v)" by (cases ?p)
  have "commands_ok s' \<and> initialized s' \<and> current_flavor s' = current_flavor s \<and> (\<exists>v. stack s' = stack s @ [v])"
  proof (cases v)
    case (Inl e)
    with assms(1,3) p r show ?thesis
      by (auto simp: call_function_def lua_errmsg_fail_def running_def)
  next
    case (Inr x)
    with assms(1,3) p have "status_of_value h x (s1\<lparr>stack := stack s1 @ [x]\<rparr>) = (s', result)"
      by (simp add: call_function_def)
    from status_of_value_frame [OF this] p r show ?thesis by (auto simp: running_def)
  qed
  then show "commands_ok s'" "initialized s'" "current_flavor s' = current_flavor s" "\<exists>v. stack s' = stack s @ [v]"
    by auto
qed

lemma load_chunk_ok:
  assumes "load_chunk h filename s = (s', result)" "commands_ok s"
  shows "commands_ok s'"
proof -
  obtain s1 r1 where i: "init_luabash h s = (s1, r1)" by (cases "init_luabash h s")
  note ok = init_luabash(1,2) [OF i assms(2)]
  show ?thesis
  proof (cases "r1 = EXECUTION_SUCCESS")
    case False
    with assms(1) i ok show ?thesis by (simp add: load_chunk_def)
  next
    case True
    with ok have "initialized s1" by simp
    with ok have "running s1 (fst (pcall h chunk s1))" for chunk by (intro pcall_running)
    with assms(1) i ok True show ?thesis
      by (auto simp: load_chunk_def lua_errmsg_fail_def running_def split: sum.splits prod.splits)
        (metis fst_conv)+
  qed
qed

lemma call_function_ok:
  assumes "call_function h func argv s = (s', result)" "commands_ok s"
  shows "commands_ok s'"
  using assms call_function_running(1) [OF assms] by (cases "initialized s") (auto simp: call_function_def)

lemma builtin_ok:
  assumes "luabash_builtin h list s = (s', result)" "commands_ok s"
  shows "commands_ok s'"
  using assms init_luabash(1) [of h s] load_chunk_ok [of h _ s] call_function_ok [of h _ _ s]
  by (auto simp: luabash_builtin_def usage_failure_def split: list.splits option.splits if_splits)

lemma reachable_ok: "reachable h s \<Longrightarrow> commands_ok s"
proof (induction rule: reachable.induct)
  case (loaded b)
  then show ?case by (simp add: start_def commands_ok_def)
qed (simp_all add: builtin_ok)

text \<open>
  C22: however the shell uses the builtin, every command it makes for the shell has the layout of the
  version it found when it was initialised, and it never makes one without knowing the version.
\<close>

theorem luabash_layout:
  assumes "reachable h s"
  shows "\<not> null_command s \<and> (\<forall>c \<in> set (commands s). layout c = current_flavor s)"
  using reachable_ok [OF assms] by (simp add: commands_ok_def)

text \<open>
  Every \<^verbatim>\<open>luabash call\<close> leaves one value on the stack of Lua, which is never removed: after any
  number of calls the stack is as much longer.
\<close>

theorem luabash_stack_grows:
  assumes "reachable h s" "initialized s"
  shows "length (stack (fold (\<lambda>(func, argv) s. fst (luabash_builtin h (Some ''call'' # Some func # argv) s)) calls s)) =
    length (stack s) + length calls"
proof -
  have "commands_ok s" using assms(1) by (rule reachable_ok)
  with assms(2) show ?thesis
  proof (induction calls arbitrary: s)
    case (Cons c calls)
    obtain func argv where c: "c = (func, argv)" by (cases c)
    obtain s' result where r: "call_function h func argv s = (s', result)" by (cases "call_function h func argv s")
    have "length (stack s') = Suc (length (stack s))"
      using call_function_running(4) [OF r Cons.prems(2,1)] by auto
    with Cons.IH [of s'] call_function_running(1,2) [OF r Cons.prems(2,1)] r c show ?case
      by (simp add: luabash_builtin_def)
  qed simp
qed

text \<open>
  What the shell makes of the body.  The word \<^verbatim>\<open>$@\<close> is not quoted: each argument is split at blanks, tabs and newlines (the
  shell's separators where nothing else is set), an empty one disappears, and the parts are taken for file name patterns;
  \<open>glob\<close> is what the shell puts in the place of a part.  Another word stands for itself if it has no character that
  means something to the shell; else the body has no result here.
\<close>

definition fields :: "string \<Rightarrow> string list" where
  "fields a = tokens CHR '' '' (map (\<lambda>c. if c = CHR 0x09 \<or> c = CHR ''\<newline>'' then CHR '' '' else c) a)"

definition unquoted :: "(string \<Rightarrow> string list) \<Rightarrow> string list \<Rightarrow> string list" where
  "unquoted glob args = concat (map glob (concat (map fields args)))"



text \<open>The shell leaves a word alone that is no pattern.\<close>

definition pattern_free :: "string \<Rightarrow> bool" where
  "pattern_free w \<longleftrightarrow> set w \<inter> {CHR ''*'', CHR ''?'', CHR ''['', CHR 0x5C} = {}"

definition globs :: "(string \<Rightarrow> string list) \<Rightarrow> bool" where
  "globs glob \<longleftrightarrow> (\<forall>w. pattern_free w \<longrightarrow> glob w = [w])"




text \<open>What is lost: the blank inside an argument, and an empty argument.\<close>

lemma unquoted_loses: "globs glob \<Longrightarrow> unquoted glob [''a b'', [], ''c''] = [''a'', ''b'', ''c'']"
  by (simp add: unquoted_def fields_def tokens_def globs_def pattern_free_def)


section \<open>A small shell\<close>

text \<open>Its one Lua function registers the name it is given and returns 3.\<close>

definition small_host :: "(unit, unit) host" where
  "small_host =
     \<lparr>find_variable = (\<lambda>b n. if n = ''BASH_VERSION'' then Some (Some ''5.2'') else None),
      bind_variable = (\<lambda>n v b. b), bind_function = (\<lambda>n c b. b), execute_command = (\<lambda>c w. (w, 0)),
      all_shell_variables = (\<lambda>b. []), newstate = Some (), loadfile = (\<lambda>f l. Inr (Returns l LNil)),
      call_global = (\<lambda>f args l. Calls ''register'' args l (\<lambda>r l. Returns l (LNum 3))),
      text_of = (\<lambda>v. case v of LStr t \<Rightarrow> Some t | _ \<Rightarrow> None), type_name = (\<lambda>v. ''table'')\<rparr>"

definition ready :: "(unit, unit) lb" where
  "ready = (start ())\<lparr>current_flavor := bash_version_v3, initialized := True, lua_state := Some ()\<rparr>"

lemma ready_reachable: "reachable small_host ready"
proof -
  have "luabash_builtin small_host [Some ''init''] (start ()) = (ready, 0)"
    by (simp add: luabash_builtin_def init_luabash_def getvar_def small_host_def start_def flavor_of_def ready_def EXECUTION_SUCCESS_def)
  with reachable.loaded show ?thesis by (rule reachable.builtin)
qed

lemma ready_call:
  "luabash_builtin small_host [Some ''call'', Some ''f'', Some ''hello''] ready =
     (ready\<lparr>commands := [Simple_v3 0 0 [''luabash'', ''call'', ''hello'', ''$@''] []], stack := [LNum 3]\<rparr>, 3)"
  by (simp add: luabash_builtin_def call_function_def small_host_def ready_def start_def call_library_def bashlib_def
      register_function_def string_arg_def arg_def cstr_def make_simple_def newSimpleCom_def body_of_def status_of_value_def
      List.map_filter_def to_int32_def)

theorem luabash_layout_witness:
  "list_all (\<lambda>c. layout c = bash_version_v3)
     (commands (fst (luabash_builtin small_host [Some ''call'', Some ''f'', Some ''hello''] ready)))"
  using luabash_layout [OF reachable.builtin [OF ready_reachable ready_call]]
  unfolding ready_call by (simp add: ready_def start_def)

theorem luabash_stack_grows_witness:
  "length (stack (fst (luabash_builtin small_host [Some ''call'', Some ''f'', Some ''hello''] ready))) = 1"
  using luabash_stack_grows [OF ready_reachable, of "[(''f'', [Some ''hello''])]"]
  by (simp add: ready_def start_def)


section \<open>Further facts\<close>

text \<open>Being initialised is kept, and further \<^verbatim>\<open>init\<close>s do nothing.\<close>

lemma init_once:
  assumes "commands_ok s" "init_luabash h s = (s1, EXECUTION_SUCCESS)"
  shows "init_luabash h s1 = (s1, EXECUTION_SUCCESS)"
  using init_luabash(2) [OF assms(2,1)] by (simp add: init_luabash_def)

text \<open>A version of the shell that starts with another digit is refused, 10 too, for its first digit is 1.\<close>

lemma version_ten_refused:
  assumes "\<not> initialized s" "current_flavor s = bash_version_unknown" "getvar h ''BASH_VERSION'' s = Some ''10.0''"
  shows "snd (init_luabash h s) = EXECUTION_FAILURE"
  using assms by (simp add: init_luabash_def flavor_of_def)

lemma call_needs_init:
  "\<not> initialized s \<Longrightarrow> luabash_builtin h (Some ''call'' # Some func # argv) s =
     (say ''lua bash error: not initialized yet!'' s, EXECUTION_FAILURE)"
  by (simp add: luabash_builtin_def call_function_def)

lemma no_command_127: "call_bashfunction h [] s = (s, Values [LNum 127])"
  by (simp add: call_bashfunction_def)

end
