(* ===== verification/LZlib.thy ===== *)
theory LZlib
  imports LPosix
begin

text \<open>
  \<^verbatim>\<open>misc/lua/lzlib/lzlib.c\<close>: the Lua library that reads compressed files line by line.

  The compression library is the parameter \<open>zlib\<close> over a type \<open>'z\<close> of streams; a call gives the new
  stream.  \<open>userdata\<close> are the handles given to Lua, each a pointer to a stream or null, \<open>streams\<close> the streams opened, \<open>None\<close>
  after they are closed.  The static buffer is \<open>content_buffer\<close>, whose length is its capacity; new memory holds \<open>junk\<close>.
  A read of a stream that is closed is an \<open>Overread\<close>; a loop that does not end is \<open>None\<close>.
\<close>

record 'z zlib =
  gzopen :: "string \<Rightarrow> string \<Rightarrow> int + 'z"
  gzclose :: "'z \<Rightarrow> int"
  gzgets :: "'z \<Rightarrow> nat \<Rightarrow> 'z \<times> string option"
  gzerror :: "'z \<Rightarrow> string \<times> int"
  gzeof :: "'z \<Rightarrow> int"
  zError :: "int \<Rightarrow> string"
  error_text :: "int \<Rightarrow> string"
  to_text :: "lua \<Rightarrow> string option"
  junk :: "nat \<Rightarrow> char"

record 'z lz =
  gz_errno :: int
  content_buffer :: string
  content_length :: nat
  userdata :: "nat option list"
  streams :: "'z option list"

definition Z_OK :: int where "Z_OK = 0"
definition Z_ERRNO :: int where "Z_ERRNO = -1"
definition Z_STREAM_END :: int where "Z_STREAM_END = 1"

section \<open>Results and handles\<close>

definition gz_pushresult :: "'z zlib \<Rightarrow> 'z option \<Rightarrow> string option \<Rightarrow> 'z lz \<Rightarrow> lresult" where
  "gz_pushresult zl zf filename s =
     (let (message, result) = (case zf of None \<Rightarrow> ([], Z_ERRNO) | Some z \<Rightarrow> gzerror zl z)
      in if result = Z_OK then Values [LBool True]
         else
           (let m = (if result = Z_ERRNO then error_text zl (gz_errno s) else message)
            in Values [LNil, LStr (case filename of Some f \<Rightarrow> f @ '': '' @ m | None \<Rightarrow> m), LNum result, LNum (gz_errno s)]))"

text \<open>The handle and the stream of the first argument, which must be a handle that is open.\<close>

definition tozfile :: "lua list \<Rightarrow> (nat \<Rightarrow> nat \<Rightarrow> 'z lz \<Rightarrow> 'z lz \<times> lresult) \<Rightarrow> 'z lz \<Rightarrow> 'z lz \<times> lresult" where
  "tozfile args f s =
     (case arg args 1 of
        Some (LHandle u) \<Rightarrow>
          (case userdata s ! u of
             None \<Rightarrow> (s, Failure ''attempt to use a closed gz file'')
           | Some p \<Rightarrow> f u p s)
      | _ \<Rightarrow> (s, Bad_argument 1))"

section \<open>The buffer\<close>

definition reset_buffer :: "'z lz \<Rightarrow> 'z lz" where
  "reset_buffer s = s\<lparr>content_length := 0\<rparr>"

definition extend_buffer_by_size :: "'z zlib \<Rightarrow> nat \<Rightarrow> 'z lz \<Rightarrow> 'z lz" where
  "extend_buffer_by_size zl min_size s =
     (if min_size > length (content_buffer s)
      then s\<lparr>content_buffer := content_buffer s @ map (junk zl) [length (content_buffer s)..<min_size]\<rparr>
      else s)"

definition extend_buffer :: "'z zlib \<Rightarrow> 'z lz \<Rightarrow> 'z lz" where
  "extend_buffer zl s =
     extend_buffer_by_size zl (if length (content_buffer s) < 256 then 256 else 2 * length (content_buffer s)) s"

definition add_to_buffer :: "'z zlib \<Rightarrow> char \<Rightarrow> 'z lz \<Rightarrow> 'z lz" where
  "add_to_buffer zl c s =
     (let s1 = (if length (content_buffer s) = content_length s then extend_buffer zl s else s)
      in s1\<lparr>content_buffer := (content_buffer s1)[content_length s1 := c], content_length := content_length s1 + 1\<rparr>)"

definition finish_buffer :: "'z zlib \<Rightarrow> 'z lz \<Rightarrow> 'z lz \<times> string" where
  "finish_buffer zl s = (let s1 = add_to_buffer zl CHR 0x00 s in (s1, cstr (content_buffer s1)))"

definition buffer_fill :: "'z lz \<Rightarrow> nat" where
  "buffer_fill s = content_length s"

definition buffer_free :: "'z lz \<Rightarrow> nat" where
  "buffer_free s = length (content_buffer s) - content_length s"

section \<open>The functions\<close>

definition gz_open :: "'z zlib \<Rightarrow> lua list \<Rightarrow> 'z lz \<Rightarrow> 'z lz \<times> lresult" where
  "gz_open zl args s =
     (case Option.bind (arg args 1) (to_text zl) of
        None \<Rightarrow> (s, Bad_argument 1)
      | Some filename \<Rightarrow>
          (case (if isnoneornil args 2 then Some ''r'' else Option.bind (arg args 2) (to_text zl)) of
             None \<Rightarrow> (s, Bad_argument 2)
           | Some how \<Rightarrow>
               (case gzopen zl (cstr filename) (cstr how) of
                  Inl e \<Rightarrow>
                    (let s1 = s\<lparr>userdata := userdata s @ [None], gz_errno := e\<rparr>
                     in (s1, gz_pushresult zl None (Some (cstr filename)) s1))
                | Inr z \<Rightarrow>
                    (s\<lparr>userdata := userdata s @ [Some (length (streams s))], streams := streams s @ [Some z]\<rparr>,
                     Values [LHandle (length (userdata s))]))))"

definition gz_close :: "'z zlib \<Rightarrow> lua list \<Rightarrow> 'z lz \<Rightarrow> 'z lz \<times> lresult" where
  "gz_close zl args =
     tozfile args (\<lambda>u p s.
       let result = gzclose zl (the (streams s ! p));
           s1 = s\<lparr>userdata := (userdata s)[u := None], streams := (streams s)[p := None]\<rparr>
       in if result = Z_OK then (s1, Values [LBool True])
          else (s1, Values [LNil, LStr (if result = Z_ERRNO then error_text zl (gz_errno s) else zError zl result),
                  LNum result, LNum (gz_errno s)]))"

text \<open>\<^verbatim>\<open>gzgets\<close> into the buffer behind what it holds; what counts as read ends at the first NUL.\<close>

definition gets_at :: "string \<Rightarrow> nat \<Rightarrow> string \<Rightarrow> string" where
  "gets_at t k buf = take k buf @ t @ CHR 0x00 # drop (k + length t + 1) buf"

definition newline :: char where "newline = CHR ''\<newline>''"

partial_function (option) read_line :: "'z zlib \<Rightarrow> nat \<Rightarrow> char \<Rightarrow> 'z lz \<Rightarrow> ('z lz \<times> char) option" where
  "read_line zl p ch s =
     (case gzgets zl (the (streams s ! p)) (buffer_free s) of
        (z, None) \<Rightarrow> Some (s\<lparr>streams := (streams s)[p := Some z]\<rparr>, ch)
      | (z, Some t) \<Rightarrow>
          (let buf = gets_at t (buffer_fill s) (content_buffer s);
               l = length (cstr buf);
               s1 = s\<lparr>streams := (streams s)[p := Some z], content_buffer := buf, content_length := l\<rparr>
           in if l = 0 then read_line zl p ch s1
              else if buf ! (l - 1) \<noteq> newline then read_line zl p (buf ! (l - 1)) (extend_buffer zl s1)
              else Some (s1\<lparr>content_buffer := buf[l - 1 := CHR 0x00]\<rparr>, newline)))"

text \<open>
  The iterator.  It always announces one value when it has read something, but pushes a value only at the end of
  a line: otherwise Lua takes what is on top of the stack, the last argument (or the iterator itself).
\<close>

definition gz_lines_iterator :: "'z zlib \<Rightarrow> nat \<Rightarrow> lua list \<Rightarrow> 'z lz \<Rightarrow> ('z lz \<times> lresult) option" where
  "gz_lines_iterator zl p args s =
     (if streams s ! p = None then Some (s, Overread)
      else
        (case read_line zl p CHR 0x00 (if length (content_buffer s) = 0 then extend_buffer zl s else reset_buffer s) of
           None \<Rightarrow> None
         | Some (s1, ch) \<Rightarrow>
             if ch = newline \<or> buffer_fill s1 > 0 then
               (if ch = newline then (case finish_buffer zl s1 of (s2, t) \<Rightarrow> Some (s2, Values [LStr t]))
                else Some (s1, Values [if args = [] then LLines p else last args]))
             else Some (s1, gz_pushresult zl (streams s1 ! p) None s1)))"

definition gz_lines :: "'z zlib \<Rightarrow> lua list \<Rightarrow> 'z lz \<Rightarrow> 'z lz \<times> lresult" where
  "gz_lines zl args = tozfile args (\<lambda>u p s. (s, Values [LLines p]))"

definition gz_status :: "'z zlib \<Rightarrow> lua list \<Rightarrow> 'z lz \<Rightarrow> 'z lz \<times> lresult" where
  "gz_status zl args = tozfile args (\<lambda>u p s. (s, gz_pushresult zl (streams s ! p) None s))"

definition gz_eof :: "'z zlib \<Rightarrow> lua list \<Rightarrow> 'z lz \<Rightarrow> 'z lz \<times> lresult" where
  "gz_eof zl args =
     tozfile args (\<lambda>u p s.
       let z = the (streams s ! p);
           eof = gzeof zl z
       in if eof = 1
          then (case gzerror zl z of (reason, c) \<Rightarrow> (s, Values [LBool (eof \<noteq> 0), LBool (c = Z_STREAM_END), LStr reason]))
          else (s, Values []))"

text \<open>The functions of the library and the methods of a handle; \<^verbatim>\<open>__gc\<close> is called when a handle is collected.\<close>

definition gz_library :: "(string \<times> ('z zlib \<Rightarrow> lua list \<Rightarrow> 'z lz \<Rightarrow> 'z lz \<times> lresult)) list" where
  "gz_library = [(''open'', gz_open), (''close'', gz_close), (''lines'', gz_lines), (''status'', gz_status), (''eof'', gz_eof)]"

definition gz_methods :: "(string \<times> ('z zlib \<Rightarrow> lua list \<Rightarrow> 'z lz \<Rightarrow> 'z lz \<times> lresult)) list" where
  "gz_methods = [(''close'', gz_close), (''lines'', gz_lines), (''status'', gz_status), (''eof'', gz_eof), (''__gc'', gz_close)]"

section \<open>Reading a line\<close>

text \<open>
  What the compression library promises: a stream has a text, of which \<^verbatim>\<open>gzgets\<close> takes what \<^verbatim>\<open>fgets\<close> would
  take of a file, and gives null when there is none left.
\<close>

definition delivers :: "'z zlib \<Rightarrow> ('z \<Rightarrow> string) \<Rightarrow> bool" where
  "delivers zl text_of \<longleftrightarrow>
     (\<forall>z n. 1 < n \<longrightarrow>
        snd (gzgets zl z n) = (if text_of z = [] then None else Some (fst (fgets n (text_of z)))) \<and>
        text_of (fst (gzgets zl z n)) = snd (fgets n (text_of z)))"

lemma fgets_shape: "fgets n s = (l, r) \<Longrightarrow> newline \<notin> set (butlast l)"
  by (induction n s arbitrary: l r rule: fgets.induct)
    (auto simp: newline_def Let_def split: if_splits prod.splits)

definition room :: "'z lz \<Rightarrow> bool" where
  "room s \<longleftrightarrow> content_length s + 2 \<le> length (content_buffer s)"

definition held :: "'z lz \<Rightarrow> string" where
  "held s = take (content_length s) (content_buffer s)"

definition plain :: "string \<Rightarrow> bool" where
  "plain t \<longleftrightarrow> CHR 0x00 \<notin> set t \<and> newline \<notin> set t"

lemma cstr_nul: "CHR 0x00 \<notin> set t \<Longrightarrow> cstr (t @ CHR 0x00 # r) = t"
  unfolding cstr_def by (induction t) auto

lemma extend_buffer_facts:
  "streams (extend_buffer zl s) = streams s" "content_length (extend_buffer zl s) = content_length s"
  "userdata (extend_buffer zl s) = userdata s" "gz_errno (extend_buffer zl s) = gz_errno s"
  "\<exists>more. content_buffer (extend_buffer zl s) = content_buffer s @ more \<and> more \<noteq> []"
  by (auto simp: extend_buffer_def extend_buffer_by_size_def)

text \<open>One turn of the loop.\<close>

lemma read_line_step:
  assumes zl: "delivers zl text_of" and r: "room s" "plain (held s)" and p: "p < length (streams s)" "streams s ! p = Some z"
    and t: "text_of z \<noteq> []" "CHR 0x00 \<notin> set (text_of z)"
  shows "\<exists>z' l rest. text_of z = l @ rest \<and> l \<noteq> [] \<and> text_of z' = rest \<and> newline \<notin> set (butlast l) \<and>
    (\<exists>s1 j. streams s1 = (streams s)[p := Some z'] \<and> userdata s1 = userdata s \<and> gz_errno s1 = gz_errno s \<and>
       content_length s1 = length (held s @ l) \<and> content_buffer s1 = held s @ l @ CHR 0x00 # j \<and>
       length (content_buffer s1) = length (content_buffer s) \<and>
       read_line zl p ch s =
         (if last l \<noteq> newline then read_line zl p (last l) (extend_buffer zl s1)
          else Some (s1\<lparr>content_buffer := held s @ butlast l @ CHR 0x00 # CHR 0x00 # j\<rparr>, newline)))"
proof -
  let ?k = "content_length s" and ?b = "content_buffer s"
  have n: "1 < buffer_free s" using r(1) by (simp add: room_def buffer_free_def)
  obtain l rest where f: "fgets (buffer_free s) (text_of z) = (l, rest)" by (cases "fgets (buffer_free s) (text_of z)")
  obtain z' where g: "gzgets zl z (buffer_free s) = (z', Some l)" "text_of z' = rest"
    using zl n t(1) f unfolding delivers_def by (metis fst_conv snd_conv prod.collapse)
  have app: "l @ rest = text_of z" using fgets_append [OF f] .
  have ne: "l \<noteq> []" using fgets_nonempty [OF n t(1)] f by simp
  have nn: "CHR 0x00 \<notin> set l" using app t(2) by (metis Un_iff set_append)
  have lenk: "length (held s) = ?k" using r(1) by (simp add: held_def room_def)
  define j where "j = drop (?k + length l + 1) ?b"
  define s1 where "s1 = s\<lparr>streams := (streams s)[p := Some z'], content_buffer := held s @ l @ CHR 0x00 # j, content_length := length (held s @ l)\<rparr>"
  have buf: "gets_at l ?k ?b = held s @ l @ CHR 0x00 # j"
    by (simp add: gets_at_def held_def j_def)
  have c: "cstr (held s @ l @ CHR 0x00 # j) = held s @ l"
    using cstr_nul [of "held s @ l" j] nn r(2) by (simp add: plain_def)
  have at: "(held s @ l @ CHR 0x00 # j) ! (length (held s @ l) - 1) = last l"
    using ne by (cases l) (auto simp: nth_append last_conv_nth)
  have upd: "(held s @ l @ CHR 0x00 # j)[length (held s @ l) - 1 := CHR 0x00] = held s @ butlast l @ CHR 0x00 # CHR 0x00 # j"
  proof -
    have "l = butlast l @ [last l]" using ne by simp
    then have "(held s @ l @ CHR 0x00 # j)[length (held s @ l) - 1 := CHR 0x00] =
        (held s @ (butlast l @ [last l]) @ CHR 0x00 # j)[length (held s @ butlast l) := CHR 0x00]"
      by (metis append_butlast_last_id butlast_append length_butlast ne)
    then show ?thesis by (simp add: list_update_append)
  qed
  have e: "read_line zl p ch s =
      (if last l \<noteq> newline then read_line zl p (last l) (extend_buffer zl s1)
       else Some (s1\<lparr>content_buffer := held s @ butlast l @ CHR 0x00 # CHR 0x00 # j\<rparr>, newline))"
    using p g(1) ne at upd
    by (subst read_line.simps) (simp add: buffer_fill_def buf c [simplified] Let_def s1_def del: length_append)
  have s1: "streams s1 = (streams s)[p := Some z']" "userdata s1 = userdata s" "gz_errno s1 = gz_errno s"
    "content_length s1 = length (held s @ l)" "content_buffer s1 = held s @ l @ CHR 0x00 # j"
    by (simp_all add: s1_def)
  have len: "length (content_buffer s1) = length ?b"
    using fgets_length [OF f] n r(1) by (simp add: s1_def j_def lenk buffer_free_def room_def) arith
  show ?thesis
    using len app ne g(2) fgets_shape [OF f] s1 e by metis
qed

definition before_newline :: "string \<Rightarrow> string" where
  "before_newline t = takeWhile (\<lambda>c. c \<noteq> newline) t"

definition behind_newline :: "string \<Rightarrow> string" where
  "behind_newline t = tl (dropWhile (\<lambda>c. c \<noteq> newline) t)"

lemma newline_first [simp]:
  "newline \<notin> set a \<Longrightarrow> before_newline (a @ newline # r) = a" "newline \<notin> set a \<Longrightarrow> behind_newline (a @ newline # r) = r"
  by (induction a) (auto simp: before_newline_def behind_newline_def)

lemma newline_later [simp]:
  "newline \<notin> set a \<Longrightarrow> before_newline (a @ r) = a @ before_newline r"
  "newline \<notin> set a \<Longrightarrow> behind_newline (a @ r) = behind_newline r"
  by (induction a) (auto simp: before_newline_def behind_newline_def)

lemma newline_now [simp]: "before_newline (newline # r) = []" "behind_newline (newline # r) = r"
  by (simp_all add: before_newline_def behind_newline_def)

lemma newline_none [simp]: "newline \<notin> set a \<Longrightarrow> before_newline a = a" "newline \<notin> set a \<Longrightarrow> behind_newline a = []"
  using newline_later [of a "[]"] by (simp_all add: before_newline_def behind_newline_def)

definition read_result :: "string \<Rightarrow> 'z lz \<Rightarrow> 'z lz \<Rightarrow> bool" where
  "read_result t s s' \<longleftrightarrow>
     (if newline \<in> set t
      then content_length s' = length (held s @ before_newline t) + 1 \<and>
        (\<exists>j. content_buffer s' = held s @ before_newline t @ CHR 0x00 # CHR 0x00 # j)
      else content_length s' = length (held s) + length t)"

lemma read_line_spec:
  assumes zl: "delivers zl text_of"
  shows "room s \<Longrightarrow> plain (held s) \<Longrightarrow> p < length (streams s) \<Longrightarrow> streams s ! p = Some z \<Longrightarrow> text_of z = t \<Longrightarrow>
    CHR 0x00 \<notin> set t \<Longrightarrow>
    \<exists>s' z'. read_line zl p ch s = Some (s', if newline \<in> set t then newline else if t = [] then ch else last t) \<and>
      streams s' = (streams s)[p := Some z'] \<and> text_of z' = behind_newline t \<and>
      userdata s' = userdata s \<and> gz_errno s' = gz_errno s \<and> read_result t s s' \<and>
      length (content_buffer s) \<le> length (content_buffer s')"
proof (induction "length t" arbitrary: t s z ch rule: less_induct)
  case less
  show ?case
  proof (cases "t = []")
    case True
    have n: "1 < buffer_free s" using less.prems(1) by (simp add: room_def buffer_free_def)
    obtain z' where "gzgets zl z (buffer_free s) = (z', None)" "text_of z' = []"
      using zl n less.prems(5) True unfolding delivers_def by (metis fgets.simps(1) prod.collapse snd_conv fst_conv)
    then have "read_line zl p ch s = Some (s\<lparr>streams := (streams s)[p := Some z']\<rparr>, ch)"
      using less.prems(4) by (subst read_line.simps) simp
    moreover have "content_length s = length (held s)" using less.prems(1) by (simp add: held_def room_def)
    ultimately show ?thesis
      using True \<open>text_of z' = []\<close>
      by (intro exI [of _ "s\<lparr>streams := (streams s)[p := Some z']\<rparr>"] exI [of _ z'])
        (simp add: read_result_def behind_newline_def)
  next
    case False
    obtain z' l rest s1 j where step: "t = l @ rest" "l \<noteq> []" "text_of z' = rest" "newline \<notin> set (butlast l)"
      "streams s1 = (streams s)[p := Some z']" "userdata s1 = userdata s" "gz_errno s1 = gz_errno s"
      "content_length s1 = length (held s @ l)" "content_buffer s1 = held s @ l @ CHR 0x00 # j"
      "length (content_buffer s1) = length (content_buffer s)"
      "read_line zl p ch s =
         (if last l \<noteq> newline then read_line zl p (last l) (extend_buffer zl s1)
          else Some (s1\<lparr>content_buffer := held s @ butlast l @ CHR 0x00 # CHR 0x00 # j\<rparr>, newline))"
      using read_line_step [OF zl less.prems(1-4), of ch] less.prems(5,6) False by (metis (no_types))
    have held_len: "content_length s = length (held s)" "length (held s) + 2 \<le> length (content_buffer s)"
      using less.prems(1) by (simp_all add: held_def room_def)
    show ?thesis
    proof (cases "last l = newline")
      case True
      then have l: "l = butlast l @ [newline]" using step(2) by (metis append_butlast_last_id)
      then have t: "t = butlast l @ newline # rest" using step(1) by (metis append.assoc append_Cons append_Nil)
      let ?s' = "s1\<lparr>content_buffer := held s @ butlast l @ CHR 0x00 # CHR 0x00 # j\<rparr>"
      have "before_newline t = butlast l" "behind_newline t = rest" "newline \<in> set t"
        using t step(4) by simp_all
      moreover obtain m where "length l = Suc m" using step(2) by (cases l) auto
      ultimately show ?thesis
        using step(3,5-11) True
        by (intro exI [of _ ?s'] exI [of _ z']) (simp add: read_result_def)
    next
      case False
      then have nl: "newline \<notin> set l" using step(2,4) by (metis Un_iff append_butlast_last_id empty_iff insert_iff list.set(1) list.simps(15) set_append)
      let ?s2 = "extend_buffer zl s1"
      obtain more where more: "content_buffer ?s2 = content_buffer s1 @ more" "more \<noteq> []" using extend_buffer_facts(5) by blast
      have h: "held ?s2 = held s @ l"
        by (simp add: held_def [of ?s2] extend_buffer_facts more step(8,9))
      have "room ?s2" using more step(8,9) by (cases more) (auto simp: room_def extend_buffer_facts)
      moreover have "plain (held ?s2)" using less.prems(2,6) step(1) nl unfolding h by (auto simp: plain_def)
      moreover have "p < length (streams ?s2)" "streams ?s2 ! p = Some z'"
        using less.prems(3) step(5) by (simp_all add: extend_buffer_facts)
      moreover have "length rest < length t" "CHR 0x00 \<notin> set rest" using step(1,2) less.prems(6) by auto
      ultimately obtain s' z'' where ih: "read_line zl p (last l) ?s2 = Some (s', if newline \<in> set rest then newline else if rest = [] then last l else last rest)"
        "streams s' = (streams ?s2)[p := Some z'']" "text_of z'' = behind_newline rest"
        "userdata s' = userdata ?s2" "gz_errno s' = gz_errno ?s2" "read_result rest ?s2 s'"
        "length (content_buffer ?s2) \<le> length (content_buffer s')"
        using less.hyps [of rest ?s2 z' "last l"] step(3) by blast
      have "read_result t s s'"
        using ih(6) nl unfolding read_result_def h step(1) by auto
      moreover have "(if newline \<in> set rest then newline else if rest = [] then last l else last rest) =
          (if newline \<in> set t then newline else if t = [] then ch else last t)"
        using step(1,2) nl by auto
      moreover have "behind_newline t = behind_newline rest" using step(1) nl by simp
      ultimately show ?thesis
        using ih(1-5,7) step(5-7,10,11) False more
        by (intro exI [of _ s'] exI [of _ z'']) (simp add: extend_buffer_facts)
    qed
  qed
qed

section \<open>The lines of a file\<close>

text \<open>The buffer is empty at first and never shrinks.\<close>

definition buffer_ok :: "'z lz \<Rightarrow> bool" where
  "buffer_ok s \<longleftrightarrow> (if content_buffer s = [] then content_length s = 0 else 256 \<le> length (content_buffer s))"

lemma line_start:
  fixes zl :: "'z zlib"
  assumes "buffer_ok s"
  defines "s0 \<equiv> (if length (content_buffer s) = 0 then extend_buffer zl s else reset_buffer s)"
  shows "room s0" "held s0 = []" "streams s0 = streams s" "256 \<le> length (content_buffer s0)"
    "userdata s0 = userdata s" "gz_errno s0 = gz_errno s"
proof -
  have "room s0 \<and> held s0 = [] \<and> streams s0 = streams s \<and> 256 \<le> length (content_buffer s0) \<and> userdata s0 = userdata s \<and> gz_errno s0 = gz_errno s"
    using assms(1) unfolding s0_def
    by (auto simp: room_def held_def reset_buffer_def buffer_ok_def extend_buffer_def extend_buffer_by_size_def)
  then show "room s0" "held s0 = []" "streams s0 = streams s" "256 \<le> length (content_buffer s0)"
    "userdata s0 = userdata s" "gz_errno s0 = gz_errno s" by simp_all
qed

lemma iterator_spec:
  assumes "delivers zl text_of" "buffer_ok s" "p < length (streams s)" "streams s ! p = Some z" "text_of z = t" "CHR 0x00 \<notin> set t"
  shows "\<exists>s' z'. gz_lines_iterator zl p args s =
      Some (s', if newline \<in> set t then Values [LStr (before_newline t)]
        else if t \<noteq> [] then Values [if args = [] then LLines p else last args] else gz_pushresult zl (Some z') None s') \<and>
    streams s' = (streams s)[p := Some z'] \<and> text_of z' = behind_newline t \<and> buffer_ok s' \<and> userdata s' = userdata s"
proof -
  let ?s0 = "if length (content_buffer s) = 0 then extend_buffer zl s else reset_buffer s"
  note s0 = line_start [OF assms(2), of zl]
  obtain s1 z' where r: "read_line zl p CHR 0x00 ?s0 = Some (s1, if newline \<in> set t then newline else if t = [] then CHR 0x00 else last t)"
    "streams s1 = (streams ?s0)[p := Some z']" "text_of z' = behind_newline t" "userdata s1 = userdata ?s0" "gz_errno s1 = gz_errno ?s0"
    "read_result t ?s0 s1" "length (content_buffer ?s0) \<le> length (content_buffer s1)"
    using read_line_spec [OF assms(1) s0(1), of p z t "CHR 0x00"] assms(3-6) s0(2,3) by (auto simp: plain_def)
  have big: "256 \<le> length (content_buffer s1)" using r(7) s0(4) by simp
  have st: "streams s1 ! p = Some z'" using r(2) s0(3) assms(3) by simp
  have nl: "CHR 0x00 \<noteq> newline" by (simp add: newline_def)
  consider "newline \<in> set t" | "newline \<notin> set t" "t \<noteq> []" | "t = []" by auto
  then show ?thesis
  proof cases
    case 1
    obtain j where b: "content_buffer s1 = before_newline t @ CHR 0x00 # CHR 0x00 # j" "content_length s1 = length (before_newline t) + 1"
      using r(6) s0(2) 1 by (auto simp: read_result_def)
    have "CHR 0x00 \<notin> set (before_newline t)" using assms(6) by (auto simp: before_newline_def dest: set_takeWhileD)
    then have c: "cstr (before_newline t @ CHR 0x00 # CHR 0x00 # j) = before_newline t" by (rule cstr_nul)
    have f: "finish_buffer zl s1 = (s1\<lparr>content_length := content_length s1 + 1\<rparr>, before_newline t)"
      using b c by (cases s1) (simp add: finish_buffer_def add_to_buffer_def list_update_append)
    show ?thesis
      using 1 r(1-4) s0(3,5) assms(4) big f
      by (intro exI [of _ "s1\<lparr>content_length := content_length s1 + 1\<rparr>"] exI [of _ z'])
        (auto simp: gz_lines_iterator_def buffer_ok_def)
  next
    case 2
    then have "last t \<noteq> newline" using last_in_set [of t] by metis
    moreover have "content_length s1 > 0" using 2 r(6) by (simp add: read_result_def)
    ultimately have "last t \<noteq> newline" "content_length s1 > 0" by simp_all
    with 2 show ?thesis
      using r(1-4) s0(3,5) assms(4) big
      by (intro exI [of _ s1] exI [of _ z']) (auto simp: gz_lines_iterator_def buffer_ok_def buffer_fill_def)
  next
    case 3
    then have "content_length s1 = 0" using r(6) s0(2) by (simp add: read_result_def)
    with 3 show ?thesis
      using r(1-4) s0(3,5) assms(4) big st nl
      by (intro exI [of _ s1] exI [of _ z']) (auto simp: gz_lines_iterator_def buffer_ok_def buffer_fill_def)
  qed
qed

text \<open>The loop \<^verbatim>\<open>for x in zf:lines()\<close>, \<open>n\<close> turns of it: each calls the iterator with nil and the value before.\<close>

primrec for_lines :: "'z zlib \<Rightarrow> nat \<Rightarrow> nat \<Rightarrow> lua \<Rightarrow> 'z lz \<Rightarrow> ('z lz \<times> lua list) option" where
  "for_lines zl p 0 x s = Some (s, [])"
| "for_lines zl p (Suc n) x s =
     (case gz_lines_iterator zl p [LNil, x] s of
        Some (s1, Values (v # _)) \<Rightarrow> map_option (apsnd (Cons v)) (for_lines zl p n v s1)
      | _ \<Rightarrow> None)"

definition gz_text :: "string list \<Rightarrow> string \<Rightarrow> string" where
  "gz_text ls rest = concat (map (\<lambda>l. l @ [newline]) ls) @ rest"

lemma for_lines_spec:
  assumes "delivers zl text_of" "\<forall>l \<in> set (rest # ls). plain l"
  shows "buffer_ok s \<Longrightarrow> p < length (streams s) \<Longrightarrow> streams s ! p = Some z \<Longrightarrow> text_of z = gz_text ls rest \<Longrightarrow>
    \<exists>s' z'. for_lines zl p (length ls) x s = Some (s', map LStr ls) \<and> buffer_ok s' \<and>
      streams s' = (streams s)[p := Some z'] \<and> text_of z' = rest"
  using assms(2)
proof (induction ls arbitrary: s z x)
  case Nil
  then have "(streams s)[p := Some z] = streams s" by (metis list_update_id)
  with Nil show ?case by (intro exI [of _ s] exI [of _ z]) (simp add: gz_text_def)
next
  case (Cons l ls)
  let ?t = "gz_text (l # ls) rest"
  have t: "?t = l @ newline # gz_text ls rest" by (simp add: gz_text_def)
  have nn: "CHR 0x00 \<notin> set (gz_text ks rest)" if "set ks \<subseteq> set (l # ls)" for ks
    using that Cons.prems(5) by (auto simp: gz_text_def plain_def newline_def)
  obtain s1 z1 where s1: "gz_lines_iterator zl p [LNil, x] s = Some (s1, Values [LStr l])"
    "streams s1 = (streams s)[p := Some z1]" "text_of z1 = gz_text ls rest" "buffer_ok s1"
    using iterator_spec [OF assms(1) Cons.prems(1-4) nn [OF subset_refl], of "[LNil, x]"] Cons.prems(5) t
    by (auto simp: plain_def)
  obtain s' z' where s': "for_lines zl p (length ls) (LStr l) s1 = Some (s', map LStr ls)" "buffer_ok s'"
    "streams s' = (streams s1)[p := Some z']" "text_of z' = rest"
    using Cons.IH [OF s1(4), of z1 "LStr l"] s1(2,3) Cons.prems(2,5) by auto
  then show ?case using s1(1,2) by (intro exI [of _ s'] exI [of _ z']) simp
qed

lemma for_lines_snoc:
  "for_lines zl p n x s = Some (s1, vs) \<Longrightarrow> gz_lines_iterator zl p [LNil, last (x # vs)] s1 = Some (s2, Values (v # ws)) \<Longrightarrow>
   for_lines zl p (Suc n) x s = Some (s2, vs @ [v])"
proof (induction n arbitrary: x s vs)
  case 0
  then show ?case by simp
next
  case (Suc n)
  from Suc.prems(1) obtain s0 y ys us where i: "gz_lines_iterator zl p [LNil, x] s = Some (s0, Values (y # ys))"
    "for_lines zl p n y s0 = Some (s1, us)" "vs = y # us"
    by (auto split: option.splits prod.splits lresult.splits list.splits)
  have "for_lines zl p (Suc n) y s0 = Some (s2, us @ [v])"
    using Suc.IH [OF i(2)] Suc.prems(2) i(3) by simp
  then show ?case using i(1,3) by (simp del: for_lines.simps(2) add: for_lines.simps(2) [of zl p "Suc n"])
qed


definition string_zlib :: "string zlib" where
  "string_zlib =
     \<lparr>gzopen = (\<lambda>f m. Inr f), gzclose = (\<lambda>z. 0), gzgets = (\<lambda>z n. (snd (fgets n z), if z = [] then None else Some (fst (fgets n z)))),
      gzerror = (\<lambda>z. ([], 1)), gzeof = (\<lambda>z. if z = [] then 1 else 0), zError = (\<lambda>e. []), error_text = (\<lambda>e. []),
      to_text = (\<lambda>v. case v of LStr t \<Rightarrow> Some t | _ \<Rightarrow> None), junk = (\<lambda>n. CHR ''x'')\<rparr>"

definition opened :: "string \<Rightarrow> string lz" where
  "opened t = \<lparr>gz_errno = 0, content_buffer = [], content_length = 0, userdata = [Some 0], streams = [Some t]\<rparr>"

lemma string_zlib_delivers: "delivers string_zlib (\<lambda>z. z)"
  by (simp add: delivers_def string_zlib_def)

lemma opened_facts: "buffer_ok (opened t)" "userdata (opened t) ! 0 = Some 0" "0 < length (streams (opened t))" "streams (opened t) ! 0 = Some t"
  by (simp_all add: opened_def buffer_ok_def)


text \<open>
  When the text does not end with a newline, its last piece is lost: the loop gets the line before once more
  (and ends at once, with nil, when there is no line before).
\<close>

theorem lzlib_last_line_lost:
  assumes "delivers zl text_of" "buffer_ok s" "list_all plain (rest # ls)" "rest \<noteq> []"
    and "p < length (streams s)" "streams s ! p = Some z" "text_of z = gz_text ls rest"
  shows "\<exists>s' z'. for_lines zl p (length ls + 1) LNil s = Some (s', map LStr ls @ [last (LNil # map LStr ls)]) \<and>
    streams s' ! p = Some z' \<and> text_of z' = []"
proof -
  have "\<forall>l \<in> set (rest # ls). plain l" using assms(3) by (auto simp: list_all_iff)
  then obtain s1 z1 where f: "for_lines zl p (length ls) LNil s = Some (s1, map LStr ls)" "buffer_ok s1"
    "streams s1 = (streams s)[p := Some z1]" "text_of z1 = rest"
    using for_lines_spec [OF assms(1) _ assms(2,5-7), of LNil] by blast
  have r: "newline \<notin> set rest" "CHR 0x00 \<notin> set rest" using assms(3) by (simp_all add: plain_def)
  let ?x = "last (LNil # map LStr ls)"
  obtain s' z' where i: "gz_lines_iterator zl p [LNil, ?x] s1 = Some (s', Values [?x])"
    "streams s' = (streams s1)[p := Some z']" "text_of z' = []"
    using iterator_spec [OF assms(1) f(2) _ _ f(4) r(2), of p "[LNil, ?x]"] f(3) assms(4,5) r(1) by auto
  from for_lines_snoc [OF f(1) i(1)] show ?thesis using i(2,3) f(3) assms(5) by auto
qed

theorem lzlib_last_line_lost_witness:
  "\<exists>s'. for_lines string_zlib 0 2 LNil (opened (''ab'' @ [newline] @ ''cd'')) = Some (s', [LStr ''ab'', LStr ''ab''])"
proof -
  have p: "list_all plain (''cd'' # [''ab''])" by (simp add: plain_def newline_def)
  have t: "''ab'' @ [newline] @ ''cd'' = gz_text [''ab''] ''cd''" by (simp add: gz_text_def)
  from lzlib_last_line_lost [OF string_zlib_delivers opened_facts(1) p _ opened_facts(3,4) t]
  show ?thesis by (auto simp: numeral_2_eq_2 simp del: for_lines.simps)
qed

section \<open>Closing\<close>

text \<open>The collector calls \<^verbatim>\<open>close\<close> on every handle, and on a handle that is closed that is an error.\<close>

lemma collecting_closed_fails:
  assumes "gz_close zl [LHandle u] s = (s1, Values vs)" "u < length (userdata s)" "map_of gz_methods ''__gc'' = Some finalize"
  shows "finalize zl [LHandle u] s1 = (s1, Failure ''attempt to use a closed gz file'')"
proof -
  have "userdata s1 ! u = None" using assms(1,2) by (auto simp: gz_close_def tozfile_def arg_def Let_def split: option.splits if_splits)
  moreover have "finalize = gz_close" using assms(3) by (simp add: gz_methods_def)
  ultimately show ?thesis by (simp add: gz_close_def tozfile_def arg_def)
qed

text \<open>An iterator keeps the stream it was made for: using it when the handle is closed reads freed memory.\<close>

lemma iterating_closed:
  assumes "gz_close zl [LHandle u] s = (s1, Values vs)" "userdata s ! u = Some p" "p < length (streams s)"
  shows "gz_lines_iterator zl p args s1 = Some (s1, Overread)"
proof -
  have "streams s1 ! p = None" using assms by (auto simp: gz_close_def tozfile_def arg_def Let_def split: if_splits)
  then show ?thesis by (simp add: gz_lines_iterator_def)
qed

end
