(* ===== verification/MediaTools.thy ===== *)
theory MediaTools
  imports CLib "HOL-Library.Signed_Division"
begin

text \<open>
  The small tools of \<^verbatim>\<open>misc/archive\<close>: \<^verbatim>\<open>ccat.c\<close> copies its input and shows a progress bar,
  \<^verbatim>\<open>cdromchk.c\<close> compares a medium with the image it was written from, \<^verbatim>\<open>tcp-client.c\<close> connects the terminal with
  a socket.

  The system is the parameter \<open>'w io\<close>: a read gives an error number or bytes (none at the end), a write an
  error number or the number of bytes written; \<open>tcp_call\<close> are the calls that
  set up socket (address and port) and terminal.  A loop that does not end is \<open>None\<close>.  \<open>err\<close> is the text written to
  the standard error output.
\<close>

datatype tcp_request = Socket | Connect int int int | Get_terminal | Set_raw | Set_saved

record 'w io =
  open_file :: "'w \<Rightarrow> string \<Rightarrow> 'w \<times> int"
  read_fd :: "'w \<Rightarrow> int \<Rightarrow> nat \<Rightarrow> 'w \<times> (int + string)"
  write_fd :: "'w \<Rightarrow> int \<Rightarrow> string \<Rightarrow> 'w \<times> (int + nat)"
  select_fds :: "'w \<Rightarrow> 'w \<times> (int + int \<times> bool \<times> bool)"
  message_of :: "int \<Rightarrow> string"
  tcp_call :: "'w \<Rightarrow> tcp_request \<Rightarrow> 'w \<times> int"
  inet_pton :: "string \<Rightarrow> int option"

section \<open>Comparing a medium with its image\<close>

text \<open>The inner loop: read until \<open>n\<close> bytes are there, the medium ends or fails.\<close>

function fill :: "'w io \<Rightarrow> int \<Rightarrow> nat \<Rightarrow> string \<Rightarrow> 'w \<Rightarrow> 'w \<times> (int + string)" where
  "fill io cdrom n acc w =
     (if n = 0 then (w, Inr acc)
      else
        (case read_fd io w cdrom n of
           (w1, Inl e) \<Rightarrow> (w1, Inl e)
         | (w1, Inr bs) \<Rightarrow> if bs = [] then (w1, Inr acc) else fill io cdrom (n - length bs) (acc @ bs) w1))"
  by pat_completeness auto
termination
  by (relation "measure (\<lambda>(io, cdrom, n, acc, w). n)") auto

declare fill.simps [simp del]

record check =
  c1 :: int
  c2 :: int
  err :: string

definition say :: "string \<Rightarrow> check \<Rightarrow> check" where
  "say t k = k\<lparr>err := err k @ t\<rparr>"

definition nl :: string where "nl = ''\<newline>''"

definition count_block :: "nat \<Rightarrow> check \<Rightarrow> check" where
  "count_block n k =
     (let k1 = k\<lparr>c1 := to_int32 (c1 k + int n), c2 := to_int32 (c2 k + int n)\<rparr>
      in if c1 k1 > 1048576 * 16 then say ''.'' (k1\<lparr>c1 := 0\<rparr>) else k1)"

partial_function (option) compare_loop ::
  "'w io \<Rightarrow> string \<Rightarrow> int \<Rightarrow> int \<Rightarrow> check \<Rightarrow> 'w \<Rightarrow> ('w \<times> check \<times> nat) option" where
  "compare_loop io name cdrom isofile k w =
     (case read_fd io w isofile 4096 of
        (w1, Inl e) \<Rightarrow> Some (w1, say (nl @ name @ '': file read error: '' @ message_of io e @ nl) k, 1)
      | (w1, Inr buf1) \<Rightarrow>
          if buf1 = [] then Some (w1, say ('' OK ('' @ show_int (c2 k sdiv 1048576) @ '' MB).'' @ nl) k, 0)
          else
            (case fill io cdrom (length buf1) [] w1 of
               (w2, Inl e) \<Rightarrow> Some (w2, say (nl @ name @ '': cdrom read error: '' @ message_of io e @ nl) k, 1)
             | (w2, Inr buf2) \<Rightarrow>
                 if length buf2 \<noteq> length buf1
                 then Some (w2, say (nl @ name @ '': cdrom read error: '' @ show_nat (length buf2) @ '' of '' @
                        show_nat (length buf1) @ '' bytes'' @ nl) k, 1)
                 else if buf1 \<noteq> buf2
                 then Some (w2, say (nl @ name @ '': cdrom data differs from the iso file'' @ nl) k, 1)
                 else compare_loop io name cdrom isofile (count_block (length buf2) k) w2))"

text \<open>\<^verbatim>\<open>open\<close> is only taken to have failed when it gives 0.\<close>

definition cdromchk :: "'w io \<Rightarrow> string list \<Rightarrow> int \<Rightarrow> 'w \<Rightarrow> ('w \<times> check \<times> nat) option" where
  "cdromchk io argv errno w =
     (let k = \<lparr>c1 = 0, c2 = 0, err = []\<rparr>; name = argv ! 0 in
      if length argv \<noteq> 3 then Some (w, say (''Usage: '' @ name @ '' <cdrom> <iso-file>'' @ nl) k, 1)
      else
        (let k1 = say ''Checking CD-ROM ...'' k;
             cant = (\<lambda>f. nl @ name @ '': Can't open '' @ f @ '': '' @ message_of io errno @ nl);
             (w1, cdrom) = open_file io w (argv ! 1)
         in if cdrom = 0 then Some (w1, say (cant (argv ! 1)) k1, 1)
            else
              (let (w2, isofile) = open_file io w1 (argv ! 2)
               in if isofile = 0 then Some (w2, say (cant (argv ! 2)) k1, 1)
                  else compare_loop io name cdrom isofile k1 w2)))"

section \<open>Copying with a progress bar\<close>

definition bar :: string where
  "bar = replicate 64 CHR ''.''"

definition pad6 :: "int \<Rightarrow> string" where
  "pad6 n = replicate (6 - length (show_int n)) CHR '' '' @ show_int n"

definition status_line :: "int \<Rightarrow> string" where
  "status_line c =
     (let mb = pad6 (c sdiv 1024) @ ''0 MB ['' in CHR 0x0D # mb @ bar @ '']'' @ CHR 0x0D # mb)"

text \<open>The codes left in \<^verbatim>\<open>rc1\<close> and \<^verbatim>\<open>rc2\<close>: the error number stands for -1.\<close>

definition copy_end :: "'w io \<Rightarrow> int + nat \<Rightarrow> int + nat \<Rightarrow> string" where
  "copy_end io rc1 rc2 =
     (case rc1 of
        Inl e \<Rightarrow> nl @ ''Read ERROR: '' @ message_of io e @ nl
      | Inr n \<Rightarrow>
          (case rc2 of
             Inl e \<Rightarrow> nl @ ''Write ERROR: '' @ message_of io e @ nl
           | Inr m \<Rightarrow>
               if m \<noteq> n
               then nl @ ''Write ERROR: Only '' @ show_nat m @ '' of '' @ show_nat n @ '' bytes in the last block has been written.'' @ nl
               else nl))"

partial_function (option) copy_blocks :: "'w io \<Rightarrow> int \<Rightarrow> string \<Rightarrow> 'w \<Rightarrow> ('w \<times> string \<times> nat) option" where
  "copy_blocks io c out w =
     (let out1 = (if c mod 1024 = 0 then out @ status_line c else out)
      in case read_fd io w 0 10240 of
           (w1, Inl e) \<Rightarrow> Some (w1, out1 @ copy_end io (Inl e) (Inl e), 0)
         | (w1, Inr buf) \<Rightarrow>
             if buf = [] then Some (w1, out1 @ copy_end io (Inr 0) (Inr 0), 0)
             else
               (let out2 = (if c mod 16 = 0 then out1 @ ''X'' else out1)
                in case write_fd io w1 1 buf of
                     (w2, rc2) \<Rightarrow>
                       if rc2 \<noteq> Inr (length buf) then Some (w2, out2 @ copy_end io (Inr (length buf)) rc2, 0)
                       else copy_blocks io (to_int32 (c + 1)) out2 w2))"

definition ccat :: "'w io \<Rightarrow> int \<Rightarrow> string \<Rightarrow> 'w \<Rightarrow> ('w \<times> string \<times> nat) option" where
  "ccat io argc usage w = (if argc \<noteq> 1 then Some (w, usage, 1) else copy_blocks io 1024 [] w)"

section \<open>A terminal on a socket\<close>

text \<open>The write loop starts at the beginning of the buffer each time and adds up what it is told, -1 too.\<close>

partial_function (option) send_loop :: "'w io \<Rightarrow> int \<Rightarrow> string \<Rightarrow> int \<Rightarrow> 'w \<Rightarrow> 'w option" where
  "send_loop io sockfd buf c w =
     (if c < int (length buf) then
        (case write_fd io w sockfd buf of
           (w1, Inl e) \<Rightarrow> send_loop io sockfd buf (c - 1) w1
         | (w1, Inr k) \<Rightarrow> send_loop io sockfd buf (c + int k) w1)
      else Some w)"

primrec show_bytes :: "'w io \<Rightarrow> string \<Rightarrow> 'w \<Rightarrow> 'w" where
  "show_bytes io [] w = w"
| "show_bytes io (b # bs) w = show_bytes io bs (if b \<noteq> CHR 0x0D then fst (write_fd io w 1 [b]) else w)"

definition rc_of :: "int + string \<Rightarrow> int" where
  "rc_of r = (case r of Inl e \<Rightarrow> -1 | Inr bs \<Rightarrow> int (length bs))"

definition bytes_of :: "int + string \<Rightarrow> string" where
  "bytes_of r = (case r of Inl e \<Rightarrow> [] | Inr bs \<Rightarrow> bs)"

partial_function (option) talk :: "'w io \<Rightarrow> int \<Rightarrow> 'w \<Rightarrow> ('w \<times> (int + unit)) option" where
  "talk io sockfd w =
     (case select_fds io w of
        (w0, Inl e) \<Rightarrow> Some (w0, Inl e)
      | (w0, Inr (rc, from_socket, from_terminal)) \<Rightarrow>
          (let (w1, rc1) = (if from_socket then (case read_fd io w0 sockfd 1024 of (v, r) \<Rightarrow> (show_bytes io (bytes_of r) v, rc_of r)) else (w0, rc))
           in if from_terminal then
                (case read_fd io w1 0 1024 of
                   (v, r) \<Rightarrow>
                     (case send_loop io sockfd (bytes_of r) 0 v of
                        None \<Rightarrow> None
                      | Some w2 \<Rightarrow> if rc_of r > 0 then talk io sockfd w2 else Some (w2, Inr ())))
              else if rc1 > 0 then talk io sockfd w1 else Some (w1, Inr ())))"


definition tcp_client :: "'w io \<Rightarrow> string list \<Rightarrow> 'w \<Rightarrow> ('w \<times> string \<times> nat) option" where
  "tcp_client io argv w =
     (if length argv \<noteq> 3 then Some (w, ''Usage: '' @ argv ! 0 @ '' <IP-Address> <TCP-Port>'' @ nl, 1)
      else
        (let (w1, sockfd) = tcp_call io w Socket in
         if sockfd < 0 then Some (w1, ''socket'', 1)
         else
           (case inet_pton io (argv ! 1) of
              None \<Rightarrow> Some (w1, ''Not an IP address: '' @ argv ! 1 @ nl, 1)
            | Some addr \<Rightarrow>
                (let (w2, r2) = tcp_call io w1 (Connect sockfd addr (atoi (argv ! 2) mod 2 ^ 16)) in
                 if r2 < 0 then Some (w2, ''connect'', 1)
                 else
                   (let (w3, r3) = tcp_call io w2 Get_terminal in
                    if r3 = -1 then Some (w3, ''ioctl1'', 1)
                    else
                      (let (w4, r4) = tcp_call io w3 Set_raw in
                       if r4 = -1 then Some (w4, ''ioctl2'', 1)
                       else
                         (case talk io sockfd w4 of
                            None \<Rightarrow> None
                          | Some (w5, Inl e) \<Rightarrow> Some (w5, ''select'', 1)
                          | Some (w5, Inr _) \<Rightarrow>
                              (let (w6, r6) = tcp_call io w5 Set_saved
                               in if r6 = -1 then Some (w6, ''ioctl3'', 1) else Some (w6, [], 0)))))))))"

section \<open>Properties\<close>

text \<open>Files of the system that are read without errors, in pieces of any size; reading one leaves the others alone.\<close>

definition serves :: "'w io \<Rightarrow> ('w \<Rightarrow> int \<Rightarrow> string) \<Rightarrow> bool" where
  "serves io text_of \<longleftrightarrow>
     (\<forall>w fd n. 0 < n \<longrightarrow>
        (\<exists>w' bs. read_fd io w fd n = (w', Inr bs) \<and> length bs \<le> n \<and> text_of w fd = bs @ text_of w' fd \<and>
           (bs = [] \<longrightarrow> text_of w fd = []) \<and> (\<forall>g. g \<noteq> fd \<longrightarrow> text_of w' g = text_of w g)))"

lemma servesE:
  assumes "serves io text_of" "0 < n"
  obtains w' bs where "read_fd io w fd n = (w', Inr bs)" "length bs \<le> n" "text_of w fd = bs @ text_of w' fd"
    "bs = [] \<Longrightarrow> text_of w fd = []" "\<And>g. g \<noteq> fd \<Longrightarrow> text_of w' g = text_of w g"
  using assms unfolding serves_def by meson

lemma fill_spec:
  assumes "serves io text_of"
  shows "\<exists>w'. fill io cdrom n acc w = (w', Inr (acc @ take n (text_of w cdrom))) \<and>
    text_of w' cdrom = drop n (text_of w cdrom) \<and> (\<forall>g. g \<noteq> cdrom \<longrightarrow> text_of w' g = text_of w g)"
proof (induction n arbitrary: acc w rule: less_induct)
  case (less n)
  show ?case
  proof (cases "n = 0")
    case True
    then show ?thesis by (simp add: fill.simps [of io cdrom 0])
  next
    case False
    then obtain w1 bs where r: "read_fd io w cdrom n = (w1, Inr bs)" "length bs \<le> n" "text_of w cdrom = bs @ text_of w1 cdrom"
      "bs = [] \<Longrightarrow> text_of w cdrom = []" "\<And>g. g \<noteq> cdrom \<Longrightarrow> text_of w1 g = text_of w g"
      using servesE [OF assms] by (metis neq0_conv)
    show ?thesis
    proof (cases "bs = []")
      case True
      then show ?thesis using False r by (auto simp: fill.simps [of io cdrom n])
    next
      case ne: False
      then have "n - length bs < n" using False by (cases bs) auto
      from less.IH [OF this, of "acc @ bs" w1] obtain w' where
        "fill io cdrom (n - length bs) (acc @ bs) w1 = (w', Inr ((acc @ bs) @ take (n - length bs) (text_of w1 cdrom)))"
        "text_of w' cdrom = drop (n - length bs) (text_of w1 cdrom)" "\<forall>g. g \<noteq> cdrom \<longrightarrow> text_of w' g = text_of w1 g"
        by blast
      then show ?thesis using False ne r(1,2,3,5) by (auto simp: fill.simps [of io cdrom n])
    qed
  qed
qed

lemma compare_spec:
  assumes io: "serves io text_of" and fds: "cdrom \<noteq> isofile"
  shows "\<exists>w' k'. compare_loop io name cdrom isofile k w =
    Some (w', k', if prefix (text_of w isofile) (text_of w cdrom) then 0 else 1)"
proof (induction "length (text_of w isofile)" arbitrary: w k rule: less_induct)
  case less
  obtain w1 buf1 where r: "read_fd io w isofile 4096 = (w1, Inr buf1)" "length buf1 \<le> 4096" "text_of w isofile = buf1 @ text_of w1 isofile"
    "buf1 = [] \<Longrightarrow> text_of w isofile = []" "\<And>g. g \<noteq> isofile \<Longrightarrow> text_of w1 g = text_of w g"
    using servesE [OF io, of 4096 w isofile] by (metis zero_less_numeral)
  show ?case
  proof (cases "buf1 = []")
    case True
    then show ?thesis using r(1,4) by (subst compare_loop.simps) simp
  next
    case False
    let ?n = "length buf1"
    obtain w2 where f: "fill io cdrom ?n [] w1 = (w2, Inr (take ?n (text_of w cdrom)))" "text_of w2 cdrom = drop ?n (text_of w cdrom)"
      "text_of w2 isofile = text_of w1 isofile"
      using fill_spec [OF io, of cdrom ?n "[]" w1] r(5) [OF fds] fds by auto
    show ?thesis
    proof (cases "take ?n (text_of w cdrom) = buf1")
      case True
      then have cd: "text_of w cdrom = buf1 @ text_of w2 cdrom" using f(2) by (metis append_take_drop_id)
      have "length (text_of w2 isofile) < length (text_of w isofile)" using r(3) f(3) False by simp
      from less [OF this] obtain w' k' where "compare_loop io name cdrom isofile (count_block ?n k) w2 =
          Some (w', k', if prefix (text_of w2 isofile) (text_of w2 cdrom) then 0 else 1)" by blast
      moreover have "prefix (text_of w isofile) (text_of w cdrom) = prefix (text_of w2 isofile) (text_of w2 cdrom)"
        unfolding cd r(3) f(3) by simp
      ultimately show ?thesis using r(1) f(1) False True by (subst compare_loop.simps) auto
    next
      case differ: False
      then have "\<not> prefix (text_of w isofile) (text_of w cdrom)" using r(3) by (auto simp: prefix_def)
      then show ?thesis using r(1) f(1) False differ by (subst compare_loop.simps) auto
    qed
  qed
qed

text \<open>
  C29: the check of a medium ends, and succeeds exactly if the image is the beginning of what is on the medium, whatever the
  sizes of the pieces in which both are read.
\<close>

theorem cdromchk_compares:
  assumes "serves io text_of" "open_file io w dev = (w1, cdrom)" "open_file io w1 file = (w2, isofile)"
    and "cdrom \<noteq> 0" "isofile \<noteq> 0" "cdrom \<noteq> isofile"
  shows "\<exists>w' k'. cdromchk io [name, dev, file] e w =
    Some (w', k', if prefix (text_of w2 isofile) (text_of w2 cdrom) then 0 else 1)"
  using compare_spec [OF assms(1,6), of name "say ''Checking CD-ROM ...'' \<lparr>c1 = 0, c2 = 0, err = []\<rparr>" w2] assms(2-5)
  by (simp add: cdromchk_def Let_def)

text \<open>Two files in memory, which are read in pieces of at most three bytes.\<close>

definition memory_io :: "(int \<Rightarrow> string) io" where
  "memory_io =
     \<lparr>open_file = (\<lambda>w f. (w, if f = ''dev'' then 3 else 4)),
      read_fd = (\<lambda>w fd n. (w(fd := drop (min n 3) (w fd)), Inr (take (min n 3) (w fd)))),
      write_fd = (\<lambda>w fd bs. (w, Inr (length bs))), select_fds = (\<lambda>w. (w, Inl 0)), message_of = (\<lambda>e. []),
      tcp_call = (\<lambda>w c. (w, 0)), inet_pton = (\<lambda>t. None)\<rparr>"

lemma memory_serves: "serves memory_io (\<lambda>w. w)"
  by (auto simp: serves_def memory_io_def)

theorem cdromchk_compares_witness:
  "\<exists>w' k'. cdromchk memory_io [''cdromchk'', ''dev'', ''image''] 0 (\<lambda>fd. if fd = 3 then ''abcdef'' else ''abcd'') = Some (w', k', 0)"
  using cdromchk_compares [OF memory_serves, of "\<lambda>fd. if fd = 3 then ''abcdef'' else ''abcd''" "''dev''" _ 3 "''image''" _ 4 "''cdromchk''" 0]
  by (simp add: memory_io_def)

text \<open>A file that cannot be opened has the descriptor -1, which is taken for a file.\<close>

lemma missing_medium_not_reported:
  assumes "open_file io w dev = (w1, -1)" "open_file io w1 file = (w2, 4)"
  shows "cdromchk io [name, dev, file] e w =
    compare_loop io name (-1) 4 (say ''Checking CD-ROM ...'' \<lparr>c1 = 0, c2 = 0, err = []\<rparr>) w2"
  using assms by (simp add: cdromchk_def Let_def)

text \<open>Whatever goes wrong, the copier reports success.\<close>

lemma copy_blocks_status:
  assumes ret: "copy_blocks io c out w = Some r"
  shows "snd (snd r) = 0"
proof (rule copy_blocks.raw_induct [where P = "\<lambda>io c out w r. snd (snd r) = 0", OF _ ret])
  fix f :: "'a io \<Rightarrow> int \<Rightarrow> string \<Rightarrow> 'a \<Rightarrow> ('a \<times> string \<times> nat) option" and io c out w r
  assume IH: "\<And>io c out w r. f io c out w = Some r \<Longrightarrow> snd (snd r) = 0"
    and eq: "(let out1 = (if c mod 1024 = 0 then out @ status_line c else out)
      in case read_fd io w 0 10240 of
           (w1, Inl e) \<Rightarrow> Some (w1, out1 @ copy_end io (Inl e) (Inl e), 0)
         | (w1, Inr buf) \<Rightarrow>
             if buf = [] then Some (w1, out1 @ copy_end io (Inr 0) (Inr 0), 0)
             else
               (let out2 = (if c mod 16 = 0 then out1 @ ''X'' else out1)
                in case write_fd io w1 1 buf of
                     (w2, rc2) \<Rightarrow>
                       if rc2 \<noteq> Inr (length buf) then Some (w2, out2 @ copy_end io (Inr (length buf)) rc2, 0)
                       else f io (to_int32 (c + 1)) out2 w2)) = Some r"
  obtain w1 a where a: "read_fd io w 0 10240 = (w1, a)" by (cases "read_fd io w 0 10240")
  show "snd (snd r) = 0"
  proof (cases a)
    case (Inl e)
    with eq a show ?thesis by (auto simp: Let_def)
  next
    case (Inr buf)
    obtain w2 rc2 where b: "write_fd io w1 1 buf = (w2, rc2)" by (cases "write_fd io w1 1 buf")
    with eq a Inr IH show ?thesis by (auto simp: Let_def split: if_splits)
  qed
qed

lemma ccat_reports_success: "ccat io 1 usage w = Some (w', t, n) \<Longrightarrow> n = 0"
  using copy_blocks_status by (fastforce simp: ccat_def)

text \<open>
  A socket that takes one byte of each write gets the first byte of what was typed over and over: the loop starts at
  the beginning of its buffer each time.
\<close>

lemma short_writes_repeat:
  assumes "\<And>w. write_fd io w sockfd buf = (w @ [hd buf], Inr 1)" "0 \<le> c" "c \<le> int (length buf)"
  shows "send_loop io sockfd buf c w = Some (w @ replicate (nat (int (length buf) - c)) (hd buf))"
  using assms(2,3)
proof (induction "nat (int (length buf) - c)" arbitrary: c w)
  case 0
  then show ?case by (subst send_loop.simps) simp
next
  case (Suc n)
  then have "send_loop io sockfd buf (c + 1) (w @ [hd buf]) =
      Some ((w @ [hd buf]) @ replicate (nat (int (length buf) - (c + 1))) (hd buf))"
    by (intro Suc.hyps(1)) auto
  moreover have "nat (int (length buf) - c) = Suc (nat (int (length buf) - (c + 1)))" using Suc.hyps(2) by simp
  ultimately show ?case using Suc.hyps(2) assms(1) by (subst send_loop.simps) simp
qed

text \<open>An input that is read without errors and an output that takes all it is given.\<close>

definition pipes :: "'w io \<Rightarrow> ('w \<Rightarrow> string) \<Rightarrow> ('w \<Rightarrow> string) \<Rightarrow> bool" where
  "pipes io input written \<longleftrightarrow>
     (\<forall>w n. 0 < n \<longrightarrow>
        (\<exists>w' bs. read_fd io w 0 n = (w', Inr bs) \<and> input w = bs @ input w' \<and> (bs = [] \<longrightarrow> input w = []) \<and>
           written w' = written w)) \<and>
     (\<forall>w bs. \<exists>w'. write_fd io w 1 bs = (w', Inr (length bs)) \<and> written w' = written w @ bs \<and> input w' = input w)"

lemma pipesE:
  assumes "pipes io input written" "0 < n"
  obtains w' bs where "read_fd io w 0 n = (w', Inr bs)" "input w = bs @ input w'" "bs = [] \<Longrightarrow> input w = []"
    "written w' = written w"
  using assms unfolding pipes_def by meson

lemma ccat_copies:
  assumes "pipes io input written"
  shows "\<exists>w' t. copy_blocks io c out w = Some (w', t, 0) \<and> written w' = written w @ input w"
proof (induction "length (input w)" arbitrary: c out w rule: less_induct)
  case less
  obtain w1 bs where r: "read_fd io w 0 10240 = (w1, Inr bs)" "input w = bs @ input w1" "bs = [] \<Longrightarrow> input w = []"
    "written w1 = written w"
    using pipesE [OF assms, of 10240 w] by (metis zero_less_numeral)
  show ?case
  proof (cases "bs = []")
    case True
    then show ?thesis using r by (subst copy_blocks.simps) (simp add: Let_def)
  next
    case False
    obtain w2 where w2: "write_fd io w1 1 bs = (w2, Inr (length bs))" "written w2 = written w1 @ bs" "input w2 = input w1"
      using assms unfolding pipes_def by meson
    have "length (input w2) < length (input w)" using r(2) w2(3) False by simp
    from less [OF this] have "\<exists>w' t. copy_blocks io c' out' w2 = Some (w', t, 0) \<and> written w' = written w2 @ input w2" for c' out'
      by blast
    then show ?thesis using r w2 False by (subst copy_blocks.simps) (simp add: Let_def)
  qed
qed

text \<open>A carriage return that the server sends is not shown.\<close>

lemma show_bytes_filter:
  assumes "\<And>w b. written (fst (write_fd io w 1 [b])) = written w @ [b]"
  shows "written (show_bytes io bs w) = written w @ filter (\<lambda>b. b \<noteq> CHR 0x0D) bs"
  using assms by (induction bs arbitrary: w) simp_all

end
