(* ===== verification/FlWrapper.thy ===== *)
theory FlWrapper
  imports CLib
begin

text \<open>
  \<^verbatim>\<open>misc/tools-source/fl_wrapper.c.sh\<close>: the library that is preloaded into every process of a
  package build and logs the files it reads and writes.  The file is a shell script that prints C
  code: the function \<open>add_wrapper\<close> of the script makes one C function out of each line of a table,
  the rest is C.
\<close>

unbundle bit_operations_syntax

section \<open>Canonical names\<close>

text \<open>
  \<^verbatim>\<open>sort_of_realpath\<close> works on an array of characters.  A name that is not absolute is first
  written into the array itself and then rewritten in place: \<open>file\<close> is \<open>None\<close> when the source is
  the array.  \<open>s\<close> and \<open>d\<close> are the offsets of \<^verbatim>\<open>src\<close> and \<^verbatim>\<open>dst\<close>.
\<close>

abbreviation NUL :: char where "NUL \<equiv> CHR 0x00"

definition PATH_MAX :: nat where "PATH_MAX = 4096"

definition mem_at :: "string \<Rightarrow> nat \<Rightarrow> char" where
  "mem_at m i = (if i < length m then m ! i else NUL)"

definition behind_slashes :: "string \<Rightarrow> nat \<Rightarrow> nat" where
  "behind_slashes m i = i + length (takeWhile (\<lambda>c. c = CHR ''/'') (drop i m))"

fun back_slash :: "string \<Rightarrow> nat \<Rightarrow> nat" where
  "back_slash a d = (if d > 1 \<and> a ! (d - 1) \<noteq> CHR ''/'' then back_slash a (d - 1) else d)"

declare back_slash.simps [simp del]

function realpath_loop :: "string option \<Rightarrow> string \<Rightarrow> nat \<Rightarrow> nat \<Rightarrow> string \<times> nat" where
  "realpath_loop file a s d =
     (let m = (case file of None \<Rightarrow> a | Some f \<Rightarrow> f) in
      if d \<ge> PATH_MAX \<or> mem_at m s = NUL then (a, d)
      else if mem_at m s = CHR ''/'' \<and> mem_at m (s + 1) = CHR ''/'' then
        (let t = behind_slashes m (s + 1) - 1 in realpath_loop file (a[d := mem_at m t]) (t + 1) (d + 1))
      else if mem_at m s = CHR ''.'' \<and> mem_at m (s + 1) = CHR ''.'' \<and>
              (mem_at m (s + 2) = CHR ''/'' \<or> mem_at m (s + 2) = NUL) then
        realpath_loop file a (behind_slashes m (if mem_at m (s + 2) \<noteq> NUL then s + 3 else s + 2))
          (back_slash a (if d > 1 then d - 1 else d))
      else if mem_at m s = CHR ''.'' \<and> (mem_at m (s + 1) = CHR ''/'' \<or> mem_at m (s + 1) = NUL) then
        realpath_loop file a (behind_slashes m (if mem_at m (s + 1) \<noteq> NUL then s + 2 else s + 1)) d
      else realpath_loop file (a[d := mem_at m s]) (s + 1) (d + 1))"
  by pat_completeness auto
termination
proof (relation "measure (\<lambda>(file, a, s, d). length (case file of None \<Rightarrow> a | Some f \<Rightarrow> f) - s)", goal_cases)
qed (auto simp: mem_at_def behind_slashes_def split: if_splits option.splits)

declare realpath_loop.simps [simp del]

fun strip_trailing :: "string \<Rightarrow> nat \<Rightarrow> string" where
  "strip_trailing a d =
     (if d - 1 > 1 \<and> a ! (d - 1) = CHR ''/'' then strip_trailing (a[d - 1 := NUL]) (d - 1) else a)"

declare strip_trailing.simps [simp del]

text \<open>
  \<open>old\<close> is what the array held before; \<open>None\<close>: \<^verbatim>\<open>getcwd\<close> failed, so that the array \<^verbatim>\<open>cwd\<close> is
  not initialised, or the terminating NUL is written behind the array.
\<close>

definition absolute_source :: "string option \<Rightarrow> string \<Rightarrow> string \<Rightarrow> (string option \<times> string) option" where
  "absolute_source dir file old =
     (if mem_at file 0 = CHR ''/'' then Some (Some file, old)
      else case dir of
             None \<Rightarrow> None
           | Some c \<Rightarrow>
               (let t = take (PATH_MAX - 1) (c @ ''/'' @ file) in Some (None, t @ NUL # drop (length t + 1) old)))"

definition sort_of_realpath :: "string option \<Rightarrow> string \<Rightarrow> string \<Rightarrow> string option" where
  "sort_of_realpath dir file old =
     (case absolute_source dir file old of
        None \<Rightarrow> None
      | Some (src, a) \<Rightarrow>
          (let (a', d) = realpath_loop src a 0 0
           in if d < PATH_MAX then Some (cstr (strip_trailing (a'[d := NUL]) d)) else None))"

section \<open>Names as lists of components\<close>

text \<open>The loop without the array: \<open>walk src out\<close> appends to \<open>out\<close>.\<close>

fun to_slash :: "string \<Rightarrow> string" where
  "to_slash out = (if length out > 1 \<and> last out \<noteq> CHR ''/'' then to_slash (butlast out) else out)"

declare to_slash.simps [simp del]

definition parent :: "string \<Rightarrow> string" where
  "parent out = to_slash (if length out > 1 then butlast out else out)"

abbreviation skip_slashes :: "string \<Rightarrow> string" where
  "skip_slashes \<equiv> dropWhile (\<lambda>c. c = CHR ''/'')"

definition ends_here :: "string \<Rightarrow> bool" where
  "ends_here s \<longleftrightarrow> s = [] \<or> hd s = CHR ''/''"

function walk :: "string \<Rightarrow> string \<Rightarrow> string" where
  "walk [] out = out"
| "walk (c # src) out =
     (if c = CHR ''/'' then walk (skip_slashes src) (out @ ''/'')
      else if c = CHR ''.'' \<and> src \<noteq> [] \<and> hd src = CHR ''.'' \<and> ends_here (tl src)
        then walk (skip_slashes (tl src)) (parent out)
      else if c = CHR ''.'' \<and> ends_here src then walk (skip_slashes src) out
      else walk src (out @ [c]))"
  by pat_completeness auto
termination
  by (relation "measure (\<lambda>(s, out). length s)")
    (auto simp: less_Suc_eq_le intro: le_trans [OF length_dropWhile_le])

declare walk.simps [simp del]


lemma mem_at_simps [simp]: "mem_at [] i = NUL" "mem_at (c # m) 0 = c" "mem_at (c # m) (Suc i) = mem_at m i"
  by (simp_all add: mem_at_def)

lemma ends_here_at: "NUL \<notin> set q \<Longrightarrow> ends_here q \<longleftrightarrow> mem_at q 0 = CHR ''/'' \<or> mem_at q 0 = NUL"
  by (cases q) (auto simp: ends_here_def)

text \<open>\<open>text_at m i r\<close>: at offset \<open>i\<close> of the memory \<open>m\<close> stands the string \<open>r\<close>, and its end.\<close>

definition text_at :: "string \<Rightarrow> nat \<Rightarrow> string \<Rightarrow> bool" where
  "text_at m i r \<longleftrightarrow> NUL \<notin> set r \<and> i + length r \<le> length m \<and>
     (\<exists>z. drop i m = r @ z \<and> (z = [] \<or> hd z = NUL))"

lemma text_at_at: "text_at m i r \<Longrightarrow> k \<le> length r \<Longrightarrow> mem_at m (i + k) = mem_at r k"
proof -
  assume a: "text_at m i r" and k: "k \<le> length r"
  then obtain z where z: "drop i m = r @ z" "z = [] \<or> hd z = NUL" "i + length r \<le> length m"
    by (auto simp: text_at_def)
  have "mem_at m (i + k) = mem_at (drop i m) k" using z(3) by (auto simp: mem_at_def)
  also have "\<dots> = mem_at r k"
    using k z(2) by (cases z) (auto simp: z(1) mem_at_def nth_append)
  finally show ?thesis .
qed

lemma text_at_Suc: "text_at m i (c # r) \<Longrightarrow> text_at m (i + 1) r"
proof -
  assume a: "text_at m i (c # r)"
  then obtain z where z: "drop i m = c # r @ z" "z = [] \<or> hd z = NUL" by (auto simp: text_at_def)
  then have "drop 1 (drop i m) = r @ z" by simp
  then have "drop (i + 1) m = r @ z" by (simp only: drop_drop add.commute)
  with z a show ?thesis by (auto simp: text_at_def)
qed

lemma text_at_skip: "text_at m i r \<Longrightarrow> text_at m (behind_slashes m i) (skip_slashes r)"
proof -
  assume a: "text_at m i r"
  then obtain z where z: "drop i m = r @ z" "z = [] \<or> hd z = NUL" by (auto simp: text_at_def)
  have t: "takeWhile (\<lambda>c. c = CHR ''/'') (drop i m) = takeWhile (\<lambda>c. c = CHR ''/'') r"
    unfolding z(1) using z(2) by (cases z) (auto simp: takeWhile_append takeWhile_no)
  then have b: "behind_slashes m i = i + length (takeWhile (\<lambda>c. c = CHR ''/'') r)"
    by (simp add: behind_slashes_def)
  have "drop (length (takeWhile (\<lambda>c. c = CHR ''/'') r)) (r @ z) = skip_slashes r @ z"
    by (simp add: dropWhile_eq_drop length_takeWhile_le)
  then have "drop (behind_slashes m i) m = skip_slashes r @ z"
    by (metis b z(1) add.commute drop_drop)
  moreover have "length (takeWhile (\<lambda>c. c = CHR ''/'') r) + length (skip_slashes r) = length r"
    by (metis length_append takeWhile_dropWhile_id)
  ultimately show ?thesis
    using a z(2) by (auto simp: text_at_def b dest: set_dropWhileD)
qed

lemma text_at_update: "text_at m i r \<Longrightarrow> d < i \<Longrightarrow> text_at (m[d := x]) i r"
  by (simp add: text_at_def)

lemma back_slash_take: "d \<le> length a \<Longrightarrow> take (back_slash a d) a = to_slash (take d a)"
proof (induction a d rule: back_slash.induct)
  case (1 a d)
  show ?case
  proof (cases "d > 1 \<and> a ! (d - 1) \<noteq> CHR ''/''")
    case True
    then have "d - 1 < length a" "Suc (d - 1) = d" using "1.prems" by auto
    then have "take d a = take (d - 1) a @ [a ! (d - 1)]"
      using take_Suc_nth [of "d - 1" a] by simp
    then have "last (take d a) = a ! (d - 1)" "butlast (take d a) = take (d - 1) a" by simp_all
    moreover have "take (back_slash a (d - 1)) a = to_slash (take (d - 1) a)"
      using 1 True by simp
    ultimately show ?thesis
      using True "1.prems" by (subst back_slash.simps, subst to_slash.simps) simp
  next
    case False
    then have "back_slash a d = d" by (subst back_slash.simps) auto
    moreover have "\<not> (length (take d a) > 1 \<and> last (take d a) \<noteq> CHR ''/'')"
      using False "1.prems" take_Suc_nth [of "d - 1" a] by (cases d) auto
    then have "to_slash (take d a) = take d a" by (subst to_slash.simps) auto
    ultimately show ?thesis by simp
  qed
qed

lemma back_slash_le: "back_slash a d \<le> d"
  by (induction a d rule: back_slash.induct) (subst back_slash.simps, auto)

lemma back_slash_parent:
  "d \<le> length a \<Longrightarrow> take (back_slash a (if d > 1 then d - 1 else d)) a = parent (take d a)"
  by (auto simp: back_slash_take parent_def butlast_take min_def)


lemma behind_slashes_pos: "text_at m t p \<Longrightarrow> behind_slashes m t + length (skip_slashes p) = t + length p"
proof -
  assume a: "text_at m t p"
  then obtain z where z: "drop t m = p @ z" "z = [] \<or> hd z = NUL" by (auto simp: text_at_def)
  have "takeWhile (\<lambda>c. c = CHR ''/'') (drop t m) = takeWhile (\<lambda>c. c = CHR ''/'') p"
    unfolding z(1) using z(2) by (cases z) (auto simp: takeWhile_append takeWhile_no)
  moreover have "length (takeWhile (\<lambda>c. c = CHR ''/'') p) + length (skip_slashes p) = length p"
    by (metis length_append takeWhile_dropWhile_id)
  ultimately show ?thesis by (simp add: behind_slashes_def)
qed

lemma skip_from:
  assumes "text_at m i p" "ends_here p" "t = behind_slashes m (if mem_at m i \<noteq> NUL then i + 1 else i)"
  shows "text_at m t (skip_slashes p) \<and> t + length (skip_slashes p) = i + length p"
proof (cases p)
  case Nil
  then have "mem_at m i = NUL" using text_at_at [OF assms(1), of 0] by simp
  then show ?thesis
    using assms text_at_skip [OF assms(1)] behind_slashes_pos [OF assms(1)] by simp
next
  case (Cons x p')
  then have x: "x = CHR ''/''" "mem_at m i = CHR ''/''"
    using assms(2) text_at_at [OF assms(1), of 0] by (auto simp: ends_here_def)
  have "text_at m (i + 1) p'" using assms(1) text_at_Suc by (simp add: Cons)
  from text_at_skip [OF this] behind_slashes_pos [OF this] show ?thesis
    using x assms(3) by (simp add: Cons)
qed

text \<open>The array loop is the list function, also in place: the source is never overtaken.\<close>

lemma realpath_loop_walk:
  assumes "text_at (case file of None \<Rightarrow> a | Some f \<Rightarrow> f) s r" "d \<le> s"
    and "s + length r < PATH_MAX" "length a = PATH_MAX"
  shows "\<exists>a' d'. realpath_loop file a s d = (a', d') \<and> d' < PATH_MAX \<and> length a' = PATH_MAX \<and>
    take d' a' = walk r (take d a)"
  using assms
proof (induction "length r" arbitrary: a s d r rule: less_induct)
  case less
  define m where "m = (case file of None \<Rightarrow> a | Some f \<Rightarrow> f)"
  have d: "d < PATH_MAX" "d < length a" using less.prems by auto
  have ta: "text_at m s r" using less.prems(1) by (simp add: m_def)
  have go: "\<exists>a' d'. realpath_loop file b t e = (a', d') \<and> d' < PATH_MAX \<and> length a' = PATH_MAX \<and>
      take d' a' = walk q (take e b)"
    if q: "length q < length r" "text_at m t q" "b = a \<or> (b = a[d := x] \<and> d < t)" "e \<le> t" "t + length q < PATH_MAX"
    for b t e q x
  proof (rule less.hyps [OF q(1) _ q(4,5)])
    show "text_at (case file of None \<Rightarrow> b | Some f \<Rightarrow> f) t q"
      using q(2,3) by (auto simp: m_def text_at_update split: option.splits)
    show "length b = PATH_MAX" using q(3) less.prems(4) by auto
  qed
  show ?case
  proof (cases r)
    case Nil
    then have "mem_at m s = NUL" using text_at_at [OF ta, of 0] by (simp add: mem_at_def)
    then show ?thesis
      using Nil d less.prems(4) by (subst realpath_loop.simps) (simp add: m_def walk.simps)
  next
    case (Cons c q)
    have c: "c \<noteq> NUL" "mem_at m s = c" using ta text_at_at [OF ta, of 0] by (auto simp: Cons text_at_def mem_at_def)
    have tq: "text_at m (s + 1) q" using ta text_at_Suc by (simp add: Cons)
    have at1: "mem_at m (s + 1) = mem_at q 0" using text_at_at [OF tq, of 0] by simp
    have nq: "NUL \<notin> set q" using tq by (auto simp: text_at_def)
    have e1: "ends_here q \<longleftrightarrow> mem_at m (s + 1) = CHR ''/'' \<or> mem_at m (s + 1) = NUL"
      unfolding at1 by (rule ends_here_at [OF nq])
    have at2: "mem_at m (s + 2) = mem_at (tl q) 0" and tq2: "text_at m (s + 2) (tl q)" if "q \<noteq> []"
      using text_at_at [OF tq, of 1] text_at_Suc [of m "s + 1" "hd q" "tl q"] tq that by (cases q; simp)+
    have e2: "ends_here (tl q) \<longleftrightarrow> mem_at m (s + 2) = CHR ''/'' \<or> mem_at m (s + 2) = NUL" if "q \<noteq> []"
      unfolding at2 [OF that] using nq that by (intro ends_here_at) (cases q; simp)
    have h1: "q \<noteq> [] \<and> hd q = x \<longleftrightarrow> mem_at m (s + 1) = x" if "x \<noteq> NUL" for x
      unfolding at1 using that by (cases q) auto
    have put: "take (d + 1) (a[d := x]) = take d a @ [x]" for x
      using d by (simp add: take_Suc_conv_app_nth)
    consider (slash) "c = CHR ''/''" "mem_at m (s + 1) \<noteq> CHR ''/''"
      | (slashes) "c = CHR ''/''" "mem_at m (s + 1) = CHR ''/''"
      | (dotdot) "c = CHR ''.''" "q \<noteq> []" "hd q = CHR ''.''" "ends_here (tl q)"
      | (dot) "c = CHR ''.''" "ends_here q"
      | (plain) "c \<noteq> CHR ''/''" "c = CHR ''.'' \<longrightarrow> \<not> ends_here q \<and> \<not> (q \<noteq> [] \<and> hd q = CHR ''.'' \<and> ends_here (tl q))"
      by blast
    then show ?thesis
    proof cases
      case slash
      then have "skip_slashes q = q" using h1 [of "CHR ''/''"] by (cases q) auto
      then have w: "walk r (take d a) = walk q (take d a @ [c])" by (subst Cons, subst walk.simps) (simp add: slash)
      have "realpath_loop file a s d = realpath_loop file (a[d := c]) (s + 1) (d + 1)"
        using slash c d by (subst realpath_loop.simps) (simp add: m_def [symmetric])
      with go [OF _ tq, of "a[d := c]" c "d + 1"] less.prems show ?thesis
        unfolding w put by (simp add: Cons)
    next
      case slashes
      define t where "t = behind_slashes m (s + 1)"
      have t1: "behind_slashes m (Suc s) = t" by (simp add: t_def)
      have h: "q \<noteq> []" "hd q = CHR ''/''" using h1 [of "CHR ''/''"] slashes(2) by auto
      have ts: "text_at m t (skip_slashes q)" unfolding t_def by (rule text_at_skip [OF tq])
      have tp: "t + length (skip_slashes q) = s + 1 + length q" unfolding t_def by (rule behind_slashes_pos [OF tq])
      have l: "length (skip_slashes q) < length q"
        using h by (cases q) (auto simp: less_Suc_eq_le length_dropWhile_le)
      then have st: "s + 1 < t" using tp by simp
      define w where "w = takeWhile (\<lambda>c. c = CHR ''/'') (drop (s + 1) m)"
      obtain k where k: "t = s + 2 + k" using st less_iff_Suc_add by auto
      then have lw: "length w = Suc k" by (simp add: t_def behind_slashes_def w_def)
      have "w ! k = CHR ''/''"
        using lw set_takeWhileD [OF nth_mem, of k "\<lambda>c. c = CHR ''/''" "drop (s + 1) m"] by (simp add: w_def)
      moreover have "w ! k = drop (s + 1) m ! k" using lw unfolding w_def by (intro takeWhile_nth) simp
      moreover have "s + 1 + k < length m"
        using lw length_takeWhile_le [of "\<lambda>c. c = CHR ''/''" "drop (s + 1) m"] by (simp add: w_def)
      ultimately have "mem_at m (t - 1) = CHR ''/''" by (simp add: mem_at_def k)
      then have "realpath_loop file a s d = realpath_loop file (a[d := c]) t (d + 1)"
        using slashes c d st t1 by (subst realpath_loop.simps) (simp add: m_def [symmetric] Let_def)
      moreover have w: "walk r (take d a) = walk (skip_slashes q) (take d a @ [c])"
        by (subst Cons, subst walk.simps) (simp add: slashes)
      ultimately show ?thesis
        using go [OF _ ts, of "a[d := c]" c "d + 1"] less.prems l tp st
        unfolding w put by (simp add: Cons)
    next
      case dotdot
      define t where "t = behind_slashes m (if mem_at m (s + 2) \<noteq> NUL then s + 3 else s + 2)"
      have t: "t = behind_slashes m (if mem_at m (s + 2) \<noteq> NUL then s + 2 + 1 else s + 2)"
        by (simp add: t_def eval_nat_numeral)
      note ts = skip_from [OF tq2 [OF dotdot(2)] dotdot(4) t]
      define e where "e = back_slash a (if d > 1 then d - 1 else d)"
      have e: "e \<le> d" using back_slash_le [of a "if d > 1 then d - 1 else d"] by (auto simp: e_def split: if_splits)
      have "realpath_loop file a s d = realpath_loop file a t e"
        using c d e2 h1 [of "CHR ''.''"] dotdot
        by (subst realpath_loop.simps) (simp add: m_def [symmetric] t_def e_def Let_def)
      moreover have "walk r (take d a) = walk (skip_slashes (tl q)) (take e a)"
        using dotdot d back_slash_parent [of d a] by (subst Cons, subst walk.simps) (simp add: e_def)
      moreover have "length (skip_slashes (tl q)) < length r"
        using length_dropWhile_le [of "\<lambda>c. c = CHR ''/''" "tl q"] by (simp add: Cons)
      moreover have "length (tl q) + 1 = length q" using dotdot(2) by (cases q) auto
      ultimately show ?thesis
        using go [of "skip_slashes (tl q)" t a undefined e] ts e less.prems by (auto simp: Cons)
    next
      case dot
      define t where "t = behind_slashes m (if mem_at m (s + 1) \<noteq> NUL then s + 2 else s + 1)"
      have t: "t = behind_slashes m (if mem_at m (s + 1) \<noteq> NUL then s + 1 + 1 else s + 1)"
        by (simp add: t_def)
      note ts = skip_from [OF tq dot(2) t]
      have nd: "mem_at m (s + 1) \<noteq> CHR ''.''" using dot(2) e1 by auto
      then have "realpath_loop file a s d = realpath_loop file a t d"
        using c d dot e1 by (subst realpath_loop.simps) (simp add: m_def [symmetric] t_def Let_def)
      moreover have "\<not> (q \<noteq> [] \<and> hd q = CHR ''.'')" using h1 [of "CHR ''.''"] nd by simp
      then have "walk r (take d a) = walk (skip_slashes q) (take d a)"
        using dot by (subst Cons, subst walk.simps) auto
      moreover have "length (skip_slashes q) < length r"
        using length_dropWhile_le [of "\<lambda>c. c = CHR ''/''" q] by (simp add: Cons)
      ultimately show ?thesis
        using go [of "skip_slashes q" t a undefined d] ts less.prems by (auto simp: Cons)
    next
      case plain
      then have w: "walk r (take d a) = walk q (take d a @ [c])" by (subst Cons, subst walk.simps) auto
      have n1: "\<not> (c = CHR ''/'' \<and> mem_at m (s + 1) = CHR ''/'')" and n0: "\<not> (d \<ge> PATH_MAX \<or> c = NUL)"
        using plain(1) c d by auto
      have n2: "\<not> (c = CHR ''.'' \<and> mem_at m (s + 1) = CHR ''.'' \<and> (mem_at m (s + 2) = CHR ''/'' \<or> mem_at m (s + 2) = NUL))"
        using plain(2) h1 [of "CHR ''.''"] e2 by auto
      have n3: "\<not> (c = CHR ''.'' \<and> (mem_at m (s + 1) = CHR ''/'' \<or> mem_at m (s + 1) = NUL))"
        using plain(2) e1 by auto
      have "realpath_loop file a s d = realpath_loop file (a[d := c]) (s + 1) (d + 1)"
        by (subst realpath_loop.simps, unfold Let_def m_def [symmetric]) (simp only: c(2) n0 n1 n2 n3 if_False)
      with go [OF _ tq, of "a[d := c]" c "d + 1"] less.prems show ?thesis
        unfolding w put by (simp add: Cons)
    qed
  qed
qed


lemma back_slash_one: "back_slash a 0 = 0" by (simp add: back_slash.simps)

fun strip :: "string \<Rightarrow> string" where
  "strip out = (if length out > 2 \<and> last out = CHR ''/'' then strip (butlast out) else out)"

declare strip.simps [simp del]

lemma strip_trailing_strip:
  "d < length a \<Longrightarrow> NUL \<notin> set (take d a) \<Longrightarrow> cstr (strip_trailing (a[d := NUL]) d) = strip (take d a)"
proof (induction d arbitrary: a)
  case 0
  then show ?case by (subst strip_trailing.simps, subst strip.simps) (cases a; simp add: cstr_def)
next
  case (Suc d)
  have tk: "take (Suc d) a = take d a @ [a ! d]" using Suc.prems by (simp add: take_Suc_nth)
  show ?case
  proof (cases "d > 1 \<and> a ! d = CHR ''/''")
    case True
    define b where "b = a[Suc d := NUL]"
    have b: "d < length b" "take d b = take d a" using Suc.prems by (auto simp: b_def)
    have "strip_trailing (a[Suc d := NUL]) (Suc d) = strip_trailing (b[d := NUL]) d"
      using True Suc.prems by (subst strip_trailing.simps) (simp add: b_def)
    also have "cstr \<dots> = strip (take d a)"
      using Suc.IH [OF b(1)] Suc.prems(2) by (simp add: b(2) tk)
    also have "\<dots> = strip (take (Suc d) a)"
      using True Suc.prems(1) tk by (subst (2) strip.simps) simp
    finally show ?thesis .
  next
    case False
    have "strip_trailing (a[Suc d := NUL]) (Suc d) = a[Suc d := NUL]"
      using False Suc.prems(1) by (subst strip_trailing.simps) auto
    moreover have "cstr (a[Suc d := NUL]) = take (Suc d) a"
    proof -
      have "a[Suc d := NUL] = take (Suc d) a @ NUL # drop (Suc (Suc d)) a"
        using Suc.prems(1) by (rule upd_conv_take_nth_drop)
      then show ?thesis using Suc.prems(2) by (simp add: cstr_def takeWhile_append takeWhile_no)
    qed
    moreover have "strip (take (Suc d) a) = take (Suc d) a"
      using False Suc.prems(1) tk by (subst strip.simps) auto
    ultimately show ?thesis by simp
  qed
qed

text \<open>
  The reference: the components of the name, with \<^verbatim>\<open>.\<close> left out and \<^verbatim>\<open>..\<close> taking the one before
  away.
\<close>

fun resolve :: "string list \<Rightarrow> string list \<Rightarrow> string list" where
  "resolve st [] = st"
| "resolve st (c # cs) =
     (if c = ''.'' then resolve st cs
      else if c = ''..'' then resolve (butlast st) cs
      else resolve (st @ [c]) cs)"

definition dotted :: "string \<Rightarrow> bool" where
  "dotted c \<longleftrightarrow> c \<noteq> [] \<and> last c = CHR ''.'' \<and> c \<noteq> ''.'' \<and> c \<noteq> ''..''"

definition dirs_text :: "string list \<Rightarrow> string" where
  "dirs_text st = CHR ''/'' # concat (map (\<lambda>c. c @ ''/'') st)"

lemma dirs_text_snoc: "dirs_text (st @ [c]) = dirs_text st @ c @ ''/''"
  by (simp add: dirs_text_def)

lemma dirs_text_last [simp]: "dirs_text st \<noteq> []" "last (dirs_text st) = CHR ''/''"
  by (cases st rule: rev_cases; simp add: dirs_text_def)+

lemma to_slash_append:
  "CHR ''/'' \<notin> set c \<Longrightarrow> dir \<noteq> [] \<Longrightarrow> last dir = CHR ''/'' \<Longrightarrow> to_slash (dir @ c) = dir"
proof (induction c rule: rev_induct)
  case (snoc x c)
  then show ?case by (subst to_slash.simps) (auto simp: butlast_append)
qed (subst to_slash.simps, simp)

lemma parent_dirs: "\<forall>c \<in> set st. CHR ''/'' \<notin> set c \<Longrightarrow> parent (dirs_text st) = dirs_text (butlast st)"
proof (cases st rule: rev_cases)
  case Nil
  then show ?thesis by (simp add: parent_def dirs_text_def to_slash.simps)
next
  case (snoc st' c)
  assume "\<forall>c \<in> set st. CHR ''/'' \<notin> set c"
  then have "to_slash (dirs_text st' @ c) = dirs_text st'"
    by (intro to_slash_append) (auto simp: snoc)
  then show ?thesis by (simp add: snoc parent_def dirs_text_snoc butlast_append dirs_text_def)
qed

lemma walk_copy:
  "CHR ''/'' \<notin> set c \<Longrightarrow> c \<noteq> [] \<Longrightarrow> last c \<noteq> CHR ''.'' \<Longrightarrow> walk (c @ r) dst = walk r (dst @ c)"
proof (induction c arbitrary: dst)
  case (Cons x c)
  show ?case
  proof (cases "c = []")
    case True
    with Cons.prems show ?thesis by (simp add: walk.simps)
  next
    case False
    then have "\<not> ends_here (c @ r)" using Cons.prems by (cases c) (auto simp: ends_here_def)
    moreover have "\<not> (hd (c @ r) = CHR ''.'' \<and> ends_here (tl (c @ r)))"
      using False Cons.prems by (cases c; cases "tl c") (auto simp: ends_here_def)
    ultimately have "walk ((x # c) @ r) dst = walk (c @ r) (dst @ [x])"
      using Cons.prems by (subst append_Cons, subst walk.simps) auto
    with Cons False show ?thesis by simp
  qed
qed simp


lemma strip_id: "c \<noteq> [] \<Longrightarrow> last c \<noteq> CHR ''/'' \<Longrightarrow> strip (dirs_text st @ c) = dirs_text st @ c"
  by (subst strip.simps) auto

lemma dirs_text_join: "st \<noteq> [] \<Longrightarrow> dirs_text st = CHR ''/'' # join CHR ''/'' st @ ''/''"
  by (induction "CHR ''/''" st rule: join.induct) (auto simp: dirs_text_def)

lemma strip_dirs:
  assumes "\<forall>c \<in> set st. c \<noteq> [] \<and> CHR ''/'' \<notin> set c"
  shows "strip (dirs_text st) = CHR ''/'' # join CHR ''/'' st"
proof (cases st rule: rev_cases)
  case Nil
  then show ?thesis by (subst strip.simps) (simp add: dirs_text_def)
next
  case (snoc st' c)
  then have c: "c \<noteq> []" "last c \<noteq> CHR ''/''" using assms by (auto dest: last_in_set)
  have "strip ((dirs_text st' @ c) @ ''/'') = strip (dirs_text st' @ c)"
  proof -
    have "0 < length (dirs_text st')" "0 < length c" using c by auto
    then have "length ((dirs_text st' @ c) @ ''/'') > 2" unfolding length_append list.size by linarith
    then show ?thesis by (subst strip.simps) (simp only: last_snoc butlast_snoc simp_thms if_True)
  qed
  then have "strip (dirs_text st) = strip (dirs_text st' @ c)" by (simp add: snoc dirs_text_snoc)
  also have "\<dots> = dirs_text st' @ c" using c by (rule strip_id)
  also have "\<dots> = CHR ''/'' # join CHR ''/'' st"
    using dirs_text_join [of st] append_same_eq [of "dirs_text st' @ c" "''/''"] by (simp only: snoc dirs_text_snoc append_assoc append_Cons) simp
  finally show ?thesis .
qed

lemma tokens_skip [simp]: "tokens CHR ''/'' (skip_slashes r) = tokens CHR ''/'' r"
  by (induction r) auto

lemma ends_here_skip: "skip_slashes r = [] \<or> hd (skip_slashes r) \<noteq> CHR ''/''"
  by (induction r) auto

text \<open>The components in front of the loop, one after the other.\<close>

lemma walk_resolve:
  assumes "\<forall>c \<in> set (tokens CHR ''/'' r). \<not> dotted c" "r = [] \<or> hd r \<noteq> CHR ''/''"
    and "\<forall>c \<in> set st. c \<noteq> [] \<and> CHR ''/'' \<notin> set c"
  shows "strip (walk r (dirs_text st)) = CHR ''/'' # join CHR ''/'' (resolve st (tokens CHR ''/'' r))"
  using assms
proof (induction "length r" arbitrary: r st rule: less_induct)
  case less
  show ?case
  proof (cases "r = []")
    case True
    then show ?thesis using strip_dirs [OF less.prems(3)] by (simp add: walk.simps)
  next
    case False
    define c where "c = takeWhile (\<lambda>x. x \<noteq> CHR ''/'') r"
    define q where "q = dropWhile (\<lambda>x. x \<noteq> CHR ''/'') r"
    have r: "r = c @ q" by (simp add: c_def q_def)
    have c: "c \<noteq> []" "CHR ''/'' \<notin> set c"
      using False less.prems(2) by (cases r; auto simp: c_def dest: set_takeWhileD)+
    have q: "ends_here q" 
      using hd_dropWhile [of "\<lambda>x. x \<noteq> CHR ''/''" r] by (auto simp: ends_here_def q_def)
    have tk: "tokens CHR ''/'' r = c # tokens CHR ''/'' q"
    proof (cases q)
      case Nil
      then show ?thesis using c by (simp add: r tokens_single)
    next
      case (Cons x q')
      then show ?thesis using c q by (simp add: r tokens_append_sep ends_here_def)
    qed
    have nd: "\<not> dotted c" and qd: "\<forall>x \<in> set (tokens CHR ''/'' (skip_slashes q)). \<not> dotted x"
      using less.prems(1) by (auto simp: tk)
    have len: "length (skip_slashes q) < length r"
      using length_dropWhile_le [of "\<lambda>c. c = CHR ''/''" q] c(1) by (cases c) (auto simp: r)
    note IH = less.hyps [OF len qd ends_here_skip, unfolded tokens_skip]
    consider "c = ''.''" | "c = ''..''" | (name) "c \<noteq> ''.''" "c \<noteq> ''..''" by blast
    then show ?thesis
    proof cases
      case 1
      have "walk r (dirs_text st) = walk (skip_slashes q) (dirs_text st)"
        using q by (simp add: r 1 walk.simps) (auto simp: ends_here_def)
      then show ?thesis using IH [OF less.prems(3)] by (simp add: tk 1)
    next
      case 2
      have "walk r (dirs_text st) = walk (skip_slashes q) (dirs_text (butlast st))"
        using q less.prems(3) by (simp add: r 2 walk.simps parent_dirs)
      then show ?thesis using IH [of "butlast st"] less.prems(3) by (auto simp: tk 2 dest: in_set_butlastD)
    next
      case name
      then have l: "last c \<noteq> CHR ''.''" using nd c by (simp add: dotted_def)
      have w: "walk r (dirs_text st) = walk q (dirs_text st @ c)"
        unfolding r by (rule walk_copy [OF c(2,1) l])
      show ?thesis
      proof (cases q)
        case Nil
        have "dirs_text st @ c = CHR ''/'' # join CHR ''/'' (st @ [c])"
          using dirs_text_join [of "st @ [c]"] by (simp add: dirs_text_snoc)
        moreover have "strip (dirs_text st @ c) = dirs_text st @ c"
          using c by (intro strip_id) (auto dest: last_in_set)
        ultimately show ?thesis using name by (simp add: w Nil tk walk.simps)
      next
        case (Cons x q')
        then have "walk r (dirs_text st) = walk (skip_slashes q) (dirs_text (st @ [c]))"
          using q by (simp add: w ends_here_def walk.simps dirs_text_snoc)
        then show ?thesis using IH [of "st @ [c]"] less.prems(3) c name by (auto simp: tk)
      qed
    qed
  qed
qed


definition absolute_name :: "string \<Rightarrow> string \<Rightarrow> string" where
  "absolute_name dir file = (if mem_at file 0 = CHR ''/'' then file else dir @ ''/'' @ file)"

definition canonical :: "string \<Rightarrow> string \<Rightarrow> string" where
  "canonical dir file = CHR ''/'' # join CHR ''/'' (resolve [] (tokens CHR ''/'' (absolute_name dir file)))"

definition regular_name :: "string \<Rightarrow> string \<Rightarrow> bool" where
  "regular_name dir file \<longleftrightarrow>
     (let n = absolute_name dir file
      in NUL \<notin> set n \<and> hd n = CHR ''/'' \<and> length n < PATH_MAX \<and> \<not> list_ex dotted (tokens CHR ''/'' n))"

lemma walk_no_nul: "NUL \<notin> set r \<Longrightarrow> NUL \<notin> set dst \<Longrightarrow> NUL \<notin> set (walk r dst)"
proof (induction r dst rule: walk.induct)
  case (2 c src dst)
  have s: "NUL \<notin> set (skip_slashes src)" "NUL \<notin> set (skip_slashes (tl src))"
    using "2.prems"(1) by (auto dest: set_dropWhileD list.set_sel(2) [rotated])
      (metis list.sel(2) list.set_sel(2) set_dropWhileD)+
  have t: "NUL \<notin> set (to_slash x)" if "NUL \<notin> set x" for x
    using that by (induction x rule: to_slash.induct) (subst to_slash.simps, auto dest: in_set_butlastD)
  have "NUL \<notin> set (parent dst)"
    unfolding parent_def by (rule t) (use "2.prems"(2) in \<open>auto dest: in_set_butlastD\<close>)
  with "2.IH" "2.prems" s show ?case by (subst walk.simps) auto
qed (simp add: walk.simps)

lemma canonical_name_walk:
  assumes "absolute_source (Some dir) file old = Some (src, a)" "length old = PATH_MAX"
    and n: "NUL \<notin> set (absolute_name dir file)" "length (absolute_name dir file) < PATH_MAX"
  shows "sort_of_realpath (Some dir) file old = Some (strip (walk (absolute_name dir file) []))"
proof -
  let ?n = "absolute_name dir file"
  have m: "text_at (case src of None \<Rightarrow> a | Some f \<Rightarrow> f) 0 ?n" "length a = PATH_MAX"
    using assms by (auto simp: absolute_source_def absolute_name_def text_at_def Let_def split: if_splits)
  obtain a' d' where r: "realpath_loop src a 0 0 = (a', d')" "d' < PATH_MAX" "length a' = PATH_MAX"
      "take d' a' = walk ?n []"
    using realpath_loop_walk [OF m(1), of 0] m(2) n(2) by auto
  have "NUL \<notin> set (take d' a')" unfolding r(4) using n(1) by (intro walk_no_nul) auto
  then have "cstr (strip_trailing (a'[d' := NUL]) d') = strip (walk ?n [])"
    using strip_trailing_strip [of d' a'] r by simp
  then show ?thesis using assms(1) r by (simp add: sort_of_realpath_def)
qed

lemma canonical_walk:
  assumes "hd n = CHR ''/''" "n \<noteq> []" "\<forall>c \<in> set (tokens CHR ''/'' n). \<not> dotted c"
  shows "strip (walk n []) = CHR ''/'' # join CHR ''/'' (resolve [] (tokens CHR ''/'' n))"
proof -
  obtain q where q: "n = CHR ''/'' # q" using assms(1,2) by (cases n) auto
  have "walk n [] = walk (skip_slashes q) (dirs_text [])" by (simp add: q walk.simps dirs_text_def)
  then show ?thesis
    using walk_resolve [of "skip_slashes q" "[]"] assms(3) ends_here_skip [of q] by (simp add: q)
qed

lemma realpath_canonical:
  assumes "regular_name dir file" "length old = PATH_MAX"
  shows "sort_of_realpath (Some dir) file old = Some (canonical dir file)"
proof -
  have n: "NUL \<notin> set (absolute_name dir file)" "hd (absolute_name dir file) = CHR ''/''"
      "length (absolute_name dir file) < PATH_MAX" "\<forall>c \<in> set (tokens CHR ''/'' (absolute_name dir file)). \<not> dotted c"
    using assms(1) by (auto simp: regular_name_def Let_def list_ex_iff)
  have "absolute_source (Some dir) file old \<noteq> None" by (simp add: absolute_source_def Let_def)
  then obtain src a where s: "absolute_source (Some dir) file old = Some (src, a)" by auto
  have "absolute_name dir file \<noteq> []" by (auto simp: absolute_name_def mem_at_def)
  with canonical_name_walk [OF s assms(2) n(1,3)] canonical_walk [OF n(2) _ n(4)] show ?thesis
    by (simp add: canonical_def)
qed

text \<open>
  C4: the in-place rewriting of a name, absolute or relative to the current directory, gives the list of its components with
  \<^verbatim>\<open>.\<close> and doubled slashes left out and \<^verbatim>\<open>..\<close> resolved, whatever the buffer held before.  The conditions: the absolute name
  is shorter than the buffer, and no component but \<^verbatim>\<open>.\<close> and \<^verbatim>\<open>..\<close> ends in a dot, since such a component loses the dot
  (\<open>trailing_dot_logged\<close>: \<^verbatim>\<open>/a/foo.\<close> is logged as \<^verbatim>\<open>/a/foo\<close>).
\<close>

theorem canonical_name:
  assumes "regular_name dir file" "length old = PATH_MAX"
  shows "sort_of_realpath (Some dir) file old = Some (canonical dir file)"
  using assms by (rule realpath_canonical)

lemma tokens_slash_eval:
  "tokens CHR ''/'' ''/usr/src/t2/./lib//../x.c'' = [''usr'', ''src'', ''t2'', ''.'', ''lib'', ''..'', ''x.c'']"
  by (simp add: tokens_def)

theorem canonical_name_witness:
  "sort_of_realpath (Some ''/usr/src'') ''t2/./lib//../x.c'' (replicate PATH_MAX CHR ''z'') = Some ''/usr/src/t2/x.c''"
proof -
  have f: "absolute_name ''/usr/src'' ''t2/./lib//../x.c'' = ''/usr/src/t2/./lib//../x.c''"
    by (simp add: absolute_name_def mem_at_def)
  have "regular_name ''/usr/src'' ''t2/./lib//../x.c''"
    unfolding regular_name_def f tokens_slash_eval Let_def by (simp add: PATH_MAX_def dotted_def)
  moreover have "canonical ''/usr/src'' ''t2/./lib//../x.c'' = ''/usr/src/t2/x.c''"
    unfolding canonical_def f tokens_slash_eval by simp
  ultimately show ?thesis using canonical_name [of "''/usr/src''" _ "replicate PATH_MAX CHR ''z''"] by simp
qed

text \<open>What the condition is for: the last dot of a component is taken for a component.\<close>

lemma dot_at_end_lost: "strip (walk ''/a/foo.'' []) = ''/a/foo''" "strip (walk ''/a/b./c'' []) = ''/a/bc''"
  "strip (walk ''/a/b../c'' []) = ''/a/c''"
  by (simp_all add: walk.simps strip.simps ends_here_def parent_def to_slash.simps)

lemma trailing_dot_logged:
  assumes "length old = PATH_MAX"
  shows "sort_of_realpath (Some dir) ''/a/foo.'' old = Some ''/a/foo''"
    and "sort_of_realpath (Some dir) ''/a/b./c'' old = Some ''/a/bc''"
    and "sort_of_realpath (Some dir) ''/a/b../c'' old = Some ''/a/c''"
  using canonical_name_walk [of dir "''/a/foo.''" old] canonical_name_walk [of dir "''/a/b./c''" old]
    canonical_name_walk [of dir "''/a/b../c''" old] assms
  by (simp_all add: absolute_source_def absolute_name_def PATH_MAX_def dot_at_end_lost)

section \<open>The generator\<close>

text \<open>
  \<open>add_wrapper\<close> of the script takes a line such as \<^verbatim>\<open>int, openat, int atfd, const char* f, int a, ...\<close>
  apart.  \<open>params\<close> are the parameters as they are printed into the head of the C function, \<open>names\<close> the
  arguments of the call of the original function, \<open>at_names\<close> the parameters that are checked for a
  directory.
\<close>

record wrapper =
  ret_type :: string
  func :: string
  params :: "string list"
  names :: "string list"
  at_names :: "string list"

definition strip_right :: "string \<Rightarrow> string" where
  "strip_right s = rev (dropWhile (\<lambda>c. c = CHR '' '') (rev s))"

definition strip_left :: "string \<Rightarrow> string" where
  "strip_left s = dropWhile (\<lambda>c. c = CHR '' '') s"

text \<open>\<^verbatim>\<open>sed 's/ *, */,/g'\<close> and the splitting at commas.\<close>

fun sed_commas :: "string list \<Rightarrow> string list" where
  "sed_commas (p # q # ps) = strip_right p # sed_commas (strip_left q # ps)"
| "sed_commas ps = ps"

text \<open>\<^verbatim>\<open>${x%%\[*\]}\<close> and \<^verbatim>\<open>${x##* }\<close>\<close>

definition cut_array :: "string \<Rightarrow> string" where
  "cut_array x = (if suffix '']'' x \<and> CHR ''['' \<in> set x then takeWhile (\<lambda>c. c \<noteq> CHR ''['') x else x)"

definition last_word :: "string \<Rightarrow> string" where
  "last_word x = rev (takeWhile (\<lambda>c. c \<noteq> CHR '' '') (rev x))"

definition is_open :: "string \<Rightarrow> bool" where "is_open f = prefix ''open'' f"
definition is_exec :: "string \<Rightarrow> bool" where "is_exec f = prefix ''exec'' f"

definition add_wrapper :: "string \<Rightarrow> wrapper option" where
  "add_wrapper line =
     (case sed_commas (pieces CHR '','' line) of
        r # f # ps \<Rightarrow>
          (let ns = map (\<lambda>x. last_word (cut_array x)) ps
           in Some \<lparr>ret_type = r, func = f, params = ps,
                    names = (if is_open f \<and> ns \<noteq> [] \<and> last ns = ''...'' then butlast ns else ns),
                    at_names = map last_word (filter (suffix ''atfd'') ps)\<rparr>)
      | _ \<Rightarrow> None)"

definition wrapper_lines :: "string list" where
  "wrapper_lines =
    [''int,   open,    const char* f, int a, ...'',
     ''int,   open64,  const char* f, int a, ...'',
     ''int,   openat,  int atfd, const char* f, int a, ...'',
     ''int,   openat64,int atfd, const char* f, int a, ...'',
     ''FILE*, fopen,   const char* f, const char* g'',
     ''FILE*, fopen64, const char* f, const char* g'',
     ''int,   creat,   const char* f, mode_t m'',
     ''int,   creat64, const char* f, mode_t m'',
     ''int,   mkdir,   const char* f, mode_t m'',
     ''int,   mkfifo,  const char* f, mode_t m'',
     ''int,   mknod,   const char* f, mode_t m, dev_t d'',
     ''int,   __xmknod, int ver, const char* f, mode_t m, dev_t* d'',
     ''int,   link,    const char* s, const char* f'',
     ''int,   linkat,  int atfd, const char* s, int atfd2, const char* f, int flags'',
     ''int,   symlink, const char* s, const char* f'',
     ''int,   symlinkat, const char* s, int atfd, const char* f'',
     ''int,   rename,  const char* s, const char* f'',
     ''int,   renameat,  int atfds, const char* s, int atfd, const char* f'',
     ''int,   renameat2, int atfds, const char* s, int atfd, const char* f, unsigned int flags'',
     ''int,   utime,   const char* f, const struct utimbuf* t'',
     ''int,   utimes,  const char* f, struct timeval* t'',
     ''int,   utimensat, int atfd, const char* f, const struct timespec t[2], int flags'',
     ''int,   execv,   const char* f, char* const a[]'',
     ''int,   execve,  const char* f, char* const a[], char* const e[]'']"

definition wrappers :: "wrapper list" where
  "wrappers = List.map_filter add_wrapper wrapper_lines"

section \<open>The process and the system\<close>

text \<open>
  What the library asks of the system is the record \<open>system\<close> over an abstract state of the kernel:
  \<open>original f args e k\<close> is the function of the C library (return value, error number, new state) when
  it is called with the error number \<open>e\<close>.  \<open>lstat\<close> and \<open>readlink\<close> give an error number when they
  fail.  The state of the process is what the library keeps or changes; a run may also \<open>Abort\<close> the
  process or be undefined.
\<close>

record status_t =
  inode :: int
  st_size :: int
  mtime :: int
  ctime :: int

datatype arg = Null | Text string | Number int | Address int

record 'k system =
  lstat :: "string \<Rightarrow> 'k \<Rightarrow> status_t + int"
  getcwd :: "'k \<Rightarrow> string option"
  readlink :: "string \<Rightarrow> 'k \<Rightarrow> string + int"
  original :: "string \<Rightarrow> arg list \<Rightarrow> int \<Rightarrow> 'k \<Rightarrow> int \<times> int \<times> 'k"
  write_fd :: "int \<Rightarrow> string \<Rightarrow> 'k \<Rightarrow> int \<times> 'k"
  close_fd :: "int \<Rightarrow> 'k \<Rightarrow> int \<times> 'k"
  libc_opens :: bool
  libc_symbol :: "string \<Rightarrow> bool"
  old_memory :: string
  old_status :: status_t

record 'k process =
  kernel :: 'k
  errno :: int
  known :: "string list"
  libc_handle :: bool
  messages :: "string list"

datatype ('k, 'a) run = Done 'a "'k process" | Abort "'k process" | Undefined

fun andthen :: "('k, 'a) run \<Rightarrow> ('a \<Rightarrow> 'k process \<Rightarrow> ('k, 'b) run) \<Rightarrow> ('k, 'b) run" where
  "andthen (Done x p) f = f x p"
| "andthen (Abort p) f = Abort p"
| "andthen Undefined f = Undefined"

text \<open>The static data \<open>fl_wrapper_init\<close> fills in; \<open>filterdir\<close> is the whole array.\<close>

record library =
  initialized :: bool
  cmdname :: string
  wlog :: string
  rlog :: string
  filterdir :: string

definition say :: "string \<Rightarrow> 'k process \<Rightarrow> 'k process" where
  "say m p = p\<lparr>messages := messages p @ [m]\<rparr>"

definition get_dl_symbol :: "('k, 'z) system_scheme \<Rightarrow> string \<Rightarrow> 'k process \<Rightarrow> ('k, unit) run" where
  "get_dl_symbol sys symname p =
     (if \<not> libc_handle p \<and> \<not> libc_opens sys then Abort (say ''Can't dlopen libc'' p)
      else let p = p\<lparr>libc_handle := True\<rparr> in
        if libc_symbol sys symname then Done () p else Abort (say (''Can't resolve '' @ symname) p))"

definition find_original :: "('k, 'z) system_scheme \<Rightarrow> string \<Rightarrow> 'k process \<Rightarrow> ('k, unit) run" where
  "find_original sys f p =
     (if f \<in> set (known p) then Done () p
      else andthen (get_dl_symbol sys f p) (\<lambda>_ p. Done () (p\<lparr>known := f # known p\<rparr>)))"

text \<open>
  \<open>getatpath\<close>: the directory behind a descriptor with the name appended.  \<^verbatim>\<open>strncat\<close> bounds what
  it appends, not the whole: \<open>Undefined\<close> when that is too long.
\<close>

definition getatpath :: "('k, 'z) system_scheme \<Rightarrow> int \<Rightarrow> string option \<Rightarrow> 'k process \<Rightarrow> ('k, string option) run" where
  "getatpath sys dirfd pathname p =
     (case readlink sys (''/proc/self/fd/'' @ show_int dirfd) (kernel p) of
        Inr e \<Rightarrow> Done pathname (say ''Failed to get atpath'' (p\<lparr>errno := e\<rparr>))
      | Inl t \<Rightarrow>
          (let dir = take (PATH_MAX - 1) t;
               name = (case pathname of None \<Rightarrow> dir | Some q \<Rightarrow> dir @ ''/'' @ take (PATH_MAX - 1) q)
           in if length name < PATH_MAX then Done (Some name) p else Undefined))"

section \<open>Before and after an access\<close>

definition no_status :: status_t where
  "no_status = \<lparr>inode = 0, st_size = 0, mtime = 0, ctime = 0\<rparr>"

definition EFAULT :: int where "EFAULT = 14"

definition lstat_name :: "('k, 'z) system_scheme \<Rightarrow> string option \<Rightarrow> 'k process \<Rightarrow> status_t + int" where
  "lstat_name sys file p = (case file of None \<Rightarrow> Inr EFAULT | Some f \<Rightarrow> lstat sys f (kernel p))"

definition handle_file_access_before ::
  "('k, 'z) system_scheme \<Rightarrow> library \<Rightarrow> string option \<Rightarrow> 'k process \<Rightarrow> ('k, status_t) run" where
  "handle_file_access_before sys lib file p =
     (if \<not> initialized lib then Done (old_status sys) p
      else case lstat_name sys file p of
             Inr e \<Rightarrow> Done no_status (p\<lparr>errno := e\<rparr>)
           | Inl st \<Rightarrow> Done st p)"

text \<open>
  The directories that are not logged: the strings that follow each other in the array up to an
  empty one.  \<open>None\<close>: the array holds no end.
\<close>

function filtered :: "string \<Rightarrow> string \<Rightarrow> bool option" where
  "filtered absfile m =
     (if NUL \<notin> set m then None
      else let tfilterdir = cstr m in
        if tfilterdir = [] then Some False
        else if prefix tfilterdir absfile then Some True
        else filtered absfile (drop (length tfilterdir + 1) m))"
  by pat_completeness auto
termination
proof (relation "measure (\<lambda>(a, m). length m)", goal_cases)
  case (2 absfile m x)
  then show ?case by (cases m) auto
qed simp

declare filtered.simps [simp del]

definition access_line :: "library \<Rightarrow> string \<Rightarrow> string \<Rightarrow> string" where
  "access_line lib f absfile =
     take (PATH_MAX - 1) (cmdname lib @ ''.'' @ f @ '':'' @ [CHR 0x09] @ absfile @ ''\<newline>'')"

text \<open>
  \<open>handle_file_access_after\<close>; \<open>status\<close> is \<open>None\<close> for the null pointer.  \<open>open_log\<close> stands for the
  call of \<^verbatim>\<open>open64\<close>, which is a function of this library again.
\<close>

definition after_access ::
  "('k, 'z) system_scheme \<Rightarrow> library \<Rightarrow> (string \<Rightarrow> 'k process \<Rightarrow> ('k, int) run) \<Rightarrow> string \<Rightarrow>
   string option \<Rightarrow> status_t option \<Rightarrow> 'k process \<Rightarrow> ('k, unit) run" where
  "after_access sys lib open_log f file status p =
     (if \<not> initialized lib then Done () p
      else case file of
        None \<Rightarrow> Undefined
      | Some fl \<Rightarrow>
          (if fl = wlog lib \<or> fl = rlog lib then Done () p
           else case lstat sys fl (kernel p) of
             Inr e \<Rightarrow> Done () (p\<lparr>errno := e\<rparr>)
           | Inl st \<Rightarrow>
               (let logfile = (if status \<noteq> None \<and> status \<noteq> Some st then wlog lib else rlog lib) in
                case sort_of_realpath (getcwd sys (kernel p)) fl (old_memory sys) of
                  None \<Rightarrow> Undefined
                | Some absfile \<Rightarrow>
                    (case filtered absfile (filterdir lib) of
                       None \<Rightarrow> Undefined
                     | Some True \<Rightarrow> Done () p
                     | Some False \<Rightarrow>
                         andthen (open_log logfile p) (\<lambda>fd p.
                           if fd = -1 then Done () p
                           else let (e, k) = write_fd sys fd (access_line lib f absfile) (kernel p);
                                    (e', k') = close_fd sys fd k
                                in Done () (p\<lparr>kernel := k', errno := e'\<rparr>))))))"

section \<open>The wrapper functions\<close>

definition O_WRONLY :: int where "O_WRONLY = 1"
definition O_CREAT :: int where "O_CREAT = 64"
definition O_APPEND :: int where "O_APPEND = 1024"
definition O_LARGEFILE :: int where "O_LARGEFILE = 0"
definition AT_FDCWD :: int where "AT_FDCWD = -100"

lemmas open_flags = O_WRONLY_def O_CREAT_def O_APPEND_def O_LARGEFILE_def

text \<open>\<open>check_write_access\<close>, with \<open>base\<close> for \<^verbatim>\<open>FLWRAPPER_BASEDIR\<close>: \<open>False\<close> aborts the process.\<close>

definition write_allowed :: "string \<Rightarrow> string \<Rightarrow> bool" where
  "write_allowed base file =
     (if mem_at file 0 = CHR ''/'' then
        (let f = CHR ''/'' # skip_slashes (tl file)
         in f = ''/dev/null'' \<or> prefix ''/dev/fd/'' f \<or> prefix ''/tmp'' f \<or> prefix base f)
      else True)"

definition check_write_access :: "string option \<Rightarrow> string option \<Rightarrow> 'k process \<Rightarrow> ('k, unit) run" where
  "check_write_access base file p =
     (case base of
        None \<Rightarrow> Done () p
      | Some b \<Rightarrow>
          (case file of
             None \<Rightarrow> Undefined
           | Some f \<Rightarrow> if write_allowed b f then Done () p else Abort (say (''write outside basedir: '' @ f) p)))"

text \<open>
  A call of a wrapper function gives values to the parameters by their names; the name \<^verbatim>\<open>...\<close> is
  the argument behind the named ones.
\<close>

type_synonym call = "string \<Rightarrow> arg"

definition text_arg :: "arg \<Rightarrow> string option" where
  "text_arg a = (case a of Text s \<Rightarrow> Some s | _ \<Rightarrow> None)"

definition number_arg :: "arg \<Rightarrow> int" where
  "number_arg a = (case a of Number n \<Rightarrow> n | _ \<Rightarrow> 0)"

text \<open>The checks \<^verbatim>\<open>if (atfd != AT_FDCWD) {f2 = getatpath(atfd, f);}\<close>, one after the other.\<close>

fun at_checks ::
  "('k, 'z) system_scheme \<Rightarrow> call \<Rightarrow> string list \<Rightarrow> string option \<Rightarrow> 'k process \<Rightarrow> ('k, string option) run" where
  "at_checks sys c [] f2 p = Done f2 p"
| "at_checks sys c (x # xs) f2 p =
     (if number_arg (c x) \<noteq> AT_FDCWD
      then andthen (getatpath sys (number_arg (c x)) (text_arg (c ''f'')) p) (at_checks sys c xs)
      else at_checks sys c xs f2 p)"

type_synonym 'k after = "string \<Rightarrow> string option \<Rightarrow> status_t option \<Rightarrow> 'k process \<Rightarrow> ('k, unit) run"

text \<open>From \<open>handle_file_access_before\<close> to the return, with the error number \<open>old_errno\<close>.\<close>

definition call_original ::
  "('k, 'z) system_scheme \<Rightarrow> library \<Rightarrow> 'k after \<Rightarrow> string \<Rightarrow> arg list \<Rightarrow> string option \<Rightarrow> int \<Rightarrow>
   'k process \<Rightarrow> ('k, int) run" where
  "call_original sys lib after f args f2 old_errno p =
     andthen (handle_file_access_before sys lib f2 p) (\<lambda>status p.
     andthen (find_original sys f p) (\<lambda>_ p.
     case original sys f args old_errno (kernel p) of
       (rc, e, k) \<Rightarrow>
         andthen (after f f2 (Some status) (p\<lparr>errno := e, kernel := k\<rparr>)) (\<lambda>_ p.
         Done rc (p\<lparr>errno := e\<rparr>))))"

definition wrap_open ::
  "('k, 'z) system_scheme \<Rightarrow> library \<Rightarrow> string option \<Rightarrow> 'k after \<Rightarrow> wrapper \<Rightarrow> call \<Rightarrow> 'k process \<Rightarrow> ('k, int) run" where
  "wrap_open sys lib base after w c p =
     andthen (at_checks sys c (at_names w) (text_arg (c ''f'')) p) (\<lambda>f2 q.
     andthen (if number_arg (c ''a'') AND (O_WRONLY OR O_CREAT OR O_APPEND) \<noteq> 0
              then check_write_access base f2 q else Done () q) (\<lambda>_ q.
     call_original sys lib after (func w)
       (map c (names w) @ (if number_arg (c ''a'') AND O_CREAT \<noteq> 0 then [c ''...''] else []))
       f2 (errno p) q))"

definition wrap_exec ::
  "('k, 'z) system_scheme \<Rightarrow> 'k after \<Rightarrow> wrapper \<Rightarrow> call \<Rightarrow> 'k process \<Rightarrow> ('k, int) run" where
  "wrap_exec sys after w c p =
     andthen (after (func w) (text_arg (c ''f'')) None p) (\<lambda>_ q.
     andthen (find_original sys (func w) q) (\<lambda>_ q.
     case original sys (func w) (map c (names w)) (errno p) (kernel q) of
       (rc, e, k) \<Rightarrow> Done rc (q\<lparr>errno := e, kernel := k\<rparr>)))"

definition wrap_other ::
  "('k, 'z) system_scheme \<Rightarrow> library \<Rightarrow> 'k after \<Rightarrow> wrapper \<Rightarrow> call \<Rightarrow> 'k process \<Rightarrow> ('k, int) run" where
  "wrap_other sys lib after w c p =
     andthen (at_checks sys c (at_names w) (text_arg (c ''f'')) p)
       (\<lambda>f2 q. call_original sys lib after (func w) (map c (names w)) f2 (errno p) q)"

definition wrapped ::
  "('k, 'z) system_scheme \<Rightarrow> library \<Rightarrow> string option \<Rightarrow> 'k after \<Rightarrow> wrapper \<Rightarrow> call \<Rightarrow> 'k process \<Rightarrow> ('k, int) run" where
  "wrapped sys lib base after w c p =
     (if is_open (func w) then wrap_open sys lib base after w c p
      else if is_exec (func w) then wrap_exec sys after w c p
      else wrap_other sys lib after w c p)"

text \<open>
  \<open>handle_file_access_after\<close> opens the log with \<^verbatim>\<open>open64\<close>, the wrapper function, which calls
  \<open>handle_file_access_after\<close> with the name of the log.  That call returns at its second test.
  \<open>log_access\<close> is the inner call; it never comes to open a log (\<open>log_access_returns\<close>), and
  \<open>recursion_unrolled\<close> shows that the definition satisfies the recursive equation of the code.
\<close>

definition open64_wrapper :: wrapper where
  "open64_wrapper = \<lparr>ret_type = ''int'', func = ''open64'', params = [''const char* f'', ''int a'', ''...''],
     names = [''f'', ''a''], at_names = []\<rparr>"

definition log_call :: "string \<Rightarrow> call" where
  "log_call logfile = (\<lambda>x. if x = ''f'' then Text logfile
     else if x = ''a'' then Number (O_APPEND OR O_WRONLY OR O_LARGEFILE) else Number 0)"

definition log_access :: "('k, 'z) system_scheme \<Rightarrow> library \<Rightarrow> 'k after" where
  "log_access sys lib = after_access sys lib (\<lambda>_ _. Undefined)"

definition open_log ::
  "('k, 'z) system_scheme \<Rightarrow> library \<Rightarrow> string option \<Rightarrow> 'k after \<Rightarrow> string \<Rightarrow> 'k process \<Rightarrow> ('k, int) run" where
  "open_log sys lib base after logfile p = wrapped sys lib base after open64_wrapper (log_call logfile) p"

definition handle_file_access_after :: "('k, 'z) system_scheme \<Rightarrow> library \<Rightarrow> string option \<Rightarrow> 'k after" where
  "handle_file_access_after sys lib base = after_access sys lib (open_log sys lib base (log_access sys lib))"

definition intercepted ::
  "('k, 'z) system_scheme \<Rightarrow> library \<Rightarrow> string option \<Rightarrow> wrapper \<Rightarrow> call \<Rightarrow> 'k process \<Rightarrow> ('k, int) run" where
  "intercepted sys lib base w c p = wrapped sys lib base (handle_file_access_after sys lib base) w c p"

section \<open>Initialisation\<close>

text \<open>
  \<open>proc_file\<close>: what opening and reading the first hundred bytes of a file gives; \<open>None\<close> when it
  cannot be opened.  \<open>stack\<close> are the bytes a buffer of hundred bytes holds before it is used.
\<close>

definition pid2ppid :: "(string \<Rightarrow> string option) \<Rightarrow> int \<Rightarrow> int" where
  "pid2ppid proc_file pid =
     (case proc_file (''/proc/'' @ show_int pid @ ''/stat'') of
        None \<Rightarrow> 0
      | Some text \<Rightarrow>
          (let b = take 100 text in
           if b = [] then 0
           else case c_sscanf [F_not CHR '' '', F_ws, F_not CHR '' '', F_ws, F_not CHR '' '', F_ws, F_int]
                       (cstr (butlast b)) of
                  [_, _, _, S_int ppid] \<Rightarrow> ppid
                | _ \<Rightarrow> 0))"

definition getpname :: "(string \<Rightarrow> string option) \<Rightarrow> string \<Rightarrow> int \<Rightarrow> string option" where
  "getpname proc_file stack pid =
     (let path = ''/proc/'' @ show_int pid @ ''/cmdline'';
          buffer0 = take 100 (path @ NUL # drop (length path + 1) stack) in
      case proc_file path of
        None \<Rightarrow> Some ''unkown''
      | Some text \<Rightarrow>
          (let b = take 100 text;
               buffer = (if b = [] then buffer0 else butlast b @ NUL # drop (length b) buffer0);
               arg = length (cstr buffer) + 1;
               name = basename (cstr buffer)
           in if b \<noteq> [] \<and> name \<in> {''bash'', ''sh'', ''perl''} then
                (if NUL \<notin> set (drop arg buffer) then None
                 else let a = cstr (drop arg buffer) in
                   if a \<noteq> [] \<and> hd a \<noteq> CHR ''-''
                   then Some (take 511 (name @ ''('' @ basename a @ '')''))
                   else Some (take 511 name))
              else Some (take 511 name)))"

text \<open>
  The text of the process tree: \<open>txtpos\<close> counts what \<^verbatim>\<open>snprintf\<close> would have written.  \<open>None\<close>:
  the position is behind the array, so that the size left is negative.
\<close>

record ptree =
  cmdtxt :: string
  txtpos :: nat
  last_name :: string

definition add_name :: "string \<Rightarrow> ptree \<Rightarrow> ptree option" where
  "add_name p t =
     (let piece = (if last_name t \<noteq> p then (if txtpos t \<noteq> 0 then ''.'' else []) @ p else ''*'') in
      if txtpos t > 4096 then None
      else Some (t\<lparr>cmdtxt := cmdtxt t @ take (4096 - txtpos t - 1) piece,
                  txtpos := txtpos t + length piece, last_name := p\<rparr>))"

partial_function (option) addptree ::
  "(string \<Rightarrow> string option) \<Rightarrow> string \<Rightarrow> int \<Rightarrow> int \<Rightarrow> ptree \<Rightarrow> ptree option option" where
  "addptree proc_file stack pid basepid t =
     (if pid = 0 \<or> pid = basepid then Some (Some t)
      else let ppid = pid2ppid proc_file pid in
        if pid = ppid then Some (Some t)
        else Option.bind (addptree proc_file stack ppid basepid t) (\<lambda>r.
          Some (case r of
              None \<Rightarrow> None
            | Some t' \<Rightarrow> (case getpname proc_file stack pid of None \<Rightarrow> None | Some p \<Rightarrow> add_name p t'))))"

text \<open>\<open>copy_getenv\<close> into an array of \<open>maxlen\<close> bytes; \<open>None\<close> aborts.\<close>

definition copy_getenv :: "string option \<Rightarrow> string \<Rightarrow> nat \<Rightarrow> bool \<Rightarrow> string option" where
  "copy_getenv v s maxlen term =
     (case v of
        None \<Rightarrow> Some (s[0 := NUL])
      | Some t \<Rightarrow>
          (let n = (if term then maxlen - 1 else maxlen) in
           if length t \<ge> n then None
           else let s1 = t @ replicate (n - length t) NUL @ drop n s
                in Some (if term then s1[length t + 1 := NUL] else s1)))"

text \<open>All calls of \<^verbatim>\<open>strtok\<close> with the separator \<^verbatim>\<open>:\<close> on a string: each token is ended by NUL.\<close>

function strtok_all :: "string \<Rightarrow> string" where
  "strtok_all s =
     (let lead = takeWhile (\<lambda>c. c = CHR '':'') s;
          rest = dropWhile (\<lambda>c. c = CHR '':'') s;
          t = takeWhile (\<lambda>c. c \<noteq> CHR '':'') rest
      in case dropWhile (\<lambda>c. c \<noteq> CHR '':'') rest of
           [] \<Rightarrow> s
         | _ # r \<Rightarrow> lead @ t @ NUL # strtok_all r)"
  by pat_completeness auto
termination
proof (relation "measure length", goal_cases)
  case (2 s lead rest t x r)
  have "length (x # r) \<le> length s"
    unfolding 2(4) [symmetric] 2(2) by (meson le_trans length_dropWhile_le)
  then show ?case by simp
qed simp

declare strtok_all.simps [simp del]

definition split_filterdir :: "string \<Rightarrow> string" where
  "split_filterdir m = strtok_all (cstr m) @ drop (length (cstr m)) m"

text \<open>
  \<open>fl_wrapper_init\<close>: \<open>Some None\<close> is undefined, \<open>Inr\<close> a message and an abort.
\<close>

definition fl_wrapper_init ::
  "(string \<Rightarrow> string option) \<Rightarrow> string \<Rightarrow> (string \<Rightarrow> string option) \<Rightarrow> int \<Rightarrow> (library + unit) option option" where
  "fl_wrapper_init proc_file stack env pid =
     (let basepid = (case env ''FLWRAPPER_BASEPID'' of None \<Rightarrow> 0 | Some t \<Rightarrow> atoi t);
          zeros = replicate PATH_MAX NUL in
      case addptree proc_file stack pid basepid \<lparr>cmdtxt = [], txtpos = 0, last_name = []\<rparr> of
        None \<Rightarrow> None
      | Some None \<Rightarrow> Some None
      | Some (Some t) \<Rightarrow>
          Some (Some
            (case (copy_getenv (env ''FLWRAPPER_WLOG'') zeros PATH_MAX False,
                   copy_getenv (env ''FLWRAPPER_RLOG'') zeros PATH_MAX False,
                   copy_getenv (env ''FLWRAPPER_FILTERDIR'') zeros PATH_MAX True) of
               (Some w, Some r, Some f) \<Rightarrow>
                 Inl \<lparr>initialized = True, cmdname = cmdtxt t, wlog = cstr w, rlog = cstr r,
                      filterdir = split_filterdir f\<rparr>
             | _ \<Rightarrow> Inr ())))"

section \<open>What the wrappers keep\<close>

lemma andthen_Done: "andthen m f = Done y q \<longleftrightarrow> (\<exists>x p. m = Done x p \<and> f x p = Done y q)"
  by (cases m) auto

lemma find_original_kernel: "find_original sys f p = Done x q \<Longrightarrow> kernel q = kernel p \<and> errno q = errno p"
  by (auto simp: find_original_def get_dl_symbol_def andthen_Done Let_def split: if_splits)

lemma getatpath_kernel: "getatpath sys d n p = Done x q \<Longrightarrow> kernel q = kernel p"
  by (auto simp: getatpath_def say_def Let_def split: sum.splits if_splits option.splits)

lemma at_checks_kernel: "at_checks sys c xs f2 p = Done x q \<Longrightarrow> kernel q = kernel p"
  by (induction sys c xs f2 p rule: at_checks.induct)
    (auto simp: andthen_Done split: if_splits dest: getatpath_kernel)

lemma check_write_access_id: "check_write_access base f p = Done x q \<Longrightarrow> q = p"
  by (auto simp: check_write_access_def split: option.splits if_splits)

lemma before_kernel: "handle_file_access_before sys lib f p = Done x q \<Longrightarrow> kernel q = kernel p"
  by (auto simp: handle_file_access_before_def split: if_splits sum.splits)

lemmas keeps_kernel = find_original_kernel getatpath_kernel at_checks_kernel check_write_access_id before_kernel

lemma call_original_result:
  assumes "call_original sys lib after f args f2 old p = Done rc q"
  shows "\<exists>e k. original sys f args old (kernel p) = (rc, e, k) \<and> errno q = e"
proof -
  from assms obtain st p1 p2 where 1: "handle_file_access_before sys lib f2 p = Done st p1" "find_original sys f p1 = Done () p2"
      and 2: "(case original sys f args old (kernel p2) of (rc, e, k) \<Rightarrow>
         andthen (after f f2 (Some st) (p2\<lparr>errno := e, kernel := k\<rparr>)) (\<lambda>_ p. Done rc (p\<lparr>errno := e\<rparr>))) = Done rc q"
    by (auto simp: call_original_def andthen_Done)
  have "kernel p2 = kernel p" using before_kernel [OF 1(1)] find_original_kernel [OF 1(2)] by simp
  then show ?thesis using 2 by (auto simp: andthen_Done split: prod.splits)
qed

text \<open>The arguments the original function is called with.\<close>

definition call_args :: "wrapper \<Rightarrow> call \<Rightarrow> arg list" where
  "call_args w c = map c (names w) @
     (if is_open (func w) \<and> number_arg (c ''a'') AND O_CREAT \<noteq> 0 then [c ''...''] else [])"

lemma wrapped_call_original:
  assumes "\<not> is_exec (func w)"
  shows "wrapped sys lib base after w c p =
    andthen (at_checks sys c (at_names w) (text_arg (c ''f'')) p) (\<lambda>f2 q.
    andthen (if is_open (func w) \<and> number_arg (c ''a'') AND (O_WRONLY OR O_CREAT OR O_APPEND) \<noteq> 0
             then check_write_access base f2 q else Done () q) (\<lambda>_ q.
    call_original sys lib after (func w) (call_args w c) f2 (errno p) q))"
  using assms by (auto simp: wrapped_def wrap_open_def wrap_other_def call_args_def)

text \<open>
  The arguments of the caller: \<^verbatim>\<open>open\<close> and its relatives take a mode behind the named ones when they are told to make
  a file, with \<^verbatim>\<open>O_CREAT\<close> or with \<^verbatim>\<open>O_TMPFILE\<close>.
\<close>

definition O_TMPFILE :: int where "O_TMPFILE = 0x410000"

definition unnamed_file :: "call \<Rightarrow> bool" where
  "unnamed_file c \<longleftrightarrow> number_arg (c ''a'') AND O_TMPFILE = O_TMPFILE"

definition given_args :: "wrapper \<Rightarrow> call \<Rightarrow> arg list" where
  "given_args w c = map c (names w) @
     (if is_open (func w) \<and> (number_arg (c ''a'') AND O_CREAT \<noteq> 0 \<or> unnamed_file c) then [c ''...''] else [])"

text \<open>The mode of a file that is made without a name is not passed on.\<close>

lemma tmpfile_mode_lost:
  "is_open (func w) \<Longrightarrow> unnamed_file c \<Longrightarrow> number_arg (c ''a'') AND O_CREAT = 0 \<Longrightarrow>
   given_args w c = call_args w c @ [c ''...'']"
  by (simp add: given_args_def call_args_def)

lemma call_args_given: "\<not> (is_open (func w) \<and> unnamed_file c) \<Longrightarrow> call_args w c = given_args w c"
  by (auto simp: given_args_def call_args_def)

lemma other_result:
  assumes "\<not> is_exec (func w)" "intercepted sys lib base w c p = Done rc q"
  shows "\<exists>e k. original sys (func w) (call_args w c) (errno p) (kernel p) = (rc, e, k) \<and> errno q = e"
proof -
  from assms obtain f2 q1 x q2 where
      1: "at_checks sys c (at_names w) (text_arg (c ''f'')) p = Done f2 q1" and
      2: "(if is_open (func w) \<and> number_arg (c ''a'') AND (O_WRONLY OR O_CREAT OR O_APPEND) \<noteq> 0
           then check_write_access base f2 q1 else Done () q1) = Done x q2" and
      3: "call_original sys lib (handle_file_access_after sys lib base) (func w) (call_args w c) f2 (errno p) q2 = Done rc q"
    by (auto simp: intercepted_def wrapped_call_original andthen_Done)
  have "kernel q2 = kernel p"
    using at_checks_kernel [OF 1] 2 check_write_access_id by (auto split: if_splits)
  with call_original_result [OF 3] show ?thesis by simp
qed

lemma exec_result:
  assumes "is_exec (func w)" "intercepted sys lib base w c p = Done rc q"
  shows "\<exists>r e. handle_file_access_after sys lib base (func w) (text_arg (c ''f'')) None p = Done () r \<and>
    original sys (func w) (call_args w c) (errno p) (kernel r) = (rc, e, kernel q) \<and> errno q = e"
proof -
  have n: "\<not> is_open (func w)" using assms(1) by (auto simp: is_exec_def is_open_def prefix_def)
  from assms(2) obtain r q2 where r: "handle_file_access_after sys lib base (func w) (text_arg (c ''f'')) None p = Done () r"
      "find_original sys (func w) r = Done () q2"
      "(case original sys (func w) (map c (names w)) (errno p) (kernel q2) of (rc, e, k) \<Rightarrow> Done rc (q2\<lparr>errno := e, kernel := k\<rparr>)) = Done rc q"
    using assms(1) n by (auto simp: intercepted_def wrapped_def wrap_exec_def andthen_Done)
  have "kernel q2 = kernel r" using find_original_kernel [OF r(2)] by simp
  then show ?thesis using r n by (auto simp: call_args_def split: prod.splits)
qed

text \<open>
  C3: the wrapped functions are transparent: when a call of one returns, its value and the error number are those of the
  original function, called with the arguments of the caller and with the error number the caller had.  The original sees the
  state of the kernel the caller had, and for \<^verbatim>\<open>execv\<close> and \<^verbatim>\<open>execve\<close>, which log before the call, the state that writing
  the log left, and its own result is then the state of the kernel.  Left out is a call of the \<^verbatim>\<open>open\<close> family with the flag
  \<^verbatim>\<open>O_TMPFILE\<close>, whose mode is lost when \<^verbatim>\<open>O_CREAT\<close> is not set (\<open>tmpfile_mode_lost\<close>).  A run that
  aborts (a write outside the base directory, no C library) does not return.
\<close>

theorem wrappers_transparent:
  assumes "intercepted sys lib base w c p = Done rc q" and "\<not> (is_open (func w) \<and> unnamed_file c)"
  shows "if is_exec (func w)
    then \<exists>r e. handle_file_access_after sys lib base (func w) (text_arg (c ''f'')) None p = Done () r \<and>
      original sys (func w) (given_args w c) (errno p) (kernel r) = (rc, e, kernel q) \<and> errno q = e
    else \<exists>e k. original sys (func w) (given_args w c) (errno p) (kernel p) = (rc, e, k) \<and> errno q = e"
  using other_result [OF _ assms(1)] exec_result [OF _ assms(1)] call_args_given [OF assms(2)] by simp

section \<open>The log\<close>

lemma after_access_cong:
  "(\<And>p. f (wlog lib) p = g (wlog lib) p) \<Longrightarrow> (\<And>p. f (rlog lib) p = g (rlog lib) p) \<Longrightarrow>
   after_access sys lib f = after_access sys lib g"
proof (intro ext)
  fix n fl status p
  assume "\<And>p. f (wlog lib) p = g (wlog lib) p" "\<And>p. f (rlog lib) p = g (rlog lib) p"
  then have "f (if b then wlog lib else rlog lib) p = g (if b then wlog lib else rlog lib) p" for b p by simp
  then show "after_access sys lib f n fl status p = after_access sys lib g n fl status p"
    unfolding after_access_def Let_def by (simp only:)
qed

lemma after_log: "fl = wlog lib \<or> fl = rlog lib \<Longrightarrow> after_access sys lib f n (Some fl) st p = Done () p"
  by (simp add: after_access_def)

lemma open_log_after:
  assumes "logfile = wlog lib \<or> logfile = rlog lib"
  shows "open_log sys lib base (after_access sys lib f) logfile = open_log sys lib base (after_access sys lib g) logfile"
  using assms
  by (intro ext) (simp add: open_log_def wrapped_call_original open64_wrapper_def is_exec_def call_original_def
      log_call_def text_arg_def after_log cong: prod.case_cong)

lemma recursion_unrolled:
  "handle_file_access_after sys lib base =
     after_access sys lib (open_log sys lib base (handle_file_access_after sys lib base))"
  unfolding handle_file_access_after_def log_access_def
  by (intro after_access_cong fun_cong [OF open_log_after]) simp_all

text \<open>
  What is relied on: the C library can be found; a log that is opened, written and closed has the
  text at its end.  \<open>content k\<close> are the texts of the files in the state \<open>k\<close>.
\<close>

definition usable :: "('k, 'z) system_scheme \<Rightarrow> bool" where
  "usable sys \<longleftrightarrow> libc_opens sys \<and> (\<forall>f. libc_symbol sys f) \<and> length (old_memory sys) = PATH_MAX"

definition appends :: "('k, 'z) system_scheme \<Rightarrow> ('k \<Rightarrow> string \<Rightarrow> string) \<Rightarrow> string set \<Rightarrow> bool" where
  "appends sys content logs \<longleftrightarrow>
     (\<forall>l \<in> logs. \<forall>e k. case original sys ''open64'' [Text l, Number (O_APPEND OR O_WRONLY OR O_LARGEFILE)] e k of
        (fd, e', k') \<Rightarrow> fd \<noteq> -1 \<and>
          (\<forall>text. content (snd (close_fd sys fd (snd (write_fd sys fd text k')))) =
             (content k)(l := content k l @ text)))"

definition status_of :: "('k, 'z) system_scheme \<Rightarrow> string \<Rightarrow> 'k \<Rightarrow> status_t" where
  "status_of sys f k = (case lstat sys f k of Inl st \<Rightarrow> st | Inr _ \<Rightarrow> no_status)"

definition may_write :: "string option \<Rightarrow> string \<Rightarrow> bool" where
  "may_write base f \<longleftrightarrow> (case base of None \<Rightarrow> True | Some b \<Rightarrow> write_allowed b f)"

lemma may_write_check: "may_write base f \<Longrightarrow> check_write_access base (Some f) p = Done () p"
  by (auto simp: may_write_def check_write_access_def split: option.splits)

lemma find_original_usable:
  "usable sys \<Longrightarrow> \<exists>q. find_original sys f p = Done () q \<and> kernel q = kernel p"
  by (auto simp: find_original_def get_dl_symbol_def usable_def)

lemma before_status:
  "initialized lib \<Longrightarrow>
   \<exists>q. handle_file_access_before sys lib (Some f) p = Done (status_of sys f (kernel p)) q \<and> kernel q = kernel p"
  by (auto simp: handle_file_access_before_def lstat_name_def status_of_def split: sum.splits)

lemma call_original_run:
  assumes "usable sys" "initialized lib" "original sys f args old (kernel p) = (rc, e, k)"
    and after: "\<And>q. kernel q = k \<Longrightarrow> \<exists>q'. after f (Some file) (Some (status_of sys file (kernel p))) q = Done () q' \<and> P (kernel q')"
  shows "\<exists>q. call_original sys lib after f args (Some file) old p = Done rc q \<and> errno q = e \<and> P (kernel q)"
proof -
  obtain q1 where 1: "handle_file_access_before sys lib (Some file) p = Done (status_of sys file (kernel p)) q1"
      "kernel q1 = kernel p" using before_status [OF assms(2)] by blast
  obtain q2 where 2: "find_original sys f q1 = Done () q2" "kernel q2 = kernel q1"
    using find_original_usable [OF assms(1)] by blast
  obtain q3 where 3: "after f (Some file) (Some (status_of sys file (kernel p))) (q2\<lparr>errno := e, kernel := k\<rparr>) = Done () q3"
      "P (kernel q3)" using after [of "q2\<lparr>errno := e, kernel := k\<rparr>"] by auto
  show ?thesis using 1 2 3 assms(3) by (simp add: call_original_def)
qed

lemma open_log_run:
  assumes "usable sys" "initialized lib" "may_write base l" "l = wlog lib \<or> l = rlog lib"
    and "original sys ''open64'' [Text l, Number (O_APPEND OR O_WRONLY OR O_LARGEFILE)] (errno p) (kernel p) = (fd, e', k')"
  shows "\<exists>q. open_log sys lib base (log_access sys lib) l p = Done fd q \<and> kernel q = k'"
proof -
  have ar: "call_args open64_wrapper (log_call l) = [Text l, Number (O_APPEND OR O_WRONLY OR O_LARGEFILE)]"
    by (simp add: call_args_def open64_wrapper_def log_call_def number_arg_def open_flags is_open_def)
  have o: "original sys ''open64'' (call_args open64_wrapper (log_call l)) (errno p) (kernel p) = (fd, e', k')"
    using assms(5) unfolding ar .
  have "\<exists>q. call_original sys lib (log_access sys lib) ''open64'' (call_args open64_wrapper (log_call l)) (Some l) (errno p) p =
      Done fd q \<and> errno q = e' \<and> kernel q = k'"
    using assms(4) by (intro call_original_run [OF assms(1,2) o]) (simp add: log_access_def after_log)
  then obtain q where q: "call_original sys lib (log_access sys lib) ''open64'' (call_args open64_wrapper (log_call l)) (Some l) (errno p) p =
      Done fd q" "kernel q = k'" by blast
  have "check_write_access base (Some l) p = Done () p" by (rule may_write_check [OF assms(3)])
  with q show ?thesis
    by (simp add: open_log_def wrapped_call_original open64_wrapper_def is_exec_def log_call_def text_arg_def split: if_split)
qed


lemma after_access_logs:
  assumes "usable sys" "initialized lib" "appends sys content {wlog lib, rlog lib}"
    and "may_write base (wlog lib)" "may_write base (rlog lib)"
    and "f \<notin> {wlog lib, rlog lib}" "lstat sys f (kernel q) = Inl st" "getcwd sys (kernel q) = Some dir"
    and "regular_name dir f" "filtered (canonical dir f) (filterdir lib) = Some False"
  shows "\<exists>q'. handle_file_access_after sys lib base n (Some f) (Some st0) q = Done () q' \<and>
    content (kernel q') = (let l = (if st0 \<noteq> st then wlog lib else rlog lib)
      in (content (kernel q))(l := content (kernel q) l @ access_line lib n (canonical dir f)))"
proof -
  define l where "l = (if st0 \<noteq> st then wlog lib else rlog lib)"
  have l: "l = wlog lib \<or> l = rlog lib" "l \<in> {wlog lib, rlog lib}" by (auto simp: l_def)
  have mw: "may_write base l" using assms(4,5) by (simp add: l_def)
  have nm: "sort_of_realpath (Some dir) f (old_memory sys) = Some (canonical dir f)"
    using assms(1,9) by (intro realpath_canonical) (simp_all add: usable_def)
  let ?o = "original sys ''open64'' [Text l, Number (O_APPEND OR O_WRONLY OR O_LARGEFILE)]"
  obtain fd e' k' where o: "?o (errno q) (kernel q) = (fd, e', k')" by (cases "?o (errno q) (kernel q)") auto
  have fd: "fd \<noteq> -1" and c: "\<And>text. content (snd (close_fd sys fd (snd (write_fd sys fd text k')))) =
      (content (kernel q))(l := content (kernel q) l @ text)"
  proof -
    have "case ?o (errno q) (kernel q) of (fd, e', k') \<Rightarrow> fd \<noteq> -1 \<and>
      (\<forall>text. content (snd (close_fd sys fd (snd (write_fd sys fd text k')))) = (content (kernel q))(l := content (kernel q) l @ text))"
      by (rule spec [OF spec [OF bspec [OF assms(3) [unfolded appends_def] l(2)]]])
    then show "fd \<noteq> -1" "\<And>text. content (snd (close_fd sys fd (snd (write_fd sys fd text k')))) =
      (content (kernel q))(l := content (kernel q) l @ text)" unfolding o by auto
  qed
  obtain q1 where q1: "open_log sys lib base (log_access sys lib) l q = Done fd q1" "kernel q1 = k'"
    using open_log_run [OF assms(1,2) mw l(1) o] by blast
  show ?thesis
    using assms(2,6,7,8,10) nm fd q1 c [of "access_line lib n (canonical dir f)"]
    unfolding handle_file_access_after_def after_access_def Let_def
    by (auto simp: l_def [symmetric] split: prod.splits)
qed

lemma access_is_logged:
  assumes "usable sys" "initialized lib" "appends sys content {wlog lib, rlog lib}"
    and "may_write base f" "may_write base (wlog lib)" "may_write base (rlog lib)"
    and "\<not> is_exec (func w)"
    and "at_checks sys c (at_names w) (text_arg (c ''f'')) p = Done (Some f) p1"
    and "original sys (func w) (call_args w c) (errno p) (kernel p) = (rc, e, k)"
    and "f \<notin> {wlog lib, rlog lib}" "lstat sys f k = Inl st" "getcwd sys k = Some dir"
    and "regular_name dir f" "filtered (canonical dir f) (filterdir lib) = Some False"
  shows "\<exists>q. intercepted sys lib base w c p = Done rc q \<and> errno q = e \<and>
    content (kernel q) = (let l = (if status_of sys f (kernel p) \<noteq> st then wlog lib else rlog lib)
      in (content k)(l := content k l @ access_line lib (func w) (canonical dir f)))"
proof -
  have k1: "kernel p1 = kernel p" by (rule at_checks_kernel [OF assms(8)])
  have "\<exists>q. call_original sys lib (handle_file_access_after sys lib base) (func w) (call_args w c) (Some f) (errno p) p1 =
      Done rc q \<and> errno q = e \<and>
      content (kernel q) = (let l = (if status_of sys f (kernel p) \<noteq> st then wlog lib else rlog lib)
        in (content k)(l := content k l @ access_line lib (func w) (canonical dir f)))"
  proof (rule call_original_run [OF assms(1,2)])
    show "original sys (func w) (call_args w c) (errno p) (kernel p1) = (rc, e, k)" using assms(9) k1 by simp
    fix q :: "'a process"
    assume "kernel q = k"
    then show "\<exists>q'. handle_file_access_after sys lib base (func w) (Some f) (Some (status_of sys f (kernel p1))) q = Done () q' \<and>
      content (kernel q') = (let l = (if status_of sys f (kernel p) \<noteq> st then wlog lib else rlog lib)
        in (content k)(l := content k l @ access_line lib (func w) (canonical dir f)))"
      using after_access_logs [OF assms(1-3,5,6,10), of q st dir "func w" "status_of sys f (kernel p)"] assms(11-14) k1 by simp
  qed
  then obtain q where q: "call_original sys lib (handle_file_access_after sys lib base) (func w) (call_args w c) (Some f) (errno p) p1 = Done rc q"
    and r: "errno q = e" "content (kernel q) = (let l = (if status_of sys f (kernel p) \<noteq> st then wlog lib else rlog lib)
        in (content k)(l := content k l @ access_line lib (func w) (canonical dir f)))" by blast
  have "intercepted sys lib base w c p = Done rc q"
    by (simp add: intercepted_def wrapped_call_original [OF assms(7)] assms(8) may_write_check [OF assms(4)] q)
  with r show ?thesis by blast
qed

text \<open>
  C5: a call of a wrapped function other than \<^verbatim>\<open>execv\<close> and \<^verbatim>\<open>execve\<close> adds exactly one line to the logs if the file it
  names is there after the call, is not a log itself, has a name that can be made canonical (it fits the buffer, and no
  component but \<^verbatim>\<open>.\<close> and \<^verbatim>\<open>..\<close> ends in a dot) and is not below a filtered directory, and if the base directory allows
  the writes and the logs can be opened and appended to.  The line goes to the end of the write log if the status of
  the file (inode, size, times) differs from the one before the call, else to the end of the read log, and holds the name of the
  process, of the function, and the canonical name of the file.  Value, error number and all other files are those of the original.
\<close>

theorem access_logged:
  assumes "usable sys" "initialized lib" "appends sys content {wlog lib, rlog lib}"
    and "may_write base f" "may_write base (wlog lib)" "may_write base (rlog lib)"
    and "\<not> is_exec (func w)"
    and "at_checks sys c (at_names w) (text_arg (c ''f'')) p = Done (Some f) p1"
    and "original sys (func w) (call_args w c) (errno p) (kernel p) = (rc, e, k)"
    and "f \<notin> {wlog lib, rlog lib}" "lstat sys f k = Inl st" "getcwd sys k = Some dir"
    and "regular_name dir f" "filtered (canonical dir f) (filterdir lib) = Some False"
  shows "\<exists>q. intercepted sys lib base w c p = Done rc q \<and> errno q = e \<and>
    content (kernel q) = (let l = (if status_of sys f (kernel p) \<noteq> st then wlog lib else rlog lib)
      in (content k)(l := content k l @ access_line lib (func w) (canonical dir f)))"
  using assms by (rule access_is_logged)

text \<open>A kernel that keeps names and contents; files are opened one at a time.\<close>

record small_kernel =
  files :: "string \<Rightarrow> string option"
  opened :: string

definition small_text :: "small_kernel \<Rightarrow> string \<Rightarrow> string" where
  "small_text k f = (case files k f of None \<Rightarrow> [] | Some t \<Rightarrow> t)"

definition small_system :: "small_kernel system" where
  "small_system =
     \<lparr>lstat = (\<lambda>f k. case files k f of None \<Rightarrow> Inr 2
        | Some t \<Rightarrow> Inl \<lparr>inode = 7, st_size = int (length t), mtime = 1, ctime = 1\<rparr>),
      getcwd = (\<lambda>k. Some ''/usr/src''), readlink = (\<lambda>f k. Inr 2),
      original = (\<lambda>n args e k. case args of
          Text f # _ \<Rightarrow> (3, e, k\<lparr>files := (files k)(f := Some (small_text k f)), opened := f\<rparr>)
        | _ \<Rightarrow> (-1, 22, k)),
      write_fd = (\<lambda>fd t k. (0, k\<lparr>files := (files k)(opened k := Some (small_text k (opened k) @ t))\<rparr>)),
      close_fd = (\<lambda>fd k. (0, k)), libc_opens = True, libc_symbol = (\<lambda>_. True),
      old_memory = replicate PATH_MAX NUL, old_status = no_status\<rparr>"

definition small_library :: library where
  "small_library = \<lparr>initialized = True, cmdname = ''make.cc'', wlog = ''/w'', rlog = ''/r'',
     filterdir = ''/tmp/'' @ [NUL, NUL]\<rparr>"

definition creat_wrapper :: wrapper where
  "creat_wrapper = \<lparr>ret_type = ''int'', func = ''creat'', params = [''const char* f'', ''mode_t m''],
     names = [''f'', ''m''], at_names = []\<rparr>"

definition creat_call :: call where
  "creat_call = (\<lambda>x. if x = ''f'' then Text ''a.o'' else Number 420)"

definition small_process :: "small_kernel process" where
  "small_process = \<lparr>kernel = \<lparr>files = (\<lambda>_. None), opened = []\<rparr>, errno = 0, known = [], libc_handle = False, messages = []\<rparr>"

lemma small_appends: "appends small_system small_text logs"
  by (auto simp: appends_def small_system_def small_text_def fun_eq_iff split: option.splits)

lemma tokens_small: "tokens CHR ''/'' ''usr/src/a.o'' = [''usr'', ''src'', ''a.o'']"
  by (simp add: tokens_def)

lemma small_filtered: "filtered ''/usr/src/a.o'' (''/tmp/'' @ [NUL, NUL]) = Some False"
  by (subst filtered.simps, simp add: cstr_def, subst filtered.simps, simp add: cstr_def)

theorem access_logged_witness:
  "\<exists>q. intercepted small_system small_library None creat_wrapper creat_call small_process = Done 3 q \<and>
    small_text (kernel q) ''/w'' = ''make.cc.creat:'' @ [CHR 0x09] @ ''/usr/src/a.o'' @ ''\<newline>''"
proof -
  have f: "absolute_name ''/usr/src'' ''a.o'' = ''/usr/src/a.o''" by (simp add: absolute_name_def)
  have c: "canonical ''/usr/src'' ''a.o'' = ''/usr/src/a.o''" by (simp add: canonical_def f tokens_small)
  have r: "regular_name ''/usr/src'' ''a.o''" by (simp add: regular_name_def f tokens_small PATH_MAX_def dotted_def)
  have fl: "filtered ''/usr/src/a.o'' (filterdir small_library) = Some False"
    using small_filtered [simplified] by (simp add: small_library_def)
  have ca: "call_args creat_wrapper creat_call = [Text ''a.o'', Number 420]"
    by (simp add: call_args_def creat_wrapper_def creat_call_def is_open_def)
  define k where "k = \<lparr>files = (\<lambda>_. None)(''a.o'' := Some []), opened = ''a.o''\<rparr>"
  have o: "original small_system (func creat_wrapper) (call_args creat_wrapper creat_call) (errno small_process) (kernel small_process) = (3, 0, k)"
    unfolding ca by (simp add: small_system_def small_process_def small_text_def k_def)
  have "\<exists>q. intercepted small_system small_library None creat_wrapper creat_call small_process = Done 3 q \<and> errno q = 0 \<and>
    small_text (kernel q) = (let l = (if status_of small_system ''a.o'' (kernel small_process) \<noteq> \<lparr>inode = 7, st_size = 0, mtime = 1, ctime = 1\<rparr>
        then wlog small_library else rlog small_library)
      in (small_text k)(l := small_text k l @ access_line small_library (func creat_wrapper) (canonical ''/usr/src'' ''a.o'')))"
    by (rule access_logged [OF _ _ small_appends _ _ _ _ _ o])
      (simp_all add: c fl r usable_def may_write_def small_system_def small_library_def creat_wrapper_def creat_call_def
        is_exec_def text_arg_def k_def small_filtered [simplified])
  moreover have "status_of small_system ''a.o'' (kernel small_process) = no_status"
    by (simp add: status_of_def small_system_def small_process_def)
  moreover have "wlog small_library = ''/w''" "small_text k ''/w'' = []" by (simp_all add: small_library_def small_text_def k_def)
  moreover have "access_line small_library (func creat_wrapper) ''/usr/src/a.o'' = ''make.cc.creat:'' @ [CHR 0x09] @ ''/usr/src/a.o'' @ ''\<newline>''"
    by (simp add: access_line_def small_library_def creat_wrapper_def PATH_MAX_def)
  ultimately show ?thesis unfolding c by (auto simp: no_status_def)
qed

theorem wrappers_transparent_witness:
  "\<exists>q. intercepted small_system small_library None creat_wrapper creat_call small_process = Done 3 q \<and> errno q = 0"
proof -
  have ca: "call_args creat_wrapper creat_call = [Text ''a.o'', Number 420]"
    by (simp add: call_args_def creat_wrapper_def creat_call_def is_open_def)
  have f: "absolute_name ''/usr/src'' ''a.o'' = ''/usr/src/a.o''" by (simp add: absolute_name_def)
  have n: "sort_of_realpath (Some ''/usr/src'') ''a.o'' (replicate PATH_MAX NUL) = Some ''/usr/src/a.o''"
    using realpath_canonical [of "''/usr/src''" "''a.o''" "replicate PATH_MAX NUL"]
    by (simp add: regular_name_def canonical_def f tokens_small PATH_MAX_def dotted_def)
  have "\<exists>q. intercepted small_system small_library None creat_wrapper creat_call small_process = Done 3 q"
    by (simp add: intercepted_def wrapped_call_original handle_file_access_after_def after_access_def open_log_def
        log_access_def call_original_def handle_file_access_before_def find_original_def get_dl_symbol_def lstat_name_def
        creat_wrapper_def creat_call_def open64_wrapper_def log_call_def is_exec_def is_open_def text_arg_def number_arg_def
        call_args_def check_write_access_def open_flags small_system_def small_library_def small_process_def small_text_def
        n Let_def small_filtered [simplified])
  then obtain q where q: "intercepted small_system small_library None creat_wrapper creat_call small_process = Done 3 q" by blast
  have f: "\<not> is_exec (func creat_wrapper)" "\<not> (is_open (func creat_wrapper) \<and> unnamed_file creat_call)"
    by (simp_all add: creat_wrapper_def is_exec_def is_open_def)
  have "given_args creat_wrapper creat_call = [Text ''a.o'', Number 420]"
    using call_args_given [OF f(2)] ca by simp
  with wrappers_transparent [OF q f(2)] f(1) q show ?thesis
    by (auto simp: small_system_def small_process_def)
qed


section \<open>The directories that are filtered\<close>

lemma strtok_end:
  "dropWhile (\<lambda>c. c \<noteq> CHR '':'') (dropWhile (\<lambda>c. c = CHR '':'') s) = [] \<Longrightarrow> strtok_all s = s"
  by (subst strtok_all.simps) (simp only: Let_def list.case)

lemma strtok_next:
  "dropWhile (\<lambda>c. c \<noteq> CHR '':'') (dropWhile (\<lambda>c. c = CHR '':'') s) = y # r \<Longrightarrow>
   strtok_all s = takeWhile (\<lambda>c. c = CHR '':'') s @
     takeWhile (\<lambda>c. c \<noteq> CHR '':'') (dropWhile (\<lambda>c. c = CHR '':'') s) @ NUL # strtok_all r"
  by (subst strtok_all.simps) (simp only: Let_def list.case)

lemma strtok_all_single: "CHR '':'' \<notin> set s \<Longrightarrow> strtok_all s = s"
proof -
  assume a: "CHR '':'' \<notin> set s"
  then have "dropWhile (\<lambda>c. c = CHR '':'') s = s" by (cases s) auto
  moreover have "dropWhile (\<lambda>c. c \<noteq> CHR '':'') s = []" using a by (auto simp: dropWhile_eq_Nil_conv)
  ultimately show ?thesis by (intro strtok_end) simp
qed

lemma strtok_all_step:
  "x \<noteq> [] \<Longrightarrow> CHR '':'' \<notin> set x \<Longrightarrow> strtok_all (x @ CHR '':'' # s) = x @ NUL # strtok_all s"
proof -
  assume x: "x \<noteq> []" "CHR '':'' \<notin> set x"
  then have "takeWhile (\<lambda>c. c = CHR '':'') (x @ CHR '':'' # s) = []"
      "dropWhile (\<lambda>c. c = CHR '':'') (x @ CHR '':'' # s) = x @ CHR '':'' # s" by (cases x; auto)+
  moreover have "takeWhile (\<lambda>c. c \<noteq> CHR '':'') (x @ CHR '':'' # s) = x"
      "dropWhile (\<lambda>c. c \<noteq> CHR '':'') (x @ CHR '':'' # s) = CHR '':'' # s"
    using x(2) by (auto simp: takeWhile_append dropWhile_append takeWhile_no)
  ultimately show ?thesis by (subst strtok_all.simps) simp
qed

lemma strtok_all_join:
  "\<forall>x \<in> set xs. x \<noteq> [] \<and> CHR '':'' \<notin> set x \<Longrightarrow> strtok_all (join CHR '':'' xs) = join NUL xs"
proof (induction xs)
  case Nil
  then show ?case by (simp add: strtok_all_single)
next
  case (Cons x xs)
  then show ?case by (cases xs) (auto simp: strtok_all_single strtok_all_step)
qed

lemma strtok_all_length: "length (strtok_all s) = length s"
proof (induction s rule: strtok_all.induct)
  case (1 s)
  define rest where "rest = dropWhile (\<lambda>c. c = CHR '':'') s"
  have s: "length s = length (takeWhile (\<lambda>c. c = CHR '':'') s) + length rest"
    by (metis length_append rest_def takeWhile_dropWhile_id)
  have r: "length rest = length (takeWhile (\<lambda>c. c \<noteq> CHR '':'') rest) + length (dropWhile (\<lambda>c. c \<noteq> CHR '':'') rest)"
    by (metis length_append takeWhile_dropWhile_id)
  show ?case
  proof (cases "dropWhile (\<lambda>c. c \<noteq> CHR '':'') rest")
    case Nil
    then have "strtok_all s = s" unfolding rest_def by (rule strtok_end)
    then show ?thesis by (rule arg_cong)
  next
    case (Cons y ys)
    then have "length (strtok_all ys) = length ys" using 1 [OF refl refl refl] by (simp add: rest_def)
    moreover have "strtok_all s = takeWhile (\<lambda>c. c = CHR '':'') s @ takeWhile (\<lambda>c. c \<noteq> CHR '':'') rest @ NUL # strtok_all ys"
      using Cons unfolding rest_def by (rule strtok_next)
    ultimately have "length (strtok_all s) = length (takeWhile (\<lambda>c. c = CHR '':'') s) +
        (length (takeWhile (\<lambda>c. c \<noteq> CHR '':'') rest) + Suc (length ys))"
      by (simp only: length_append list.size)
    then show ?thesis using s r unfolding Cons by simp
  qed
qed

lemma cstr_less: "NUL \<in> set z \<Longrightarrow> length (cstr z) < length z"
  by (induction z) (auto simp: cstr_def)

text \<open>The array always holds the end of the list: the double NUL \<open>copy_getenv\<close> puts there.\<close>

lemma filtered_end: "\<exists>z. m = z @ [NUL, NUL] \<or> hd m = NUL \<and> m \<noteq> [] \<Longrightarrow> filtered f m \<noteq> None"
proof (induction f m rule: filtered.induct)
  case (1 f m)
  have n: "NUL \<in> set m" using 1(2) by (auto simp: neq_Nil_conv)
  show ?case
  proof (cases "cstr m = [] \<or> prefix (cstr m) f")
    case True
    then show ?thesis using n by (subst filtered.simps) (auto simp: Let_def)
  next
    case False
    then obtain z where z: "m = z @ [NUL, NUL]" using 1(2) by (cases m) (auto simp: cstr_def)
    let ?r = "drop (length (cstr m) + 1) m"
    have "\<exists>z. ?r = z @ [NUL, NUL] \<or> hd ?r = NUL \<and> ?r \<noteq> []"
    proof (cases "NUL \<in> set z")
      case True
      then have "cstr m = cstr z" "length (cstr z) < length z"
        by (simp_all add: z cstr_def takeWhile_append1 cstr_less [unfolded cstr_def])
      then show ?thesis by (simp add: z)
    next
      case False
      then have "cstr m = z" by (simp add: z cstr_def takeWhile_append takeWhile_no)
      then show ?thesis by (simp add: z)
    qed
    then have "filtered f ?r \<noteq> None" using 1(1) n False by blast
    then show ?thesis using n False by (subst filtered.simps) (simp add: Let_def)
  qed
qed

lemma filtered_join:
  assumes "\<forall>x \<in> set xs. x \<noteq> [] \<and> NUL \<notin> set x" "xs \<noteq> []"
  shows "filtered f (join NUL xs @ NUL # NUL # z) = Some (\<exists>d \<in> set xs. prefix d f)"
  using assms
proof (induction xs)
  case (Cons x xs)
  define r where "r = (if xs = [] then NUL # z else join NUL xs @ NUL # NUL # z)"
  have m: "join NUL (x # xs) @ NUL # NUL # z = x @ NUL # r" by (simp add: join_Cons r_def)
  have c: "cstr (x @ NUL # r) = x" using Cons.prems(1) by (simp add: cstr_def takeWhile_append takeWhile_no)
  have "filtered f (x @ NUL # r) = (if prefix x f then Some True else filtered f r)"
    using Cons.prems(1) c by (subst filtered.simps) (simp add: Let_def)
  moreover have "filtered f r = Some (\<exists>d \<in> set xs. prefix d f)"
  proof (cases "xs = []")
    case True
    then show ?thesis unfolding r_def by (subst filtered.simps) (simp add: cstr_def)
  next
    case False
    then show ?thesis using Cons by (simp add: r_def)
  qed
  ultimately show ?case unfolding m by auto
qed simp

lemma copy_getenv_text:
  assumes "length v + 1 < maxlen" "length s = maxlen" "NUL \<notin> set v"
  shows "\<exists>m. copy_getenv (Some v) s maxlen True = Some m \<and> cstr m = v \<and> length m = maxlen \<and>
    (\<exists>z. m = v @ NUL # NUL # z)"
proof -
  define k where "k = maxlen - 1 - length v - 1"
  have k: "maxlen - 1 - length v = Suc k" using assms(1) by (simp add: k_def)
  obtain y where y: "drop (maxlen - 1) s = [y]"
    using assms(1,2) by (cases "drop (maxlen - 1) s") (auto dest: arg_cong [where f = length])
  have 1: "copy_getenv (Some v) s maxlen True = Some ((v @ replicate (maxlen - 1 - length v) NUL @ drop (maxlen - 1) s)[length v + 1 := NUL])"
    using assms(1) by (simp add: copy_getenv_def Let_def)
  have "(v @ NUL # replicate k NUL @ [y])[length v + 1 := NUL] = v @ NUL # (replicate k NUL @ [y])[0 := NUL]"
    by (simp add: list_update_append)
  also have "(replicate k NUL @ [y])[0 := NUL] = NUL # tl (replicate k NUL @ [y])" by (cases k) simp_all
  finally have m: "copy_getenv (Some v) s maxlen True = Some (v @ NUL # NUL # tl (replicate k NUL @ [y]))"
    unfolding 1 k y by simp
  have "cstr (v @ NUL # NUL # tl (replicate k NUL @ [y])) = v"
    using assms(3) by (simp add: cstr_def takeWhile_append takeWhile_no)
  moreover have "length (v @ NUL # NUL # tl (replicate k NUL @ [y])) = maxlen" using assms(1) k by simp
  ultimately show ?thesis unfolding m by blast
qed

lemma set_join_member: "d \<in> set xs \<Longrightarrow> set d \<subseteq> set (join sep xs)"
  by (induction sep xs rule: join.induct) auto

text \<open>
  C6: a value of \<^verbatim>\<open>FLWRAPPER_FILTERDIR\<close> that fits the buffer and has no empty entry (no colon at an end, no doubled
  colon, so that it is not empty either) is copied and split once, and from then on a canonical name is left out of the logs
  exactly if it begins with one of the entries.  With a doubled colon the entry behind it is lost (\<open>doubled_colon\<close>).
\<close>

theorem filterdir_entries:
  assumes "\<forall>d \<in> set (pieces CHR '':'' v). d \<noteq> []" "length v + 1 < PATH_MAX" "NUL \<notin> set v"
    and "copy_getenv (Some v) (replicate PATH_MAX NUL) PATH_MAX True = Some m"
  shows "filtered absfile (split_filterdir m) = Some (\<exists>d \<in> set (pieces CHR '':'' v). prefix d absfile)"
proof -
  let ?ps = "pieces CHR '':'' v"
  obtain z where m: "cstr m = v" "m = v @ NUL # NUL # z"
    using copy_getenv_text [of v PATH_MAX "replicate PATH_MAX NUL"] assms by auto
  have v: "v = join CHR '':'' ?ps" by (simp add: join_pieces)
  have ps: "\<forall>d \<in> set ?ps. d \<noteq> [] \<and> CHR '':'' \<notin> set d" using assms(1) by (auto dest: pieces_no_sep)
  have nul: "NUL \<notin> set d" if "d \<in> set ?ps" for d
  proof -
    have "set d \<subseteq> set (join CHR '':'' ?ps)" using that by (rule set_join_member)
    with assms(3) show ?thesis by (auto simp: join_pieces)
  qed
  have "split_filterdir m = join NUL ?ps @ NUL # NUL # z"
    using strtok_all_join [OF ps] m by (simp add: split_filterdir_def join_pieces)
  then show ?thesis using filtered_join [of ?ps absfile z] assms(1) nul by simp
qed


theorem filterdir_entries_witness:
  "\<exists>m. copy_getenv (Some ''/tmp/:/b'') (replicate PATH_MAX NUL) PATH_MAX True = Some m \<and>
    filtered ''/b/wlog'' (split_filterdir m) = Some True \<and> filtered ''/usr/x'' (split_filterdir m) = Some False"
proof -
  obtain m where m: "copy_getenv (Some ''/tmp/:/b'') (replicate PATH_MAX NUL) PATH_MAX True = Some m"
    using copy_getenv_text [of "''/tmp/:/b''" PATH_MAX "replicate PATH_MAX NUL"] by (auto simp: PATH_MAX_def)
  then show ?thesis
    using filterdir_entries [of "''/tmp/:/b''" m "''/b/wlog''"] filterdir_entries [of "''/tmp/:/b''" m "''/usr/x''"]
    by (simp add: PATH_MAX_def)
qed

lemma copy_getenv_zeros:
  assumes "length v + 1 < maxlen"
  shows "copy_getenv (Some v) (replicate maxlen NUL) maxlen True = Some (v @ replicate (maxlen - length v) NUL)"
proof -
  obtain k where k: "maxlen = length v + 2 + k" using assms less_iff_Suc_add by auto
  have "v @ replicate (maxlen - 1 - length v) NUL @ drop (maxlen - 1) (replicate maxlen NUL) = v @ replicate (k + 2) NUL"
    unfolding k drop_replicate replicate_add [symmetric] by (simp add: replicate_add [symmetric] del: replicate_add)
  moreover have "(v @ replicate (k + 2) NUL)[length v + 1 := NUL] = v @ replicate (k + 2) NUL"
    by (intro list_update_same_conv [THEN iffD2]) (simp_all add: nth_append)
  ultimately show ?thesis by (simp add: copy_getenv_def k Let_def)
qed

text \<open>The list always has an end, whatever the environment holds.\<close>

lemma filterdir_never_overrun:
  assumes "copy_getenv v (replicate PATH_MAX NUL) PATH_MAX True = Some m" "\<forall>t. v = Some t \<longrightarrow> NUL \<notin> set t"
  shows "filtered f (split_filterdir m) \<noteq> None"
proof (cases v)
  case None
  have "NUL \<in> set m" "hd m = NUL"
    using assms(1) None by (auto simp: copy_getenv_def PATH_MAX_def numeral_eq_Suc)
  then have "hd (split_filterdir m) = NUL" "split_filterdir m \<noteq> []"
    by (cases m; simp add: split_filterdir_def cstr_def strtok_all_single)+
  then show ?thesis by (intro filtered_end) auto
next
  case (Some t)
  then have t: "NUL \<notin> set t" "length t + 1 < PATH_MAX"
    using assms by (auto simp: copy_getenv_def PATH_MAX_def split: if_splits)
  obtain k where k: "PATH_MAX - length t = Suc (Suc k)"
  proof -
    obtain j where "PATH_MAX = length t + 2 + j" using t(2) less_iff_Suc_add [of "length t + 1" PATH_MAX] by auto
    then have "PATH_MAX - length t = Suc (Suc j)" by simp
    then show ?thesis by (rule that)
  qed
  have m: "m = t @ replicate (Suc (Suc k)) NUL"
    using assms(1) copy_getenv_zeros [OF t(2)] unfolding Some k by simp
  have "cstr m = t" using t(1) by (simp add: m cstr_def takeWhile_append takeWhile_no)
  then have "split_filterdir m = strtok_all t @ replicate (Suc (Suc k)) NUL" by (simp add: split_filterdir_def m)
  also have "replicate (Suc (Suc k)) NUL = replicate k NUL @ [NUL, NUL]"
    by (simp add: replicate_app_Cons_same)
  finally have "split_filterdir m = (strtok_all t @ replicate k NUL) @ [NUL, NUL]" by simp
  then show ?thesis by (intro filtered_end) blast
qed

text \<open>A doubled colon hides the entry behind it.\<close>

lemma doubled_colon: "strtok_all ''/a::/b'' = ''/a'' @ NUL # '':/b''"
  using strtok_all_step [of "''/a''" "'':/b''"] by (simp add: strtok_all.simps)

section \<open>The name of a process\<close>

text \<open>
  \<open>descends proc base pids\<close>: the process numbers \<open>pids\<close>, the last one first, are a line of descent
  whose first parent is \<open>base\<close> or no process.
\<close>

fun descends :: "(string \<Rightarrow> string option) \<Rightarrow> int \<Rightarrow> int list \<Rightarrow> bool" where
  "descends proc_file base [] = True"
| "descends proc_file base (p # ps) \<longleftrightarrow> p \<noteq> 0 \<and> p \<noteq> base \<and> pid2ppid proc_file p \<noteq> p \<and>
     (case ps of [] \<Rightarrow> pid2ppid proc_file p = base \<or> pid2ppid proc_file p = 0
      | q # _ \<Rightarrow> pid2ppid proc_file p = q) \<and> descends proc_file base ps"

text \<open>The names from the first to the last; a name that repeats the one before is a star.\<close>

fun chain_text :: "string \<Rightarrow> bool \<Rightarrow> string list \<Rightarrow> string" where
  "chain_text l first [] = []"
| "chain_text l first (n # ns) =
     (if n = l then ''*'' else (if first then [] else ''.'') @ n) @ chain_text n False ns"

lemma chain_text_snoc:
  "chain_text l first (ns @ [n]) = chain_text l first ns @
     (if n = last (l # ns) then ''*'' else (if first \<and> ns = [] then [] else ''.'') @ n)"
  by (induction ns arbitrary: l first) auto

lemma addptree_chain:
  assumes "pids \<noteq> []" "descends proc_file base pids" "\<forall>p \<in> set pids. getpname proc_file stack p = Some (name p)"
    and "\<forall>p \<in> set pids. name p \<noteq> []" "length (chain_text [] True (rev (map name pids))) < 4096"
  shows "addptree proc_file stack (hd pids) base \<lparr>cmdtxt = [], txtpos = 0, last_name = []\<rparr> =
    Some (Some \<lparr>cmdtxt = chain_text [] True (rev (map name pids)),
      txtpos = length (chain_text [] True (rev (map name pids))), last_name = name (hd pids)\<rparr>)"
  using assms
proof (induction pids)
  case (Cons p ps)
  let ?t0 = "\<lparr>cmdtxt = [], txtpos = 0, last_name = []\<rparr>"
  let ?ns = "rev (map name ps)"
  have p: "p \<noteq> 0" "p \<noteq> base" "pid2ppid proc_file p \<noteq> p" using Cons.prems(2) by auto
  have sn: "chain_text [] True (rev (map name (p # ps))) = chain_text [] True ?ns @
      (if name p = last ([] # ?ns) then ''*'' else (if ps = [] then [] else ''.'') @ name p)"
    using chain_text_snoc [of "[]" True ?ns "name p"] by simp
  define t where "t = (if ps = [] then ?t0 else \<lparr>cmdtxt = chain_text [] True ?ns, txtpos = length (chain_text [] True ?ns),
      last_name = name (hd ps)\<rparr>)"
  have len: "length (chain_text [] True ?ns) < 4096" using Cons.prems(5) unfolding sn by simp
  have t: "addptree proc_file stack (pid2ppid proc_file p) base ?t0 = Some (Some t)"
  proof (cases ps)
    case Nil
    then show ?thesis using Cons.prems(2) by (subst addptree.simps) (auto simp: t_def)
  next
    case (Cons q qs)
    then show ?thesis using Cons.IH Cons.prems len by (simp add: t_def)
  qed
  have ne: "txtpos t \<noteq> 0 \<longleftrightarrow> ps \<noteq> []"
  proof (cases ps rule: rev_cases)
    case (snoc qs q)
    then show ?thesis using Cons.prems(4) by (simp add: t_def)
  qed (simp add: t_def)
  have la: "last_name t = last ([] # ?ns)" by (cases ps) (simp_all add: t_def last_rev)
  have tx: "cmdtxt t = chain_text [] True ?ns" "txtpos t = length (chain_text [] True ?ns)" by (simp_all add: t_def)
  have cn: "chain_text [] True ?ns = [] \<longleftrightarrow> ps = []" using ne tx(2) by simp
  have "add_name (name p) t = Some \<lparr>cmdtxt = chain_text [] True (rev (map name (p # ps))),
      txtpos = length (chain_text [] True (rev (map name (p # ps)))), last_name = name p\<rparr>"
  proof -
    have l5: "length (chain_text [] True ?ns) + length (if name p = last ([] # ?ns) then ''*'' else (if ps = [] then [] else ''.'') @ name p) < 4096"
      using Cons.prems(5) unfolding sn length_append .
    have pc: "(if last_name t \<noteq> name p then (if txtpos t \<noteq> 0 then ''.'' else []) @ name p else ''*'') =
        (if name p = last ([] # ?ns) then ''*'' else (if ps = [] then [] else ''.'') @ name p)"
      unfolding la using ne by auto
    define piece where "piece = (if name p = last ([] # ?ns) then ''*'' else (if ps = [] then [] else ''.'') @ name p)"
    have l6: "length (chain_text [] True ?ns) + length piece < 4096" using l5 unfolding piece_def .
    have "add_name (name p) t = Some (t\<lparr>cmdtxt := cmdtxt t @ piece, txtpos := txtpos t + length piece, last_name := name p\<rparr>)"
      unfolding add_name_def pc piece_def [symmetric] Let_def using l6 tx(2) by simp
    then show ?thesis unfolding sn piece_def [symmetric] tx by (cases t) simp
  qed
  then show ?case
    using p t Cons.prems(3) by (subst addptree.simps) (simp add: Let_def)
qed simp

text \<open>
  A shell without arguments: the rest of the name of the file in \<^verbatim>\<open>/proc\<close>, which stands in the buffer
  behind what was read, is taken for its first argument.
\<close>

lemma shell_without_arguments:
  "getpname (\<lambda>f. if f = ''/proc/42/cmdline'' then Some (''bash'' @ [NUL]) else None) (replicate 100 NUL) 42 = Some ''bash(cmdline)''"
proof -
  have s: "show_int 42 = ''42''" by code_simp
  show ?thesis unfolding getpname_def s
    by (simp add: cstr_def basename_def strip_slashes_def)
qed

section \<open>The table\<close>

lemma wrapper_table:
  "map (\<lambda>w. (func w, names w, at_names w)) wrappers =
    [(''open'', [''f'', ''a''], []), (''open64'', [''f'', ''a''], []),
     (''openat'', [''atfd'', ''f'', ''a''], [''atfd'']), (''openat64'', [''atfd'', ''f'', ''a''], [''atfd'']),
     (''fopen'', [''f'', ''g''], []), (''fopen64'', [''f'', ''g''], []),
     (''creat'', [''f'', ''m''], []), (''creat64'', [''f'', ''m''], []),
     (''mkdir'', [''f'', ''m''], []), (''mkfifo'', [''f'', ''m''], []),
     (''mknod'', [''f'', ''m'', ''d''], []), (''__xmknod'', [''ver'', ''f'', ''m'', ''d''], []),
     (''link'', [''s'', ''f''], []), (''linkat'', [''atfd'', ''s'', ''atfd2'', ''f'', ''flags''], [''atfd'']),
     (''symlink'', [''s'', ''f''], []), (''symlinkat'', [''s'', ''atfd'', ''f''], [''atfd'']),
     (''rename'', [''s'', ''f''], []), (''renameat'', [''atfds'', ''s'', ''atfd'', ''f''], [''atfd'']),
     (''renameat2'', [''atfds'', ''s'', ''atfd'', ''f'', ''flags''], [''atfd'']),
     (''utime'', [''f'', ''t''], []), (''utimes'', [''f'', ''t''], []),
     (''utimensat'', [''atfd'', ''f'', ''t'', ''flags''], [''atfd'']),
     (''execv'', [''f'', ''a''], []), (''execve'', [''f'', ''a'', ''e''], [])]"
  by code_simp

lemma open64_in_table: "open64_wrapper \<in> set wrappers"
  by code_simp

text \<open>
  The new name of \<^verbatim>\<open>linkat\<close> belongs to its second directory; the library looks it up in the first.
\<close>

lemma linkat_first_directory:
  assumes "number_arg (c ''atfd'') \<noteq> AT_FDCWD" "text_arg (c ''f'') = Some f"
    and "readlink sys (''/proc/self/fd/'' @ show_int (number_arg (c ''atfd''))) (kernel p) = Inl d"
    and "length d + length f + 1 < PATH_MAX"
  shows "at_checks sys c [''atfd''] (text_arg (c ''f'')) p = Done (Some (d @ ''/'' @ f)) p"
  using assms by (simp add: getatpath_def Let_def)

text \<open>And it appends a name that is already absolute.\<close>

lemma absolute_appended:
  assumes "number_arg (c ''atfd'') \<noteq> AT_FDCWD" "text_arg (c ''f'') = Some (CHR ''/'' # f)"
    and "readlink sys (''/proc/self/fd/'' @ show_int (number_arg (c ''atfd''))) (kernel p) = Inl d"
    and "length d + length f + 2 < PATH_MAX"
  shows "at_checks sys c [''atfd''] (text_arg (c ''f'')) p = Done (Some (d @ ''//'' @ f)) p"
  using linkat_first_directory [OF assms(1,2,3)] assms(4) by simp

text \<open>Writing through a descriptor opened with \<^verbatim>\<open>O_RDWR\<close> (2) is not checked.\<close>

lemma read_write_not_checked: "(2::int) AND (O_WRONLY OR O_CREAT OR O_APPEND) = 0"
  by (simp add: open_flags)

end
