(* ===== verification/FileLists.thy ===== *)
theory FileLists
  imports FlWrapper FlParse
begin

text \<open>
  The preloaded library (\<open>FlWrapper\<close>) writes a log, and \<^verbatim>\<open>fl_wrparse -s\<close> (\<open>FlParse\<close>) makes the file list of
  the package from it: the two programs together.
\<close>

section \<open>From a file that is made to the file list of the package\<close>


























end
