(* ===== verification/LuaObject.thy ===== *)
theory LuaObject
  imports CLib "HOL-Library.Multiset"
begin

text \<open>
  The Lua interpreter the shell builtin is linked with, \<^verbatim>\<open>misc/luabash/lua\<close>: the values of
  \<^verbatim>\<open>lobject.c\<close> and the table of strings of \<^verbatim>\<open>lstring.c\<close>.  Floating point numbers are a parameter
  of the model: the type \<open>'n\<close> with the operations of the record \<open>numbers\<close>.
\<close>

unbundle bit_operations_syntax

section \<open>Values\<close>

text \<open>
  The macros of \<^verbatim>\<open>luaconf.h\<close> for \<^verbatim>\<open>lua_Number\<close>: \<open>num_eq\<close> is \<^verbatim>\<open>==\<close>, \<open>to_int\<close> and \<open>of_int\<close> the
  conversions \<^verbatim>\<open>lua_number2int\<close> and \<^verbatim>\<open>cast_num\<close>; \<open>num_words\<close> are the words of memory a number
  takes, once \<^verbatim>\<open>n + 1\<close> has been computed.
\<close>

record 'n numbers =
  num_eq :: "'n \<Rightarrow> 'n \<Rightarrow> bool"
  to_int :: "'n \<Rightarrow> int"
  of_int :: "int \<Rightarrow> 'n"
  num_words :: "'n \<Rightarrow> 32 word list"

text \<open>
  A value with its tag.  Strings are interned, so that a pointer to one stands for its text
  (\<open>interned\<close> below); other collectable objects are addresses.  \<open>Dead\<close> is the key of a collected object.
\<close>

datatype 'n tvalue =
    Nil
  | Boolean bool
  | Light_userdata nat
  | Number 'n
  | String string
  | Collectable nat
  | Dead nat

definition luaO_rawequalObj :: "('n, 'z) numbers_scheme \<Rightarrow> 'n tvalue \<Rightarrow> 'n tvalue \<Rightarrow> bool" where
  "luaO_rawequalObj N t1 t2 =
     (case (t1, t2) of
        (Nil, Nil) \<Rightarrow> True
      | (Number a, Number b) \<Rightarrow> num_eq N a b
      | (Boolean a, Boolean b) \<Rightarrow> a = b
      | (Light_userdata a, Light_userdata b) \<Rightarrow> a = b
      | (String a, String b) \<Rightarrow> a = b
      | (Collectable a, Collectable b) \<Rightarrow> a = b
      | (Dead a, Dead b) \<Rightarrow> a = b
      | _ \<Rightarrow> False)"

section \<open>Logarithms and floating point bytes\<close>

definition log_2 :: "nat list" where
  "log_2 = [0, 1] @ replicate 2 2 @ replicate 4 3 @ replicate 8 4 @ replicate 16 5 @ replicate 32 6 @
     replicate 64 7 @ replicate 128 8"

fun luaO_log2_loop :: "nat \<Rightarrow> int \<Rightarrow> int" where
  "luaO_log2_loop x l = (if x \<ge> 256 then luaO_log2_loop (x div 256) (l + 8) else l + int (log_2 ! x))"

declare luaO_log2_loop.simps [simp del]

definition luaO_log2 :: "nat \<Rightarrow> int" where
  "luaO_log2 x = luaO_log2_loop x (-1)"

definition ceillog2 :: "nat \<Rightarrow> nat" where
  "ceillog2 x = nat (luaO_log2 (x - 1) + 1)"

lemma log_2_bounds: "0 < x \<Longrightarrow> x < 256 \<Longrightarrow> 2 ^ (log_2 ! x - 1) \<le> x \<and> x < 2 ^ (log_2 ! x) \<and> 0 < log_2 ! x"
proof -
  have "list_all (\<lambda>x. 0 < x \<longrightarrow> 2 ^ (log_2 ! x - 1) \<le> x \<and> x < 2 ^ (log_2 ! x) \<and> 0 < log_2 ! x) [0..<256]"
    by code_simp
  moreover assume "0 < x" "x < 256"
  ultimately show ?thesis by (auto simp: list_all_iff)
qed

lemma luaO_log2_loop_bounds:
  "0 < x \<Longrightarrow> \<exists>k. luaO_log2_loop x l = l + 1 + int k \<and> 2 ^ k \<le> x \<and> x < 2 ^ (k + 1)"
proof (induction x l rule: luaO_log2_loop.induct)
  case (1 x l)
  show ?case
  proof (cases "x \<ge> 256")
    case True
    then have "0 < x div 256" by simp
    then obtain k where k: "luaO_log2_loop (x div 256) (l + 8) = l + 8 + 1 + int k" "2 ^ k \<le> x div 256" "x div 256 < 2 ^ (k + 1)"
      using 1 True by auto
    have "2 ^ (k + 8) \<le> x" "x < 2 ^ (k + 8 + 1)" using k(2,3) by (simp_all add: power_add div_less_iff_less_mult)
    moreover have "luaO_log2_loop x l = l + 1 + int (k + 8)"
      using True k(1) by (subst luaO_log2_loop.simps) simp
    ultimately show ?thesis by blast
  next
    case False
    then have x: "2 ^ (log_2 ! x - 1) \<le> x" "x < 2 ^ (log_2 ! x)" "0 < log_2 ! x"
      using log_2_bounds [of x] "1.prems" by auto
    have "luaO_log2_loop x l = l + 1 + int (log_2 ! x - 1)"
      using False x(3) by (subst luaO_log2_loop.simps) simp
    moreover have "log_2 ! x - 1 + 1 = log_2 ! x" using x(3) by simp
    ultimately show ?thesis using x by metis
  qed
qed

lemma ceillog2_bounds: "0 < x \<Longrightarrow> x \<le> 2 ^ ceillog2 x \<and> (1 < x \<longrightarrow> 2 ^ (ceillog2 x - 1) < x) \<and> (x = 1 \<longrightarrow> ceillog2 x = 0)"
proof (cases "x = 1")
  case True
  have "luaO_log2 0 = -1" by (simp add: luaO_log2_def luaO_log2_loop.simps log_2_def)
  then show ?thesis using True by (simp add: ceillog2_def)
next
  case False
  assume "0 < x"
  with False obtain k where k: "luaO_log2 (x - 1) = int k" "2 ^ k \<le> x - 1" "x - 1 < 2 ^ (k + 1)"
    using luaO_log2_loop_bounds [of "x - 1" "-1"] by (auto simp: luaO_log2_def)
  then have "ceillog2 x = k + 1" by (simp add: ceillog2_def nat_int_add [of k 1])
  then show ?thesis using k False by auto
qed

text \<open>\<open>luaO_int2fb\<close> and \<open>luaO_fb2int\<close>: sizes of table constructors in the instructions.\<close>

function int2fb_loop :: "32 word \<Rightarrow> nat \<Rightarrow> 32 word \<times> nat" where
  "int2fb_loop x e = (if x \<ge> 16 then int2fb_loop (drop_bit 1 (x + 1)) (e + 1) else (x, e))"
  by pat_completeness auto
termination
proof (relation "measure (\<lambda>(x, e). unat x)")
  fix x :: "32 word" and e :: nat
  assume x: "x \<ge> 16"
  then have "unat x \<ge> 16" by (simp add: word_le_nat_alt)
  moreover have "unat (x + 1) \<le> unat x + 1" by (simp add: unat_word_ariths)
  moreover have "unat (drop_bit 1 (x + 1)) = unat (x + 1) div 2" by (simp add: drop_bit_Suc unat_div)
  ultimately show "((drop_bit 1 (x + 1), e + 1), x, e) \<in> measure (\<lambda>(x, e). unat x)" by simp
qed simp

declare int2fb_loop.simps [simp del]

definition luaO_int2fb :: "32 word \<Rightarrow> nat" where
  "luaO_int2fb x =
     (let (y, e) = int2fb_loop x 0 in
      if y < 8 then unat y else (push_bit 3 (e + 1)) OR (unat y - 8))"

definition luaO_fb2int :: "nat \<Rightarrow> nat" where
  "luaO_fb2int x = (let e = drop_bit 3 x AND 31 in if e = 0 then x else push_bit (e - 1) ((x AND 7) + 8))"


text \<open>The loop halves and rounds up; \<open>halved x e\<close> is the result for a number that does not wrap.\<close>

lemma int2fb_loop_spec:
  assumes "unat x < 2 ^ 32 - 1"
  shows "\<exists>y k. int2fb_loop x e = (y, e + k) \<and> unat y < 16 \<and> (k = 0 \<or> 8 \<le> unat y) \<and>
    unat x \<le> unat y * 2 ^ k \<and> (k = 0 \<or> (unat y - 1) * 2 ^ k < unat x) \<and> (k = 0 \<longrightarrow> y = x) \<and> k \<le> 29"
  using assms
proof (induction x e rule: int2fb_loop.induct)
  case (1 x e)
  show ?case
  proof (cases "x \<ge> 16")
    case False
    then have "int2fb_loop x e = (x, e + 0)" "unat x < 16"
      by (subst int2fb_loop.simps, simp) (use False in \<open>simp add: word_le_nat_alt\<close>)
    then show ?thesis by (intro exI [of _ x] exI [of _ 0]) simp
  next
    case True
    then have x: "16 \<le> unat x" by (simp add: word_le_nat_alt)
    define z where "z = drop_bit 1 (x + 1)"
    have "unat (x + 1) = unat x + 1" using "1.prems" by (simp add: unat_word_ariths)
    then have z: "unat z = (unat x + 1) div 2" by (simp add: z_def drop_bit_Suc unat_div)
    obtain y k where y: "int2fb_loop z (e + 1) = (y, e + 1 + k)" "unat y < 16" "k = 0 \<or> 8 \<le> unat y"
        "unat z \<le> unat y * 2 ^ k" "k = 0 \<or> (unat y - 1) * 2 ^ k < unat z" "k = 0 \<longrightarrow> y = z"
      using 1(1) [OF True] "1.prems" z unfolding z_def by fastforce
    have y8: "8 \<le> unat y" using y(3,6) z x by auto
    have l: "int2fb_loop x e = (y, e + Suc k)" using True y(1) by (subst int2fb_loop.simps) (simp add: z_def)
    have a: "unat x \<le> unat y * 2 ^ Suc k" using y(4) z by simp
    have b: "(unat y - 1) * 2 ^ Suc k < unat x"
    proof (cases "k = 0")
      case True
      then show ?thesis using y(6) z x by simp
    next
      case False
      then have "(unat y - 1) * 2 ^ k < unat z" using y(5) by simp
      then have "(unat y - 1) * 2 ^ k + 1 \<le> (unat x + 1) div 2" using z by simp
      then show ?thesis by simp
    qed
    have "7 * 2 ^ Suc k \<le> (unat y - 1) * 2 ^ Suc k" using y8 by (intro mult_right_mono) auto
    then have "7 * 2 ^ Suc k < (2::nat) ^ 32" using b "1.prems" by linarith
    then have "(2::nat) ^ (Suc k + 2) < 2 ^ 32" by simp
    then have "Suc k + 2 < 32" by (rule power_less_imp_less_exp [rotated]) simp
    then have "Suc k \<le> 29" by simp
    then show ?thesis using l y(2) y8 a b by (intro exI [of _ y] exI [of _ "Suc k"]) simp
  qed
qed


lemma floating_byte:
  assumes "8 \<le> y" "y < 16" "k < 31"
  shows "luaO_fb2int ((push_bit 3 (k + 1)) OR (y - 8)) = y * 2 ^ k"
proof -
  have m: "push_bit 3 (k + 1) OR (y - 8) = 8 * (k + 1) + (y - 8)"
  proof -
    have "push_bit 3 (k + 1) AND (y - 8) = 0"
    proof (rule bit_eqI)
      fix n
      show "bit (push_bit 3 (k + 1) AND (y - 8)) n = bit (0::nat) n"
      proof (cases "n < 3")
        case False
        have "y - 8 < 2 ^ 3" using assms by simp
        then have "\<not> bit (y - 8) n" using False
          by (metis bit_take_bit_iff take_bit_nat_eq_self)
        then show ?thesis by (simp add: bit_and_iff)
      qed (simp add: bit_and_iff bit_push_bit_iff)
    qed
    then have "push_bit 3 (k + 1) OR (y - 8) = push_bit 3 (k + 1) + (y - 8)"
      by (simp add: disjunctive_add_eq_or)
    then show ?thesis by (simp add: push_bit_eq_mult)
  qed
  obtain r where r: "y = 8 + r" "r < 8" using assms le_Suc_ex [of 8 y] by auto
  have d: "(8 * (k + 1) + (y - 8)) div 8 = k + 1" "(8 * (k + 1) + (y - 8)) mod 8 = y - 8"
  proof -
    have "(8 * (k + 1) + r) div 8 = k + 1" using r(2) by (intro div_nat_eqI) simp_all
    moreover have "(8 * (k + 1) + r) mod 8 = r" using mod_mult_self4 [of 8 "k + 1" r] r(2) by (simp del: mult_Suc_right)
    ultimately show "(8 * (k + 1) + (y - 8)) div 8 = k + 1" "(8 * (k + 1) + (y - 8)) mod 8 = y - 8"
      unfolding r(1) by (simp_all only: add_diff_cancel_left')
  qed
  have e: "drop_bit 3 (8 * (k + 1) + (y - 8)) AND 31 = k + 1"
  proof -
    have "drop_bit 3 (8 * (k + 1) + (y - 8)) = k + 1" using d by (simp add: drop_bit_eq_div)
    moreover have "(k + 1) AND 31 = take_bit 5 (k + 1)" by (simp add: take_bit_eq_mask mask_eq_exp_minus_1)
    ultimately show ?thesis using assms by (simp add: take_bit_eq_mod)
  qed
  have "(8 * (k + 1) + (y - 8)) AND 7 = take_bit 3 (8 * (k + 1) + (y - 8))"
    by (simp only: take_bit_eq_mask) (simp add: mask_eq_exp_minus_1)
  then have l: "(8 * (k + 1) + (y - 8)) AND 7 = y - 8" using d by (simp add: take_bit_eq_mod)
  show ?thesis
    unfolding m luaO_fb2int_def Let_def e l using assms by (simp add: push_bit_eq_mult)
qed

text \<open>
  The byte that codes the size of a table is never too small and at most a seventh too large, for
  every size but the largest number, which wraps to 0.
\<close>

theorem floating_byte_bounds:
  assumes "unat x < 2 ^ 32 - 1"
  shows "unat x \<le> luaO_fb2int (luaO_int2fb x) \<and> 7 * (luaO_fb2int (luaO_int2fb x) - unat x) \<le> unat x"
proof -
  obtain y k where y: "int2fb_loop x 0 = (y, k)" "unat y < 16" "k = 0 \<or> 8 \<le> unat y" "unat x \<le> unat y * 2 ^ k"
      "k = 0 \<or> (unat y - 1) * 2 ^ k < unat x" "k = 0 \<longrightarrow> y = x" "k \<le> 29"
    using int2fb_loop_spec [OF assms, of 0] by auto
  show ?thesis
  proof (cases "unat y < 8")
    case True
    then have "k = 0" "y = x" using y(3,6) by auto
    moreover have "luaO_fb2int (unat x) = unat x" using True \<open>y = x\<close>
      by (simp add: luaO_fb2int_def drop_bit_eq_div)
    ultimately show ?thesis using True y(1) by (simp add: luaO_int2fb_def word_less_nat_alt)
  next
    case False
    then have f: "luaO_fb2int (luaO_int2fb x) = unat y * 2 ^ k"
      using y floating_byte [of "unat y" k] by (simp add: luaO_int2fb_def word_less_nat_alt)
    show ?thesis
    proof (cases "k = 0")
      case True
      then show ?thesis using f y(6) by simp
    next
      case False
      then have b: "(unat y - 1) * 2 ^ k < unat x" "8 \<le> unat y" using y by auto
      have "7 * 2 ^ k \<le> (unat y - 1) * 2 ^ k" using b by (intro mult_right_mono) auto
      moreover have "unat y * 2 ^ k = (unat y - 1) * 2 ^ k + 2 ^ k" using b(2) by (cases "unat y") auto
      moreover define a where "a = (unat y - 1) * 2 ^ k"
      moreover define s where "s = (2::nat) ^ k"
      ultimately have "7 * s \<le> a" "unat x \<le> a + s" "a < unat x" "luaO_fb2int (luaO_int2fb x) = a + s"
        using f b y(4) by simp_all
      then show ?thesis by simp
    qed
  qed
qed

theorem floating_byte_bounds_witness: "(1000::nat) \<le> luaO_fb2int (luaO_int2fb 1000)"
  using floating_byte_bounds [of 1000] by simp

lemma largest_size_lost: "luaO_int2fb (-1) = 0"
  by (simp add: luaO_int2fb_def int2fb_loop.simps)


section \<open>Texts of errors\<close>

text \<open>
  \<open>luaO_chunkid\<close>: the name of a source in messages, for a buffer of \<open>bufflen\<close> characters.  A source
  \<^verbatim>\<open>=name\<close> is a name, \<^verbatim>\<open>@file\<close> a file, anything else program text.  The subtractions are those of
  \<^verbatim>\<open>size_t\<close>: \<open>None\<close> when the buffer is too small for the frame.
\<close>

definition luaO_chunkid :: "string \<Rightarrow> nat \<Rightarrow> string option" where
  "luaO_chunkid source bufflen =
     (case source of
        c # rest \<Rightarrow>
          (if c = CHR ''='' then (if bufflen = 0 then None else Some (take (bufflen - 1) rest))
           else if c = CHR ''@'' then
             (if bufflen < 8 then None
              else let b = bufflen - 8; l = length rest
                   in Some (if l > b then ''...'' @ drop (l - b) rest else rest))
           else
             (if bufflen < 17 then None
              else let b = bufflen - 17;
                       n = length (takeWhile (\<lambda>c. c \<noteq> CHR ''\<newline>'' \<and> c \<noteq> CHR 0x0D) source);
                       len = (if n > b then b else n)
                   in Some (''[string '' @ [CHR 0x22] @
                        (if len < length source then take len source @ ''...'' else source) @ [CHR 0x22] @ '']'')))
      | [] \<Rightarrow> (if bufflen < 17 then None else Some (''[string '' @ [CHR 0x22, CHR 0x22] @ '']'')))"

text \<open>
  The name of a source fits its buffer with the terminating NUL, whatever the source is.
\<close>

theorem chunkid_fits:
  assumes "17 \<le> bufflen"
  shows "\<exists>t. luaO_chunkid source bufflen = Some t \<and> length t < bufflen"
proof (cases source)
  case Nil
  then show ?thesis using assms by (simp add: luaO_chunkid_def)
next
  case (Cons c rest)
  define n where "n = length (takeWhile (\<lambda>c. c \<noteq> CHR ''\<newline>'' \<and> c \<noteq> CHR 0x0D) source)"
  define b where "b = bufflen - 17"
  define t where "t = (if (if n > b then b else n) < length source then take (if n > b then b else n) source @ ''...'' else source)"
  consider "c = CHR ''=''" | "c = CHR ''@''" | (other) "c \<noteq> CHR ''=''" "c \<noteq> CHR ''@''" by blast
  then show ?thesis
  proof cases
    case other
    have "n \<le> length source" unfolding n_def by (rule length_takeWhile_le)
    then have t: "length t \<le> b + 3" by (auto simp: t_def)
    have "luaO_chunkid source bufflen = Some (''[string '' @ [CHR 0x22] @ t @ [CHR 0x22] @ '']'')"
      using assms other unfolding luaO_chunkid_def Let_def n_def [symmetric] b_def [symmetric] t_def by (simp add: Cons)
    then show ?thesis using t assms by (simp add: b_def)
  qed (use assms in \<open>auto simp: luaO_chunkid_def Cons Let_def\<close>)
qed

theorem chunkid_fits_witness:
  "\<exists>t. luaO_chunkid ''return 1'' 60 = Some t \<and> length t < 60"
  using chunkid_fits [of 60 "''return 1''"] by simp

text \<open>
  \<open>luaO_pushvfstring\<close>: the arguments are given as a list; \<open>show_num\<close> and \<open>show_pointer\<close> write numbers
  and addresses.  \<open>None\<close>: an argument is missing or of the wrong type, or the format ends in a
  percent sign and is read behind its end.
\<close>

datatype 'n format_arg = A_string "string option" | A_char char | A_int int | A_number 'n | A_pointer nat

definition directive_text ::
  "('n, 'z) numbers_scheme \<Rightarrow> ('n \<Rightarrow> string) \<Rightarrow> (nat \<Rightarrow> string) \<Rightarrow> char \<Rightarrow> 'n format_arg list \<Rightarrow>
   (string \<times> 'n format_arg list) option" where
  "directive_text N show_num show_pointer c args =
     (if c = CHR ''s'' then
        (case args of A_string s # as \<Rightarrow> Some (case s of None \<Rightarrow> ''(null)'' | Some t \<Rightarrow> t, as) | _ \<Rightarrow> None)
      else if c = CHR ''c'' then
        (case args of A_char x # as \<Rightarrow> Some (if x = CHR 0x00 then [] else [x], as) | _ \<Rightarrow> None)
      else if c = CHR ''d'' then
        (case args of A_int i # as \<Rightarrow> Some (show_num (of_int N i), as) | _ \<Rightarrow> None)
      else if c = CHR ''f'' then
        (case args of A_number x # as \<Rightarrow> Some (show_num x, as) | _ \<Rightarrow> None)
      else if c = CHR ''p'' then
        (case args of A_pointer x # as \<Rightarrow> Some (show_pointer x, as) | _ \<Rightarrow> None)
      else if c = CHR ''%'' then Some (''%'', args)
      else Some ([CHR ''%'', c], args))"

function luaO_pushvfstring ::
  "('n, 'z) numbers_scheme \<Rightarrow> ('n \<Rightarrow> string) \<Rightarrow> (nat \<Rightarrow> string) \<Rightarrow> string \<Rightarrow> 'n format_arg list \<Rightarrow> string option" where
  "luaO_pushvfstring N show_num show_pointer fmt args =
     (case dropWhile (\<lambda>c. c \<noteq> CHR ''%'') fmt of
        [] \<Rightarrow> Some fmt
      | [_] \<Rightarrow> None
      | _ # c # rest \<Rightarrow>
          (case directive_text N show_num show_pointer c args of
             None \<Rightarrow> None
           | Some (t, as) \<Rightarrow>
               map_option (\<lambda>r. takeWhile (\<lambda>c. c \<noteq> CHR ''%'') fmt @ t @ r)
                 (luaO_pushvfstring N show_num show_pointer rest as)))"
  by pat_completeness auto
termination
proof (relation "measure (\<lambda>(N, sn, sp, fmt, args). length fmt)", goal_cases)
  case (2 N sn sp fmt args x xs c rest y t as)
  have "length (x # c # rest) \<le> length fmt"
    unfolding 2(1) [symmetric] 2(2) [symmetric] by (rule length_dropWhile_le)
  then show ?case by simp
qed simp

declare luaO_pushvfstring.simps [simp del]

section \<open>The table of strings\<close>

text \<open>
  A string object has an address, its text and its hash value; the table is an array of chains.
\<close>

record tstring =
  address :: nat
  str :: string
  hash_field :: "32 word"

record stringtable =
  hash_chains :: "tstring list list"
  nuse :: nat

text \<open>The loop over every \<open>step\<close>-th character from the end; \<open>l1\<close> characters are left.\<close>

function hash_loop :: "string \<Rightarrow> nat \<Rightarrow> nat \<Rightarrow> 32 word \<Rightarrow> 32 word" where
  "hash_loop s step l1 h =
     (if l1 \<ge> step \<and> 0 < step then
        hash_loop s step (l1 - step) (h XOR (push_bit 5 h + drop_bit 2 h + of_char (s ! (l1 - 1))))
      else h)"
  by pat_completeness auto
termination by (relation "measure (\<lambda>(s, step, l1, h). l1)") auto

declare hash_loop.simps [simp del]

definition string_hash :: "string \<Rightarrow> 32 word" where
  "string_hash s = hash_loop s (length s div 32 + 1) (length s) (of_nat (length s))"

definition lmod :: "32 word \<Rightarrow> nat \<Rightarrow> nat" where
  "lmod h n = unat (h AND (of_nat n - 1))"

definition move_string :: "nat \<Rightarrow> tstring \<Rightarrow> tstring list list \<Rightarrow> tstring list list" where
  "move_string newsize p newhash =
     (let h1 = lmod (hash_field p) newsize in newhash[h1 := p # newhash ! h1])"

text \<open>\<open>sweeping\<close>: the garbage collector is sweeping the strings.\<close>

definition luaS_resize :: "bool \<Rightarrow> nat \<Rightarrow> stringtable \<Rightarrow> stringtable" where
  "luaS_resize sweeping newsize tb =
     (if sweeping then tb
      else tb\<lparr>hash_chains := fold (move_string newsize) (concat (hash_chains tb)) (replicate newsize [])\<rparr>)"

definition newlstr :: "bool \<Rightarrow> nat \<Rightarrow> string \<Rightarrow> 32 word \<Rightarrow> stringtable \<Rightarrow> tstring \<times> stringtable" where
  "newlstr sweeping addr s h tb =
     (let ts = \<lparr>address = addr, str = s, hash_field = h\<rparr>;
          tb1 = tb\<lparr>hash_chains := move_string (length (hash_chains tb)) ts (hash_chains tb), nuse := nuse tb + 1\<rparr>;
          size = length (hash_chains tb1)
      in (ts, if nuse tb1 > size \<and> size \<le> (2 ^ 31 - 3) div 2 then luaS_resize sweeping (2 * size) tb1 else tb1))"

text \<open>\<open>addr\<close> is the address a new object gets.\<close>

definition luaS_newlstr :: "bool \<Rightarrow> nat \<Rightarrow> string \<Rightarrow> stringtable \<Rightarrow> tstring \<times> stringtable" where
  "luaS_newlstr sweeping addr s tb =
     (let h = string_hash s in
      case find (\<lambda>ts. length (str ts) = length s \<and> str ts = s) (hash_chains tb ! lmod h (length (hash_chains tb))) of
        Some ts \<Rightarrow> (ts, tb)
      | None \<Rightarrow> newlstr sweeping addr s h tb)"


lemma lmod_less: "k < 32 \<Longrightarrow> lmod h (2 ^ k) < 2 ^ k"
proof -
  assume k: "k < 32"
  have "h AND (of_nat (2 ^ k) - 1) = take_bit k h" by (simp add: take_bit_eq_mask mask_eq_exp_minus_1)
  then have "lmod h (2 ^ k) = unat (take_bit k h)" by (simp add: lmod_def)
  also have "\<dots> = take_bit k (unat h)" by (rule unsigned_take_bit_eq)
  also have "\<dots> = unat h mod 2 ^ k" by (rule take_bit_eq_mod)
  finally show ?thesis by simp
qed

lemma mem_concat: "x \<in> set (concat xss) \<longleftrightarrow> (\<exists>i < length xss. x \<in> set (xss ! i))"
  by (simp add: Bex_def) (metis in_set_conv_nth)

definition strings_ok :: "stringtable \<Rightarrow> bool" where
  "strings_ok tb \<longleftrightarrow>
     (\<exists>k<32. length (hash_chains tb) = 2 ^ k) \<and>
     (\<forall>i < length (hash_chains tb). \<forall>ts \<in> set (hash_chains tb ! i).
        hash_field ts = string_hash (str ts) \<and> lmod (hash_field ts) (length (hash_chains tb)) = i) \<and>
     distinct (map str (concat (hash_chains tb))) \<and> distinct (map address (concat (hash_chains tb)))"

lemma strings_okD:
  "strings_ok tb \<Longrightarrow> i < length (hash_chains tb) \<Longrightarrow> x \<in> set (hash_chains tb ! i) \<Longrightarrow>
   hash_field x = string_hash (str x) \<and> lmod (hash_field x) (length (hash_chains tb)) = i"
  unfolding strings_ok_def by blast

lemma mset_concat_update:
  "i < length xss \<Longrightarrow> mset (concat (xss[i := p # xss ! i])) = add_mset p (mset (concat xss))"
proof (induction xss arbitrary: i)
  case (Cons xs xss)
  then show ?case by (cases i) auto
qed simp

lemma fold_move_string:
  assumes "n = 2 ^ k" "k < 32" "length hs = n"
    and "\<forall>i < n. \<forall>ts \<in> set (hs ! i). lmod (hash_field ts) n = i"
  shows "length (fold (move_string n) ps hs) = n \<and> mset (concat (fold (move_string n) ps hs)) = mset ps + mset (concat hs) \<and>
    (\<forall>i < n. \<forall>ts \<in> set (fold (move_string n) ps hs ! i). lmod (hash_field ts) n = i)"
  using assms(3,4)
proof (induction ps arbitrary: hs)
  case (Cons p ps)
  have l: "lmod (hash_field p) n < n" using lmod_less [OF assms(2)] assms(1) by simp
  define h where "h = move_string n p hs"
  have hl: "length h = n" using Cons.prems by (simp add: h_def move_string_def Let_def)
  have hm: "mset (concat h) = add_mset p (mset (concat hs))"
    unfolding h_def move_string_def Let_def using Cons.prems l by (intro mset_concat_update) simp
  have hc: "\<forall>i < n. \<forall>ts \<in> set (h ! i). lmod (hash_field ts) n = i"
    using Cons.prems l unfolding h_def move_string_def Let_def by (auto simp: nth_list_update split: if_splits)
  have "fold (move_string n) (p # ps) hs = fold (move_string n) ps h" by (simp add: h_def)
  with Cons.IH [OF hl hc] hm show ?case by simp
qed simp

lemma strings_ok_chains:
  assumes "n = 2 ^ k" "k < 32" "strings_ok tb" "tb' = tb\<lparr>hash_chains := fold (move_string n) (concat (hash_chains tb)) (replicate n [])\<rparr>"
  shows "strings_ok tb' \<and> mset (concat (hash_chains tb')) = mset (concat (hash_chains tb))"
proof -
  let ?h = "fold (move_string n) (concat (hash_chains tb)) (replicate n [])"
  have f: "length ?h = n" "mset (concat ?h) = mset (concat (hash_chains tb))"
      "\<forall>i < n. \<forall>ts \<in> set (?h ! i). lmod (hash_field ts) n = i"
    using fold_move_string [OF assms(1,2), of "replicate n []" "concat (hash_chains tb)"] by auto
  have s: "set (concat ?h) = set (concat (hash_chains tb))" using f(2) by (metis mset_eq_setD)
  have hf: "hash_field ts = string_hash (str ts)" if "ts \<in> set (concat ?h)" for ts
    using that assms(3) unfolding s strings_ok_def mem_concat by blast
  have d: "distinct (map str (concat ?h))" "distinct (map address (concat ?h))"
    using assms(3) f(2) mset_eq_imp_distinct_iff [of "map str (concat ?h)" "map str (concat (hash_chains tb))"]
      mset_eq_imp_distinct_iff [of "map address (concat ?h)" "map address (concat (hash_chains tb))"]
    by (auto simp: strings_ok_def simp del: map_concat)
  have "hash_field ts = string_hash (str ts)" if "i < n" "ts \<in> set (?h ! i)" for i ts
    using that f(1) by (intro hf) (auto simp only: mem_concat)
  then show ?thesis
    using assms(1,2,4) f d unfolding strings_ok_def by auto
qed

text \<open>The strings a table holds.\<close>

definition stored :: "stringtable \<Rightarrow> tstring set" where
  "stored tb = set (concat (hash_chains tb))"

lemma luaS_resize_ok:
  "strings_ok tb \<Longrightarrow> k < 32 \<Longrightarrow> strings_ok (luaS_resize sw (2 ^ k) tb) \<and> stored (luaS_resize sw (2 ^ k) tb) = stored tb"
proof (cases sw)
  case False
  assume "strings_ok tb" "k < 32"
  then have "strings_ok (luaS_resize sw (2 ^ k) tb)"
      "mset (concat (hash_chains (luaS_resize sw (2 ^ k) tb))) = mset (concat (hash_chains tb))"
    using strings_ok_chains [OF refl, of k tb] False by (auto simp only: luaS_resize_def if_False)
  then show ?thesis unfolding stored_def by (blast dest: mset_eq_setD)
qed (simp add: luaS_resize_def)

lemma newlstr_ok:
  assumes "strings_ok tb" "s \<notin> str ` stored tb" "addr \<notin> address ` stored tb"
    and "newlstr sw addr s (string_hash s) tb = (ts, tb')"
  shows "strings_ok tb' \<and> stored tb' = insert ts (stored tb) \<and> address ts = addr \<and> str ts = s"
proof -
  obtain k where k: "k < 32" "length (hash_chains tb) = 2 ^ k" using assms(1) by (auto simp: strings_ok_def)
  define t where "t = \<lparr>address = addr, str = s, hash_field = string_hash s\<rparr>"
  define l where "l = lmod (string_hash s) (2 ^ k)"
  have l: "l < 2 ^ k" unfolding l_def by (rule lmod_less [OF k(1)])
  define tb1 where "tb1 = tb\<lparr>hash_chains := move_string (2 ^ k) t (hash_chains tb), nuse := nuse tb + 1\<rparr>"
  have hc: "hash_chains tb1 = (hash_chains tb)[l := t # hash_chains tb ! l]"
    by (simp add: tb1_def move_string_def Let_def l_def t_def)
  have m: "mset (concat (hash_chains tb1)) = add_mset t (mset (concat (hash_chains tb)))"
    unfolding hc using l k by (intro mset_concat_update) simp
  then have st: "stored tb1 = insert t (stored tb)" unfolding stored_def by (metis set_mset_add_mset_insert set_mset_mset)
  have e: "mset (map str (concat (hash_chains tb1))) = mset (map str (t # concat (hash_chains tb)))"
    "mset (map address (concat (hash_chains tb1))) = mset (map address (t # concat (hash_chains tb)))"
    using m by (simp_all del: map_concat)
  then have d: "distinct (map str (concat (hash_chains tb1)))" "distinct (map address (concat (hash_chains tb1)))"
  proof -
    have "distinct (map str (t # concat (hash_chains tb)))" "distinct (map address (t # concat (hash_chains tb)))"
      using assms(1-3) by (simp_all add: strings_ok_def stored_def t_def del: map_concat set_concat)
    then show "distinct (map str (concat (hash_chains tb1)))" "distinct (map address (concat (hash_chains tb1)))"
      unfolding mset_eq_imp_distinct_iff [OF e(1)] mset_eq_imp_distinct_iff [OF e(2)] by blast+
  qed
  have ok1: "strings_ok tb1"
  proof -
    have len: "length (hash_chains tb1) = 2 ^ k" using k by (simp add: hc)
    have "hash_field x = string_hash (str x) \<and> lmod (hash_field x) (2 ^ k) = i"
      if "i < 2 ^ k" "x \<in> set (hash_chains tb1 ! i)" for i x
    proof (cases "x = t \<and> i = l")
      case True
      then show ?thesis by (simp add: t_def l_def)
    next
      case False
      then have "x \<in> set (hash_chains tb ! i)" using that k(2) l unfolding hc by (cases "i = l") auto
      then show ?thesis using strings_okD [OF assms(1), of i x] that(1) unfolding k(2) by blast
    qed
    then show ?thesis using d k(1) unfolding strings_ok_def len by blast
  qed
  have r: "(ts, tb') = (t, if nuse tb1 > 2 ^ k \<and> (2::nat) ^ k \<le> (2 ^ 31 - 3) div 2 then luaS_resize sw (2 * 2 ^ k) tb1 else tb1)"
  proof -
    have len: "length (hash_chains tb1) = 2 ^ k" using k by (simp add: hc)
    have "newlstr sw addr s (string_hash s) tb = (t, if nuse tb1 > length (hash_chains tb1) \<and>
        length (hash_chains tb1) \<le> (2 ^ 31 - 3) div 2 then luaS_resize sw (2 * length (hash_chains tb1)) tb1 else tb1)"
      unfolding newlstr_def t_def tb1_def k(2) [symmetric] Let_def by (rule refl)
    then show ?thesis unfolding assms(4) len .
  qed
  have "strings_ok tb' \<and> stored tb' = stored tb1"
  proof (cases "nuse tb1 > 2 ^ k \<and> (2::nat) ^ k \<le> (2 ^ 31 - 3) div 2")
    case True
    then have "(2::nat) ^ k < 2 ^ 31" by simp
    then have "k < 31" by (rule power_less_imp_less_exp [rotated]) simp
    then have "Suc k < 32" by simp
    then show ?thesis using r True luaS_resize_ok [OF ok1, of "Suc k" sw] by simp
  next
    case False
    then show ?thesis using r ok1 by (auto split: if_splits)
  qed
  then show ?thesis using st r by (simp add: t_def)
qed

lemma luaS_newlstr_ok:
  assumes "strings_ok tb" "addr \<notin> address ` stored tb" "luaS_newlstr sw addr s tb = (ts, tb')"
  shows "strings_ok tb' \<and> ts \<in> stored tb' \<and> str ts = s \<and> stored tb \<subseteq> stored tb' \<and>
    stored tb' \<subseteq> insert ts (stored tb) \<and> (ts \<in> stored tb \<or> address ts = addr)"
proof -
  let ?l = "lmod (string_hash s) (length (hash_chains tb))"
  obtain k where k: "k < 32" "length (hash_chains tb) = 2 ^ k" using assms(1) by (auto simp: strings_ok_def)
  have l: "?l < length (hash_chains tb)" using lmod_less [OF k(1)] k(2) by simp
  show ?thesis
  proof (cases "find (\<lambda>ts. length (str ts) = length s \<and> str ts = s) (hash_chains tb ! ?l)")
    case (Some t)
    then have "t \<in> set (hash_chains tb ! ?l)" "str t = s"
      by (auto simp: find_Some_iff dest: nth_mem)
    moreover have "ts = t" "tb' = tb" using Some assms(3) by (simp_all add: luaS_newlstr_def)
    ultimately show ?thesis using assms(1) l by (auto simp: stored_def dest: nth_mem)
  next
    case None
    have "s \<notin> str ` stored tb"
    proof
      assume "s \<in> str ` stored tb"
      then obtain x where "x \<in> set (concat (hash_chains tb))" "str x = s" unfolding stored_def by blast
      then obtain i where x: "i < length (hash_chains tb)" "x \<in> set (hash_chains tb ! i)" "str x = s"
        unfolding mem_concat by blast
      then have "i = ?l" using strings_okD [OF assms(1) x(1,2)] by metis
      with x None show False by (auto simp: find_None_iff)
    qed
    moreover have "newlstr sw addr s (string_hash s) tb = (ts, tb')"
      using None assms(3) by (simp add: luaS_newlstr_def)
    ultimately have "strings_ok tb' \<and> stored tb' = insert ts (stored tb) \<and> address ts = addr \<and> str ts = s"
      by (intro newlstr_ok [OF assms(1) _ assms(2)])
    then show ?thesis by blast
  qed
qed

text \<open>
  Strings are interned: whatever was stored before and however often the table has grown, the address
  returned for a text is that of a string already in the table exactly if that string has the same text.
\<close>

theorem strings_interned:
  assumes "strings_ok tb" "addr \<notin> address ` stored tb" "luaS_newlstr sw addr s tb = (ts, tb')" "x \<in> stored tb"
  shows "strings_ok tb' \<and> x \<in> stored tb' \<and> str ts = s \<and> (address ts = address x \<longleftrightarrow> str x = s)"
proof -
  note n = luaS_newlstr_ok [OF assms(1-3)]
  have x: "x \<in> stored tb'" "ts \<in> stored tb'" using n assms(4) by auto
  have d: "distinct (map str (concat (hash_chains tb')))" "distinct (map address (concat (hash_chains tb')))"
    using n by (auto simp: strings_ok_def)
  have "address ts = address x \<Longrightarrow> ts = x" "str x = str ts \<Longrightarrow> ts = x"
    using d x inj_onD [of address "stored tb'" ts x] inj_onD [of str "stored tb'" ts x]
    by (auto simp: distinct_map stored_def simp del: map_concat set_concat)
  then show ?thesis using n x(1) by auto
qed

definition one_string :: stringtable where
  "one_string = snd (luaS_newlstr False 16 ''abc'' \<lparr>hash_chains = replicate 2 [], nuse = 0\<rparr>)"

theorem strings_interned_witness: "address (fst (luaS_newlstr False 32 ''abc'' one_string)) = 16"
proof -
  let ?tb = "\<lparr>hash_chains = replicate 2 [], nuse = 0\<rparr>"
  have e: "strings_ok ?tb" "stored ?tb = {}"
    by (auto simp: strings_ok_def stored_def numeral_2_eq_2 less_Suc_eq intro!: exI [of _ 1])
  obtain t where t: "luaS_newlstr False 16 ''abc'' ?tb = (t, one_string)" by (cases "luaS_newlstr False 16 ''abc'' ?tb") (simp add: one_string_def)
  have n: "strings_ok one_string" "t \<in> stored one_string" "str t = ''abc''" "address t = 16" "stored one_string \<subseteq> {t}"
    using luaS_newlstr_ok [OF e(1) _ t] by (auto simp: e(2))
  obtain u tb' where u: "luaS_newlstr False 32 ''abc'' one_string = (u, tb')" by fastforce
  have "32 \<notin> address ` stored one_string" using n(4,5) by auto
  from strings_interned [OF n(1) this u n(2)] show ?thesis using n u by simp
qed

end
