(* ===== verification/LuaTable.thy ===== *)
theory LuaTable
  imports LuaObject
begin

text \<open>
  \<^verbatim>\<open>misc/luabash/lua/ltable.c\<close>: the tables of Lua, with an array part and a hash part.  The hash part is
  a chained scatter table in which a key that is not in its main position collides with one that is.

  A pointer to a node is an index into \<open>nodes\<close>; a pointer to a value, what \<^verbatim>\<open>luaH_get\<close> and \<^verbatim>\<open>luaH_set\<close>
  return, is a \<open>slot\<close>.
\<close>

section \<open>Tables\<close>

record 'n node =
  n_key :: "'n tvalue"
  n_val :: "'n tvalue"
  n_next :: "nat option"

text \<open>
  \<open>sizearray\<close> is the length of \<open>array_part\<close>, \<open>sizenode\<close> that of \<open>nodes\<close>; \<open>is_dummy\<close> says that \<^verbatim>\<open>node\<close> points to
  the shared \<^verbatim>\<open>dummynode\<close>; \<open>lastfree\<close> is the index all free positions are below.
\<close>

record 'n table =
  array_part :: "'n tvalue list"
  nodes :: "'n node list"
  is_dummy :: bool
  lastfree :: nat
  tm_flags :: nat

definition free_node :: "'n node" where
  "free_node = \<lparr>n_key = Nil, n_val = Nil, n_next = None\<rparr>"

definition MAXBITS :: nat where "MAXBITS = 26"
definition MAXASIZE :: nat where "MAXASIZE = 2 ^ MAXBITS"

abbreviation sizearray :: "'n table \<Rightarrow> nat" where "sizearray t \<equiv> length (array_part t)"
abbreviation sizenode :: "'n table \<Rightarrow> nat" where "sizenode t \<equiv> length (nodes t)"

datatype slot = In_array nat | In_node nat

definition value_at :: "'n table \<Rightarrow> slot \<Rightarrow> 'n tvalue" where
  "value_at t s = (case s of In_array i \<Rightarrow> array_part t ! i | In_node i \<Rightarrow> n_val (nodes t ! i))"

definition set_slot :: "slot \<Rightarrow> 'n tvalue \<Rightarrow> 'n table \<Rightarrow> 'n table" where
  "set_slot s v t =
     (case s of
        In_array i \<Rightarrow> t\<lparr>array_part := (array_part t)[i := v]\<rparr>
      | In_node i \<Rightarrow> t\<lparr>nodes := (nodes t)[i := (nodes t ! i)\<lparr>n_val := v\<rparr>]\<rparr>)"

section \<open>Main positions\<close>

definition hashpow2 :: "nat \<Rightarrow> 32 word \<Rightarrow> nat" where
  "hashpow2 n h = lmod h n"

definition hashmod :: "nat \<Rightarrow> nat \<Rightarrow> nat" where
  "hashmod n h = h mod ((n - 1) OR 1)"

definition hashnum :: "('n, 'z) numbers_scheme \<Rightarrow> nat \<Rightarrow> 'n \<Rightarrow> nat" where
  "hashnum N n x = hashmod n (unat (sum_list (num_words N x)))"

definition mainposition :: "('n, 'z) numbers_scheme \<Rightarrow> nat \<Rightarrow> 'n tvalue \<Rightarrow> nat" where
  "mainposition N n key =
     (case key of
        Number x \<Rightarrow> hashnum N n x
      | String s \<Rightarrow> hashpow2 n (string_hash s)
      | Boolean b \<Rightarrow> hashpow2 n (if b then 1 else 0)
      | Light_userdata p \<Rightarrow> hashmod n (unat (of_nat p :: 32 word))
      | Collectable p \<Rightarrow> hashmod n (unat (of_nat p :: 32 word))
      | Dead p \<Rightarrow> hashmod n (unat (of_nat p :: 32 word))
      | Nil \<Rightarrow> hashmod n 0)"

definition arrayindex :: "('n, 'z) numbers_scheme \<Rightarrow> 'n tvalue \<Rightarrow> int" where
  "arrayindex N key =
     (case key of
        Number x \<Rightarrow> (if num_eq N (of_int N (to_int N x)) x then to_int N x else -1)
      | _ \<Rightarrow> -1)"

section \<open>Search\<close>

text \<open>
  The loop \<^verbatim>\<open>do ... while (n)\<close> along a chain; \<open>None\<close>: it goes on for ever, which a cyclic chain would make
  it do.
\<close>

partial_function (option) search_chain :: "'n node list \<Rightarrow> ('n node \<Rightarrow> bool) \<Rightarrow> nat \<Rightarrow> nat option option" where
  "search_chain ns found i =
     (if found (ns ! i) then Some (Some i)
      else case n_next (ns ! i) of
             None \<Rightarrow> Some None
           | Some j \<Rightarrow> search_chain ns found j)"

definition in_nodes :: "nat option option \<Rightarrow> slot option option" where
  "in_nodes r = map_option (map_option In_node) r"

definition luaH_getnum :: "('n, 'z) numbers_scheme \<Rightarrow> 'n table \<Rightarrow> int \<Rightarrow> slot option option" where
  "luaH_getnum N t key =
     (if 1 \<le> key \<and> key \<le> int (sizearray t) then Some (Some (In_array (nat (key - 1))))
      else let nk = of_int N key in
        in_nodes (search_chain (nodes t) (\<lambda>n. case n_key n of Number x \<Rightarrow> num_eq N x nk | _ \<Rightarrow> False)
          (hashnum N (sizenode t) nk)))"

definition luaH_getstr :: "'n table \<Rightarrow> string \<Rightarrow> slot option option" where
  "luaH_getstr t key =
     in_nodes (search_chain (nodes t) (\<lambda>n. n_key n = String key) (hashpow2 (sizenode t) (string_hash key)))"

definition search_key :: "('n, 'z) numbers_scheme \<Rightarrow> 'n table \<Rightarrow> 'n tvalue \<Rightarrow> slot option option" where
  "search_key N t key =
     in_nodes (search_chain (nodes t) (\<lambda>n. luaO_rawequalObj N (n_key n) key) (mainposition N (sizenode t) key))"

definition luaH_get :: "('n, 'z) numbers_scheme \<Rightarrow> 'n table \<Rightarrow> 'n tvalue \<Rightarrow> slot option option" where
  "luaH_get N t key =
     (case key of
        Nil \<Rightarrow> Some None
      | String s \<Rightarrow> luaH_getstr t s
      | Number x \<Rightarrow>
          (if num_eq N (of_int N (to_int N x)) x then luaH_getnum N t (to_int N x) else search_key N t key)
      | _ \<Rightarrow> search_key N t key)"

section \<open>Sizes\<close>

text \<open>
  \<open>computesizes\<close>: the largest power of two such that more than half of the indices up to it are in
  use, and how many are; \<open>i\<close> and \<open>twotoi\<close> are the variables of the loop.
\<close>

function sizes_loop :: "nat list \<Rightarrow> nat \<Rightarrow> nat \<Rightarrow> nat \<Rightarrow> nat \<Rightarrow> nat \<Rightarrow> nat \<Rightarrow> nat \<times> nat" where
  "sizes_loop nums narray i twotoi a na n =
     (if twotoi div 2 < narray \<and> 0 < twotoi then
        (let (a', na', n') =
               (if nums ! i > 0 then
                  (let a1 = a + nums ! i in if a1 > twotoi div 2 then (a1, a1, twotoi) else (a1, na, n))
                else (a, na, n))
         in if a' = narray then (n', na') else sizes_loop nums narray (i + 1) (twotoi * 2) a' na' n')
      else (n, na))"
  by pat_completeness auto
termination
proof (relation "measure (\<lambda>(nums, narray, i, twotoi, a, na, n). 2 * narray + 1 - twotoi)", goal_cases)
  case (2 nums narray i twotoi a na n)
  then have "twotoi div 2 < narray" "0 < twotoi" by auto
  then have "2 * narray + 1 - twotoi * 2 < 2 * narray + 1 - twotoi" by linarith
  then show ?case by simp
qed simp

declare sizes_loop.simps [simp del]

text \<open>The new size of the array and the number of elements that go into it.\<close>

definition computesizes :: "nat list \<Rightarrow> nat \<Rightarrow> nat \<times> nat" where
  "computesizes nums narray = sizes_loop nums narray 0 1 0 0 0"

definition countint :: "('n, 'z) numbers_scheme \<Rightarrow> 'n tvalue \<Rightarrow> nat list \<Rightarrow> nat \<times> nat list" where
  "countint N key nums =
     (let k = arrayindex N key in
      if 0 < k \<and> k \<le> int MAXASIZE
      then (1, nums[ceillog2 (nat k) := nums ! ceillog2 (nat k) + 1])
      else (0, nums))"

text \<open>The slices \<open>(2^(lg-1), 2^lg]\<close> of the array; \<open>i\<close> is the next index to look at.\<close>

function array_slices :: "'n tvalue list \<Rightarrow> nat \<Rightarrow> nat \<Rightarrow> nat list \<Rightarrow> nat \<Rightarrow> nat \<times> nat list" where
  "array_slices arr lg i nums ause =
     (if lg > MAXBITS then (ause, nums)
      else if 2 ^ lg > length arr \<and> i > length arr then (ause, nums)
      else
        (let lim = min (2 ^ lg) (length arr);
             lc = length (filter (\<lambda>j. arr ! (j - 1) \<noteq> Nil) [i..<lim + 1])
         in array_slices arr (lg + 1) (max i (lim + 1)) (nums[lg := nums ! lg + lc]) (ause + lc)))"
  by pat_completeness auto
termination by (relation "measure (\<lambda>(arr, lg, i, nums, ause). MAXBITS + 1 - lg)") auto

declare array_slices.simps [simp del]

definition numusearray :: "'n table \<Rightarrow> nat list \<Rightarrow> nat \<times> nat list" where
  "numusearray t nums = array_slices (array_part t) 0 1 nums 0"

text \<open>The loop over the nodes from the last to the first; the result is \<open>(totaluse, ause, nums)\<close>.\<close>

fun count_nodes :: "('n, 'z) numbers_scheme \<Rightarrow> 'n node list \<Rightarrow> nat \<times> nat \<times> nat list \<Rightarrow> nat \<times> nat \<times> nat list" where
  "count_nodes N [] s = s"
| "count_nodes N (n # ns) (totaluse, ause, nums) =
     (if n_val n \<noteq> Nil
      then let (c, nums') = countint N (n_key n) nums in count_nodes N ns (totaluse + 1, ause + c, nums')
      else count_nodes N ns (totaluse, ause, nums))"

definition numusehash :: "('n, 'z) numbers_scheme \<Rightarrow> 'n table \<Rightarrow> nat list \<Rightarrow> nat \<times> nat \<times> nat list" where
  "numusehash N t nums = count_nodes N (rev (nodes t)) (0, 0, nums)"

definition setarrayvector :: "nat \<Rightarrow> 'n table \<Rightarrow> 'n table" where
  "setarrayvector size' t =
     t\<lparr>array_part := take size' (array_part t) @ replicate (size' - sizearray t) Nil\<rparr>"

text \<open>\<open>None\<close> is the error \<^verbatim>\<open>table overflow\<close>.\<close>

definition setnodevector :: "nat \<Rightarrow> 'n table \<Rightarrow> 'n table option" where
  "setnodevector size' t =
     (if size' = 0 then Some (t\<lparr>nodes := [free_node], is_dummy := True, lastfree := 0\<rparr>)
      else let lsize = ceillog2 size' in
        if lsize > MAXBITS then None
        else Some (t\<lparr>nodes := replicate (2 ^ lsize) free_node, is_dummy := False, lastfree := 2 ^ lsize\<rparr>))"

section \<open>Insertion\<close>

text \<open>\<open>getfreepos\<close>: the free position and the table with \<open>lastfree\<close> moved.\<close>

fun getfreepos :: "'n node list \<Rightarrow> nat \<Rightarrow> (nat \<times> nat) option" where
  "getfreepos ns 0 = None"
| "getfreepos ns (Suc l) = (if n_key (ns ! l) = Nil then Some (l, l) else getfreepos ns l)"

text \<open>\<^verbatim>\<open>while (gnext(othern) != mp) othern = gnext(othern)\<close>; \<open>None\<close>: it does not get to \<open>mp\<close>.\<close>

partial_function (option) find_previous :: "'n node list \<Rightarrow> nat \<Rightarrow> nat \<Rightarrow> nat option" where
  "find_previous ns mp othern =
     (if n_next (ns ! othern) = Some mp then Some othern
      else case n_next (ns ! othern) of
             None \<Rightarrow> None
           | Some j \<Rightarrow> find_previous ns mp j)"

text \<open>
  The part of \<open>newkey\<close> behind the search for a free position \<open>n\<close>: the table and the node the key goes
  into.
\<close>

definition use_freepos :: "('n, 'z) numbers_scheme \<Rightarrow> nat \<Rightarrow> nat \<Rightarrow> 'n node list \<Rightarrow> ('n node list \<times> nat) option" where
  "use_freepos N mp n ns =
     (let othern = mainposition N (length ns) (n_key (ns ! mp)) in
      if othern \<noteq> mp then
        map_option (\<lambda>prev.
          let ns1 = ns[prev := (ns ! prev)\<lparr>n_next := Some n\<rparr>];
              ns2 = ns1[n := ns1 ! mp];
              ns3 = ns2[mp := (ns2 ! mp)\<lparr>n_next := None, n_val := Nil\<rparr>]
          in (ns3, mp)) (find_previous ns mp othern)
      else
        let ns1 = ns[n := (ns ! n)\<lparr>n_next := n_next (ns ! mp)\<rparr>];
            ns2 = ns1[mp := (ns1 ! mp)\<lparr>n_next := Some n\<rparr>]
        in Some (ns2, n))"

datatype 'a result = Ok 'a | Table_overflow | Index_nil | Index_nan | Endless

text \<open>
  \<open>newkey\<close>, with what \<^verbatim>\<open>rehash\<close> and the \<^verbatim>\<open>luaH_set\<close> behind it do as the argument \<open>grow\<close>.
\<close>

definition newkey_with ::
  "('n, 'z) numbers_scheme \<Rightarrow> ('n tvalue \<Rightarrow> 'n table \<Rightarrow> ('n table \<times> slot) result) \<Rightarrow> 'n tvalue \<Rightarrow> 'n table \<Rightarrow> ('n table \<times> slot) result" where
  "newkey_with N grow key t =
     (let mp = mainposition N (sizenode t) key;
          store = (\<lambda>t i. Ok (t\<lparr>nodes := (nodes t)[i := (nodes t ! i)\<lparr>n_key := key\<rparr>]\<rparr>, In_node i)) in
      if n_val (nodes t ! mp) \<noteq> Nil \<or> is_dummy t then
        (case getfreepos (nodes t) (lastfree t) of
           None \<Rightarrow> grow key t
         | Some (n, lf) \<Rightarrow>
             (case use_freepos N mp n (nodes t) of
                None \<Rightarrow> Endless
              | Some (ns, i) \<Rightarrow> store (t\<lparr>nodes := ns, lastfree := lf\<rparr>) i))
      else store t mp)"

definition set_with ::
  "('n, 'z) numbers_scheme \<Rightarrow> ('n tvalue \<Rightarrow> 'n table \<Rightarrow> ('n table \<times> slot) result) \<Rightarrow> 'n tvalue \<Rightarrow> 'n table \<Rightarrow> ('n table \<times> slot) result" where
  "set_with N grow key t =
     (case luaH_get N t key of
        None \<Rightarrow> Endless
      | Some (Some s) \<Rightarrow> Ok (t\<lparr>tm_flags := 0\<rparr>, s)
      | Some None \<Rightarrow>
          (case key of
             Nil \<Rightarrow> Index_nil
           | Number x \<Rightarrow> if \<not> num_eq N x x then Index_nan else newkey_with N grow key (t\<lparr>tm_flags := 0\<rparr>)
           | _ \<Rightarrow> newkey_with N grow key (t\<lparr>tm_flags := 0\<rparr>)))"

definition setnum_with ::
  "('n, 'z) numbers_scheme \<Rightarrow> ('n tvalue \<Rightarrow> 'n table \<Rightarrow> ('n table \<times> slot) result) \<Rightarrow> int \<Rightarrow> 'n table \<Rightarrow> ('n table \<times> slot) result" where
  "setnum_with N grow key t =
     (case luaH_getnum N t key of
        None \<Rightarrow> Endless
      | Some (Some s) \<Rightarrow> Ok (t, s)
      | Some None \<Rightarrow> newkey_with N grow (Number (of_int N key)) t)"

fun and_then :: "'a result \<Rightarrow> ('a \<Rightarrow> 'b result) \<Rightarrow> 'b result" where
  "and_then (Ok x) f = f x"
| "and_then Table_overflow f = Table_overflow"
| "and_then Index_nil f = Index_nil"
| "and_then Index_nan f = Index_nan"
| "and_then Endless f = Endless"

text \<open>
  \<open>resize\<close>, with the insertion of a number and of any key as arguments: the elements of the part of the
  array that vanishes, then the nodes from the last to the first.
\<close>

fun reinsert_array :: "(int \<Rightarrow> 'n table \<Rightarrow> ('n table \<times> slot) result) \<Rightarrow> nat \<Rightarrow> 'n tvalue list \<Rightarrow> 'n table \<Rightarrow> 'n table result" where
  "reinsert_array setnum i [] t = Ok t"
| "reinsert_array setnum i (v # vs) t =
     (if v = Nil then reinsert_array setnum (i + 1) vs t
      else and_then (setnum (int i + 1) t) (\<lambda>(t', s). reinsert_array setnum (i + 1) vs (set_slot s v t')))"

fun reinsert_nodes :: "('n tvalue \<Rightarrow> 'n table \<Rightarrow> ('n table \<times> slot) result) \<Rightarrow> 'n node list \<Rightarrow> 'n table \<Rightarrow> 'n table result" where
  "reinsert_nodes put [] t = Ok t"
| "reinsert_nodes put (n # ns) t =
     (if n_val n = Nil then reinsert_nodes put ns t
      else and_then (put (n_key n) t) (\<lambda>(t', s). reinsert_nodes put ns (set_slot s (n_val n) t')))"

definition resize_with ::
  "(int \<Rightarrow> 'n table \<Rightarrow> ('n table \<times> slot) result) \<Rightarrow> ('n tvalue \<Rightarrow> 'n table \<Rightarrow> ('n table \<times> slot) result) \<Rightarrow>
   nat \<Rightarrow> nat \<Rightarrow> 'n table \<Rightarrow> 'n table result" where
  "resize_with setnum put nasize nhsize t =
     (let oldasize = sizearray t;
          nold = nodes t;
          t1 = (if nasize > oldasize then setarrayvector nasize t else t)
      in case setnodevector nhsize t1 of
           None \<Rightarrow> Table_overflow
         | Some t2 \<Rightarrow>
             and_then
               (if nasize < oldasize then
                  reinsert_array setnum nasize (drop nasize (array_part t2))
                    (t2\<lparr>array_part := take nasize (array_part t2)\<rparr>)
                else Ok t2)
               (\<lambda>t3. reinsert_nodes put (rev nold) t3))"

definition new_sizes :: "('n, 'z) numbers_scheme \<Rightarrow> 'n tvalue \<Rightarrow> 'n table \<Rightarrow> nat \<times> nat" where
  "new_sizes N ek t =
     (let (nasize0, nums0) = numusearray t (replicate (MAXBITS + 1) 0);
          (use, nasize1, nums1) = numusehash N t nums0;
          (c, nums2) = countint N ek nums1;
          (nasize, na) = computesizes nums2 (nasize0 + nasize1 + c)
      in (nasize, nasize0 + use + 1 - na))"

text \<open>
  \<open>grow d\<close>: \<^verbatim>\<open>rehash\<close> and the insertion behind it, where \<open>d\<close> bounds how deep \<^verbatim>\<open>rehash\<close> calls itself
  through the insertions it makes.  The depth 1 is always enough (\<open>insertion_ends\<close>): a table that has
  just been made large enough is not made larger.
\<close>

primrec grow :: "('n, 'z) numbers_scheme \<Rightarrow> nat \<Rightarrow> 'n tvalue \<Rightarrow> 'n table \<Rightarrow> ('n table \<times> slot) result" where
  "grow N 0 key t = Endless"
| "grow N (Suc d) key t =
     and_then (let (nasize, nhsize) = new_sizes N key t
         in resize_with (setnum_with N (grow N d)) (set_with N (grow N d)) nasize nhsize t)
       (set_with N (grow N d) key)"

definition newkey :: "('n, 'z) numbers_scheme \<Rightarrow> nat \<Rightarrow> 'n tvalue \<Rightarrow> 'n table \<Rightarrow> ('n table \<times> slot) result" where
  "newkey N d = newkey_with N (grow N d)"

definition luaH_set :: "('n, 'z) numbers_scheme \<Rightarrow> nat \<Rightarrow> 'n tvalue \<Rightarrow> 'n table \<Rightarrow> ('n table \<times> slot) result" where
  "luaH_set N d = set_with N (grow N d)"

definition luaH_setnum :: "('n, 'z) numbers_scheme \<Rightarrow> nat \<Rightarrow> int \<Rightarrow> 'n table \<Rightarrow> ('n table \<times> slot) result" where
  "luaH_setnum N d = setnum_with N (grow N d)"

definition luaH_setstr :: "('n, 'z) numbers_scheme \<Rightarrow> nat \<Rightarrow> string \<Rightarrow> 'n table \<Rightarrow> ('n table \<times> slot) result" where
  "luaH_setstr N d key t =
     (case luaH_getstr t key of
        None \<Rightarrow> Endless
      | Some (Some s) \<Rightarrow> Ok (t, s)
      | Some None \<Rightarrow> newkey N d (String key) t)"

definition luaH_resizearray :: "('n, 'z) numbers_scheme \<Rightarrow> nat \<Rightarrow> nat \<Rightarrow> 'n table \<Rightarrow> 'n table result" where
  "luaH_resizearray N d nasize t =
     resize_with (luaH_setnum N d) (luaH_set N d) nasize (if is_dummy t then 0 else sizenode t) t"

definition luaH_new :: "nat \<Rightarrow> nat \<Rightarrow> 'n table option" where
  "luaH_new narray nhash =
     setnodevector nhash (setarrayvector narray
       \<lparr>array_part = [], nodes = [free_node], is_dummy = True, lastfree = 0, tm_flags = 255\<rparr>)"

section \<open>Traversal\<close>

text \<open>\<open>findindex\<close>: the number of a key, array first; \<open>Index_nil\<close> stands for the error \<^verbatim>\<open>invalid key to 'next'\<close>.\<close>

definition same_or_dead :: "('n, 'z) numbers_scheme \<Rightarrow> 'n tvalue \<Rightarrow> 'n node \<Rightarrow> bool" where
  "same_or_dead N key n \<longleftrightarrow> luaO_rawequalObj N (n_key n) key \<or>
     (case (n_key n, key) of (Dead p, Collectable q) \<Rightarrow> p = q | _ \<Rightarrow> False)"

definition findindex :: "('n, 'z) numbers_scheme \<Rightarrow> 'n table \<Rightarrow> 'n tvalue \<Rightarrow> int result" where
  "findindex N t key =
     (if key = Nil then Ok (-1)
      else let i = arrayindex N key in
        if 0 < i \<and> i \<le> int (sizearray t) then Ok (i - 1)
        else case search_chain (nodes t) (same_or_dead N key) (mainposition N (sizenode t) key) of
               None \<Rightarrow> Endless
             | Some None \<Rightarrow> Index_nil
             | Some (Some j) \<Rightarrow> Ok (int j + int (sizearray t)))"

fun next_in_array :: "('n, 'z) numbers_scheme \<Rightarrow> nat \<Rightarrow> 'n tvalue list \<Rightarrow> ('n tvalue \<times> 'n tvalue) option" where
  "next_in_array N i [] = None"
| "next_in_array N i (v # vs) = (if v \<noteq> Nil then Some (Number (of_int N (int i + 1)), v) else next_in_array N (i + 1) vs)"

fun next_in_nodes :: "'n node list \<Rightarrow> ('n tvalue \<times> 'n tvalue) option" where
  "next_in_nodes [] = None"
| "next_in_nodes (n # ns) = (if n_val n \<noteq> Nil then Some (n_key n, n_val n) else next_in_nodes ns)"

definition luaH_next :: "('n, 'z) numbers_scheme \<Rightarrow> 'n table \<Rightarrow> 'n tvalue \<Rightarrow> ('n tvalue \<times> 'n tvalue) option result" where
  "luaH_next N t key =
     and_then (findindex N t key) (\<lambda>j.
       let i = nat (j + 1) in
       Ok (case next_in_array N i (drop i (array_part t)) of
             Some kv \<Rightarrow> Some kv
           | None \<Rightarrow> next_in_nodes (drop (i - sizearray t) (nodes t))))"

section \<open>The length of a table\<close>

definition value_of :: "'n table \<Rightarrow> slot option option \<Rightarrow> 'n tvalue" where
  "value_of t r = (case r of Some (Some s) \<Rightarrow> value_at t s | _ \<Rightarrow> Nil)"

text \<open>The binary searches, between a present index \<open>i\<close> (or 0) and an absent index \<open>j\<close>.\<close>

function binary_search :: "(nat \<Rightarrow> bool) \<Rightarrow> nat \<Rightarrow> nat \<Rightarrow> nat" where
  "binary_search absent i j =
     (if j - i > 1 then
        (let m = (i + j) div 2 in if absent m then binary_search absent i m else binary_search absent m j)
      else i)"
  by pat_completeness auto
termination by (relation "measure (\<lambda>(absent, i, j). j - i)") auto

declare binary_search.simps [simp del]

text \<open>The linear search ends because a table has only finitely many keys; \<open>None\<close>: it does not.\<close>

partial_function (option) linear_search :: "(nat \<Rightarrow> bool) \<Rightarrow> nat \<Rightarrow> nat option" where
  "linear_search absent i = (if absent i then Some (i - 1) else linear_search absent (i + 1))"

function unbound_loop :: "(nat \<Rightarrow> bool) \<Rightarrow> nat \<Rightarrow> nat \<Rightarrow> nat option" where
  "unbound_loop absent i j =
     (if absent j then Some (binary_search absent i j)
      else if j * 2 > 2 ^ 31 - 3 \<or> j = 0 then linear_search absent 1
      else unbound_loop absent j (j * 2))"
  by pat_completeness auto
termination by (relation "measure (\<lambda>(absent, i, j). 2 ^ 32 - j)") auto

declare unbound_loop.simps [simp del]

definition unbound_search :: "('n, 'z) numbers_scheme \<Rightarrow> 'n table \<Rightarrow> nat \<Rightarrow> nat option" where
  "unbound_search N t j = unbound_loop (\<lambda>k. value_of t (luaH_getnum N t (int k)) = Nil) j (j + 1)"

definition luaH_getn :: "('n, 'z) numbers_scheme \<Rightarrow> 'n table \<Rightarrow> nat option" where
  "luaH_getn N t =
     (let j = sizearray t in
      if j > 0 \<and> array_part t ! (j - 1) = Nil then Some (binary_search (\<lambda>m. array_part t ! (m - 1) = Nil) 0 j)
      else if is_dummy t then Some j
      else unbound_search N t j)"

section \<open>Laws of numbers and keys\<close>

text \<open>
  What is relied on of floating point numbers: comparison is an equivalence where it holds, equal
  numbers have the same bits after adding 1 (so that the two zeros do), an integer of the machine is
  converted without loss.
\<close>

definition number_laws :: "('n, 'z) numbers_scheme \<Rightarrow> bool" where
  "number_laws N \<longleftrightarrow>
     (\<forall>a b. num_eq N a b \<longrightarrow> num_eq N b a) \<and>
     (\<forall>a b c. num_eq N a b \<longrightarrow> num_eq N b c \<longrightarrow> num_eq N a c) \<and>
     (\<forall>a b. num_eq N a b \<longrightarrow> num_words N a = num_words N b) \<and>
     (\<forall>k. int32_range k \<longrightarrow> num_eq N (of_int N k) (of_int N k)) \<and>
     (\<forall>k x. int32_range k \<longrightarrow> num_eq N (of_int N k) x \<longrightarrow> to_int N x = k) \<and>
     (\<forall>x. int32_range (to_int N x))"

lemma number_lawsD:
  assumes "number_laws N"
  shows "num_eq N a b \<Longrightarrow> num_eq N b a" "num_eq N a b \<Longrightarrow> num_eq N b c \<Longrightarrow> num_eq N a c"
    "num_eq N a b \<Longrightarrow> num_words N a = num_words N b" "int32_range k \<Longrightarrow> num_eq N (of_int N k) (of_int N k)"
    "int32_range k \<Longrightarrow> num_eq N (of_int N k) a \<Longrightarrow> to_int N a = k" "int32_range (to_int N a)"
  using assms unfolding number_laws_def by blast+

definition is_key :: "'n tvalue \<Rightarrow> bool" where
  "is_key k \<longleftrightarrow> k \<noteq> Nil \<and> (\<forall>p. k \<noteq> Dead p)"

definition valid_key :: "('n, 'z) numbers_scheme \<Rightarrow> 'n tvalue \<Rightarrow> bool" where
  "valid_key N k \<longleftrightarrow> is_key k \<and> luaO_rawequalObj N k k"

lemma same_sym: "number_laws N \<Longrightarrow> luaO_rawequalObj N a b \<Longrightarrow> luaO_rawequalObj N b a"
  by (cases a; cases b) (auto simp: luaO_rawequalObj_def dest: number_lawsD)

lemma same_trans: "number_laws N \<Longrightarrow> luaO_rawequalObj N a b \<Longrightarrow> luaO_rawequalObj N b c \<Longrightarrow> luaO_rawequalObj N a c"
  by (cases a; cases b; cases c) (auto simp: luaO_rawequalObj_def dest: number_lawsD(2))

lemma same_key: "luaO_rawequalObj N a b \<Longrightarrow> is_key a \<longleftrightarrow> is_key b"
  by (cases a; cases b) (auto simp: luaO_rawequalObj_def is_key_def)

lemma same_mainposition:
  "number_laws N \<Longrightarrow> luaO_rawequalObj N a b \<Longrightarrow> mainposition N n a = mainposition N n b"
  by (cases a; cases b) (auto simp: luaO_rawequalObj_def mainposition_def hashnum_def dest: number_lawsD(3))

lemma same_arrayindex:
  assumes N: "number_laws N" and ab: "luaO_rawequalObj N a b"
  shows "arrayindex N a = arrayindex N b"
proof -
  have "arrayindex N (Number x) = arrayindex N (Number y)" if e: "num_eq N x y" for x y
  proof -
    have x: "num_eq N (of_int N k) x \<longleftrightarrow> num_eq N (of_int N k) y" for k
      using number_lawsD(1,2) [OF N] e by blast
    have i: "int32_range (to_int N x)" "int32_range (to_int N y)" using number_lawsD(6) [OF N] by blast+
    show ?thesis
    proof (cases "num_eq N (of_int N (to_int N x)) x")
      case True
      then have "to_int N y = to_int N x" using number_lawsD(5) [OF N i(1)] x by blast
      then show ?thesis using True x [of "to_int N x"] by (simp add: arrayindex_def)
    next
      case False
      have "\<not> num_eq N (of_int N (to_int N y)) y"
      proof
        assume "num_eq N (of_int N (to_int N y)) y"
        then have "num_eq N (of_int N (to_int N y)) x" using x by blast
        moreover have "to_int N x = to_int N y" using number_lawsD(5) [OF N i(2)] calculation by blast
        ultimately show False using False by simp
      qed
      then show ?thesis using False by (simp add: arrayindex_def)
    qed
  qed
  then show ?thesis using ab by (cases a; cases b) (auto simp: luaO_rawequalObj_def arrayindex_def)
qed

lemma mainposition_less: "k < 32 \<Longrightarrow> mainposition N (2 ^ k) key < 2 ^ k"
proof -
  assume k: "k < 32"
  have "hashmod (2 ^ k) h < 2 ^ k" for h
  proof (cases "k = 0")
    case True
    then show ?thesis by (simp add: hashmod_def)
  next
    case False
    then have e: "even ((2::nat) ^ k)" "(2::nat) \<le> 2 ^ k" by (auto simp: self_le_power)
    then have "odd ((2::nat) ^ k - 1)" by simp
    then have "((2::nat) ^ k - 1) OR 1 = 2 ^ k - 1" by (simp only: or_one_eq) simp
    moreover have "h mod (2 ^ k - 1) < 2 ^ k - 1" using e(2) by (intro mod_less_divisor) simp
    ultimately show ?thesis by (simp add: hashmod_def)
  qed
  then show ?thesis using lmod_less [OF k] by (auto simp: mainposition_def hashnum_def hashpow2_def split: tvalue.split)
qed

section \<open>The invariant\<close>

definition linked :: "'n node list \<Rightarrow> nat \<Rightarrow> nat \<Rightarrow> bool" where
  "linked ns i j \<longleftrightarrow> i < length ns \<and> n_next (ns ! i) = Some j"

definition live :: "'n node list \<Rightarrow> nat \<Rightarrow> bool" where
  "live ns i \<longleftrightarrow> i < length ns \<and> is_key (n_key (ns ! i))"

abbreviation main_of :: "('n, 'z) numbers_scheme \<Rightarrow> 'n node list \<Rightarrow> nat \<Rightarrow> nat" where
  "main_of N ns i \<equiv> mainposition N (length ns) (n_key (ns ! i))"

text \<open>
  The chains end and do not meet; a free node is in no chain; a key is in the chain of its main
  position, and there stands a key in its own main position (or one that has been removed).
\<close>

definition chains_ok :: "'n node list \<Rightarrow> bool" where
  "chains_ok ns \<longleftrightarrow>
     (\<forall>i j. linked ns i j \<longrightarrow> j < length ns) \<and>
     (\<exists>rank :: nat \<Rightarrow> nat. \<forall>i j. linked ns i j \<longrightarrow> rank j < rank i) \<and>
     (\<forall>i j k. linked ns i k \<longrightarrow> linked ns j k \<longrightarrow> i = j)"

definition nodes_ok :: "('n, 'z) numbers_scheme \<Rightarrow> 'n node list \<Rightarrow> bool" where
  "nodes_ok N ns \<longleftrightarrow>
     (\<exists>k \<le> MAXBITS. length ns = 2 ^ k) \<and> chains_ok ns \<and>
     (\<forall>i < length ns. n_key (ns ! i) = Nil \<longrightarrow>
        n_next (ns ! i) = None \<and> n_val (ns ! i) = Nil \<and> (\<forall>j. \<not> linked ns j i)) \<and>
     (\<forall>i. live ns i \<longrightarrow> (linked ns)\<^sup>*\<^sup>* (main_of N ns i) i) \<and>
     (\<forall>i. live ns i \<longrightarrow> n_key (ns ! main_of N ns i) \<noteq> Nil \<and>
        (live ns (main_of N ns i) \<longrightarrow> main_of N ns (main_of N ns i) = main_of N ns i)) \<and>
     (\<forall>i j. live ns i \<longrightarrow> live ns j \<longrightarrow> luaO_rawequalObj N (n_key (ns ! i)) (n_key (ns ! j)) \<longrightarrow> i = j) \<and>
     (\<forall>i. live ns i \<longrightarrow> valid_key N (n_key (ns ! i))) \<and>
     (\<forall>i < length ns. n_val (ns ! i) \<noteq> Nil \<longrightarrow> live ns i)"

definition in_array :: "('n, 'z) numbers_scheme \<Rightarrow> 'n table \<Rightarrow> 'n tvalue \<Rightarrow> bool" where
  "in_array N t k \<longleftrightarrow> 1 \<le> arrayindex N k \<and> arrayindex N k \<le> int (sizearray t)"

definition table_ok :: "('n, 'z) numbers_scheme \<Rightarrow> 'n table \<Rightarrow> bool" where
  "table_ok N t \<longleftrightarrow> nodes_ok N (nodes t) \<and> sizearray t \<le> MAXASIZE \<and>
     (is_dummy t \<longrightarrow> nodes t = [free_node] \<and> lastfree t = 0) \<and>
     (\<not> is_dummy t \<longrightarrow> lastfree t \<le> sizenode t \<and> (\<forall>i. lastfree t \<le> i \<longrightarrow> i < sizenode t \<longrightarrow> n_key (nodes t ! i) \<noteq> Nil)) \<and>
     (\<forall>i. live (nodes t) i \<longrightarrow> \<not> in_array N t (n_key (nodes t ! i)))"

lemma nodes_okD:
  assumes "nodes_ok N ns"
  shows "chains_ok ns" "i < length ns \<Longrightarrow> n_key (ns ! i) = Nil \<Longrightarrow> n_next (ns ! i) = None \<and> n_val (ns ! i) = Nil \<and> \<not> linked ns j i"
    "live ns i \<Longrightarrow> (linked ns)\<^sup>*\<^sup>* (main_of N ns i) i"
    "live ns i \<Longrightarrow> n_key (ns ! main_of N ns i) \<noteq> Nil"
    "live ns i \<Longrightarrow> live ns (main_of N ns i) \<Longrightarrow> main_of N ns (main_of N ns i) = main_of N ns i"
    "live ns i \<Longrightarrow> live ns j \<Longrightarrow> luaO_rawequalObj N (n_key (ns ! i)) (n_key (ns ! j)) \<Longrightarrow> i = j"
    "live ns i \<Longrightarrow> valid_key N (n_key (ns ! i))"
    "i < length ns \<Longrightarrow> n_val (ns ! i) \<noteq> Nil \<Longrightarrow> live ns i"
  using assms unfolding nodes_ok_def by blast+

lemma nodes_ok_main: "nodes_ok N ns \<Longrightarrow> mainposition N (length ns) key < length ns"
proof -
  assume "nodes_ok N ns"
  then obtain k where "k \<le> MAXBITS" "length ns = 2 ^ k" by (auto simp: nodes_ok_def)
  then show ?thesis using mainposition_less [of k N key] by (simp add: MAXBITS_def)
qed

section \<open>Searching\<close>

lemma search_chain_spec:
  assumes "chains_ok ns" "i < length ns"
  shows "\<exists>r. search_chain ns P i = Some r \<and>
    (case r of Some j \<Rightarrow> P (ns ! j) \<and> j < length ns \<and> (linked ns)\<^sup>*\<^sup>* i j
     | None \<Rightarrow> \<forall>j. (linked ns)\<^sup>*\<^sup>* i j \<longrightarrow> \<not> P (ns ! j))"
proof -
  obtain rank :: "nat \<Rightarrow> nat" where r: "\<And>i j. linked ns i j \<Longrightarrow> rank j < rank i"
    and b: "\<And>i j. linked ns i j \<Longrightarrow> j < length ns"
    using assms(1) unfolding chains_ok_def by blast
  show ?thesis using assms(2)
  proof (induction "rank i" arbitrary: i rule: less_induct)
    case less
    show ?case
    proof (cases "P (ns ! i)")
      case True
      then have "search_chain ns P i = Some (Some i)" by (subst search_chain.simps) simp
      with True less.prems show ?thesis by auto
    next
      case nP: False
      show ?thesis
      proof (cases "n_next (ns ! i)")
        case None
        then have "search_chain ns P i = Some None" using nP by (subst search_chain.simps) simp
        moreover have "j = i" if "(linked ns)\<^sup>*\<^sup>* i j" for j
          using that
        proof (cases rule: converse_rtranclpE)
          case (step y)
          then show ?thesis using None by (simp add: linked_def)
        qed (rule sym)
        ultimately show ?thesis using nP by auto
      next
        case (Some j)
        then have l: "linked ns i j" using less.prems by (simp add: linked_def)
        have "search_chain ns P i = search_chain ns P j" using nP Some by (subst search_chain.simps) simp
        moreover obtain q where q: "search_chain ns P j = Some q" "(case q of Some j' \<Rightarrow> P (ns ! j') \<and> j' < length ns \<and> (linked ns)\<^sup>*\<^sup>* j j'
            | None \<Rightarrow> \<forall>j'. (linked ns)\<^sup>*\<^sup>* j j' \<longrightarrow> \<not> P (ns ! j'))"
          using less.hyps [OF r [OF l] b [OF l]] by blast
        moreover have "j' = i \<or> (linked ns)\<^sup>*\<^sup>* j j'" if "(linked ns)\<^sup>*\<^sup>* i j'" for j'
          using that
        proof (cases rule: converse_rtranclpE)
          case (step y)
          then show ?thesis using Some by (simp add: linked_def)
        qed simp
        ultimately show ?thesis
          using nP l by (cases q) (auto intro: converse_rtranclp_into_rtranclp)
      qed
    qed
  qed
qed

text \<open>\<open>holder N ns k i\<close>: the node \<open>i\<close> holds the key \<open>k\<close>.\<close>

definition holder :: "('n, 'z) numbers_scheme \<Rightarrow> 'n node list \<Rightarrow> 'n tvalue \<Rightarrow> nat \<Rightarrow> bool" where
  "holder N ns k i \<longleftrightarrow> live ns i \<and> luaO_rawequalObj N (n_key (ns ! i)) k"

lemma holder_unique:
  "number_laws N \<Longrightarrow> nodes_ok N ns \<Longrightarrow> holder N ns k i \<Longrightarrow> holder N ns k j \<Longrightarrow> i = j"
  unfolding holder_def by (meson nodes_okD(6) same_sym same_trans)

lemma search_same:
  assumes N: "number_laws N" and ns: "nodes_ok N ns" and k: "is_key k"
    and P: "\<And>n. P n \<longleftrightarrow> luaO_rawequalObj N (n_key n) k"
  shows "(\<exists>i. holder N ns k i \<and> search_chain ns P (mainposition N (length ns) k) = Some (Some i)) \<or>
    (\<forall>i. \<not> holder N ns k i) \<and> search_chain ns P (mainposition N (length ns) k) = Some None"
proof -
  have m: "mainposition N (length ns) k < length ns" by (rule nodes_ok_main [OF ns])
  obtain r where r: "search_chain ns P (mainposition N (length ns) k) = Some r"
      "(case r of Some j \<Rightarrow> P (ns ! j) \<and> j < length ns \<and> (linked ns)\<^sup>*\<^sup>* (mainposition N (length ns) k) j
       | None \<Rightarrow> \<forall>j. (linked ns)\<^sup>*\<^sup>* (mainposition N (length ns) k) j \<longrightarrow> \<not> P (ns ! j))"
    using search_chain_spec [OF nodes_okD(1) [OF ns] m, of P] by blast
  show ?thesis
  proof (cases r)
    case (Some j)
    then have "holder N ns k j" using r(2) k same_key by (auto simp: holder_def live_def P)
    then show ?thesis using r(1) Some by blast
  next
    case None
    have "\<not> holder N ns k i" for i
    proof
      assume h: "holder N ns k i"
      then have "(linked ns)\<^sup>*\<^sup>* (main_of N ns i) i" using nodes_okD(3) [OF ns] by (simp add: holder_def)
      moreover have "main_of N ns i = mainposition N (length ns) k"
        using h same_mainposition [OF N] by (simp add: holder_def)
      ultimately show False using r(2) None h by (auto simp: P holder_def)
    qed
    then show ?thesis using r(1) None by blast
  qed
qed

lemma luaH_get_search:
  fixes N :: "('n, 'z) numbers_scheme"
  assumes N: "number_laws N" and k: "is_key k"
  shows "luaH_get N t k =
    (if in_array N t k then Some (Some (In_array (nat (arrayindex N k - 1))))
     else in_nodes (search_chain (nodes t) (\<lambda>n. luaO_rawequalObj N (n_key n) k) (mainposition N (sizenode t) k)))"
proof (cases k)
  case (Number x)
  show ?thesis
  proof (cases "num_eq N (of_int N (to_int N x)) x")
    case True
    let ?y = "of_int N (to_int N x)"
    have e: "num_eq N x ?y" "num_eq N ?y x" using True number_lawsD(1) [OF N] by blast+
    have "(\<lambda>n :: 'n node. case n_key n of Number z \<Rightarrow> num_eq N z ?y | _ \<Rightarrow> False) = (\<lambda>n. luaO_rawequalObj N (n_key n) k)"
    proof
      fix n :: "'n node"
      have "num_eq N z ?y \<longleftrightarrow> num_eq N z x" for z using e number_lawsD(2) [OF N] by blast
      then show "(case n_key n of Number z \<Rightarrow> num_eq N z ?y | _ \<Rightarrow> False) = luaO_rawequalObj N (n_key n) k"
        by (cases "n_key n") (simp_all add: luaO_rawequalObj_def Number)
    qed
    moreover have "hashnum N n ?y = mainposition N n k" for n
      using same_mainposition [OF N, of "Number ?y" k n] e by (simp add: Number luaO_rawequalObj_def mainposition_def)
    ultimately show ?thesis
      using True by (simp add: Number luaH_get_def luaH_getnum_def in_array_def arrayindex_def Let_def)
  next
    case False
    then show ?thesis by (simp add: Number luaH_get_def search_key_def in_array_def arrayindex_def)
  qed
next
  case (String s)
  have "(\<lambda>n :: 'n node. n_key n = String s) = (\<lambda>n. luaO_rawequalObj N (n_key n) (String s))"
    by (intro ext) (auto simp: luaO_rawequalObj_def split: tvalue.split)
  then show ?thesis by (simp add: String luaH_get_def luaH_getstr_def in_array_def arrayindex_def mainposition_def)
qed (use k in \<open>simp_all add: luaH_get_def search_key_def in_array_def arrayindex_def is_key_def\<close>)

lemma luaH_get_cases:
  assumes "number_laws N" "nodes_ok N (nodes t)" "is_key k"
  obtains (arr) "in_array N t k" "luaH_get N t k = Some (Some (In_array (nat (arrayindex N k - 1))))"
  | (node) i where "\<not> in_array N t k" "holder N (nodes t) k i" "luaH_get N t k = Some (Some (In_node i))"
  | (none) "\<not> in_array N t k" "\<And>i. \<not> holder N (nodes t) k i" "luaH_get N t k = Some None"
  using luaH_get_search [OF assms(1,3), of t] search_same [OF assms, of "\<lambda>n. luaO_rawequalObj N (n_key n) k"]
  by (auto simp: in_nodes_def split: if_splits)

end
