(* ===== verification/LuaTableNodes.thy ===== *)
theory LuaTableNodes
  imports LuaTable
begin

text \<open>
  The nodes of a table of \<^verbatim>\<open>ltable.c\<close>: what \<^verbatim>\<open>newkey\<close> does to the chains in each of its three cases, that
  the invariant \<open>nodes_ok\<close> is kept, and that the slot it returns is the one \<^verbatim>\<open>luaH_get\<close> finds.
\<close>

section \<open>The contents of a table\<close>

definition contents :: "('n, 'z) numbers_scheme \<Rightarrow> 'n table \<Rightarrow> 'n tvalue \<Rightarrow> 'n tvalue" where
  "contents N t k = value_of t (luaH_get N t k)"

definition stored_at :: "('n, 'z) numbers_scheme \<Rightarrow> 'n node list \<Rightarrow> 'n tvalue \<Rightarrow> 'n tvalue \<Rightarrow> bool" where
  "stored_at N ns k v \<longleftrightarrow> v \<noteq> Nil \<and> (\<exists>i. holder N ns k i \<and> n_val (ns ! i) = v)"

lemma table_ok_nodes: "table_ok N t \<Longrightarrow> nodes_ok N (nodes t)"
  by (simp add: table_ok_def)

lemma contents_array:
  "number_laws N \<Longrightarrow> nodes_ok N (nodes t) \<Longrightarrow> is_key k \<Longrightarrow> in_array N t k \<Longrightarrow>
   contents N t k = array_part t ! nat (arrayindex N k - 1)"
  by (erule luaH_get_cases) (auto simp: contents_def value_of_def value_at_def)

lemma contents_stored:
  assumes "number_laws N" "nodes_ok N (nodes t)" "is_key k" "\<not> in_array N t k" "v \<noteq> Nil"
  shows "contents N t k = v \<longleftrightarrow> stored_at N (nodes t) k v"
  using assms(1-3)
proof (cases rule: luaH_get_cases)
  case (node i)
  then show ?thesis
    using assms(5) holder_unique [OF assms(1,2)]
    by (auto simp: contents_def value_of_def value_at_def stored_at_def)
qed (use assms in \<open>auto simp: contents_def value_of_def value_at_def stored_at_def\<close>)

lemma contents_cong:
  assumes "number_laws N" "nodes_ok N (nodes t)" "nodes_ok N (nodes t')" "is_key k" "array_part t' = array_part t"
    and "\<And>v. stored_at N (nodes t') k v \<longleftrightarrow> stored_at N (nodes t) k v"
  shows "contents N t' k = contents N t k"
proof (cases "in_array N t k")
  case True
  then have "in_array N t' k" by (simp add: in_array_def assms(5))
  then show ?thesis using contents_array [OF assms(1) _ assms(4)] assms(2,3,5) True by simp
next
  case False
  then have n: "\<not> in_array N t' k" by (simp add: in_array_def assms(5))
  have "contents N t' k = v \<longleftrightarrow> contents N t k = v" if "v \<noteq> Nil" for v
    using contents_stored [OF assms(1,3,4) n that] contents_stored [OF assms(1,2,4) False that] assms(6) by simp
  then show ?thesis by (cases "contents N t' k = Nil") metis+
qed

section \<open>Placing a new key\<close>

lemma nodes_okI:
  assumes "k \<le> MAXBITS" "length ns = 2 ^ k" "chains_ok ns"
    and "\<And>i. i < length ns \<Longrightarrow> n_key (ns ! i) = Nil \<Longrightarrow> n_next (ns ! i) = None \<and> n_val (ns ! i) = Nil \<and> (\<forall>j. \<not> linked ns j i)"
    and "\<And>i. live ns i \<Longrightarrow> (linked ns)\<^sup>*\<^sup>* (main_of N ns i) i"
    and "\<And>i. live ns i \<Longrightarrow> n_key (ns ! main_of N ns i) \<noteq> Nil"
    and "\<And>i. live ns i \<Longrightarrow> live ns (main_of N ns i) \<Longrightarrow> main_of N ns (main_of N ns i) = main_of N ns i"
    and "\<And>i j. live ns i \<Longrightarrow> live ns j \<Longrightarrow> luaO_rawequalObj N (n_key (ns ! i)) (n_key (ns ! j)) \<Longrightarrow> i = j"
    and "\<And>i. live ns i \<Longrightarrow> valid_key N (n_key (ns ! i))"
    and "\<And>i. i < length ns \<Longrightarrow> n_val (ns ! i) \<noteq> Nil \<Longrightarrow> live ns i"
  shows "nodes_ok N ns"
  unfolding nodes_ok_def using assms by blast

lemma valid_is_key: "valid_key N k \<Longrightarrow> is_key k"
  by (simp add: valid_key_def)

text \<open>The main position is free: the key is put there, over a key that has been removed.\<close>

lemma place_free:
  assumes N: "number_laws N" and ns: "nodes_ok N ns" and key: "valid_key N key" and new: "\<And>i. \<not> holder N ns key i"
    and mp: "mp = mainposition N (length ns) key" and v: "n_val (ns ! mp) = Nil"
    and ns': "ns' = ns[mp := (ns ! mp)\<lparr>n_key := key\<rparr>]"
  shows "nodes_ok N ns' \<and> holder N ns' key mp \<and> n_val (ns' ! mp) = Nil \<and> (\<forall>k v. stored_at N ns' k v \<longleftrightarrow> stored_at N ns k v)"
proof -
  have ml: "mp < length ns" using nodes_ok_main [OF ns] by (simp add: mp)
  have len: "length ns' = length ns" by (simp add: ns')
  have k': "n_key (ns' ! i) = (if i = mp then key else n_key (ns ! i))" "n_val (ns' ! i) = n_val (ns ! i)"
    "n_next (ns' ! i) = n_next (ns ! i)" for i
    using ml by (auto simp: ns' nth_list_update)
  have ln: "linked ns' = linked ns" by (intro ext) (simp add: linked_def k' len)
  have lv: "live ns' i \<longleftrightarrow> i = mp \<or> live ns i" for i
    using ml valid_is_key [OF key] by (auto simp: live_def k' len)
  have kn: "key \<noteq> Nil" using valid_is_key [OF key] by (auto simp: is_key_def)
  obtain k where k: "k \<le> MAXBITS" "length ns = 2 ^ k" using ns by (auto simp: nodes_ok_def)
  have "nodes_ok N ns'"
  proof (rule nodes_okI [OF k(1)])
    show "length ns' = 2 ^ k" using k len by simp
    show "chains_ok ns'" using nodes_okD(1) [OF ns] by (simp add: chains_ok_def ln len)
    show "n_next (ns' ! i) = None \<and> n_val (ns' ! i) = Nil \<and> (\<forall>j. \<not> linked ns' j i)" if "i < length ns'" "n_key (ns' ! i) = Nil" for i
      using that nodes_okD(2) [OF ns] kn by (auto simp: k' ln len split: if_splits)
    show "(linked ns')\<^sup>*\<^sup>* (main_of N ns' i) i" if "live ns' i" for i
      using that nodes_okD(3) [OF ns] mp by (auto simp: ln lv k' len)
    show "n_key (ns' ! main_of N ns' i) \<noteq> Nil" if "live ns' i" for i
      using that nodes_okD(4) [OF ns] mp kn by (auto simp: lv k' len)
    show "main_of N ns' (main_of N ns' i) = main_of N ns' i" if "live ns' i" "live ns' (main_of N ns' i)" for i
      using that nodes_okD(5) [OF ns, of i] mp by (auto simp: lv k' len split: if_splits)
    show "i = j" if "live ns' i" "live ns' j" "luaO_rawequalObj N (n_key (ns' ! i)) (n_key (ns' ! j))" for i j
    proof -
      have "\<not> luaO_rawequalObj N (n_key (ns ! l)) key" "\<not> luaO_rawequalObj N key (n_key (ns ! l))" if "live ns l" for l
        using new [of l] that same_sym [OF N] by (auto simp: holder_def)
      then show ?thesis using that nodes_okD(6) [OF ns, of i j] by (auto simp: lv k' split: if_splits)
    qed
    show "valid_key N (n_key (ns' ! i))" if "live ns' i" for i
      using that nodes_okD(7) [OF ns] key by (auto simp: lv k')
    show "live ns' i" if "i < length ns'" "n_val (ns' ! i) \<noteq> Nil" for i
      using that nodes_okD(8) [OF ns] by (auto simp: lv k' len)
  qed
  moreover have "holder N ns' key mp" using key by (simp add: holder_def lv k' valid_key_def)
  moreover have "stored_at N ns' k w \<longleftrightarrow> stored_at N ns k w" for k w
    using v by (auto simp: stored_at_def holder_def lv k')
  ultimately show ?thesis using v by (simp add: k')
qed

text \<open>The node that stands in the main position is at home: the key goes to the free position, chained behind it.\<close>

lemma place_home:
  assumes N: "number_laws N" and ns: "nodes_ok N ns" and key: "valid_key N key" and new: "\<And>i. \<not> holder N ns key i"
    and mp: "mp = mainposition N (length ns) key" and lmp: "live ns mp" and home: "main_of N ns mp = mp"
    and n: "n < length ns" "n_key (ns ! n) = Nil"
    and ns': "ns' = ns[n := (ns ! n)\<lparr>n_next := n_next (ns ! mp), n_key := key\<rparr>, mp := (ns ! mp)\<lparr>n_next := Some n\<rparr>]"
  shows "nodes_ok N ns' \<and> holder N ns' key n \<and> n_val (ns' ! n) = Nil \<and> (\<forall>k v. stored_at N ns' k v \<longleftrightarrow> stored_at N ns k v)"
proof -
  have ml: "mp < length ns" and mk: "n_key (ns ! mp) \<noteq> Nil" using lmp by (auto simp: live_def is_key_def)
  then have nm: "n \<noteq> mp" using n by auto
  have free: "n_next (ns ! n) = None" "n_val (ns ! n) = Nil" "\<not> linked ns j n" for j
    using nodes_okD(2) [OF ns n] by auto
  have len: "length ns' = length ns" by (simp add: ns')
  have f': "n_key (ns' ! i) = (if i = n then key else n_key (ns ! i))" "n_val (ns' ! i) = n_val (ns ! i)"
    "n_next (ns' ! i) = (if i = n then n_next (ns ! mp) else if i = mp then Some n else n_next (ns ! i))" for i
    using ml nm n by (auto simp: ns' nth_list_update)
  have ln: "linked ns' i j \<longleftrightarrow> (if i = n then linked ns mp j else if i = mp then j = n else linked ns i j)" for i j
    using ml n by (auto simp: linked_def f' len)
  have lv: "live ns' i \<longleftrightarrow> i = n \<or> live ns i" for i
    using n valid_is_key [OF key] by (auto simp: live_def f' len)
  have path: "(linked ns')\<^sup>*\<^sup>* i j" if "(linked ns)\<^sup>*\<^sup>* i j" for i j
    using that
  proof (induction rule: rtranclp_induct)
    case (step y z)
    have "y \<noteq> n" using step.hyps(2) free(1) by (auto simp: linked_def)
    then have "linked ns' y z \<or> linked ns' y n \<and> linked ns' n z" using step.hyps(2) nm by (auto simp: ln)
    then show ?case using step.IH by (meson rtranclp.rtrancl_into_rtrancl)
  qed simp
  have kn: "key \<noteq> Nil" using valid_is_key [OF key] by (auto simp: is_key_def)
  obtain rank :: "nat \<Rightarrow> nat" where r: "\<And>i j. linked ns i j \<Longrightarrow> rank j < rank i"
    and b: "\<And>i j. linked ns i j \<Longrightarrow> j < length ns"
    and u: "\<And>i j l. linked ns i l \<Longrightarrow> linked ns j l \<Longrightarrow> i = j"
    using nodes_okD(1) [OF ns] unfolding chains_ok_def by blast
  obtain k where k: "k \<le> MAXBITS" "length ns = 2 ^ k" using ns by (auto simp: nodes_ok_def)
  have "nodes_ok N ns'"
  proof (rule nodes_okI [OF k(1)])
    show "length ns' = 2 ^ k" using k len by simp
    have "(if j = n then 2 * rank mp else 2 * rank j + 1) < (if i = n then 2 * rank mp else 2 * rank i + 1)"
      if "linked ns' i j" for i j
      using that r [of mp j] r [of i j] free(3) nm by (auto simp: ln split: if_splits)
    moreover have "i = j" if "linked ns' i l" "linked ns' j l" for i j l
    proof (cases "l = n")
      case True
      then show ?thesis using that free(3) by (simp add: ln split: if_splits)
    next
      case False
      then have "linked ns (if i = n then mp else i) l" "linked ns (if j = n then mp else j) l" "i \<noteq> mp" "j \<noteq> mp"
        using that nm by (auto simp: ln split: if_splits)
      then show ?thesis using u by (metis (full_types))
    qed
    moreover have "j < length ns'" if "linked ns' i j" for i j
      using that b n by (auto simp: ln len split: if_splits)
    ultimately show "chains_ok ns'"
      unfolding chains_ok_def by (intro conjI exI [of _ "\<lambda>i. if i = n then 2 * rank mp else 2 * rank i + 1"]) blast+
    show "n_next (ns' ! i) = None \<and> n_val (ns' ! i) = Nil \<and> (\<forall>j. \<not> linked ns' j i)" if "i < length ns'" "n_key (ns' ! i) = Nil" for i
      using that nodes_okD(2) [OF ns, of i] kn mk by (auto simp: f' ln len split: if_splits)
    show "(linked ns')\<^sup>*\<^sup>* (main_of N ns' i) i" if "live ns' i" for i
    proof (cases "i = n")
      case True
      then show ?thesis using mp nm by (auto simp: f' len ln)
    next
      case False
      then show ?thesis using that path [OF nodes_okD(3) [OF ns]] by (auto simp: lv f' len)
    qed
    show "n_key (ns' ! main_of N ns' i) \<noteq> Nil" if "live ns' i" for i
      using that nodes_okD(4) [OF ns] mp mk kn by (auto simp: lv f' len)
    show "main_of N ns' (main_of N ns' i) = main_of N ns' i" if "live ns' i" "live ns' (main_of N ns' i)" for i
    proof (cases "i = n")
      case True
      then show ?thesis using mp home nm by (simp add: f' len)
    next
      case False
      then have i: "live ns i" using that by (simp add: lv)
      then have "main_of N ns i \<noteq> n" using nodes_okD(4) [OF ns] n by metis
      then show ?thesis using that False nodes_okD(5) [OF ns i] by (simp add: f' len lv)
    qed
    show "i = j" if "live ns' i" "live ns' j" "luaO_rawequalObj N (n_key (ns' ! i)) (n_key (ns' ! j))" for i j
    proof -
      have "\<not> luaO_rawequalObj N (n_key (ns ! l)) key" "\<not> luaO_rawequalObj N key (n_key (ns ! l))" if "live ns l" for l
        using new [of l] that same_sym [OF N] by (auto simp: holder_def)
      then show ?thesis using that nodes_okD(6) [OF ns, of i j] by (auto simp: lv f' split: if_splits)
    qed
    show "valid_key N (n_key (ns' ! i))" if "live ns' i" for i
      using that nodes_okD(7) [OF ns] key by (auto simp: lv f')
    show "live ns' i" if "i < length ns'" "n_val (ns' ! i) \<noteq> Nil" for i
      using that nodes_okD(8) [OF ns] by (auto simp: lv f' len)
  qed
  moreover have "holder N ns' key n" using key by (simp add: holder_def lv f' valid_key_def)
  moreover have "stored_at N ns' k w \<longleftrightarrow> stored_at N ns k w" for k w
  proof -
    have "\<not> live ns n" using n by (simp add: live_def is_key_def)
    then show ?thesis using free(2) by (auto simp: stored_at_def holder_def lv f' split: if_splits)
  qed
  ultimately show ?thesis using free(2) by (simp add: f')
qed

text \<open>The way back to the node whose successor is \<open>mp\<close>.\<close>

lemma find_previous_finds:
  assumes c: "chains_ok ns" and p: "(linked ns)\<^sup>*\<^sup>* i mp" and ne: "i \<noteq> mp"
  shows "\<exists>prev. find_previous ns mp i = Some prev \<and> linked ns prev mp"
  using p ne
proof (induction rule: converse_rtranclp_induct)
  case (step y z)
  show ?case
  proof (cases "z = mp")
    case True
    then have "find_previous ns mp y = Some y" using step.hyps(1) by (subst find_previous.simps) (simp add: linked_def)
    then show ?thesis using True step.hyps(1) by blast
  next
    case False
    then have "find_previous ns mp y = find_previous ns mp z"
      using step.hyps(1) by (subst find_previous.simps) (simp add: linked_def)
    then show ?thesis using step.IH False by simp
  qed
qed simp

text \<open>The node that stands in the main position is not at home: it moves to the free position and the key takes its place.\<close>

lemma place_foreign:
  assumes N: "number_laws N" and ns: "nodes_ok N ns" and key: "valid_key N key" and new: "\<And>i. \<not> holder N ns key i"
    and mp: "mp = mainposition N (length ns) key" and lmp: "live ns mp" and away: "main_of N ns mp \<noteq> mp"
    and n: "n < length ns" "n_key (ns ! n) = Nil" and prev: "linked ns prev mp"
    and ns': "ns' = ns[prev := (ns ! prev)\<lparr>n_next := Some n\<rparr>, n := ns ! mp,
      mp := (ns ! mp)\<lparr>n_next := None, n_val := Nil, n_key := key\<rparr>]"
  shows "nodes_ok N ns' \<and> holder N ns' key mp \<and> n_val (ns' ! mp) = Nil \<and> (\<forall>k v. stored_at N ns' k v \<longleftrightarrow> stored_at N ns k v)"
proof -
  have ml: "mp < length ns" and mk: "n_key (ns ! mp) \<noteq> Nil" using lmp by (auto simp: live_def is_key_def)
  then have nm: "n \<noteq> mp" using n by auto
  have free: "n_next (ns ! n) = None" "n_val (ns ! n) = Nil" "\<not> linked ns j n" "\<not> linked ns n j" "\<not> live ns n" for j
    using nodes_okD(2) [OF ns n] n by (auto simp: linked_def live_def is_key_def)
  obtain rank :: "nat \<Rightarrow> nat" where r: "\<And>i j. linked ns i j \<Longrightarrow> rank j < rank i"
    and b: "\<And>i j. linked ns i j \<Longrightarrow> j < length ns"
    and u: "\<And>i j l. linked ns i l \<Longrightarrow> linked ns j l \<Longrightarrow> i = j"
    using nodes_okD(1) [OF ns] unfolding chains_ok_def by blast
  have pm: "prev \<noteq> mp" "prev \<noteq> n" "prev < length ns" "n_next (ns ! prev) = Some mp"
    using r [OF prev] prev free(4) by (auto simp: linked_def)
  have len: "length ns' = length ns" by (simp add: ns')
  have f': "n_key (ns' ! i) = (if i = mp then key else if i = n then n_key (ns ! mp) else n_key (ns ! i))"
    "n_val (ns' ! i) = (if i = mp then Nil else if i = n then n_val (ns ! mp) else n_val (ns ! i))"
    "n_next (ns' ! i) = (if i = mp then None else if i = n then n_next (ns ! mp) else if i = prev then Some n else n_next (ns ! i))" for i
    using ml nm n pm by (auto simp: ns' nth_list_update)
  have ln: "linked ns' i j \<longleftrightarrow> (if i = mp then False else if i = n then linked ns mp j else if i = prev then j = n else linked ns i j)" for i j
    using ml n pm by (auto simp: linked_def f' len)
  have into_mp: "\<not> linked ns' i mp" for i
    using u [OF prev, of i] pm nm r [of mp mp] by (auto simp: ln split: if_splits)
  have lv: "live ns' i \<longleftrightarrow> i = mp \<or> i = n \<or> live ns i" for i
    using n ml lmp valid_is_key [OF key] by (auto simp: live_def f' len)
  define \<sigma> where "\<sigma> = (\<lambda>i. if i = mp then n else i)"
  have step: "linked ns' (\<sigma> i) (\<sigma> j)" if "linked ns i j" for i j
  proof -
    have "i \<noteq> n" "i = prev \<longleftrightarrow> j = mp" using that free(4) u [OF prev, of i] pm prev by (auto simp: linked_def)
    then show ?thesis using that pm nm by (auto simp: ln \<sigma>_def)
  qed
  have path: "(linked ns')\<^sup>*\<^sup>* (\<sigma> i) (\<sigma> j)" if "(linked ns)\<^sup>*\<^sup>* i j" for i j
    using that by (induction rule: rtranclp_induct) (auto intro: rtranclp.rtrancl_into_rtrancl step)
  have kn: "key \<noteq> Nil" using valid_is_key [OF key] by (auto simp: is_key_def)
  have nobody: "main_of N ns i \<noteq> mp \<and> main_of N ns i \<noteq> n" if "live ns i" for i
    using nodes_okD(4,5) [OF ns that] lmp away n by metis
  obtain k where k: "k \<le> MAXBITS" "length ns = 2 ^ k" using ns by (auto simp: nodes_ok_def)
  have old: "\<exists>i0. live ns i0 \<and> i = \<sigma> i0 \<and> n_key (ns' ! i) = n_key (ns ! i0) \<and> n_val (ns' ! i) = n_val (ns ! i0)"
    if "live ns' i" "i \<noteq> mp" for i
  proof (cases "i = n")
    case True
    then show ?thesis using lmp nm by (intro exI [of _ mp]) (simp add: \<sigma>_def f')
  next
    case False
    then show ?thesis using that by (intro exI [of _ i]) (simp add: \<sigma>_def f' lv)
  qed
  have new_at: "live ns' (\<sigma> i) \<and> \<sigma> i \<noteq> mp \<and> n_key (ns' ! \<sigma> i) = n_key (ns ! i) \<and> n_val (ns' ! \<sigma> i) = n_val (ns ! i)" if "live ns i" for i
    using that nm free(5) by (auto simp: \<sigma>_def lv f')
  have "nodes_ok N ns'"
  proof (rule nodes_okI [OF k(1)])
    show "length ns' = 2 ^ k" using k len by simp
    have "(if j = n then rank mp else rank j) < (if i = n then rank mp else rank i)" if "linked ns' i j" for i j
      using that r [of mp j] r [of i j] r [OF prev] free(3) nm by (auto simp: ln split: if_splits)
    moreover have "i = j" if "linked ns' i l" "linked ns' j l" for i j l
    proof (cases "l = n")
      case True
      then show ?thesis using that free(3) by (simp add: ln split: if_splits)
    next
      case False
      then have "linked ns (if i = n then mp else i) l" "linked ns (if j = n then mp else j) l" "i \<noteq> mp" "j \<noteq> mp"
        using that nm by (auto simp: ln split: if_splits)
      then show ?thesis using u by (metis (full_types))
    qed
    moreover have "j < length ns'" if "linked ns' i j" for i j
      using that b n by (auto simp: ln len split: if_splits)
    ultimately show "chains_ok ns'"
      unfolding chains_ok_def by (intro conjI exI [of _ "\<lambda>i. if i = n then rank mp else rank i"]) blast+
    show "n_next (ns' ! i) = None \<and> n_val (ns' ! i) = Nil \<and> (\<forall>j. \<not> linked ns' j i)" if "i < length ns'" "n_key (ns' ! i) = Nil" for i
    proof -
      have i: "i \<noteq> mp" "i \<noteq> n" using that kn mk by (auto simp: f' split: if_splits)
      then have "n_key (ns ! i) = Nil" "i < length ns" using that by (auto simp: f' len)
      then show ?thesis using nodes_okD(2) [OF ns, of i] i pm by (auto simp: f' ln)
    qed
    show "(linked ns')\<^sup>*\<^sup>* (main_of N ns' i) i" if "live ns' i" for i
    proof (cases "i = mp")
      case True
      then show ?thesis using mp by (simp add: f' len)
    next
      case False
      then obtain i0 where i0: "live ns i0" "i = \<sigma> i0" "n_key (ns' ! i) = n_key (ns ! i0)" using old [OF \<open>live ns' i\<close> False] by blast
      have "\<sigma> (main_of N ns i0) = main_of N ns i0" using nobody [OF i0(1)] by (simp add: \<sigma>_def)
      then show ?thesis using path [OF nodes_okD(3) [OF ns i0(1)]] i0(2,3) len by simp
    qed
    show "n_key (ns' ! main_of N ns' i) \<noteq> Nil" if "live ns' i" for i
    proof (cases "i = mp")
      case True
      then show ?thesis using mp kn by (simp add: f' len)
    next
      case False
      then obtain i0 where i0: "live ns i0" "n_key (ns' ! i) = n_key (ns ! i0)" using old [OF \<open>live ns' i\<close> False] by blast
      then show ?thesis using nobody [OF i0(1)] nodes_okD(4) [OF ns i0(1)] len by (simp add: f')
    qed
    show "main_of N ns' (main_of N ns' i) = main_of N ns' i" if "live ns' i" "live ns' (main_of N ns' i)" for i
    proof (cases "i = mp")
      case True
      then show ?thesis using mp by (simp add: f' len)
    next
      case False
      then obtain i0 where i0: "live ns i0" "n_key (ns' ! i) = n_key (ns ! i0)" using old [OF \<open>live ns' i\<close> False] by blast
      then show ?thesis using nobody [OF i0(1)] nodes_okD(5) [OF ns i0(1)] len that(2) by (simp add: f' lv)
    qed
    have other: "\<not> luaO_rawequalObj N (n_key (ns' ! l)) key \<and> \<not> luaO_rawequalObj N key (n_key (ns' ! l))" if "live ns' l" "l \<noteq> mp" for l
      using old [OF that] new unfolding holder_def by (metis same_sym [OF N])
    show "i = j" if "live ns' i" "live ns' j" "luaO_rawequalObj N (n_key (ns' ! i)) (n_key (ns' ! j))" for i j
    proof (cases "i = mp \<or> j = mp")
      case True
      moreover have "n_key (ns' ! mp) = key" by (simp add: f')
      ultimately show ?thesis using that other by metis
    next
      case False
      then obtain i0 j0 where "live ns i0" "i = \<sigma> i0" "n_key (ns' ! i) = n_key (ns ! i0)"
        "live ns j0" "j = \<sigma> j0" "n_key (ns' ! j) = n_key (ns ! j0)" using old [OF \<open>live ns' i\<close>] old [OF \<open>live ns' j\<close>] by blast
      then show ?thesis using nodes_okD(6) [OF ns, of i0 j0] that(3) by simp
    qed
    show "valid_key N (n_key (ns' ! i))" if "live ns' i" for i
      using that nodes_okD(7) [OF ns] key lmp by (auto simp: lv f')
    show "live ns' i" if "i < length ns'" "n_val (ns' ! i) \<noteq> Nil" for i
      using that nodes_okD(8) [OF ns, of i] by (auto simp: lv f' len split: if_splits)
  qed
  moreover have "holder N ns' key mp" using key by (simp add: holder_def lv f' valid_key_def)
  moreover have "stored_at N ns' k w \<longleftrightarrow> stored_at N ns k w" for k w
  proof
    assume "stored_at N ns' k w"
    then obtain i where i: "w \<noteq> Nil" "live ns' i" "luaO_rawequalObj N (n_key (ns' ! i)) k" "n_val (ns' ! i) = w"
      by (auto simp: stored_at_def holder_def)
    then have "i \<noteq> mp" by (auto simp: f')
    from old [OF i(2) this] i show "stored_at N ns k w" by (auto simp: stored_at_def holder_def)
  next
    assume "stored_at N ns k w"
    then show "stored_at N ns' k w" using new_at by (auto simp: stored_at_def holder_def) metis
  qed
  ultimately show ?thesis by (simp add: f')
qed

section \<open>Insertion\<close>

definition used :: "'n node list \<Rightarrow> nat" where
  "used ns = card {i. i < length ns \<and> n_key (ns ! i) \<noteq> Nil}"

text \<open>\<open>fits N m t\<close>: the hash part has room for \<open>m\<close> more keys.\<close>

definition fits :: "('n, 'z) numbers_scheme \<Rightarrow> nat \<Rightarrow> 'n table \<Rightarrow> bool" where
  "fits N m t \<longleftrightarrow> table_ok N t \<and> (is_dummy t \<longrightarrow> m = 0) \<and> used (nodes t) + m \<le> sizenode t"

lemma fits_table: "fits N m t \<Longrightarrow> table_ok N t"
  by (simp add: fits_def)

lemma used_full: "used ns = length ns \<Longrightarrow> i < length ns \<Longrightarrow> n_key (ns ! i) \<noteq> Nil"
proof -
  assume u: "used ns = length ns" and i: "i < length ns"
  have "{i. i < length ns \<and> n_key (ns ! i) \<noteq> Nil} = {..<length ns}"
    by (rule card_subset_eq) (use u in \<open>auto simp: used_def\<close>)
  then show ?thesis using i by blast
qed

lemma used_le: "used ns \<le> length ns"
proof -
  have "used ns \<le> card {..<length ns}" unfolding used_def by (rule card_mono) auto
  then show ?thesis by simp
qed

lemma used_insert:
  assumes "length ns' = length ns" "i < length ns" "\<And>j. j < length ns \<Longrightarrow> j \<noteq> i \<Longrightarrow> n_key (ns' ! j) = Nil \<longleftrightarrow> n_key (ns ! j) = Nil"
  shows "used ns' \<le> used ns + 1"
proof -
  have "{j. j < length ns' \<and> n_key (ns' ! j) \<noteq> Nil} \<subseteq> insert i {j. j < length ns \<and> n_key (ns ! j) \<noteq> Nil}"
    using assms by auto
  then have "used ns' \<le> card (insert i {j. j < length ns \<and> n_key (ns ! j) \<noteq> Nil})"
    unfolding used_def by (intro card_mono) auto
  also have "\<dots> \<le> used ns + 1" unfolding used_def by (simp add: card_insert_le_m1 card_insert_if)
  finally show ?thesis .
qed

lemma getfreepos_spec:
  "case getfreepos ns l of
     None \<Rightarrow> \<forall>i < l. n_key (ns ! i) \<noteq> Nil
   | Some (n, lf) \<Rightarrow> n = lf \<and> lf < l \<and> n_key (ns ! n) = Nil \<and> (\<forall>i < l. lf < i \<longrightarrow> n_key (ns ! i) \<noteq> Nil)"
proof (induction l)
  case (Suc l)
  then show ?case by (auto split: option.splits simp: less_Suc_eq)
qed simp

text \<open>What an insertion promises: the slot found is that of the key, and nothing else has changed.\<close>

definition put_ok :: "('n, 'z) numbers_scheme \<Rightarrow> 'n tvalue \<Rightarrow> 'n table \<Rightarrow> 'n table \<Rightarrow> slot \<Rightarrow> bool" where
  "put_ok N key t t' s \<longleftrightarrow> table_ok N t' \<and> luaH_get N t' key = Some (Some s) \<and>
     (\<forall>k. is_key k \<longrightarrow> contents N t' k = contents N t k)"

lemma not_in_array_holder:
  "number_laws N \<Longrightarrow> luaO_rawequalObj N a b \<Longrightarrow> in_array N t a \<longleftrightarrow> in_array N t b"
  using same_arrayindex [of N a b] by (simp add: in_array_def)

text \<open>A key that is not there, put into the nodes: the table is as good as before.\<close>

lemma put_node:
  assumes N: "number_laws N" and t: "table_ok N t" and nd: "\<not> is_dummy t" and key: "valid_key N key" and out: "\<not> in_array N t key"
    and ns: "nodes_ok N ns" "holder N ns key i" "\<And>k v. stored_at N ns k v \<longleftrightarrow> stored_at N (nodes t) k v"
    and old: "\<And>l. live ns l \<Longrightarrow> n_key (ns ! l) = key \<or> (\<exists>j. live (nodes t) j \<and> n_key (ns ! l) = n_key (nodes t ! j))"
    and lf: "lf \<le> length ns" "\<And>l. lf \<le> l \<Longrightarrow> l < length ns \<Longrightarrow> n_key (ns ! l) \<noteq> Nil"
  shows "put_ok N key t (t\<lparr>nodes := ns, lastfree := lf\<rparr>) (In_node i)"
proof -
  let ?t = "t\<lparr>nodes := ns, lastfree := lf\<rparr>"
  have ia: "in_array N ?t k = in_array N t k" for k by (simp add: in_array_def)
  have "\<not> in_array N ?t (n_key (ns ! l))" if "live ns l" for l
    using old [OF that] out t by (auto simp: ia table_ok_def)
  then have "table_ok N ?t" using t ns(1) lf nd by (simp add: table_ok_def)
  moreover have "luaH_get N ?t key = Some (Some (In_node i))"
  proof (cases rule: luaH_get_cases [OF N, of ?t key])
    case (4 j)
    then show ?thesis using holder_unique [OF N ns(1), of key i j] ns(2) by simp
  qed (use ns out ia valid_is_key [OF key] in auto)
  moreover have "contents N ?t k = contents N t k" if "is_key k" for k
    by (rule contents_cong [OF N table_ok_nodes [OF t] _ that]) (use ns in simp_all)
  ultimately show ?thesis by (simp add: put_ok_def)
qed

lemma newkey_cases:
  assumes N: "number_laws N" and t: "table_ok N t" and key: "valid_key N key" and out: "\<not> in_array N t key"
    and new: "\<And>i. \<not> holder N (nodes t) key i"
  shows "newkey_with N g key t = g key t \<and> (\<forall>m. \<not> fits N (m + 1) t) \<or>
    (\<exists>t' s. newkey_with N g key t = Ok (t', s) \<and> put_ok N key t t' s \<and>
       array_part t' = array_part t \<and> (\<forall>m. fits N (m + 1) t \<longrightarrow> fits N m t'))"
proof -
  let ?ns = "nodes t"
  define mp where "mp = mainposition N (length ?ns) key"
  have ns: "nodes_ok N ?ns" using t by (rule table_ok_nodes)
  have ml: "mp < length ?ns" using nodes_ok_main [OF ns] by (simp add: mp_def)
  have kn: "key \<noteq> Nil" using valid_is_key [OF key] by (auto simp: is_key_def)
  have fit: "fits N m (t\<lparr>nodes := ns', lastfree := lf\<rparr>)"
    if p: "put_ok N key t (t\<lparr>nodes := ns', lastfree := lf\<rparr>) s" and len: "length ns' = length ?ns" and l: "l < length ?ns"
      and same: "\<And>j. j < length ?ns \<Longrightarrow> j \<noteq> l \<Longrightarrow> n_key (ns' ! j) = Nil \<longleftrightarrow> n_key (?ns ! j) = Nil" and f: "fits N (m + 1) t"
    for ns' lf s l m
  proof -
    have "used ns' \<le> used ?ns + 1" by (rule used_insert [OF len l same])
    then show ?thesis using p f len by (auto simp: fits_def put_ok_def)
  qed
  show ?thesis
  proof (cases "n_val (?ns ! mp) \<noteq> Nil \<or> is_dummy t")
    case False
    let ?ns' = "?ns[mp := (?ns ! mp)\<lparr>n_key := key\<rparr>]"
    have pf: "nodes_ok N ?ns' \<and> holder N ?ns' key mp \<and> n_val (?ns' ! mp) = Nil \<and>
        (\<forall>k v. stored_at N ?ns' k v \<longleftrightarrow> stored_at N ?ns k v)"
      by (rule place_free [OF N ns key new mp_def _ refl]) (use False in simp)
    have lft: "lastfree t \<le> length ?ns" "\<And>i. lastfree t \<le> i \<Longrightarrow> i < length ?ns \<Longrightarrow> n_key (?ns ! i) \<noteq> Nil"
      using t False by (auto simp: table_ok_def)
    have "put_ok N key t (t\<lparr>nodes := ?ns', lastfree := lastfree t\<rparr>) (In_node mp)"
    proof (rule put_node [OF N t _ key out])
      show "n_key (?ns' ! l) = key \<or> (\<exists>j. live ?ns j \<and> n_key (?ns' ! l) = n_key (?ns ! j))" if "live ?ns' l" for l
        using that ml by (cases "l = mp") (auto simp: live_def)
      show "n_key (?ns' ! l) \<noteq> Nil" if "lastfree t \<le> l" "l < length ?ns'" for l
        using that ml kn lft(2) by (cases "l = mp") auto
    qed (use pf lft False in auto)
    moreover have "newkey_with N g key t = Ok (t\<lparr>nodes := ?ns', lastfree := lastfree t\<rparr>, In_node mp)"
      using False by (simp add: newkey_with_def mp_def [symmetric] Let_def)
    moreover note fit [OF calculation(1), of mp]
    ultimately show ?thesis using ml by auto
  next
    case True
    show ?thesis
    proof (cases "getfreepos ?ns (lastfree t)")
      case None
      then have f: "\<forall>i < lastfree t. n_key (?ns ! i) \<noteq> Nil" using getfreepos_spec [where ns = ?ns and l = "lastfree t"] by simp
      have "newkey_with N g key t = g key t"
        using True None by (simp add: newkey_with_def mp_def [symmetric] Let_def)
      moreover have "\<not> fits N (m + 1) t" for m
      proof
        assume a: "fits N (m + 1) t"
        then have "n_key (?ns ! i) \<noteq> Nil" if "i < length ?ns" for i
          using that f t by (cases "i < lastfree t") (auto simp: fits_def table_ok_def)
        then have "{i. i < length ?ns \<and> n_key (?ns ! i) \<noteq> Nil} = {..<length ?ns}" by auto
        then have "used ?ns = length ?ns" by (simp add: used_def)
        then show False using a by (simp add: fits_def)
      qed
      ultimately show ?thesis by blast
    next
      case (Some q)
      then obtain n where q: "getfreepos ?ns (lastfree t) = Some (n, n)" "n < lastfree t" "n_key (?ns ! n) = Nil"
        "\<And>i. i < lastfree t \<Longrightarrow> n < i \<Longrightarrow> n_key (?ns ! i) \<noteq> Nil"
        using getfreepos_spec [where ns = ?ns and l = "lastfree t"] by (cases q) auto
      have nd: "\<not> is_dummy t" using q(2) t by (auto simp: table_ok_def)
      have n: "n < length ?ns" using q(2) t nd by (simp add: table_ok_def)
      have above: "n_key (?ns ! i) \<noteq> Nil" if "n < i" "i < length ?ns" for i
        using that q(4) t nd by (cases "i < lastfree t") (auto simp: table_ok_def)
      have lmp: "live ?ns mp" using True nd nodes_okD(8) [OF ns ml] by simp
      have mk: "n_key (?ns ! mp) \<noteq> Nil" using lmp by (auto simp: live_def is_key_def)
      then have nm: "n \<noteq> mp" using q(3) by auto
      show ?thesis
      proof (cases "main_of N ?ns mp = mp")
        case home: True
        let ?ns' = "?ns[n := (?ns ! n)\<lparr>n_next := n_next (?ns ! mp), n_key := key\<rparr>, mp := (?ns ! mp)\<lparr>n_next := Some n\<rparr>]"
        have ph: "nodes_ok N ?ns' \<and> holder N ?ns' key n \<and> n_val (?ns' ! n) = Nil \<and>
            (\<forall>k v. stored_at N ?ns' k v \<longleftrightarrow> stored_at N ?ns k v)"
          by (rule place_home [OF N ns key new mp_def lmp home n q(3) refl])
        have k': "n_key (?ns' ! l) = (if l = n then key else n_key (?ns ! l))" for l
          using n ml nm by (auto simp: nth_list_update)
        have "put_ok N key t (t\<lparr>nodes := ?ns', lastfree := n\<rparr>) (In_node n)"
        proof (rule put_node [OF N t nd key out])
          show "n_key (?ns' ! l) = key \<or> (\<exists>j. live ?ns j \<and> n_key (?ns' ! l) = n_key (?ns ! j))" if "live ?ns' l" for l
            using that by (auto simp: live_def k')
          show "n_key (?ns' ! l) \<noteq> Nil" if "n \<le> l" "l < length ?ns'" for l
            using that above [of l] kn by (auto simp: k')
        qed (use ph n in auto)
        moreover have "newkey_with N g key t = Ok (t\<lparr>nodes := ?ns', lastfree := n\<rparr>, In_node n)"
          using True q(1) home nm n by (simp add: newkey_with_def mp_def [symmetric] Let_def use_freepos_def list_update_swap)
        moreover note fit [OF calculation(1), of n]
        ultimately show ?thesis using n by (auto simp: k')
      next
        case away: False
        have "chains_ok ?ns" by (rule nodes_okD(1) [OF ns])
        then obtain prev where prev: "find_previous ?ns mp (main_of N ?ns mp) = Some prev" "linked ?ns prev mp"
          using find_previous_finds nodes_okD(3) [OF ns lmp] away by blast
        let ?ns' = "?ns[prev := (?ns ! prev)\<lparr>n_next := Some n\<rparr>, n := ?ns ! mp, mp := (?ns ! mp)\<lparr>n_next := None, n_val := Nil, n_key := key\<rparr>]"
        have pa: "nodes_ok N ?ns' \<and> holder N ?ns' key mp \<and> n_val (?ns' ! mp) = Nil \<and>
            (\<forall>k v. stored_at N ?ns' k v \<longleftrightarrow> stored_at N ?ns k v)"
          by (rule place_foreign [OF N ns key new mp_def lmp away n q(3) prev(2) refl])
        have pl: "prev < length ?ns" "prev \<noteq> n" "prev \<noteq> mp"
          using prev(2) nodes_okD(2) [OF ns n q(3)] nodes_okD(1) [OF ns] by (auto simp: linked_def chains_ok_def)
        have k': "n_key (?ns' ! l) = (if l = mp then key else if l = n then n_key (?ns ! mp) else n_key (?ns ! l))" for l
          using n ml nm pl by (auto simp: nth_list_update)
        have "put_ok N key t (t\<lparr>nodes := ?ns', lastfree := n\<rparr>) (In_node mp)"
        proof (rule put_node [OF N t nd key out])
          show "n_key (?ns' ! l) = key \<or> (\<exists>j. live ?ns j \<and> n_key (?ns' ! l) = n_key (?ns ! j))" if "live ?ns' l" for l
            using that lmp by (auto simp: live_def k')
          show "n_key (?ns' ! l) \<noteq> Nil" if "n \<le> l" "l < length ?ns'" for l
            using that above [of l] kn mk by (auto simp: k')
        qed (use pa n in auto)
        moreover have "newkey_with N g key t = Ok (t\<lparr>nodes := ?ns', lastfree := n\<rparr>, In_node mp)"
          using True q(1) away prev(1) nm n ml pl
          by (simp add: newkey_with_def mp_def [symmetric] Let_def use_freepos_def)
        moreover note fit [OF calculation(1), of n]
        ultimately show ?thesis using n kn mk by (auto simp: k')
      qed
    qed
  qed
qed

lemma flags_irrelevant:
  "nodes (t\<lparr>tm_flags := f\<rparr>) = nodes t" "array_part (t\<lparr>tm_flags := f\<rparr>) = array_part t"
  "in_array N (t\<lparr>tm_flags := f\<rparr>) k = in_array N t k" "table_ok N (t\<lparr>tm_flags := f\<rparr>) = table_ok N t"
  "luaH_get N (t\<lparr>tm_flags := f\<rparr>) k = luaH_get N t k" "contents N (t\<lparr>tm_flags := f\<rparr>) k = contents N t k"
  "fits N m (t\<lparr>tm_flags := f\<rparr>) = fits N m t" "put_ok N key (t\<lparr>tm_flags := f\<rparr>) t' s = put_ok N key t t' s"
proof -
  show a: "nodes (t\<lparr>tm_flags := f\<rparr>) = nodes t" "array_part (t\<lparr>tm_flags := f\<rparr>) = array_part t"
    "in_array N (t\<lparr>tm_flags := f\<rparr>) k = in_array N t k" for k by (simp_all add: in_array_def)
  then show b: "table_ok N (t\<lparr>tm_flags := f\<rparr>) = table_ok N t" by (simp add: table_ok_def)
  show c: "luaH_get N (t\<lparr>tm_flags := f\<rparr>) k = luaH_get N t k" for k
    by (simp add: luaH_get_def luaH_getstr_def luaH_getnum_def search_key_def split: tvalue.split)
  then show d: "contents N (t\<lparr>tm_flags := f\<rparr>) k = contents N t k" for k
    by (simp add: contents_def value_of_def value_at_def split: option.split slot.split)
  show "fits N m (t\<lparr>tm_flags := f\<rparr>) = fits N m t" by (simp add: fits_def b)
  show "put_ok N key (t\<lparr>tm_flags := f\<rparr>) t' s = put_ok N key t t' s" by (simp add: put_ok_def d)
qed

text \<open>The insertion of a key into a table: the same table with a slot for it, or the table has to grow.\<close>

definition put_spec ::
  "('n, 'z) numbers_scheme \<Rightarrow> ('n tvalue \<Rightarrow> 'n table \<Rightarrow> ('n table \<times> slot) result) \<Rightarrow> 'n tvalue \<Rightarrow> 'n table \<Rightarrow> ('n table \<times> slot) result \<Rightarrow> bool" where
  "put_spec N g key t r \<longleftrightarrow>
     (\<exists>f. r = g key (t\<lparr>tm_flags := f\<rparr>)) \<and> \<not> in_array N t key \<and> (\<forall>m. \<not> fits N (m + 1) t) \<or>
     (\<exists>t' s. r = Ok (t', s) \<and> put_ok N key t t' s \<and> array_part t' = array_part t \<and>
        (\<forall>m. fits N (m + 1) t \<longrightarrow> fits N m t') \<and> (in_array N t key \<longrightarrow> (\<forall>m. fits N m t \<longrightarrow> fits N m t')))"

lemma fits_less: "fits N (m + 1) t \<Longrightarrow> fits N m t"
  by (auto simp: fits_def)

lemma newkey_spec:
  assumes N: "number_laws N" and t: "table_ok N t" and key: "valid_key N key" and none: "luaH_get N t key = Some None"
  shows "put_spec N g key t (newkey_with N g key (t\<lparr>tm_flags := f\<rparr>))"
  using N table_ok_nodes [OF t] valid_is_key [OF key]
proof (cases rule: luaH_get_cases)
  case none
  then show ?thesis
    using newkey_cases [OF N _ key, of "t\<lparr>tm_flags := f\<rparr>" g] t unfolding put_spec_def
    by (simp only: flags_irrelevant) blast
qed (use none in simp_all)

lemma put_found:
  assumes N: "number_laws N" and t: "table_ok N t" and some: "luaH_get N t key = Some (Some s)"
  shows "put_spec N g key t (Ok (t\<lparr>tm_flags := f\<rparr>, s))"
  unfolding put_spec_def by (rule disjI2) (use t some in \<open>auto simp: put_ok_def flags_irrelevant intro: fits_less\<close>)

lemma luaH_get_ends:
  "number_laws N \<Longrightarrow> table_ok N t \<Longrightarrow> valid_key N key \<Longrightarrow> \<exists>r. luaH_get N t key = Some r"
  by (rule luaH_get_cases [OF _ table_ok_nodes valid_is_key]) auto

lemma set_with_spec:
  assumes N: "number_laws N" and t: "table_ok N t" and key: "valid_key N key"
  shows "put_spec N g key t (set_with N g key t)"
proof -
  obtain r where r: "luaH_get N t key = Some r" using luaH_get_ends [OF assms] by blast
  show ?thesis
  proof (cases r)
    case None
    then have "set_with N g key t = newkey_with N g key (t\<lparr>tm_flags := 0\<rparr>)"
      using key r by (auto simp: set_with_def valid_key_def is_key_def luaO_rawequalObj_def split: tvalue.split)
    then show ?thesis using newkey_spec [OF assms] r None by simp
  next
    case (Some s)
    then show ?thesis using put_found [OF N t] r by (simp add: set_with_def)
  qed
qed

lemma luaH_getnum_get:
  assumes N: "number_laws N" and k: "int32_range k"
  shows "luaH_getnum N t k = luaH_get N t (Number (of_int N k))" "valid_key N (Number (of_int N k))"
    "arrayindex N (Number (of_int N k)) = k"
  using number_lawsD(4) [OF N k] number_lawsD(5) [OF N k number_lawsD(4) [OF N k]]
  by (auto simp: luaH_get_def valid_key_def is_key_def luaO_rawequalObj_def arrayindex_def)

lemma setnum_with_spec:
  assumes N: "number_laws N" and t: "table_ok N t" and k: "int32_range k"
  shows "put_spec N g (Number (of_int N k)) t (setnum_with N g k t)"
proof -
  note key = luaH_getnum_get [OF N k]
  obtain r where r: "luaH_get N t (Number (of_int N k)) = Some r" using luaH_get_ends [OF N t key(2)] by blast
  have same: "t\<lparr>tm_flags := tm_flags t\<rparr> = t" by simp
  show ?thesis
  proof (cases r)
    case None
    then show ?thesis
      using newkey_spec [OF N t key(2), of g "tm_flags t"] r by (simp add: setnum_with_def key(1) same)
  next
    case (Some s)
    then show ?thesis using put_found [OF N t, of _ s g "tm_flags t"] r by (simp add: setnum_with_def key(1) same)
  qed
qed

text \<open>The caller then writes the value through the slot.\<close>

lemma set_slot_array: "length (array_part (set_slot s v t)) = length (array_part t)"
  by (simp add: set_slot_def split: slot.split)

lemma luaH_get_cong:
  assumes N: "number_laws N" and ns: "nodes_ok N (nodes t)" "nodes_ok N (nodes t')" and k: "is_key k"
    and a: "in_array N t' k = in_array N t k" and h: "\<And>i. holder N (nodes t') k i = holder N (nodes t) k i"
  shows "luaH_get N t' k = luaH_get N t k"
  using N ns(1) k
proof (cases rule: luaH_get_cases)
  case arr
  then show ?thesis using luaH_get_cases [OF N ns(2) k] a by metis
next
  case (node i)
  then show ?thesis using luaH_get_cases [OF N ns(2) k] a h holder_unique [OF N ns(1), of k] by metis
next
  case none
  then show ?thesis using luaH_get_cases [OF N ns(2) k] a h by metis
qed

text \<open>Keys that have an index are the same when they have the same index.\<close>

lemma same_index:
  assumes N: "number_laws N" and i: "arrayindex N a = arrayindex N b" "1 \<le> arrayindex N a"
  shows "luaO_rawequalObj N a b"
proof -
  obtain x where x: "a = Number x" "num_eq N (of_int N (to_int N x)) x" "arrayindex N a = to_int N x"
    using i(2) by (auto simp: arrayindex_def split: tvalue.splits if_splits)
  obtain y where y: "b = Number y" "num_eq N (of_int N (to_int N y)) y" "arrayindex N b = to_int N y"
    using i by (auto simp: arrayindex_def split: tvalue.splits if_splits)
  have "num_eq N x y" using x(2,3) y(2,3) i(1) number_lawsD(1,2) [OF N] by metis
  then show ?thesis by (simp add: x(1) y(1) luaO_rawequalObj_def)
qed

lemma nodes_ok_set_val:
  assumes ns: "nodes_ok N ns" and i: "live ns i"
  shows "nodes_ok N (ns[i := (ns ! i)\<lparr>n_val := v\<rparr>])"
proof -
  let ?ns = "ns[i := (ns ! i)\<lparr>n_val := v\<rparr>]"
  have k': "n_key (?ns ! j) = n_key (ns ! j)" "n_next (?ns ! j) = n_next (ns ! j)"
    "j \<noteq> i \<Longrightarrow> n_val (?ns ! j) = n_val (ns ! j)" for j
    using i by (auto simp: nth_list_update live_def)
  have ln: "linked ?ns = linked ns" by (intro ext) (simp add: linked_def k')
  have lv: "live ?ns = live ns" by (intro ext) (simp add: live_def k')
  obtain k where k: "k \<le> MAXBITS" "length ns = 2 ^ k" using ns by (auto simp: nodes_ok_def)
  show ?thesis
  proof (rule nodes_okI [OF k(1)])
    show "chains_ok ?ns" using nodes_okD(1) [OF ns] by (simp add: chains_ok_def ln)
    show "n_next (?ns ! j) = None \<and> n_val (?ns ! j) = Nil \<and> (\<forall>l. \<not> linked ?ns l j)" if "j < length ?ns" "n_key (?ns ! j) = Nil" for j
    proof -
      have "j \<noteq> i" using that i by (auto simp: k' live_def is_key_def)
      then show ?thesis using that nodes_okD(2) [OF ns, of j] by (simp add: k' ln)
    qed
    show "live ?ns j" if "j < length ?ns" "n_val (?ns ! j) \<noteq> Nil" for j
      using that i nodes_okD(8) [OF ns, of j] by (cases "j = i") (auto simp: lv k')
  qed (use k nodes_okD(3-7) [OF ns] in \<open>auto simp: k' ln lv\<close>)
qed

lemma set_slot_spec:
  assumes N: "number_laws N" and key: "is_key key" and p: "put_ok N key t t' s"
  shows "table_ok N (set_slot s v t') \<and> (\<forall>m. fits N m t' \<longrightarrow> fits N m (set_slot s v t')) \<and>
    (\<forall>k. is_key k \<longrightarrow> contents N (set_slot s v t') k = (if luaO_rawequalObj N key k then v else contents N t k))"
proof -
  have t: "table_ok N t'" and g: "luaH_get N t' key = Some (Some s)"
    and c: "\<And>k. is_key k \<Longrightarrow> contents N t' k = contents N t k"
    using p by (auto simp: put_ok_def)
  have ns: "nodes_ok N (nodes t')" by (rule table_ok_nodes [OF t])
  let ?t = "set_slot s v t'"
  have ia: "in_array N ?t k = in_array N t' k" for k by (simp add: in_array_def set_slot_array)
  show ?thesis using N ns key
  proof (cases rule: luaH_get_cases)
    case arr
    let ?i = "nat (arrayindex N key - 1)"
    have s: "s = In_array ?i" and i: "?i < sizearray t'" using arr g by (auto simp: in_array_def)
    have ok: "table_ok N ?t" using t by (simp add: table_ok_def ia) (simp add: s set_slot_def)
    moreover have "fits N m ?t" if "fits N m t'" for m
      using that ok by (simp add: fits_def) (simp add: s set_slot_def)
    moreover have "contents N ?t k = (if luaO_rawequalObj N key k then v else contents N t k)" if k: "is_key k" for k
    proof (cases "in_array N t' k")
      case True
      then have e: "nat (arrayindex N k - 1) = ?i \<longleftrightarrow> arrayindex N key = arrayindex N k"
        using arr(1) by (auto simp: in_array_def)
      have "luaO_rawequalObj N key k \<longleftrightarrow> arrayindex N key = arrayindex N k"
        using arr(1) same_index [OF N, of key k] same_arrayindex [OF N, of key k] by (auto simp: in_array_def)
      moreover have "contents N ?t k = (if nat (arrayindex N k - 1) = ?i then v else array_part t' ! nat (arrayindex N k - 1))"
        using contents_array [OF N table_ok_nodes [OF ok] k] True i by (simp add: ia) (simp add: s set_slot_def nth_list_update)
      ultimately show ?thesis using contents_array [OF N ns k True] c [OF k] by (simp only: e)
    next
      case False
      then have "\<not> luaO_rawequalObj N key k" using arr(1) not_in_array_holder [OF N] by blast
      moreover have "luaH_get N ?t k = luaH_get N t' k"
        by (rule luaH_get_cong [OF N ns _ k ia]) (use ns in \<open>simp_all add: s set_slot_def\<close>)
      then have "contents N ?t k = contents N t' k"
        using N ns k False by (elim luaH_get_cases [where k = k]) (auto simp: contents_def value_of_def value_at_def s set_slot_def)
      ultimately show ?thesis using c [OF k] by simp
    qed
    ultimately show ?thesis by blast
  next
    case (node i)
    have s: "s = In_node i" and li: "live (nodes t') i" using node g by (auto simp: holder_def)
    have n': "nodes ?t = (nodes t')[i := (nodes t' ! i)\<lparr>n_val := v\<rparr>]" by (simp add: s set_slot_def)
    have k': "n_key (nodes ?t ! j) = n_key (nodes t' ! j)" for j using li by (auto simp: n' nth_list_update live_def)
    have lv: "live (nodes ?t) = live (nodes t')" by (intro ext) (simp add: live_def k', simp add: n')
    have ok: "table_ok N ?t"
      using t nodes_ok_set_val [OF ns li, of v] li
      by (simp add: table_ok_def ia lv k')
         (auto simp: s set_slot_def n' free_node_def live_def is_key_def)
    moreover have "fits N m ?t" if "fits N m t'" for m
      using that ok by (simp add: fits_def used_def k') (simp add: s set_slot_def)
    moreover have "contents N ?t k = (if luaO_rawequalObj N key k then v else contents N t k)" if k: "is_key k" for k
    proof -
      have h: "holder N (nodes ?t) k j = holder N (nodes t') k j" for j by (simp add: holder_def lv k')
      have get: "luaH_get N ?t k = luaH_get N t' k"
        by (rule luaH_get_cong [OF N ns table_ok_nodes [OF ok] k ia h])
      have il: "i < length (nodes t')" using li by (simp add: live_def)
      from N ns k have "contents N ?t k = (if luaO_rawequalObj N key k then v else contents N t' k)"
      proof (cases rule: luaH_get_cases)
        case arr: arr
        then have "\<not> luaO_rawequalObj N key k" using node(1) not_in_array_holder [OF N] by blast
        then show ?thesis using arr get by (simp add: contents_def value_of_def value_at_def s set_slot_def)
      next
        case nj: (node j)
        have "luaO_rawequalObj N key k \<longleftrightarrow> j = i"
          using nj(2) node(2) holder_unique [OF N ns, of k i j] unfolding holder_def
          by (metis same_sym [OF N] same_trans [OF N])
        then show ?thesis using nj(3) get il by (auto simp: contents_def value_of_def value_at_def n')
      next
        case none: none
        then have "\<not> luaO_rawequalObj N key k"
          using node(2) unfolding holder_def by (metis same_trans [OF N])
        then show ?thesis using none(3) get by (simp add: contents_def value_of_def)
      qed
      then show ?thesis using c [OF k] by simp
    qed
    ultimately show ?thesis by blast
  qed (use g in simp)
qed

end
