(* ===== verification/LuaTableRehash.thy ===== *)
theory LuaTableRehash
  imports LuaTableNodes
begin

text \<open>
  The rehash of \<^verbatim>\<open>ltable.c\<close>: reinsertion into a table with room enough, the counting of integer keys, the
  size of the array part, and that the new hash part has room for all that goes into it.
\<close>

section \<open>Reinsertion\<close>

fun reinsert :: "('k \<Rightarrow> 'n table \<Rightarrow> ('n table \<times> slot) result) \<Rightarrow> ('k \<times> 'n tvalue) list \<Rightarrow> 'n table \<Rightarrow> 'n table result" where
  "reinsert put [] t = Ok t"
| "reinsert put ((a, v) # xs) t =
     (if v = Nil then reinsert put xs t else and_then (put a t) (\<lambda>(t', s). reinsert put xs (set_slot s v t')))"

fun overlay :: "('n, 'z) numbers_scheme \<Rightarrow> ('n tvalue \<times> 'n tvalue) list \<Rightarrow> ('n tvalue \<Rightarrow> 'n tvalue) \<Rightarrow> 'n tvalue \<Rightarrow> 'n tvalue" where
  "overlay N [] c = c"
| "overlay N ((a, v) # xs) c = overlay N xs (if v = Nil then c else (\<lambda>k. if luaO_rawequalObj N a k then v else c k))"

lemma reinsert_array_is: "reinsert_array setnum i vs t = reinsert setnum (zip (map (\<lambda>j. int j + 1) [i..<i + length vs]) vs) t"
proof (induction vs arbitrary: i t)
  case (Cons v vs)
  have "[i..<i + length (v # vs)] = i # [i + 1..<i + 1 + length vs]" by (simp add: upt_rec)
  then show ?case using Cons.IH [of "i + 1"] by (cases "setnum (int i + 1) t") auto
qed simp

lemma reinsert_nodes_is: "reinsert_nodes put ns t = reinsert put (map (\<lambda>n. (n_key n, n_val n)) ns) t"
proof (induction ns arbitrary: t)
  case (Cons n ns)
  then show ?case by (cases "put (n_key n) t") auto
qed simp

text \<open>How many of the entries go to the hash part of a table whose array part has \<open>size'\<close> elements.\<close>

definition beyond :: "('n, 'z) numbers_scheme \<Rightarrow> nat \<Rightarrow> 'n tvalue \<Rightarrow> bool" where
  "beyond N size' k \<longleftrightarrow> \<not> (1 \<le> arrayindex N k \<and> arrayindex N k \<le> int size')"

definition hash_entries :: "('n, 'z) numbers_scheme \<Rightarrow> nat \<Rightarrow> ('n tvalue \<times> 'n tvalue) list \<Rightarrow> nat" where
  "hash_entries N size' xs = length (filter (\<lambda>(a, v). v \<noteq> Nil \<and> beyond N size' a) xs)"

lemma overlay_cong: "(\<And>k. is_key k \<Longrightarrow> c k = d k) \<Longrightarrow> is_key k \<Longrightarrow> overlay N xs c k = overlay N xs d k"
proof (induction xs arbitrary: c d)
  case (Cons x xs)
  show ?case
  proof (cases x)
    case (Pair a v)
    have "is_key k \<Longrightarrow> (if v = Nil then c else (\<lambda>k. if luaO_rawequalObj N a k then v else c k)) k =
       (if v = Nil then d else (\<lambda>k. if luaO_rawequalObj N a k then v else d k)) k" for k
      using Cons.prems(1) by simp
    from Cons.IH [OF this Cons.prems(2)] show ?thesis by (simp only: Pair overlay.simps)
  qed
qed simp

lemma reinsert_fits:
  assumes N: "number_laws N"
    and put: "\<And>a v t. (a, v) \<in> set xs \<Longrightarrow> v \<noteq> Nil \<Longrightarrow> table_ok N t \<Longrightarrow> put_spec N g (\<kappa> a) t (put a t)"
    and valid: "\<And>a v. (a, v) \<in> set xs \<Longrightarrow> v \<noteq> Nil \<Longrightarrow> valid_key N (\<kappa> a)"
    and room: "fits N (hash_entries N (sizearray t) (map (\<lambda>(a, v). (\<kappa> a, v)) xs) + m) t"
  shows "\<exists>t'. reinsert put xs t = Ok t' \<and> fits N m t' \<and> sizearray t' = sizearray t \<and>
    (\<forall>k. is_key k \<longrightarrow> contents N t' k = overlay N (map (\<lambda>(a, v). (\<kappa> a, v)) xs) (contents N t) k)"
  using put valid room
proof (induction xs arbitrary: t)
  case Nil
  then show ?case by (simp add: hash_entries_def)
next
  case (Cons x xs)
  obtain a v where x: "x = (a, v)" by (cases x)
  let ?xs = "map (\<lambda>(a, v). (\<kappa> a, v)) xs"
  let ?h = "\<lambda>t. hash_entries N (sizearray t) ?xs + m"
  show ?case
  proof (cases "v = Nil")
    case True
    then have "fits N (?h t) t" using Cons.prems(3) by (simp add: x hash_entries_def)
    then show ?thesis using Cons.IH [of t] Cons.prems(1,2) True by (auto simp: x)
  next
    case False
    have t: "table_ok N t" by (rule fits_table [OF Cons.prems(3)])
    have vk: "valid_key N (\<kappa> a)" by (rule Cons.prems(2) [of a v]) (simp_all add: x False)
    have f: "fits N (if in_array N t (\<kappa> a) then ?h t else ?h t + 1) t"
      using Cons.prems(3) False by (auto simp: x hash_entries_def beyond_def in_array_def)
    have "put_spec N g (\<kappa> a) t (put a t)" by (rule Cons.prems(1) [OF _ False t]) (simp add: x)
    then obtain t1 s where t1: "put a t = Ok (t1, s)" "put_ok N (\<kappa> a) t t1 s" "array_part t1 = array_part t" "fits N (?h t) t1"
      using f unfolding put_spec_def by (auto split: if_splits)
    note ss = set_slot_spec [OF N valid_is_key [OF vk] t1(2), of v]
    have sz: "sizearray (set_slot s v t1) = sizearray t" by (simp add: set_slot_array t1(3))
    have "fits N (?h (set_slot s v t1)) (set_slot s v t1)" using ss t1(4) sz by simp
    from Cons.IH [OF _ _ this] Cons.prems(1,2)
    obtain t' where t': "reinsert put xs (set_slot s v t1) = Ok t'" "fits N m t'" "sizearray t' = sizearray (set_slot s v t1)"
        "\<And>k. is_key k \<Longrightarrow> contents N t' k = overlay N ?xs (contents N (set_slot s v t1)) k"
      by (metis list.set_intros(2))
    have "contents N t' k = overlay N (map (\<lambda>(a, v). (\<kappa> a, v)) (x # xs)) (contents N t) k" if k: "is_key k" for k
      using t'(4) [OF k] overlay_cong [OF _ k, of "contents N (set_slot s v t1)" "\<lambda>k. if luaO_rawequalObj N (\<kappa> a) k then v else contents N t k"] ss False
      by (simp add: x)
    then show ?thesis using t'(1-3) t1(1) False sz by (simp add: x)
  qed
qed

text \<open>The value of a key in an overlay.\<close>

lemma overlay_none:
  "(\<And>a v. (a, v) \<in> set xs \<Longrightarrow> v \<noteq> Nil \<Longrightarrow> \<not> luaO_rawequalObj N a k) \<Longrightarrow> overlay N xs c k = c k"
proof (induction xs arbitrary: c)
  case (Cons x xs)
  obtain b w where x: "x = (b, w)" by (cases x)
  have "overlay N xs (if w = Nil then c else (\<lambda>k. if luaO_rawequalObj N b k then w else c k)) k =
      (if w = Nil then c else (\<lambda>k. if luaO_rawequalObj N b k then w else c k)) k"
    by (rule Cons.IH) (use Cons.prems in \<open>auto simp: x\<close>)
  moreover have "w \<noteq> Nil \<Longrightarrow> \<not> luaO_rawequalObj N b k" using Cons.prems [of b w] by (simp add: x)
  ultimately show ?case by (simp add: x split: if_splits)
qed simp

lemma overlay_some:
  "(\<And>a v'. (a, v') \<in> set xs \<Longrightarrow> v' \<noteq> Nil \<Longrightarrow> luaO_rawequalObj N a k \<Longrightarrow> v' = v) \<Longrightarrow>
   (a, v) \<in> set xs \<and> v \<noteq> Nil \<and> luaO_rawequalObj N a k \<or> c k = v \<Longrightarrow> overlay N xs c k = v"
proof (induction xs arbitrary: c a)
  case (Cons x xs)
  obtain b w where x: "x = (b, w)" by (cases x)
  let ?c = "if w = Nil then c else (\<lambda>k. if luaO_rawequalObj N b k then w else c k)"
  have w: "w \<noteq> Nil \<Longrightarrow> luaO_rawequalObj N b k \<Longrightarrow> w = v" by (rule Cons.prems(1)) (simp_all add: x)
  have "(a, v) \<in> set xs \<and> v \<noteq> Nil \<and> luaO_rawequalObj N a k \<or> ?c k = v"
    using Cons.prems(2) w by (auto simp: x)
  then have "overlay N xs ?c k = v"
    by (intro Cons.IH [of a ?c]) (use Cons.prems(1) in \<open>auto simp: x\<close>)
  then show ?case by (simp only: x overlay.simps)
qed simp

section \<open>Resizing\<close>

lemma fresh_nodes_ok: "l \<le> MAXBITS \<Longrightarrow> nodes_ok N (replicate (2 ^ l) free_node)"
proof (rule nodes_okI [of l])
  let ?ns = "replicate (2 ^ l) (free_node :: 'a node)"
  have n: "n_next (?ns ! i) = None" "n_key (?ns ! i) = Nil" "n_val (?ns ! i) = Nil" if "i < 2 ^ l" for i
    using that by (simp_all add: free_node_def)
  have ln: "\<not> linked ?ns i j" for i j using n(1) [of i] by (auto simp: linked_def)
  have lv: "\<not> live ?ns i" for i using n(2) [of i] by (auto simp: live_def is_key_def)
  show "chains_ok ?ns" by (simp add: chains_ok_def ln)
  show "n_next (?ns ! i) = None \<and> n_val (?ns ! i) = Nil \<and> (\<forall>j. \<not> linked ?ns j i)" if "i < length ?ns" for i
    using that n ln by simp
  show "live ?ns i" if "i < length ?ns" "n_val (?ns ! i) \<noteq> Nil" for i
    using that by (simp add: free_node_def)
qed (use live_def is_key_def free_node_def in \<open>auto simp: live_def is_key_def free_node_def\<close>)

definition fresh :: "nat \<Rightarrow> 'n table \<Rightarrow> bool" where
  "fresh l t \<longleftrightarrow> nodes t = replicate (2 ^ l) free_node \<and> l \<le> MAXBITS \<and> sizearray t \<le> MAXASIZE \<and>
     (is_dummy t \<longrightarrow> l = 0 \<and> lastfree t = 0) \<and> (\<not> is_dummy t \<longrightarrow> lastfree t = 2 ^ l)"

lemma fresh_ok:
  assumes N: "number_laws N" and t: "fresh l t"
  shows "table_ok N t" "m \<le> (if is_dummy t then 0 else 2 ^ l) \<Longrightarrow> fits N m t"
    "is_key k \<Longrightarrow> contents N t k = (if in_array N t k then array_part t ! nat (arrayindex N k - 1) else Nil)"
proof -
  have ns: "nodes_ok N (nodes t)" using t fresh_nodes_ok by (auto simp: fresh_def)
  have lv: "\<not> live (nodes t) i" for i
    using t by (auto simp: fresh_def live_def is_key_def free_node_def)
  show ok: "table_ok N t" using t ns lv by (auto simp: table_ok_def fresh_def)
  show "fits N m t" if "m \<le> (if is_dummy t then 0 else 2 ^ l)"
  proof -
    have "{i. i < length (nodes t) \<and> n_key (nodes t ! i) \<noteq> Nil} = {}" using t by (auto simp: fresh_def free_node_def)
    then have "used (nodes t) = 0" unfolding used_def by (simp only: card.empty)
    then show ?thesis using that ok t by (auto simp: fits_def fresh_def split: if_splits)
  qed
  show "contents N t k = (if in_array N t k then array_part t ! nat (arrayindex N k - 1) else Nil)" if k: "is_key k"
    using N ns k
  proof (cases rule: luaH_get_cases)
    case (node i)
    then show ?thesis using lv by (simp add: holder_def)
  qed (auto simp: contents_def value_of_def value_at_def)
qed

text \<open>What the reinsertion finds in the old table.\<close>

definition array_entries :: "('n, 'z) numbers_scheme \<Rightarrow> nat \<Rightarrow> 'n table \<Rightarrow> ('n tvalue \<times> 'n tvalue) list" where
  "array_entries N i t = map (\<lambda>(a, v). (Number (of_int N a), v))
     (zip (map (\<lambda>j. int j + 1) [i..<i + length (drop i (array_part t))]) (drop i (array_part t)))"

definition node_entries :: "'n table \<Rightarrow> ('n tvalue \<times> 'n tvalue) list" where
  "node_entries t = map (\<lambda>n. (n_key n, n_val n)) (rev (nodes t))"

lemma array_entriesD:
  assumes N: "number_laws N" and t: "sizearray t \<le> MAXASIZE" and e: "(a, v) \<in> set (array_entries N i t)"
  obtains j where "i \<le> j" "j < sizearray t" "a = Number (of_int N (int j + 1))" "v = array_part t ! j"
    "int32_range (int j + 1)" "arrayindex N a = int j + 1"
proof -
  obtain l where l: "l < sizearray t - i" "a = Number (of_int N (int (i + l) + 1))" "v = array_part t ! (i + l)"
    using e by (auto simp: array_entries_def set_zip)
  have r: "int32_range (int (i + l) + 1)" using l(1) t by (simp add: int32_range_def MAXASIZE_def MAXBITS_def)
  show thesis by (rule that [of "i + l"]) (use l r luaH_getnum_get(3) [OF N r] in auto)
qed

lemma array_entriesI:
  "i \<le> j \<Longrightarrow> j < sizearray t \<Longrightarrow> (Number (of_int N (int j + 1)), array_part t ! j) \<in> set (array_entries N i t)"
  by (force simp: array_entries_def set_zip image_iff intro!: exI [of _ "j - i"])

lemma node_entriesD:
  assumes t: "table_ok N t" and e: "(a, v) \<in> set (node_entries t)" and v: "v \<noteq> Nil"
  obtains i where "live (nodes t) i" "a = n_key (nodes t ! i)" "v = n_val (nodes t ! i)" "valid_key N a" "\<not> in_array N t a"
proof -
  obtain i where i: "i < length (nodes t)" "a = n_key (nodes t ! i)" "v = n_val (nodes t ! i)"
    using e by (auto simp: node_entries_def in_set_conv_nth)
  then have "live (nodes t) i" using nodes_okD(8) [OF table_ok_nodes [OF t]] v by simp
  then show thesis using that [of i] i nodes_okD(7) [OF table_ok_nodes [OF t]] t by (simp add: table_ok_def)
qed

lemma contents_preserved:
  assumes N: "number_laws N" and t: "table_ok N t" and k: "is_key k"
    and f: "fresh l t0" "array_part t0 = take i (array_part t) @ replicate (i - sizearray t) Nil"
  shows "overlay N (node_entries t) (overlay N (array_entries N i t) (contents N t0)) k = contents N t k"
proof -
  let ?v = "contents N t k"
  have ns: "nodes_ok N (nodes t)" by (rule table_ok_nodes [OF t])
  have sz: "sizearray t \<le> MAXASIZE" using t by (simp add: table_ok_def)
  have sz0: "sizearray t0 = i" by (simp add: f(2))
  have base: "contents N t0 k = (if in_array N t0 k then array_part t0 ! nat (arrayindex N k - 1) else Nil)"
    by (rule fresh_ok(3) [OF N f(1) k])
  have nodes: "v' = ?v" if "(a, v') \<in> set (node_entries t)" "v' \<noteq> Nil" "luaO_rawequalObj N a k" for a v'
  proof -
    obtain j where j: "live (nodes t) j" "a = n_key (nodes t ! j)" "v' = n_val (nodes t ! j)" "\<not> in_array N t a"
      using node_entriesD [OF t \<open>(a, v') \<in> set (node_entries t)\<close> \<open>v' \<noteq> Nil\<close>] by metis
    have "\<not> in_array N t k" using j(4) not_in_array_holder [OF N that(3)] by simp
    then show ?thesis using contents_stored [OF N ns k _ that(2)] j that by (auto simp: stored_at_def holder_def)
  qed
  have arr: "v' = ?v" if "(a, v') \<in> set (array_entries N i t)" "v' \<noteq> Nil" "luaO_rawequalObj N a k" for a v'
  proof -
    obtain j where j: "j < sizearray t" "v' = array_part t ! j" "arrayindex N a = int j + 1"
      using array_entriesD [OF N sz \<open>(a, v') \<in> set (array_entries N i t)\<close>] by metis
    then have "arrayindex N k = int j + 1" using same_arrayindex [OF N that(3)] by simp
    then show ?thesis using contents_array [OF N ns k] j by (simp add: in_array_def)
  qed
  show ?thesis
  proof (cases "in_array N t k")
    case ia: True
    define j where "j = nat (arrayindex N k - 1)"
    have j: "j < sizearray t" "arrayindex N k = int j + 1" using ia by (auto simp: in_array_def j_def)
    have v: "?v = array_part t ! j" using contents_array [OF N ns k ia] by (simp add: j_def)
    have "overlay N (array_entries N i t) (contents N t0) k = ?v"
    proof (rule overlay_some [OF arr])
      show "(Number (of_int N (int j + 1)), ?v) \<in> set (array_entries N i t) \<and> ?v \<noteq> Nil \<and>
          luaO_rawequalObj N (Number (of_int N (int j + 1))) k \<or> contents N t0 k = ?v"
      proof (cases "j < i")
        case True
        then have "in_array N t0 k" unfolding in_array_def sz0 using j(2) by simp
        then have "contents N t0 k = ?v" using base True j v by (simp add: f(2) nth_append)
        then show ?thesis by simp
      next
        case False
        then have out: "contents N t0 k = Nil" using base j by (simp add: in_array_def sz0)
        have r: "int32_range (int j + 1)" using j(1) sz by (simp add: int32_range_def MAXASIZE_def MAXBITS_def)
        have "luaO_rawequalObj N (Number (of_int N (int j + 1))) k"
          by (rule same_index [OF N]) (simp_all add: luaH_getnum_get(3) [OF N r] j(2))
        then show ?thesis using array_entriesI [of i j t N] False j(1) v out by auto
      qed
    qed auto
    then show ?thesis by (intro overlay_some [OF nodes]) auto
  next
    case out: False
    have "overlay N (array_entries N i t) (contents N t0) k = contents N t0 k"
    proof (rule overlay_none)
      show "\<not> luaO_rawequalObj N a k" if e: "(a, v) \<in> set (array_entries N i t)" for a v
      proof
        assume s: "luaO_rawequalObj N a k"
        obtain j where "j < sizearray t" "arrayindex N a = int j + 1" using array_entriesD [OF N sz e] by metis
        then show False using out same_arrayindex [OF N s] by (simp add: in_array_def)
      qed
    qed
    moreover have "contents N t0 k = Nil"
      using base out by (auto simp: in_array_def sz0 f(2) nth_append)
    moreover have "\<exists>a. (a, ?v) \<in> set (node_entries t) \<and> luaO_rawequalObj N a k" if "?v \<noteq> Nil"
    proof -
      have "stored_at N (nodes t) k ?v" using contents_stored [OF N ns k out that] by simp
      then obtain j where "j < length (nodes t)" "luaO_rawequalObj N (n_key (nodes t ! j)) k" "n_val (nodes t ! j) = ?v"
        by (auto simp: stored_at_def holder_def live_def)
      then show ?thesis by (force simp: node_entries_def image_iff in_set_conv_nth)
    qed
    ultimately have "\<exists>a. (a, ?v) \<in> set (node_entries t) \<and> ?v \<noteq> Nil \<and> luaO_rawequalObj N a k \<or>
        overlay N (array_entries N i t) (contents N t0) k = ?v"
      by (cases "?v = Nil") auto
    then obtain a where a: "(a, ?v) \<in> set (node_entries t) \<and> ?v \<noteq> Nil \<and> luaO_rawequalObj N a k \<or>
        overlay N (array_entries N i t) (contents N t0) k = ?v" by (elim exE)
    show ?thesis by (rule overlay_some [where a = a]) (fact nodes, fact a)
  qed
qed

lemma hash_entries_append: "hash_entries N n (xs @ ys) = hash_entries N n xs + hash_entries N n ys"
  by (simp add: hash_entries_def)

lemma setnodevector_fresh:
  assumes "sizearray t \<le> MAXASIZE"
  shows "setnodevector n t = None \<and> 2 ^ MAXBITS < n \<or>
    (\<exists>t' l. setnodevector n t = Some t' \<and> fresh l t' \<and> array_part t' = array_part t \<and> n \<le> (if is_dummy t' then 0 else 2 ^ l))"
proof (cases "n = 0")
  case True
  then show ?thesis using assms by (auto simp: setnodevector_def fresh_def intro!: exI [of _ 0])
next
  case False
  then have b: "n \<le> 2 ^ ceillog2 n" "1 < n \<longrightarrow> 2 ^ (ceillog2 n - 1) < n" "n = 1 \<longrightarrow> ceillog2 n = 0"
    using ceillog2_bounds [of n] by auto
  show ?thesis
  proof (cases "ceillog2 n > MAXBITS")
    case True
    then have "n \<noteq> 1" using b(3) by auto
    then have "2 ^ (ceillog2 n - 1) < n" using b(2) False by simp
    moreover have "(2::nat) ^ MAXBITS \<le> 2 ^ (ceillog2 n - 1)" using True by (intro power_increasing) simp_all
    ultimately have "2 ^ MAXBITS < n" by linarith
    then show ?thesis using True False by (simp add: setnodevector_def)
  next
    case nf: False
    then show ?thesis using assms False b(1) by (auto simp: setnodevector_def fresh_def Let_def)
  qed
qed

lemma reinsert_array_fits:
  fixes t :: "'n table"
  assumes N: "number_laws N" and sz: "sizearray t \<le> MAXASIZE"
    and room: "fits N (hash_entries N (sizearray t0) (array_entries N i t) + m) t0"
  shows "\<exists>t'. reinsert_array (setnum_with N g) i (drop i (array_part t)) t0 = Ok t' \<and> fits N m t' \<and> sizearray t' = sizearray t0 \<and>
    (\<forall>k. is_key k \<longrightarrow> contents N t' k = overlay N (array_entries N i t) (contents N t0) k)"
proof -
  let ?xs = "zip (map (\<lambda>j. int j + 1) [i..<i + length (drop i (array_part t))]) (drop i (array_part t))"
  have r: "int32_range a" if "(a, v) \<in> set ?xs" for a v
    using that sz by (auto simp: set_zip int32_range_def MAXASIZE_def MAXBITS_def)
  show ?thesis
    unfolding reinsert_array_is array_entries_def
    by (rule reinsert_fits [where g = g, OF N])
      (use r setnum_with_spec [OF N] luaH_getnum_get(2) [OF N] room in \<open>auto simp: array_entries_def\<close>)
qed

lemma reinsert_nodes_fits:
  fixes t :: "'n table"
  assumes N: "number_laws N" and t: "table_ok N t"
    and room: "fits N (hash_entries N (sizearray t0) (node_entries t) + m) t0"
  shows "\<exists>t'. reinsert_nodes (set_with N g) (rev (nodes t)) t0 = Ok t' \<and> fits N m t' \<and> sizearray t' = sizearray t0 \<and>
    (\<forall>k. is_key k \<longrightarrow> contents N t' k = overlay N (node_entries t) (contents N t0) k)"
proof -
  have e: "map (\<lambda>(a, v). (id a, v)) (node_entries t) = node_entries t" by simp
  have v: "valid_key N a" if "(a, v) \<in> set (node_entries t)" "v \<noteq> Nil" for a v
    using node_entriesD [OF t that] by metis
  have "\<exists>t'. reinsert (set_with N g) (node_entries t) t0 = Ok t' \<and> fits N m t' \<and> sizearray t' = sizearray t0 \<and>
    (\<forall>k. is_key k \<longrightarrow> contents N t' k = overlay N (map (\<lambda>(a, v). (id a, v)) (node_entries t)) (contents N t0) k)"
    by (rule reinsert_fits [where g = g, OF N]) (use v set_with_spec [OF N] room in \<open>simp_all add: e\<close>)
  then show ?thesis unfolding e by (simp add: reinsert_nodes_is node_entries_def)
qed

lemma resize_room:
  fixes t :: "'n table"
  assumes N: "number_laws N" and t: "table_ok N t" and na: "nasize \<le> MAXASIZE"
    and room: "hash_entries N nasize (array_entries N nasize t) + hash_entries N nasize (node_entries t) + m \<le> nhsize"
  shows "resize_with (setnum_with N g) (set_with N g) nasize nhsize t = Table_overflow \<and> 2 ^ MAXBITS < nhsize \<or>
    (\<exists>t'. resize_with (setnum_with N g) (set_with N g) nasize nhsize t = Ok t' \<and> fits N m t' \<and> sizearray t' = nasize \<and>
      (\<forall>k. is_key k \<longrightarrow> contents N t' k = contents N t k))"
proof -
  have sz: "sizearray t \<le> MAXASIZE" using t by (simp add: table_ok_def)
  define t1 where "t1 = (if nasize > sizearray t then setarrayvector nasize t else t)"
  have "sizearray t1 \<le> MAXASIZE" using sz na by (simp add: t1_def setarrayvector_def)
  from setnodevector_fresh [OF this, of nhsize] show ?thesis
  proof (elim disjE conjE exE)
    assume "setnodevector nhsize t1 = None" "2 ^ MAXBITS < nhsize"
    then show ?thesis by (simp add: resize_with_def Let_def flip: t1_def)
  next
    fix t2 l
    assume t2: "setnodevector nhsize t1 = Some t2" "fresh l t2" "array_part t2 = array_part t1"
      "nhsize \<le> (if is_dummy t2 then 0 else 2 ^ l)"
    define t3 where "t3 = t2\<lparr>array_part := take nasize (array_part t) @ replicate (nasize - sizearray t) Nil\<rparr>"
    have a3: "array_part t3 = take nasize (array_part t) @ replicate (nasize - sizearray t) Nil" by (simp add: t3_def)
    have s3: "sizearray t3 = nasize" by (simp add: a3)
    have f3: "fresh l t3" using t2(2) s3 na by (simp add: fresh_def) (simp add: t3_def)
    have fit3: "fits N (hash_entries N (sizearray t3) (array_entries N nasize t) +
        (hash_entries N (sizearray t3) (node_entries t) + m)) t3"
    proof (rule fresh_ok(2) [OF N f3])
      have "is_dummy t3 = is_dummy t2" by (simp add: t3_def)
      then show "hash_entries N (sizearray t3) (array_entries N nasize t) +
          (hash_entries N (sizearray t3) (node_entries t) + m) \<le> (if is_dummy t3 then 0 else 2 ^ l)"
        using room t2(4) by (simp add: s3 split: if_splits)
    qed
    obtain t4 where t4: "reinsert_array (setnum_with N g) nasize (drop nasize (array_part t)) t3 = Ok t4"
        "fits N (hash_entries N (sizearray t3) (node_entries t) + m) t4" "sizearray t4 = sizearray t3"
        "\<forall>k. is_key k \<longrightarrow> contents N t4 k = overlay N (array_entries N nasize t) (contents N t3) k"
      using reinsert_array_fits [OF N sz fit3, of g] by blast
    have fit4: "fits N (hash_entries N (sizearray t4) (node_entries t) + m) t4" using t4(2,3) by simp
    obtain t5 where t5: "reinsert_nodes (set_with N g) (rev (nodes t)) t4 = Ok t5"
        "fits N m t5" "sizearray t5 = sizearray t4"
        "\<forall>k. is_key k \<longrightarrow> contents N t5 k = overlay N (node_entries t) (contents N t4) k"
      using reinsert_nodes_fits [OF N t fit4, of g] by blast
    have "contents N t5 k = contents N t k" if k: "is_key k" for k
    proof -
      have "contents N t5 k = overlay N (node_entries t) (contents N t4) k" using t5(4) k by blast
      also have "\<dots> = overlay N (node_entries t) (overlay N (array_entries N nasize t) (contents N t3)) k"
        by (rule overlay_cong [OF _ k]) (use t4(4) in blast)
      also have "\<dots> = contents N t k" by (rule contents_preserved [OF N t k f3 a3])
      finally show ?thesis .
    qed
    moreover have "(if nasize < sizearray t
          then reinsert_array (setnum_with N g) nasize (drop nasize (array_part t2)) (t2\<lparr>array_part := take nasize (array_part t2)\<rparr>)
          else Ok t2) = Ok t4"
    proof (cases "nasize < sizearray t")
      case True
      then show ?thesis using t4(1) by (simp add: t1_def t2(3) t3_def)
    next
      case False
      then have "t2 = t3" using t2(3) by (auto simp: t1_def t3_def setarrayvector_def)
      then show ?thesis using t4(1) False by simp
    qed
    ultimately show ?thesis
      using t2(1) t5 t4(3) s3 by (simp add: resize_with_def Let_def flip: t1_def)
  qed
qed

section \<open>The size of the array part\<close>

lemma ceillog2_le: "1 \<le> k \<Longrightarrow> ceillog2 k \<le> l \<longleftrightarrow> k \<le> 2 ^ l"
proof -
  assume k: "1 \<le> k"
  then have b: "k \<le> 2 ^ ceillog2 k" "1 < k \<Longrightarrow> 2 ^ (ceillog2 k - 1) < k" "k = 1 \<Longrightarrow> ceillog2 k = 0"
    using ceillog2_bounds [of k] by auto
  show ?thesis
  proof
    assume "ceillog2 k \<le> l"
    then have "(2::nat) ^ ceillog2 k \<le> 2 ^ l" by simp
    then show "k \<le> 2 ^ l" using b(1) by linarith
  next
    assume kl: "k \<le> 2 ^ l"
    show "ceillog2 k \<le> l"
    proof (cases "k = 1")
      case False
      then have "2 ^ (ceillog2 k - 1) < (2::nat) ^ l" using b(2) k kl by linarith
      then have "ceillog2 k - 1 < l" by simp
      then show ?thesis by simp
    qed (use b(3) in simp)
  qed
qed

text \<open>\<open>counts K nums\<close>: the counters say how many of the indices \<open>K\<close> are in each slice.\<close>

definition counts :: "nat list \<Rightarrow> nat list \<Rightarrow> bool" where
  "counts K nums \<longleftrightarrow> length nums = MAXBITS + 1 \<and> (\<forall>k \<in> set K. 1 \<le> k \<and> k \<le> MAXASIZE) \<and>
     (\<forall>l \<le> MAXBITS. nums ! l = length (filter (\<lambda>k. ceillog2 k = l) K))"

definition up_to :: "nat list \<Rightarrow> nat \<Rightarrow> nat" where
  "up_to K n = length (filter (\<lambda>k. k \<le> n) K)"

lemma up_to_le: "up_to K n \<le> length K"
  by (simp add: up_to_def)

lemma up_to_step:
  assumes c: "counts K nums" and i: "i \<le> MAXBITS"
  shows "up_to K (2 ^ i) = (if i = 0 then 0 else up_to K (2 ^ (i - 1))) + nums ! i"
proof -
  have "nums ! i = length (filter (\<lambda>k. ceillog2 k = i) K)" using c i by (simp add: counts_def)
  moreover have "length (filter (\<lambda>k. k \<le> 2 ^ i) K) =
      (if i = 0 then 0 else length (filter (\<lambda>k. k \<le> 2 ^ (i - 1)) K)) + length (filter (\<lambda>k. ceillog2 k = i) K)"
    using c[unfolded counts_def, THEN conjunct2, THEN conjunct1]
  proof (induction K)
    case (Cons k K)
    have k: "1 \<le> k" using Cons.prems by simp
    have "k \<le> 2 ^ i \<longleftrightarrow> ceillog2 k \<le> i" "k \<le> 2 ^ (i - 1) \<longleftrightarrow> ceillog2 k \<le> i - 1"
      using ceillog2_le [OF k] by blast+
    moreover have "ceillog2 k \<le> i \<longleftrightarrow> ceillog2 k = i \<or> i \<noteq> 0 \<and> ceillog2 k \<le> i - 1" by auto
    moreover have "i \<noteq> 0 \<Longrightarrow> ceillog2 k = i \<Longrightarrow> \<not> ceillog2 k \<le> i - 1" by auto
    ultimately show ?case using Cons.IH Cons.prems by auto
  qed simp
  ultimately show ?thesis by (simp add: up_to_def)
qed

lemma up_to_all: "counts K nums \<Longrightarrow> MAXBITS \<le> i \<Longrightarrow> up_to K (2 ^ i) = length K"
proof -
  assume c: "counts K nums" and i: "MAXBITS \<le> i"
  have "(2::nat) ^ MAXBITS \<le> 2 ^ i" using i by simp
  then have "filter (\<lambda>k. k \<le> 2 ^ i) K = K" using c unfolding counts_def MAXASIZE_def by (intro filter_True) (metis le_trans)
  then show ?thesis by (simp add: up_to_def)
qed

lemma up_to_zero: "counts K nums \<Longrightarrow> up_to K 0 = 0"
  by (auto simp: up_to_def counts_def filter_empty_conv)

lemma up_to_distinct: "distinct K \<Longrightarrow> counts K nums \<Longrightarrow> up_to K n \<le> n"
proof -
  assume d: "distinct K" and c: "counts K nums"
  have "up_to K n = card (set (filter (\<lambda>k. k \<le> n) K))"
    using d by (simp only: up_to_def distinct_card [OF distinct_filter [OF d]])
  also have "\<dots> \<le> card {1..n}" using c by (intro card_mono) (auto simp: counts_def)
  finally show ?thesis by simp
qed

lemma up_to_mono: "m \<le> n \<Longrightarrow> up_to K m \<le> up_to K n"
  unfolding up_to_def by (induction K) auto

text \<open>
  The loop: what it knows of the sizes below \<open>2 ^ i\<close>; \<open>best\<close> is the property of the size chosen.
\<close>

definition half_used :: "nat list \<Rightarrow> nat \<Rightarrow> bool" where
  "half_used K n \<longleftrightarrow> n < 2 * up_to K n"

definition best :: "nat list \<Rightarrow> nat \<Rightarrow> nat \<Rightarrow> nat \<Rightarrow> bool" where
  "best K i n na \<longleftrightarrow> na = up_to K n \<and> (n = 0 \<or> (\<exists>j \<le> MAXBITS. n = 2 ^ j) \<and> half_used K n) \<and>
     (distinct K \<longrightarrow> (\<forall>j < i. half_used K (2 ^ j) \<longrightarrow> 2 ^ j \<le> n))"

lemma sizes_loop_best:
  assumes c: "counts K nums" and i: "i \<le> MAXBITS" and a: "a = (if i = 0 then 0 else up_to K (2 ^ (i - 1)))"
    and b: "best K i n na"
  shows "\<exists>n' na'. sizes_loop nums (length K) i (2 ^ i) a na n = (n', na') \<and> (\<forall>i. best K i n' na')"
  using i a b
proof (induction "MAXBITS - i" arbitrary: i a n na rule: less_induct)
  case less
  show ?case
  proof (cases "2 ^ i div 2 < length K")
    case False
    have "best K l n na" for l
      unfolding best_def
    proof (intro conjI impI allI)
      show "na = up_to K n" "n = 0 \<or> (\<exists>j \<le> MAXBITS. n = 2 ^ j) \<and> half_used K n" using less.prems(3) by (auto simp: best_def)
      show "2 ^ j \<le> n" if "distinct K" "j < l" "half_used K (2 ^ j)" for j
      proof (cases "j < i")
        case True
        then show ?thesis using less.prems(3) that by (simp add: best_def)
      next
        case ge: False
        then have "(2::nat) ^ i \<le> 2 ^ j" by simp
        then have "2 * length K \<le> 2 ^ j \<or> length K = 0 \<or> i = 0 \<and> length K \<le> 0"
          using False by (cases i) auto
        then show ?thesis using that(3) up_to_le [of K "2 ^ j"] by (auto simp: half_used_def)
      qed
    qed
    then show ?thesis using False by (subst sizes_loop.simps) auto
  next
    case True
    define a' where "a' = up_to K (2 ^ i)"
    have step: "a' = a + nums ! i" using up_to_step [OF c less.prems(1)] less.prems(2) by (simp add: a'_def)
    define up where "up \<longleftrightarrow> 0 < nums ! i \<and> 2 ^ i div 2 < a'"
    define n' na' where "n' = (if up then 2 ^ i else n)" and "na' = (if up then a' else na)"
    have half: "up \<Longrightarrow> half_used K (2 ^ i)" unfolding half_used_def up_def a'_def [symmetric] by (cases i) auto
    have conv: "up" if d: "distinct K" and h: "half_used K (2 ^ i)" for i'
    proof -
      have "nums ! i \<noteq> 0"
      proof
        assume z: "nums ! i = 0"
        show False
        proof (cases i)
          case 0
          then show False using z less.prems(2) step h by (simp add: half_used_def a'_def)
        next
          case (Suc l)
          then have "up_to K (2 ^ i) \<le> 2 ^ l" using z less.prems(2) step up_to_distinct [OF d c, of "2 ^ l"] by (simp add: a'_def)
          then show False using h Suc by (simp add: half_used_def)
        qed
      qed
      then show up using h unfolding up_def half_used_def a'_def [symmetric] by (cases i) auto
    qed
    have b': "best K (i + 1) n' na'"
      unfolding best_def
    proof (intro conjI impI allI)
      show "na' = up_to K n'" using less.prems(3) by (simp add: n'_def na'_def a'_def best_def)
      show "n' = 0 \<or> (\<exists>j \<le> MAXBITS. n' = 2 ^ j) \<and> half_used K n'"
        using less.prems(1,3) half by (auto simp: n'_def best_def)
      show "2 ^ j \<le> n'" if "distinct K" "j < i + 1" "half_used K (2 ^ j)" for j
        using that less.prems(3) conv by (cases "j = i") (auto simp: n'_def best_def less_Suc_eq)
    qed
    have eq: "sizes_loop nums (length K) i (2 ^ i) a na n =
        (if a' = length K then (n', na') else sizes_loop nums (length K) (i + 1) (2 ^ (i + 1)) a' na' n')"
      by (subst sizes_loop.simps) (use True in \<open>auto simp: step up_def n'_def na'_def Let_def mult.commute\<close>)
    show ?thesis
    proof (cases "a' = length K")
      case all: True
      have "best K l n' na'" for l
        unfolding best_def
      proof (intro conjI impI allI)
        show "na' = up_to K n'" "n' = 0 \<or> (\<exists>j \<le> MAXBITS. n' = 2 ^ j) \<and> half_used K n'" using b' by (auto simp: best_def)
        show "2 ^ j \<le> n'" if "distinct K" "j < l" "half_used K (2 ^ j)" for j
        proof (cases "j < i + 1")
          case True
          then show ?thesis using b' that by (simp add: best_def)
        next
          case False
          then have "(2::nat) ^ (i + 1) \<le> 2 ^ j" by (intro power_increasing) auto
          moreover have "length K \<le> 2 ^ i" using all up_to_distinct [OF that(1) c, of "2 ^ i"] by (simp add: a'_def)
          ultimately show ?thesis using that(3) up_to_le [of K "2 ^ j"] by (simp add: half_used_def)
        qed
      qed
      then show ?thesis using eq all by auto
    next
      case more: False
      then have "i \<noteq> MAXBITS" using up_to_all [OF c, of i] by (auto simp: a'_def)
      then have "i + 1 \<le> MAXBITS" "MAXBITS - (i + 1) < MAXBITS - i" using less.prems(1) by auto
      then show ?thesis using less.hyps [of "i + 1" a' n' na'] b' eq more by (simp add: a'_def)
    qed
  qed
qed

lemma computesizes_best: "counts K nums \<Longrightarrow> \<exists>n na. computesizes nums (length K) = (n, na) \<and> (\<forall>i. best K i n na)"
proof -
  assume c: "counts K nums"
  have "best K 0 0 0" using up_to_zero [OF c] by (simp add: best_def)
  then show ?thesis using sizes_loop_best [OF c, of 0 0 0 0] by (simp add: computesizes_def)
qed

text \<open>The indices counted: those of the array part, of the nodes and of a key.\<close>

definition key_index :: "('n, 'z) numbers_scheme \<Rightarrow> 'n tvalue \<Rightarrow> nat list" where
  "key_index N k = (let i = arrayindex N k in if 0 < i \<and> i \<le> int MAXASIZE then [nat i] else [])"

definition array_indices :: "'n tvalue list \<Rightarrow> nat \<Rightarrow> nat list" where
  "array_indices arr n = filter (\<lambda>j. arr ! (j - 1) \<noteq> Nil) [1..<n + 1]"

lemma counts_append:
  assumes c: "counts K nums" and l: "l \<le> MAXBITS" and new: "\<And>k. k \<in> set K' \<Longrightarrow> 1 \<le> k \<and> k \<le> MAXASIZE \<and> ceillog2 k = l"
  shows "counts (K @ K') (nums[l := nums ! l + length K'])"
proof -
  have "filter (\<lambda>k. ceillog2 k = l) K' = K'" using new by (intro filter_True) blast
  moreover have "filter (\<lambda>k. ceillog2 k = l') K' = []" if "l' \<noteq> l" for l' using new that by (auto simp: filter_empty_conv)
  ultimately show ?thesis using c l new by (auto simp: counts_def nth_list_update)
qed

lemma countint_counts:
  assumes c: "counts K nums"
  shows "\<exists>nums'. countint N key nums = (length (key_index N key), nums') \<and> counts (K @ key_index N key) nums'"
proof (cases "0 < arrayindex N key \<and> arrayindex N key \<le> int MAXASIZE")
  case True
  let ?k = "nat (arrayindex N key)"
  have k: "1 \<le> ?k" "?k \<le> MAXASIZE" using True by auto
  then have "ceillog2 ?k \<le> MAXBITS" using ceillog2_le [OF k(1)] by (simp add: MAXASIZE_def)
  then have "counts (K @ [?k]) (nums[ceillog2 ?k := nums ! ceillog2 ?k + length [?k]])"
    using k by (intro counts_append [OF c]) auto
  then show ?thesis using True by (auto simp: countint_def key_index_def Let_def)
next
  case False
  then show ?thesis using c by (auto simp: countint_def key_index_def Let_def)
qed

lemma array_slices_counts:
  assumes "length arr \<le> MAXASIZE" "lg \<le> MAXBITS + 1"
    and "counts (array_indices arr done) nums" "done = min (if lg = 0 then 0 else 2 ^ (lg - 1)) (length arr)"
  shows "\<exists>nums'. array_slices arr lg (done + 1) nums (length (array_indices arr done)) =
      (length (array_indices arr (length arr)), nums') \<and> counts (array_indices arr (length arr)) nums'"
  using assms(2-)
proof (induction "MAXBITS + 1 - lg" arbitrary: lg nums "done" rule: less_induct)
  case less
  show ?case
  proof (cases "lg > MAXBITS")
    case True
    then have "lg = MAXBITS + 1" using less.prems(1) by simp
    then have "done = length arr" using less.prems(3) assms(1) by (simp add: MAXASIZE_def)
    then show ?thesis using less.prems(2) True by (subst array_slices.simps) simp
  next
    case False
    show ?thesis
    proof (cases "2 ^ lg > length arr \<and> done + 1 > length arr")
      case True
      moreover have "done \<le> length arr" using less.prems(3) by linarith
      ultimately have "done = length arr" by linarith
      then show ?thesis using less.prems(2) True False by (subst array_slices.simps) simp
    next
      case go: False
      define lim where "lim = min (2 ^ lg) (length arr)"
      have dl: "done \<le> lim" unfolding lim_def less.prems(3) by (cases lg) (auto simp: min_def)
      let ?K' = "filter (\<lambda>j. arr ! (j - 1) \<noteq> Nil) [done + 1..<lim + 1]"
      have K: "array_indices arr lim = array_indices arr done @ ?K'"
      proof -
        have "[1..<lim + 1] = [1..<done + 1] @ [done + 1..<lim + 1]"
          using upt_add_eq_append [of 1 "done + 1" "lim - done"] dl by simp
        then show ?thesis by (simp only: array_indices_def filter_append)
      qed
      have "1 \<le> k \<and> k \<le> MAXASIZE \<and> ceillog2 k = lg" if "k \<in> set ?K'" for k
      proof -
        have k: "done + 1 \<le> k" "k \<le> lim" using that by auto
        then have kl: "1 \<le> k" "k \<le> 2 ^ lg" "k \<le> length arr" by (auto simp: lim_def)
        then have "ceillog2 k \<le> lg" using ceillog2_le by blast
        moreover have "\<not> ceillog2 k \<le> lg - 1" if "lg \<noteq> 0"
          using that k kl less.prems(3) ceillog2_le [OF kl(1), of "lg - 1"] by simp
        ultimately show ?thesis using kl assms(1) by (cases "lg = 0") auto
      qed
      then have c: "counts (array_indices arr lim) (nums[lg := nums ! lg + length ?K'])"
        unfolding K using False by (intro counts_append [OF less.prems(2)]) auto
      have eq: "array_slices arr lg (done + 1) nums (length (array_indices arr done)) =
          array_slices arr (lg + 1) (lim + 1) (nums[lg := nums ! lg + length ?K']) (length (array_indices arr lim))"
      proof -
        have m: "max (done + 1) (lim + 1) = lim + 1" using dl by simp
        show ?thesis
          by (subst array_slices.simps) (simp only: Let_def lim_def [symmetric] m K length_append if_not_P [OF False] if_not_P [OF go])
      qed
      have "lim = min (if lg + 1 = 0 then 0 else 2 ^ (lg + 1 - 1)) (length arr)" by (simp add: lim_def)
      then show ?thesis unfolding eq using False by (intro less.hyps c) auto
    qed
  qed
qed

lemma counts_empty: "counts [] (replicate (MAXBITS + 1) 0)"
  by (simp add: counts_def less_Suc_eq_le del: replicate.simps)

lemma numusearray_counts:
  assumes "sizearray t \<le> MAXASIZE"
  shows "\<exists>nums. numusearray t (replicate (MAXBITS + 1) 0) = (length (array_indices (array_part t) (sizearray t)), nums) \<and>
    counts (array_indices (array_part t) (sizearray t)) nums"
  using array_slices_counts [OF assms, of 0 0] counts_empty by (simp add: numusearray_def array_indices_def del: replicate.simps)

definition node_indices :: "('n, 'z) numbers_scheme \<Rightarrow> 'n node list \<Rightarrow> nat list" where
  "node_indices N ns = concat (map (\<lambda>n. if n_val n = Nil then [] else key_index N (n_key n)) ns)"

lemma count_nodes_counts:
  assumes "counts K nums"
  shows "\<exists>nums'. count_nodes N ns (u, a, nums) =
      (u + length (filter (\<lambda>n. n_val n \<noteq> Nil) ns), a + length (node_indices N ns), nums') \<and> counts (K @ node_indices N ns) nums'"
  using assms
proof (induction ns arbitrary: K u a nums)
  case (Cons n ns)
  show ?case
  proof (cases "n_val n = Nil")
    case True
    then show ?thesis using Cons.IH [OF Cons.prems, of u a] by (simp add: node_indices_def)
  next
    case False
    obtain nums1 where n1: "countint N (n_key n) nums = (length (key_index N (n_key n)), nums1)"
        "counts (K @ key_index N (n_key n)) nums1"
      using countint_counts [OF Cons.prems, of N "n_key n"] by blast
    show ?thesis
      using Cons.IH [OF n1(2), of "u + 1" "a + length (key_index N (n_key n))"] n1(1) False
      by (auto simp: node_indices_def)
  qed
qed (simp add: node_indices_def)

lemma new_sizes_spec:
  fixes N :: "('n, 'z) numbers_scheme" and ek :: "'n tvalue"
  assumes sz: "sizearray t \<le> MAXASIZE"
  defines "K \<equiv> array_indices (array_part t) (sizearray t) @ node_indices N (rev (nodes t)) @ key_index N ek"
  shows "\<exists>n. new_sizes N ek t =
      (n, length (array_indices (array_part t) (sizearray t)) + length (filter (\<lambda>n. n_val n \<noteq> Nil) (rev (nodes t))) + 1 - up_to K n) \<and>
    (\<forall>i. best K i n (up_to K n))"
proof -
  obtain n0 where n0: "numusearray t (replicate (MAXBITS + 1) 0) = (length (array_indices (array_part t) (sizearray t)), n0)"
      "counts (array_indices (array_part t) (sizearray t)) n0"
    using numusearray_counts [OF sz] by blast
  obtain n1 where n1: "numusehash N t n0 = (length (filter (\<lambda>n. n_val n \<noteq> Nil) (rev (nodes t))), length (node_indices N (rev (nodes t))), n1)"
      "counts (array_indices (array_part t) (sizearray t) @ node_indices N (rev (nodes t))) n1"
    using count_nodes_counts [OF n0(2), of N "rev (nodes t)" 0 0] by (auto simp: numusehash_def)
  obtain n2 where n2: "countint N ek n1 = (length (key_index N ek), n2)" "counts K n2"
    using countint_counts [OF n1(2), of N ek] by (auto simp: K_def)
  obtain n na where n: "computesizes n2 (length K) = (n, na)" "\<forall>i. best K i n na" using computesizes_best [OF n2(2)] by blast
  have "na = up_to K n" using n(2) by (simp add: best_def)
  moreover have "length (array_indices (array_part t) (sizearray t)) + length (node_indices N (rev (nodes t))) + length (key_index N ek) = length K"
    by (simp add: K_def)
  ultimately show ?thesis using n n0(1) n1(1) n2(1) by (simp add: new_sizes_def del: replicate.simps)
qed

section \<open>The new size of the hash part is large enough\<close>

lemma up_to_append: "up_to (K @ K') n = up_to K n + up_to K' n"
  by (simp add: up_to_def)

lemma up_to_key_index: "n \<le> MAXASIZE \<Longrightarrow> up_to (key_index N k) n = (if beyond N n k then 0 else 1)"
  by (auto simp: up_to_def key_index_def beyond_def Let_def)

lemma length_array_indices: "n \<le> length arr \<Longrightarrow> length (array_indices arr n) = length (filter (\<lambda>v. v \<noteq> Nil) (take n arr))"
  by (induction n) (auto simp: array_indices_def take_Suc_conv_app_nth)

lemma up_to_array_indices: "up_to (array_indices arr (length arr)) n = length (filter (\<lambda>v. v \<noteq> Nil) (take n arr))"
proof -
  let ?m = "min n (length arr)"
  have "[1..<length arr + 1] = [1..<?m + 1] @ [?m + 1..<length arr + 1]"
    using upt_add_eq_append [of 1 "?m + 1" "length arr - ?m"] by simp
  then have "array_indices arr (length arr) = array_indices arr ?m @ filter (\<lambda>j. arr ! (j - 1) \<noteq> Nil) [?m + 1..<length arr + 1]"
    by (simp only: array_indices_def filter_append)
  moreover have "filter (\<lambda>k. k \<le> n) (array_indices arr ?m) = array_indices arr ?m"
    by (rule filter_True) (auto simp: array_indices_def)
  moreover have "filter (\<lambda>k. k \<le> n) (filter (\<lambda>j. arr ! (j - 1) \<noteq> Nil) [?m + 1..<length arr + 1]) = []"
    unfolding filter_filter filter_empty_conv by auto
  ultimately have "up_to (array_indices arr (length arr)) n = length (array_indices arr ?m)"
    by (simp only: up_to_def filter_append append_Nil2)
  also have "\<dots> = length (filter (\<lambda>v. v \<noteq> Nil) (take ?m arr))" by (rule length_array_indices) simp
  finally show ?thesis by (simp add: min_def split: if_splits)
qed

lemma array_entries_count: "hash_entries N n (array_entries N n t) \<le> length (filter (\<lambda>v. v \<noteq> Nil) (drop n (array_part t)))"
proof -
  have "hash_entries N n (map (\<lambda>(a, v). (Number (of_int N a), v)) (zip ks vs)) \<le> length (filter (\<lambda>v. v \<noteq> Nil) vs)" for ks vs
  proof (induction vs arbitrary: ks)
    case Nil
    then show ?case by (simp add: hash_entries_def)
  next
    case (Cons v vs)
    show ?case
    proof (cases ks)
      case (Cons k ks)
      then show ?thesis using Cons.IH [of ks] by (simp add: hash_entries_def)
    qed (simp add: hash_entries_def)
  qed
  then show ?thesis by (simp add: array_entries_def)
qed

lemma node_entries_count:
  assumes "n \<le> MAXASIZE"
  shows "hash_entries N n (map (\<lambda>n. (n_key n, n_val n)) ns) + up_to (node_indices N ns) n = length (filter (\<lambda>n. n_val n \<noteq> Nil) ns)"
proof (induction ns)
  case Nil
  then show ?case by (simp add: hash_entries_def node_indices_def up_to_def)
next
  case (Cons m ns)
  have i: "node_indices N (m # ns) = (if n_val m = Nil then [] else key_index N (n_key m)) @ node_indices N ns"
    by (simp add: node_indices_def)
  show ?case using Cons.IH up_to_key_index [OF assms, of N "n_key m"]
    by (simp add: i up_to_append) (simp add: hash_entries_def up_to_def)
qed

lemma new_sizes_room:
  assumes t: "sizearray t \<le> MAXASIZE" and n: "new_sizes N ek t = (nasize, nhsize)"
  shows "nasize \<le> MAXASIZE \<and> hash_entries N nasize (array_entries N nasize t) + hash_entries N nasize (node_entries t) +
    (if beyond N nasize ek then 1 else 0) \<le> nhsize"
proof -
  let ?A = "array_indices (array_part t) (sizearray t)"
  let ?U = "length (filter (\<lambda>n. n_val n \<noteq> Nil) (rev (nodes t)))"
  let ?K = "?A @ node_indices N (rev (nodes t)) @ key_index N ek"
  have s: "nhsize = length ?A + ?U + 1 - up_to ?K nasize" "best ?K 0 nasize (up_to ?K nasize)"
    using new_sizes_spec [OF t, of N ek] n by auto
  have "nasize \<le> MAXASIZE"
  proof (cases "nasize = 0")
    case False
    then obtain j where "j \<le> MAXBITS" "nasize = 2 ^ j" using s(2) by (auto simp: best_def)
    then show ?thesis by (simp add: MAXASIZE_def)
  qed simp
  moreover have "length ?A = up_to ?A nasize + length (filter (\<lambda>v. v \<noteq> Nil) (drop nasize (array_part t)))"
  proof -
    have "length ?A = length (filter (\<lambda>v. v \<noteq> Nil) (take nasize (array_part t) @ drop nasize (array_part t)))"
      by (simp only: append_take_drop_id) (simp add: length_array_indices)
    then show ?thesis by (simp only: filter_append length_append up_to_array_indices)
  qed
  moreover note array_entries_count [of N nasize t] node_entries_count [OF calculation(1), of N "rev (nodes t)"]
    up_to_key_index [OF calculation(1), of N ek]
  ultimately show ?thesis
    unfolding s(1) up_to_append node_entries_def by (simp split: if_splits)
qed

section \<open>The table grows at most once\<close>

lemma put_ok_cong:
  "put_ok N key t' t'' s \<Longrightarrow> (\<And>k. is_key k \<Longrightarrow> contents N t' k = contents N t k) \<Longrightarrow> put_ok N key t t'' s"
  by (simp add: put_ok_def)

lemma grow_spec:
  fixes t :: "'n table"
  assumes N: "number_laws N" and t: "table_ok N t" and key: "valid_key N key"
  shows "grow N (Suc d) key t = Table_overflow \<and> 2 ^ MAXBITS < snd (new_sizes N key t) \<or>
    (\<exists>t' s. grow N (Suc d) key t = Ok (t', s) \<and> put_ok N key t t' s)"
proof -
  have sz: "sizearray t \<le> MAXASIZE" using t by (simp add: table_ok_def)
  obtain na nh where n: "new_sizes N key t = (na, nh)" by (cases "new_sizes N key t")
  note room = new_sizes_room [OF sz n]
  from resize_room [OF N t room [THEN conjunct1] room [THEN conjunct2], of "grow N d"]
  consider (over) "resize_with (setnum_with N (grow N d)) (set_with N (grow N d)) na nh t = Table_overflow" "2 ^ MAXBITS < nh"
    | (room) t1 where "resize_with (setnum_with N (grow N d)) (set_with N (grow N d)) na nh t = Ok t1"
      "fits N (if beyond N na key then 1 else 0) t1" "sizearray t1 = na"
      "\<forall>k. is_key k \<longrightarrow> contents N t1 k = contents N t k" by blast
  then show ?thesis
  proof cases
    case over
    then show ?thesis by (simp add: n)
  next
    case (room t1)
    have "\<not> (\<not> in_array N t1 key \<and> (\<forall>m. \<not> fits N (m + 1) t1))"
      using room(2,3) by (auto simp: beyond_def in_array_def dest: spec [of _ 0])
    then obtain t' s where "set_with N (grow N d) key t1 = Ok (t', s)" "put_ok N key t1 t' s"
      using set_with_spec [OF N fits_table [OF room(2)] key, of "grow N d"] by (auto simp: put_spec_def)
    moreover have "put_ok N key t t' s" using put_ok_cong [OF calculation(2)] room(4) by blast
    ultimately show ?thesis using room(1) by (simp add: n)
  qed
qed

lemma insertion_ends:
  assumes N: "number_laws N" and t: "table_ok N t" and key: "valid_key N key" and p: "put_spec N (grow N (Suc d)) key t r"
  shows "r = Table_overflow \<and> 2 ^ MAXBITS < snd (new_sizes N key t) \<or> (\<exists>t' s. r = Ok (t', s) \<and> put_ok N key t t' s)"
proof -
  have "new_sizes N key (t\<lparr>tm_flags := f\<rparr>) = new_sizes N key t" for f
    by (simp add: new_sizes_def numusearray_def numusehash_def)
  then have "r = Table_overflow \<and> 2 ^ MAXBITS < snd (new_sizes N key t) \<or> (\<exists>t' s. r = Ok (t', s) \<and> put_ok N key t t' s)" if "r = grow N (Suc d) key (t\<lparr>tm_flags := f\<rparr>)" for f
    using grow_spec [OF N _ key, of "t\<lparr>tm_flags := f\<rparr>" d] t that by (auto simp: flags_irrelevant)
  then show ?thesis using p unfolding put_spec_def by blast
qed

end
