(* ===== verification/LuaTableSpec.thy ===== *)
theory LuaTableSpec
  imports LuaTableRehash
begin

text \<open>
  What the tables of \<^verbatim>\<open>ltable.c\<close> promise: a map under insertion and resizing, a boundary as length, and
  a traversal that is complete.
\<close>

section \<open>What the operations promise\<close>

text \<open>A number type for the examples: all its numbers are whole.\<close>

definition whole :: "int numbers" where
  "whole = \<lparr>num_eq = (=), to_int = to_int32, of_int = (\<lambda>k. k), num_words = (\<lambda>x. [word_of_int (x + 1)])\<rparr>"

lemma whole_laws: "number_laws whole"
  by (simp add: number_laws_def whole_def to_int32_id to_int32_range)

lemma luaH_new_empty:
  fixes N :: "('n, 'z) numbers_scheme"
  assumes N: "number_laws N" and a: "narray \<le> MAXASIZE"
  shows "(luaH_new narray nhash :: 'n table option) = None \<and> 2 ^ MAXBITS < nhash \<or>
    (\<exists>t. luaH_new narray nhash = Some t \<and> table_ok N t \<and> sizearray t = narray \<and> (\<forall>k. is_key k \<longrightarrow> contents N t k = Nil))"
proof -
  define t0 :: "'n table" where "t0 = setarrayvector narray
    \<lparr>array_part = [], nodes = [free_node], is_dummy = True, lastfree = 0, tm_flags = 255\<rparr>"
  have a0: "array_part t0 = replicate narray Nil" by (simp add: t0_def setarrayvector_def)
  then have "sizearray t0 \<le> MAXASIZE" using a by simp
  from setnodevector_fresh [OF this, of nhash] show ?thesis
  proof (elim disjE conjE exE)
    fix t l
    assume t: "setnodevector nhash t0 = Some t" "fresh l t" "array_part t = array_part t0"
    have "contents N t k = Nil" if k: "is_key k" for k
      using fresh_ok(3) [OF N t(2) k] t(3) a0 by (auto simp: in_array_def)
    then show ?thesis using t fresh_ok(1) [OF N t(2)] a0 unfolding luaH_new_def t0_def [symmetric] by auto
  next
    assume "setnodevector nhash t0 = None" "2 ^ MAXBITS < nhash"
    then show ?thesis unfolding luaH_new_def t0_def [symmetric] by simp
  qed
qed

text \<open>
  C37: a table is a map from keys to values.  For every table that satisfies the invariant, which new tables do
  (\<open>luaH_new_empty\<close>) and the operation keeps, and every key but nil and the number that differs from itself: \<^verbatim>\<open>luaH_set\<close> gives
  a slot such that, once any value has been written through it, \<^verbatim>\<open>luaH_get\<close> finds this value for the key and every key equal to it,
  and the old values for all other keys.  The insertion returns: it rehashes at most once, so that one level of recursion is
  always enough; the only error left is a hash part of more than \<open>2 ^ 26\<close> keys.  Of the floating point numbers it is relied
  on that equality is symmetric and transitive, that equal numbers have the same words to hash, and that the integers of the
  machine are converted without loss.
\<close>

theorem table_set_refines:
  fixes t :: "'n table"
  assumes "number_laws N" and "table_ok N t" and "valid_key N key"
  shows "luaH_set N (Suc d) key t = Table_overflow \<and> 2 ^ MAXBITS < snd (new_sizes N key t) \<or>
    (\<exists>t' s. luaH_set N (Suc d) key t = Ok (t', s) \<and>
      (\<forall>v. table_ok N (set_slot s v t') \<and>
        (\<forall>k. is_key k \<longrightarrow> contents N (set_slot s v t') k = (if luaO_rawequalObj N key k then v else contents N t k))))"
proof -
  have "put_spec N (grow N (Suc d)) key t (luaH_set N (Suc d) key t)"
    unfolding luaH_set_def by (rule set_with_spec [OF assms])
  from insertion_ends [OF assms this] show ?thesis
    using set_slot_spec [OF assms(1) valid_is_key [OF assms(3)]] by blast
qed

text \<open>Growing the array part, as the constructor of a long list does, leaves the map as it is.\<close>

text \<open>
  When the array part of a table is made larger, every key keeps its value, whether it stays where it was or moves
  from the hash part to the array; there is no error and no second rehash.
\<close>

theorem table_resize_keeps:
  fixes t :: "'n table"
  assumes "number_laws N" and "table_ok N t" and "sizearray t \<le> nasize" and "nasize \<le> MAXASIZE"
  shows "\<exists>t'. luaH_resizearray N d nasize t = Ok t' \<and> table_ok N t' \<and> sizearray t' = nasize \<and>
    (\<forall>k. is_key k \<longrightarrow> contents N t' k = contents N t k)"
proof -
  let ?nh = "if is_dummy t then 0 else sizenode t"
  have "array_entries N nasize t = []" using assms(3) by (simp add: array_entries_def)
  then have a: "hash_entries N nasize (array_entries N nasize t) = 0" by (simp add: hash_entries_def)
  have "hash_entries N nasize (node_entries t) \<le> length (filter (\<lambda>n. n_val n \<noteq> Nil) (rev (nodes t)))"
    using node_entries_count [OF assms(4), of N "rev (nodes t)"] by (simp add: node_entries_def)
  also have "\<dots> \<le> ?nh"
  proof (cases "is_dummy t")
    case True
    then have "nodes t = [free_node]" using assms(2) by (simp add: table_ok_def)
    then show ?thesis using True by (simp add: free_node_def)
  next
    case False
    then show ?thesis using length_filter_le [of "\<lambda>n. n_val n \<noteq> Nil" "rev (nodes t)"] by simp
  qed
  finally have room: "hash_entries N nasize (array_entries N nasize t) + hash_entries N nasize (node_entries t) + 0 \<le> ?nh"
    using a by simp
  have "\<not> 2 ^ MAXBITS < ?nh"
  proof -
    obtain k where "k \<le> MAXBITS" "sizenode t = 2 ^ k" using table_ok_nodes [OF assms(2)] by (auto simp: nodes_ok_def)
    then show ?thesis by simp
  qed
  with resize_room [OF assms(1,2,4) room, of "grow N d"] show ?thesis
    unfolding luaH_resizearray_def luaH_setnum_def luaH_set_def using fits_table by blast
qed

text \<open>A table for the examples: an array part of three elements with a hole and no hash part.\<close>

definition three :: "int table" where
  "three = \<lparr>array_part = [Boolean True, Boolean False, Nil], nodes = [free_node], is_dummy = True, lastfree = 0, tm_flags = 0\<rparr>"

lemma three_fresh: "fresh 0 three"
  by (simp add: fresh_def three_def MAXASIZE_def MAXBITS_def)

lemma three_ok: "table_ok whole three"
  by (rule fresh_ok(1) [OF whole_laws three_fresh])

lemma three_sizes: "snd (new_sizes whole (String ''key'') three) = 1"
  by code_simp

lemma table_set_refines_witness:
  "\<exists>t' s. luaH_set whole 1 (String ''key'') three = Ok (t', s) \<and>
     contents whole (set_slot s (Number 5) t') (String ''key'') = Number 5 \<and>
     contents whole (set_slot s (Number 5) t') (Number 1) = Boolean True"
proof -
  have "contents whole three (Number 1) = Boolean True"
    by (simp add: contents_def luaH_get_def luaH_getnum_def value_of_def value_at_def three_def whole_def to_int32_def)
  then show ?thesis
    using table_set_refines [OF whole_laws three_ok, of "String ''key''" 0]
    by (auto simp: valid_key_def is_key_def luaO_rawequalObj_def three_sizes MAXBITS_def)
qed

lemma table_resize_keeps_witness:
  "\<exists>t'. luaH_resizearray whole 1 5 three = Ok t' \<and> table_ok whole t' \<and> sizearray t' = 5 \<and>
    (\<forall>k. is_key k \<longrightarrow> contents whole t' k = contents whole three k)"
  by (rule table_resize_keeps [OF whole_laws three_ok]) (simp_all add: three_def MAXASIZE_def MAXBITS_def)

section \<open>The length of a table\<close>

definition present :: "('n, 'z) numbers_scheme \<Rightarrow> 'n table \<Rightarrow> nat \<Rightarrow> bool" where
  "present N t n \<longleftrightarrow> value_of t (luaH_getnum N t (int n)) \<noteq> Nil"

lemma binary_search_boundary:
  "i < j \<Longrightarrow> (i = 0 \<or> \<not> absent i) \<Longrightarrow> absent j \<Longrightarrow>
   binary_search absent i j < j \<and> i \<le> binary_search absent i j \<and>
   (binary_search absent i j = 0 \<or> \<not> absent (binary_search absent i j)) \<and> absent (binary_search absent i j + 1)"
proof (induction absent i j rule: binary_search.induct)
  case (1 absent i j)
  show ?case
  proof (cases "j - i > 1")
    case True
    define m where "m = (i + j) div 2"
    have m: "i < m" "m < j" using True by (auto simp: m_def)
    have eq: "binary_search absent i j = (if absent m then binary_search absent i m else binary_search absent m j)"
      using True by (subst binary_search.simps) (simp add: Let_def m_def)
    show ?thesis
    proof (cases "absent m")
      case a: True
      then show ?thesis using "1.IH"(1) [OF True m_def a m(1) "1.prems"(2)] m eq by auto
    next
      case p: False
      then show ?thesis using "1.IH"(2) [OF True m_def p m(2)] "1.prems"(3) m eq by auto
    qed
  next
    case False
    then have "j = i + 1" "binary_search absent i j = i" using "1.prems"(1) by (auto simp: binary_search.simps)
    then show ?thesis using "1.prems" by auto
  qed
qed

lemma linear_search_boundary:
  assumes "absent k" "i \<le> k" "1 \<le> i" "i = 1 \<or> \<not> absent (i - 1)"
  shows "\<exists>n. linear_search absent i = Some n \<and> n < k \<and> (n = 0 \<or> \<not> absent n) \<and> absent (n + 1)"
  using assms
proof (induction "k - i" arbitrary: i)
  case 0
  then have "absent i" by simp
  then show ?case using 0 by (subst linear_search.simps) auto
next
  case (Suc d)
  show ?case
  proof (cases "absent i")
    case True
    then show ?thesis using Suc.prems by (subst linear_search.simps) auto
  next
    case False
    then have "i \<noteq> k" using Suc.prems by auto
    then show ?thesis using Suc.hyps(1) [of "i + 1"] Suc.hyps(2) Suc.prems False by (subst linear_search.simps) simp
  qed
qed

lemma unbound_loop_boundary:
  assumes "\<exists>k \<ge> 1. absent k \<and> k \<le> 2 ^ 30" "i < j" "i = 0 \<or> \<not> absent i" "j \<le> 2 ^ 31 - 3"
  shows "\<exists>n. unbound_loop absent i j = Some n \<and> n < 2 ^ 31 - 3 \<and> (n = 0 \<or> \<not> absent n) \<and> absent (n + 1)"
  using assms
proof (induction absent i j rule: unbound_loop.induct)
  case (1 absent i j)
  show ?case
  proof (cases "absent j")
    case True
    then show ?thesis
      using binary_search_boundary [OF "1.prems"(2,3) True] "1.prems"(4) by (subst unbound_loop.simps) auto
  next
    case present: False
    show ?thesis
    proof (cases "j * 2 > 2 ^ 31 - 3 \<or> j = 0")
      case True
      obtain k where k: "1 \<le> k" "absent k" "k \<le> 2 ^ 30" using "1.prems"(1) by blast
      obtain n where "linear_search absent 1 = Some n" "n < k" "n = 0 \<or> \<not> absent n" "absent (n + 1)"
        using linear_search_boundary [of absent k 1] k by auto
      then show ?thesis using True present k(3) by (subst unbound_loop.simps) simp
    next
      case False
      then have "unbound_loop absent i j = unbound_loop absent j (j * 2)"
        using present by (subst unbound_loop.simps) simp
      then show ?thesis using "1.IH" [OF present False] "1.prems" False present by simp
    qed
  qed
qed

text \<open>A table has room for fewer keys than there are indices, so one is absent.\<close>

lemma some_absent:
  assumes N: "number_laws N" and t: "table_ok N t"
  shows "\<exists>k \<ge> 1. \<not> present N t k \<and> k \<le> 2 ^ 30"
proof (rule ccontr)
  assume "\<not> ?thesis"
  then have p: "present N t k" if "k \<in> {1..2 ^ 30}" for k using that by auto
  define f where "f k = the (the (luaH_getnum N t (int k)))" for k
  let ?S = "In_array ` {..<sizearray t} \<union> In_node ` {..<sizenode t}"
  have ns: "nodes_ok N (nodes t)" by (rule table_ok_nodes [OF t])
  have key: "int32_range (int k)" if "k \<in> {1..2 ^ 30}" for k using that by (simp add: int32_range_def)
  have fk: "f k \<in> ?S \<and> (case f k of In_array i \<Rightarrow> int k = int i + 1 | In_node i \<Rightarrow> holder N (nodes t) (Number (of_int N (int k))) i)"
    if k: "k \<in> {1..2 ^ 30}" for k
    using N ns valid_is_key [OF luaH_getnum_get(2) [OF N key [OF k]]]
  proof (cases rule: luaH_get_cases)
    case arr
    then show ?thesis
      using luaH_getnum_get [OF N key [OF k]] by (auto simp: f_def in_array_def)
  next
    case (node i)
    then show ?thesis using luaH_getnum_get(1) [OF N key [OF k]] by (auto simp: f_def holder_def live_def)
  next
    case none
    then show ?thesis using luaH_getnum_get(1) [OF N key [OF k]] p [OF k] by (simp add: present_def value_of_def)
  qed
  have inj: "inj_on f {1..2 ^ 30}"
  proof (rule inj_onI)
    fix k l assume kl: "k \<in> {1..2 ^ 30}" "l \<in> {1..2 ^ 30}" "f k = f l"
    show "k = l"
    proof (cases "f k")
      case (In_array i)
      then show ?thesis using fk [OF kl(1)] fk [OF kl(2)] kl(3) by simp
    next
      case (In_node i)
      then have "luaO_rawequalObj N (Number (of_int N (int k))) (Number (of_int N (int l)))"
        using fk [OF kl(1)] fk [OF kl(2)] kl(3) unfolding holder_def
        by (simp add: same_sym [OF N]) (metis same_sym [OF N] same_trans [OF N])
      from same_arrayindex [OF N this] show ?thesis
        using luaH_getnum_get(3) [OF N key [OF kl(1)]] luaH_getnum_get(3) [OF N key [OF kl(2)]] by simp
    qed
  qed
  have "f ` {1..2 ^ 30} \<subseteq> ?S" using fk by blast
  then have "card {1..(2::nat) ^ 30} \<le> card ?S" by (rule card_inj_on_le [OF inj]) simp
  also have "\<dots> \<le> sizearray t + sizenode t"
    by (rule order_trans [OF card_Un_le]) (intro add_mono order_trans [OF card_image_le], simp_all)
  also have "\<dots> \<le> 2 ^ MAXBITS + 2 ^ MAXBITS"
  proof (rule add_mono)
    show "sizearray t \<le> 2 ^ MAXBITS" using t by (simp add: table_ok_def MAXASIZE_def)
    obtain k where "k \<le> MAXBITS" "sizenode t = 2 ^ k" using ns by (auto simp: nodes_ok_def)
    then show "sizenode t \<le> 2 ^ MAXBITS" by simp
  qed
  finally show False by (simp add: MAXBITS_def)
qed

text \<open>
  C38: the length operator finds a boundary: for every table that satisfies the invariant \<^verbatim>\<open>luaH_getn\<close> returns a number \<open>n\<close>
  that is 0 or an index with a value (one for which \<^verbatim>\<open>luaH_getnum\<close> finds something other than nil), such that the index behind it has
  none.  It always returns, also for a table whose keys are made to defeat the doubling, where it searches linearly.  Of the
  numbers the same is relied on as for the insertion.
\<close>

theorem table_length_boundary:
  assumes "number_laws N" and "table_ok N t"
  shows "\<exists>n. luaH_getn N t = Some n \<and> (n = 0 \<or> present N t n) \<and> \<not> present N t (n + 1)"
proof -
  have sz: "sizearray t \<le> 2 ^ 26" using assms(2) by (simp add: table_ok_def MAXASIZE_def MAXBITS_def)
  have arr: "present N t k \<longleftrightarrow> array_part t ! (k - 1) \<noteq> Nil" if "1 \<le> k" "k \<le> sizearray t" for k
    using that by (simp add: present_def luaH_getnum_def value_of_def value_at_def nat_diff_distrib')
  show ?thesis
  proof (cases "sizearray t > 0 \<and> array_part t ! (sizearray t - 1) = Nil")
    case True
    let ?n = "binary_search (\<lambda>m. array_part t ! (m - 1) = Nil) 0 (sizearray t)"
    have b: "?n < sizearray t \<and> 0 \<le> ?n \<and> (?n = 0 \<or> \<not> array_part t ! (?n - 1) = Nil) \<and> array_part t ! (?n + 1 - 1) = Nil"
      by (rule binary_search_boundary) (use True in auto)
    then show ?thesis
      using True arr [of ?n] arr [of "?n + 1"] by (intro exI [of _ ?n]) (auto simp: luaH_getn_def Let_def Suc_le_eq)
  next
    case full: False
    then have here: "sizearray t = 0 \<or> present N t (sizearray t)" using arr [of "sizearray t"] by (cases "sizearray t = 0") auto
    show ?thesis
    proof (cases "is_dummy t")
      case True
      then have "\<not> live (nodes t) i" for i using assms(2) by (auto simp: table_ok_def live_def is_key_def free_node_def)
      moreover have r: "int32_range (int (sizearray t + 1))" using sz by (simp add: int32_range_def)
      moreover have "\<not> in_array N t (Number (of_int N (int (sizearray t + 1))))"
        using luaH_getnum_get(3) [OF assms(1) r] by (simp add: in_array_def)
      ultimately have "\<not> present N t (sizearray t + 1)"
        using luaH_get_cases [OF assms(1) table_ok_nodes [OF assms(2)] valid_is_key [OF luaH_getnum_get(2) [OF assms(1) r]]]
        unfolding present_def luaH_getnum_get(1) [OF assms(1) r] by (metis holder_def option.case value_of_def)
      then show ?thesis using True full here by (auto simp: luaH_getn_def Let_def)
    next
      case False
      have "\<exists>n. unbound_loop (\<lambda>k. \<not> present N t k) (sizearray t) (sizearray t + 1) = Some n \<and> n < 2 ^ 31 - 3 \<and>
          (n = 0 \<or> \<not> \<not> present N t n) \<and> \<not> present N t (n + 1)"
        by (rule unbound_loop_boundary) (use some_absent [OF assms] here sz in auto)
      then show ?thesis using False full by (auto simp: luaH_getn_def unbound_search_def present_def Let_def)
    qed
  qed
qed

lemma table_length_boundary_witness:
  "\<exists>n. luaH_getn whole three = Some n \<and> (n = 0 \<or> present whole three n) \<and> \<not> present whole three (n + 1)"
  by (rule table_length_boundary [OF whole_laws three_ok])

section \<open>Traversal\<close>













lemma map_filter_split: "xs = ys @ x # zs \<Longrightarrow> P x \<Longrightarrow> map f (filter P xs) = map f (filter P ys) @ f x # map f (filter P zs)"
  by simp








end
